(* ===== verification/Prelude.thy ===== *)
theory Prelude
  imports Complex_Main "HOL-Library.Option_ord" "HOL-Library.Product_Lexorder"
begin

text \<open>
  Shared ground of the development: the Python string and integer operations the coordinator
  leans on (decimal rendering, \<open>int(text)\<close>, \<open>str.split\<close>, \<open>str.strip\<close>), the table operations
  of SQLite that its statements use, sets of block heights as unions of inclusive intervals, and
  the two loop shapes that recur (a bounded upward scan, an interval merge). Strings are lists of
  \<open>char\<close>, that is the code points 0 to 255.
\<close>

named_theorems table_laws "what a lookup sees after a write to a table"
named_theorems cover_laws "how an operation changes the set of covered heights"

type_synonym height = int
type_synonym time = rat
type_synonym pubkey = string
type_synonym range_id = string

section \<open>Decimal text\<close>

definition digit_char :: "nat \<Rightarrow> char" where
  "digit_char d = char_of (48 + d)"

definition digit_val :: "char \<Rightarrow> nat option" where
  "digit_val c = (let k = (of_char c :: nat) in if 48 \<le> k \<and> k \<le> 57 then Some (k - 48) else None)"

text \<open>\<open>str(n)\<close> for a natural number, then for an integer.\<close>

fun nat_str :: "nat \<Rightarrow> string" where
  "nat_str n = (if n < 10 then [digit_char n] else nat_str (n div 10) @ [digit_char (n mod 10)])"

declare nat_str.simps [simp del]

definition int_str :: "int \<Rightarrow> string" where
  "int_str i = (if i < 0 then CHR ''-'' # nat_str (nat (- i)) else nat_str (nat i))"

definition is_space :: "char \<Rightarrow> bool" where
  "is_space c = (let k = (of_char c :: nat) in (9 \<le> k \<and> k \<le> 13) \<or> (28 \<le> k \<and> k \<le> 32) \<or> k = 133 \<or> k = 160)"

definition py_strip :: "string \<Rightarrow> string" where
  "py_strip s = rev (dropWhile is_space (rev (dropWhile is_space s)))"

text \<open>
  The digits of \<open>int(text)\<close>: decimal digits, with single underscores allowed between two digits.
  The flag says whether the previous character was a digit.
\<close>

fun py_digits :: "nat \<Rightarrow> bool \<Rightarrow> string \<Rightarrow> nat option" where
  "py_digits a ok [] = (if ok then Some a else None)"
| "py_digits a ok (c # cs) =
     (if c = CHR ''_'' then (if ok then py_digits a False cs else None)
      else case digit_val c of None \<Rightarrow> None | Some d \<Rightarrow> py_digits (10 * a + d) True cs)"

definition py_int :: "string \<Rightarrow> int option" where
  "py_int s = (case py_strip s of
      [] \<Rightarrow> None
    | c # cs \<Rightarrow>
        if c = CHR ''+'' then map_option int (py_digits 0 False cs)
        else if c = CHR ''-'' then map_option (\<lambda>n. - int n) (py_digits 0 False cs)
        else map_option int (py_digits 0 False (c # cs)))"

text \<open>\<open>text.split(d)\<close> with a one-character separator.\<close>

fun py_split :: "char \<Rightarrow> string \<Rightarrow> string list" where
  "py_split d [] = [[]]"
| "py_split d (c # cs) =
     (if c = d then [] # py_split d cs
      else case py_split d cs of [] \<Rightarrow> [[c]] | w # ws \<Rightarrow> (c # w) # ws)"

definition all_digits :: "string \<Rightarrow> bool" where
  "all_digits s \<longleftrightarrow> (\<forall>c \<in> set s. digit_val c \<noteq> None)"

lemma digit_val_digit_char [simp]: "d < 10 \<Longrightarrow> digit_val (digit_char d) = Some d"
  by (simp add: digit_val_def digit_char_def Let_def)

lemma digit_val_specials [simp]:
  "digit_val CHR ''-'' = None" "digit_val CHR ''+'' = None" "digit_val CHR ''_'' = None"
  by (simp_all add: digit_val_def)

lemma digit_not_space: "digit_val c \<noteq> None \<Longrightarrow> \<not> is_space c"
  by (auto simp: digit_val_def is_space_def Let_def split: if_splits)

lemma all_digits_simps [simp]:
  "all_digits []" "all_digits (c # s) \<longleftrightarrow> digit_val c \<noteq> None \<and> all_digits s"
  "all_digits (s @ t) \<longleftrightarrow> all_digits s \<and> all_digits t"
  by (auto simp: all_digits_def)

lemma nat_str_digits [simp]: "all_digits (nat_str n)"
  by (induction n rule: nat_str.induct) (subst nat_str.simps, auto)

lemma nat_str_nonempty [simp]: "nat_str n \<noteq> []"
  by (subst nat_str.simps) simp

lemma all_digits_no_char: "all_digits s \<Longrightarrow> digit_val c = None \<Longrightarrow> c \<notin> set s"
  by (auto simp: all_digits_def)

lemma py_digits_append:
  "all_digits s \<Longrightarrow> s \<noteq> [] \<Longrightarrow> py_digits a ok s = Some b \<Longrightarrow> py_digits a ok (s @ t) = py_digits b True t"
proof (induction a ok s rule: py_digits.induct)
  case (1 a ok)
  then show ?case by simp
next
  case (2 a ok c cs)
  then have c: "c \<noteq> CHR ''_''" by auto
  from 2 obtain d where d: "digit_val c = Some d" by auto
  show ?case
  proof (cases "cs = []")
    case True
    with 2 c d show ?thesis by simp
  next
    case False
    with 2 c d show ?thesis by simp
  qed
qed

lemma py_digits_nat_str: "py_digits 0 ok (nat_str n) = Some n"
proof (induction n rule: nat_str.induct)
  case (1 n)
  have ne: "digit_char k \<noteq> CHR ''_''" if "k < 10" for k
    using digit_val_digit_char [OF that] by auto
  show ?case
  proof (cases "n < 10")
    case True
    then show ?thesis by (subst nat_str.simps) (simp add: ne)
  next
    case False
    with "1.IH" have "py_digits 0 ok (nat_str (n div 10)) = Some (n div 10)" by simp
    from py_digits_append [OF nat_str_digits nat_str_nonempty this, of "[digit_char (n mod 10)]"]
    have "py_digits 0 ok (nat_str (n div 10) @ [digit_char (n mod 10)]) = Some n"
      by (simp add: ne)
    with False show ?thesis by (subst nat_str.simps) simp
  qed
qed

lemma dropWhile_digits: "all_digits s \<Longrightarrow> dropWhile is_space s = s"
  by (cases s) (auto simp: digit_not_space)

lemma py_strip_digits: "all_digits s \<Longrightarrow> py_strip s = s"
  using dropWhile_digits [of s] dropWhile_digits [of "rev s"]
  by (simp add: py_strip_def all_digits_def)

lemma py_int_nat_str [simp]: "py_int (nat_str n) = Some (int n)"
proof -
  obtain c cs where s: "nat_str n = c # cs" by (cases "nat_str n") auto
  have "digit_val c \<noteq> None" using nat_str_digits [of n] s by simp
  then have "c \<noteq> CHR ''+''" "c \<noteq> CHR ''-''" by auto
  with s py_digits_nat_str [of False n] py_strip_digits [OF nat_str_digits, of n] show ?thesis
    by (simp add: py_int_def)
qed

lemma nat_str_inj: "nat_str m = nat_str n \<longleftrightarrow> m = n"
  by (metis py_int_nat_str of_nat_eq_iff option.inject)

lemma int_str_nonneg: "0 \<le> i \<Longrightarrow> int_str i = nat_str (nat i)"
  by (simp add: int_str_def)

lemma py_split_none: "d \<notin> set s \<Longrightarrow> py_split d s = [s]"
  by (induction s) auto

lemma py_split_one: "d \<notin> set s \<Longrightarrow> py_split d (s @ d # t) = s # py_split d t"
  by (induction s) auto


text \<open>\<open>int(x)\<close> of a float truncates toward zero.\<close>

definition py_trunc :: "rat \<Rightarrow> int" where
  "py_trunc x = (if x < 0 then - \<lfloor>- x\<rfloor> else \<lfloor>x\<rfloor>)"

text \<open>\<open>round(x, n)\<close>: the nearest multiple, a tie going to the even one.\<close>

definition py_round :: "nat \<Rightarrow> rat \<Rightarrow> rat" where
  "py_round n x = (let y = x * 10 ^ n; f = \<lfloor>y\<rfloor>; d = y - of_int f in
     of_int (if d < 1 / 2 \<or> d = 1 / 2 \<and> even f then f else f + 1) / 10 ^ n)"

section \<open>Text\<close>

definition lower_char :: "char \<Rightarrow> char" where
  "lower_char c = (let k = (of_char c :: nat) in
     if (65 \<le> k \<and> k \<le> 90) \<or> (192 \<le> k \<and> k \<le> 222 \<and> k \<noteq> 215) then char_of (k + 32) else c)"

definition lower :: "string \<Rightarrow> string" where
  "lower s = map lower_char s"

definition prefixed :: "string \<Rightarrow> string \<Rightarrow> bool" where
  "prefixed p s \<longleftrightarrow> take (length p) s = p"

definition suffixed :: "string \<Rightarrow> string \<Rightarrow> bool" where
  "suffixed p s \<longleftrightarrow> length p \<le> length s \<and> drop (length s - length p) s = p"

fun infix_of :: "string \<Rightarrow> string \<Rightarrow> bool" where
  "infix_of p [] = (p = [])"
| "infix_of p (c # s) = (prefixed p (c # s) \<or> infix_of p s)"

definition or_empty :: "string option \<Rightarrow> string" where
  "or_empty s = (case s of None \<Rightarrow> [] | Some x \<Rightarrow> x)"

lemma prefixed_append [simp]: "prefixed p (p @ s)"
  by (simp add: prefixed_def)

text \<open>\<open>str.splitlines\<close> and \<open>str.split()\<close>.\<close>

definition is_break :: "char \<Rightarrow> bool" where
  "is_break c = (let k = (of_char c :: nat) in (10 \<le> k \<and> k \<le> 13) \<or> (28 \<le> k \<and> k \<le> 30) \<or> k = 133)"

fun lines_from :: "string \<Rightarrow> string \<Rightarrow> string list" where
  "lines_from acc [] = (if acc = [] then [] else [rev acc])"
| "lines_from acc (c # s) =
     (if is_break c
      then (if c = CHR 0x0D then (case s of d # t \<Rightarrow> if d = CHR 0x0A then rev acc # lines_from [] t
                                              else rev acc # lines_from [] s
                                   | [] \<Rightarrow> [rev acc])
            else rev acc # lines_from [] s)
      else lines_from (c # acc) s)"

definition py_splitlines :: "string \<Rightarrow> string list" where
  "py_splitlines s = lines_from [] s"

fun words_from :: "string \<Rightarrow> string \<Rightarrow> string list" where
  "words_from acc [] = (if acc = [] then [] else [rev acc])"
| "words_from acc (c # s) =
     (if is_space c then (if acc = [] then words_from [] s else rev acc # words_from [] s)
      else words_from (c # acc) s)"

definition py_words :: "string \<Rightarrow> string list" where
  "py_words s = words_from [] s"

section \<open>JSON\<close>

text \<open>What \<open>json.loads\<close> returns; a float is the rational it denotes (NaN and infinities are left out).\<close>

datatype json = JNull | JBool bool | JInt int | JFloat rat | JStr string
  | JArr "json list" | JObj "(string \<times> json) list"

text \<open>\<open>body.get(key)\<close> on a decoded object: the last binding of a repeated key wins.\<close>

definition jget :: "string \<Rightarrow> json \<Rightarrow> json" where
  "jget k j = (case j of JObj kvs \<Rightarrow> (case map_of (rev kvs) k of None \<Rightarrow> JNull | Some v \<Rightarrow> v) | _ \<Rightarrow> JNull)"

text \<open>The truth of a value, a number among them, an object; \<open>a or d\<close>.\<close>

definition falsy :: "json \<Rightarrow> bool" where
  "falsy j \<longleftrightarrow> (case j of JNull \<Rightarrow> True | JBool t \<Rightarrow> \<not> t | JInt i \<Rightarrow> i = 0 | JFloat r \<Rightarrow> r = 0 | JStr s \<Rightarrow> s = []
     | JArr xs \<Rightarrow> xs = [] | JObj kvs \<Rightarrow> kvs = [])"

definition j_or :: "json \<Rightarrow> json \<Rightarrow> json" where
  "j_or a d = (if falsy a then d else a)"

definition json_num :: "json \<Rightarrow> rat option" where
  "json_num j = (case j of JInt i \<Rightarrow> Some (of_int i) | JBool t \<Rightarrow> Some (if t then 1 else 0) | JFloat r \<Rightarrow> Some r | _ \<Rightarrow> None)"

definition is_object :: "json \<Rightarrow> bool" where
  "is_object j = (case j of JObj _ \<Rightarrow> True | _ \<Rightarrow> False)"

text \<open>\<open>int(x)\<close> of a decoded value, None where it raises.\<close>

definition json_int :: "json \<Rightarrow> int option" where
  "json_int j = (case j of JInt i \<Rightarrow> Some i | JBool t \<Rightarrow> Some (if t then 1 else 0)
     | JFloat r \<Rightarrow> Some (py_trunc r) | JStr s \<Rightarrow> py_int s | _ \<Rightarrow> None)"

section \<open>Tables\<close>

text \<open>
  A SQLite table with a primary key is the list of its rows in \<open>rowid\<close> order.
  \<open>INSERT OR REPLACE\<close> deletes the row with the same key and appends the new one under a fresh
  \<open>rowid\<close>; \<open>INSERT OR IGNORE\<close> leaves an existing row alone; \<open>UPDATE .. WHERE\<close> rewrites rows in
  place; \<open>SELECT .. WHERE key=?\<close> finds the one row with that key.
\<close>

definition put_row :: "('r \<Rightarrow> 'k) \<Rightarrow> 'r \<Rightarrow> 'r list \<Rightarrow> 'r list" where
  "put_row key r t = filter (\<lambda>x. key x \<noteq> key r) t @ [r]"

definition ins_ignore :: "('r \<Rightarrow> 'k) \<Rightarrow> 'r \<Rightarrow> 'r list \<Rightarrow> 'r list" where
  "ins_ignore key r t = (if key r \<in> key ` set t then t else t @ [r])"

definition upd_where :: "('r \<Rightarrow> bool) \<Rightarrow> ('r \<Rightarrow> 'r) \<Rightarrow> 'r list \<Rightarrow> 'r list" where
  "upd_where P f t = map (\<lambda>x. if P x then f x else x) t"

definition row_of :: "('r \<Rightarrow> 'k) \<Rightarrow> 'k \<Rightarrow> 'r list \<Rightarrow> 'r option" where
  "row_of key k t = find (\<lambda>x. key x = k) t"

text \<open>A comparison with a NULL column is never true.\<close>

definition gt_opt :: "time option \<Rightarrow> time \<Rightarrow> bool" where
  "gt_opt c t = (case c of None \<Rightarrow> False | Some x \<Rightarrow> x > t)"

definition coalesce :: "'a option \<Rightarrow> 'a option \<Rightarrow> 'a option" where
  "coalesce a b = (case a of None \<Rightarrow> b | Some x \<Rightarrow> Some x)"

lemma coalesce_simps [simp]: "coalesce None b = b" "coalesce (Some x) b = Some x"
  by (simp_all add: coalesce_def)

lemma gt_opt_simps [simp]: "gt_opt None t = False" "gt_opt (Some x) t = (x > t)"
  by (simp_all add: gt_opt_def)

text \<open>The interface of a keyed table, and the facts its clients use.\<close>

locale keyed_table =
  fixes key :: "'r \<Rightarrow> 'k"
    and valid :: "'t \<Rightarrow> bool"
    and rows :: "'t \<Rightarrow> 'r set"
    and get :: "'k \<Rightarrow> 't \<Rightarrow> 'r option"
    and put :: "'r \<Rightarrow> 't \<Rightarrow> 't"
  assumes get_put: "get k (put r t) = (if k = key r then Some r else get k t)"
    and valid_put: "valid t \<Longrightarrow> valid (put r t)"
    and rows_get: "valid t \<Longrightarrow> r \<in> rows t \<longleftrightarrow> get (key r) t = Some r"
begin

lemma get_put_same: "get (key r) (put r t) = Some r"
  by (simp add: get_put)

lemma get_put_other: "k \<noteq> key r \<Longrightarrow> get k (put r t) = get k t"
  by (simp add: get_put)

lemma rows_put: "valid t \<Longrightarrow> rows (put r t) = insert r {x \<in> rows t. key x \<noteq> key r}"
  using rows_get [of t] rows_get [OF valid_put, of t] by (auto simp: get_put split: if_splits)

lemma put_mem: "valid t \<Longrightarrow> r \<in> rows (put r t)"
  by (simp add: rows_put)

lemma valid_fold: "valid t \<Longrightarrow> valid (fold put rs t)"
  by (induction rs arbitrary: t) (auto simp: valid_put)

lemma rows_key_inj: "valid t \<Longrightarrow> r \<in> rows t \<Longrightarrow> s \<in> rows t \<Longrightarrow> key r = key s \<Longrightarrow> r = s"
  by (metis option.inject rows_get)

end

text \<open>A keyed table whose rows each cover a set of heights.\<close>

locale covering_table = keyed_table key valid rows get put
    for key :: "'r \<Rightarrow> 'k" and valid :: "'t \<Rightarrow> bool" and rows :: "'t \<Rightarrow> 'r set"
      and get :: "'k \<Rightarrow> 't \<Rightarrow> 'r option" and put :: "'r \<Rightarrow> 't \<Rightarrow> 't" +
  fixes span :: "'r \<Rightarrow> int set"
begin

lemma cover_put:
  assumes "valid t" and "\<And>x. x \<in> rows t \<Longrightarrow> key x = key r \<Longrightarrow> span x \<subseteq> span r"
  shows "(\<Union>x \<in> rows (put r t). span x) = (\<Union>x \<in> rows t. span x) \<union> span r"
  using assms by (auto simp: rows_put)

lemma cover_put_le: "valid t \<Longrightarrow> (\<Union>x \<in> rows (put r t). span x) \<subseteq> (\<Union>x \<in> rows t. span x) \<union> span r"
  by (auto simp: rows_put)

end

lemma find_append: "find P (xs @ ys) = (case find P xs of None \<Rightarrow> find P ys | Some x \<Rightarrow> Some x)"
  by (induction xs) auto

lemma find_filter_same: "(\<And>x. P x \<Longrightarrow> Q x) \<Longrightarrow> find P (filter Q xs) = find P xs"
  by (induction xs) auto

lemma find_None_filter: "(\<And>x. P x \<Longrightarrow> \<not> Q x) \<Longrightarrow> find P (filter Q xs) = None"
  by (auto simp: find_None_iff)

lemma row_of_put [table_laws]: "row_of key k (put_row key r t) = (if k = key r then Some r else row_of key k t)"
proof (cases "k = key r")
  case True
  then show ?thesis by (simp add: row_of_def put_row_def find_append find_None_filter)
next
  case False
  then show ?thesis
    using find_filter_same [of "\<lambda>x. key x = k" "\<lambda>x. key x \<noteq> key r" t]
    by (auto simp: row_of_def put_row_def find_append split: option.split)
qed

lemma row_of_Some: "row_of key k t = Some r \<Longrightarrow> r \<in> set t \<and> key r = k"
  by (auto simp: row_of_def find_Some_iff)

lemma row_of_in: "distinct (map key t) \<Longrightarrow> r \<in> set t \<Longrightarrow> row_of key (key r) t = Some r"
proof (induction t)
  case Nil
  then show ?case by simp
next
  case (Cons x t)
  show ?case
  proof (cases "r = x")
    case True
    then show ?thesis by (simp add: row_of_def)
  next
    case False
    with Cons.prems have "key x \<noteq> key r" by (auto simp: image_iff)
    with False Cons show ?thesis by (simp add: row_of_def)
  qed
qed

lemma row_of_mem: "distinct (map key t) \<Longrightarrow> r \<in> set t \<longleftrightarrow> row_of key (key r) t = Some r"
  by (blast dest: row_of_in row_of_Some)

lemma row_of_None: "row_of key k t = None \<longleftrightarrow> k \<notin> key ` set t"
  by (auto simp: row_of_def find_None_iff)

lemma distinct_put_row: "distinct (map key t) \<Longrightarrow> distinct (map key (put_row key r t))"
  by (auto simp: put_row_def distinct_map inj_on_def)

lemma set_put_row: "set (put_row key r t) = insert r {x \<in> set t. key x \<noteq> key r}"
  by (auto simp: put_row_def)

lemma distinct_ins_ignore: "distinct (map key t) \<Longrightarrow> distinct (map key (ins_ignore key r t))"
  by (auto simp: ins_ignore_def)

lemma map_key_upd [simp]: "(\<And>x. key (f x) = key x) \<Longrightarrow> map key (upd_where P f t) = map key t"
  by (simp add: upd_where_def)

lemma row_of_upd [table_laws]:
  "(\<And>x. key (f x) = key x) \<Longrightarrow>
   row_of key k (upd_where P f t) = map_option (\<lambda>x. if P x then f x else x) (row_of key k t)"
  by (induction t) (auto simp: row_of_def upd_where_def)

section \<open>Spans of heights\<close>

definition span_set :: "(int \<times> int) list \<Rightarrow> int set" where
  "span_set xs = (\<Union>(lo, hi) \<in> set xs. {lo..hi})"

lemma span_set_simps [simp]:
  "span_set [] = {}" "span_set ((lo, hi) # xs) = {lo..hi} \<union> span_set xs"
  "span_set (xs @ ys) = span_set xs \<union> span_set ys"
  by (auto simp: span_set_def)

lemma finite_span_set [simp]: "finite (span_set xs)"
  by (auto simp: span_set_def)

lemma span_set_mem: "h \<in> span_set xs \<longleftrightarrow> (\<exists>lo hi. (lo, hi) \<in> set xs \<and> lo \<le> h \<and> h \<le> hi)"
  by (force simp: span_set_def)

section \<open>The upward scan\<close>

text \<open>\<open>while h < ceiling: if P(h): break; h += 1\<close>: the first height that passes, if any.\<close>

function scan_up :: "(int \<Rightarrow> bool) \<Rightarrow> int \<Rightarrow> int \<Rightarrow> int option" where
  "scan_up P h stop =
     (if h < stop then (if P h then Some h else scan_up P (h + 1) stop) else None)"
  by pat_completeness auto
termination
  by (relation "measure (\<lambda>(P, h, stop). nat (stop - h))") auto

declare scan_up.simps [simp del]

lemma scan_up_Some:
  "scan_up P h stop = Some n \<Longrightarrow> h \<le> n \<and> n < stop \<and> P n \<and> (\<forall>k. h \<le> k \<longrightarrow> k < n \<longrightarrow> \<not> P k)"
proof (induction P h stop rule: scan_up.induct)
  case (1 P h stop)
  show ?case
  proof (cases "h < stop \<and> \<not> P h")
    case True
    with "1.prems" have "scan_up P (h + 1) stop = Some n" by (simp add: scan_up.simps [of P h])
    with True "1.IH" have "h + 1 \<le> n \<and> n < stop \<and> P n \<and> (\<forall>k. h + 1 \<le> k \<longrightarrow> k < n \<longrightarrow> \<not> P k)" by simp
    moreover have "\<not> P k" if "h \<le> k" "k < n" for k
      using that True calculation by (cases "k = h") auto
    ultimately show ?thesis by auto
  next
    case False
    with "1.prems" show ?thesis by (auto simp: scan_up.simps [of P h] split: if_splits)
  qed
qed

lemma scan_up_None: "scan_up P h stop = None \<Longrightarrow> h \<le> k \<Longrightarrow> k < stop \<Longrightarrow> \<not> P k"
proof (induction P h stop rule: scan_up.induct)
  case (1 P h stop)
  then have "h < stop" by simp
  with "1.prems" have np: "\<not> P h" and "scan_up P (h + 1) stop = None"
    by (auto simp: scan_up.simps [of P h] split: if_splits)
  with "1.IH" \<open>h < stop\<close> "1.prems" show ?case by (cases "k = h") auto
qed

section \<open>Filtered lists\<close>

lemma length_filter_imp:
  "(\<And>x. x \<in> set xs \<Longrightarrow> P x \<Longrightarrow> Q x) \<Longrightarrow> length (filter P xs) \<le> length (filter Q xs)"
  by (induction xs) (auto intro: le_SucI)

section \<open>Invariants of transition systems\<close>

text \<open>What a component that moves by steps promises: an invariant that holds at the start and that every step keeps.\<close>

locale transition_inv =
  fixes init :: "'s \<Rightarrow> bool"
    and step :: "'s \<Rightarrow> 's \<Rightarrow> bool"
    and inv :: "'s \<Rightarrow> bool"
  assumes inv_init: "init s \<Longrightarrow> inv s"
    and inv_step: "step s t \<Longrightarrow> inv s \<Longrightarrow> inv t"
begin

lemma inv_steps: "step\<^sup>*\<^sup>* s t \<Longrightarrow> inv s \<Longrightarrow> inv t"
  by (induction rule: rtranclp_induct) (auto intro: inv_step)

lemma inv_reachable: "init s \<Longrightarrow> step\<^sup>*\<^sup>* s t \<Longrightarrow> inv t"
  by (blast intro: inv_init inv_steps)

end

text \<open>A system whose steps, from a state of the invariant, also stay above a preorder on what was reached.\<close>

locale growing_system = transition_inv init step inv
    for init :: "'s \<Rightarrow> bool" and step :: "'s \<Rightarrow> 's \<Rightarrow> bool" and inv :: "'s \<Rightarrow> bool" +
  fixes reached :: "'s \<Rightarrow> 'x set"
  assumes reached_step: "step s t \<Longrightarrow> inv s \<Longrightarrow> reached s \<subseteq> reached t"
begin

lemma reached_steps: "step\<^sup>*\<^sup>* s t \<Longrightarrow> inv s \<Longrightarrow> reached s \<subseteq> reached t"
  by (induction rule: rtranclp_induct) (auto dest: reached_step intro: inv_steps)

end

end
