(* ===== verification/Range_Id.thy ===== *)
theory Range_Id
  imports Prelude
begin

text \<open>
  Range ids as they arrive from the wire (\<open>server.py\<close>: \<open>genesis_refusal\<close>,
  \<open>canonical_range_id\<close>, \<open>range_id_refusal\<close>, \<open>parse_any_range\<close>, \<open>parse_range\<close>,
  \<open>is_genesis_anchored\<close>). An id is \<open>str(rid)\<close>, a string; \<open>tip\<close> stands for the value of
  \<open>chain_tip()\<close> at the call. The lemmas show that parsing inverts the canonical spelling, that an
  accepted id has exactly one spelling, and which pairs of claim ids can overlap.
\<close>

section \<open>Block 0\<close>

text \<open>The 400 for block 0; the pair names the retry (\<open>what\<close>, highest block) when there is one.\<close>

datatype genesis_error = GenesisError "(string \<times> int) option"

definition genesis_refusal :: "int \<Rightarrow> int \<Rightarrow> string \<Rightarrow> genesis_error option" where
  "genesis_refusal lo hi what =
     (if lo \<noteq> 0 then None
      else Some (GenesisError (if hi \<ge> 1 then Some (what, hi) else None)))"

definition is_genesis_anchored :: "string \<Rightarrow> string option \<Rightarrow> int \<Rightarrow> bool" where
  "is_genesis_anchored genesis_tip in_tip lo \<longleftrightarrow> in_tip = Some genesis_tip \<and> lo = 1"

section \<open>Spelling and parsing\<close>

definition canonical_range_id :: "int \<Rightarrow> int \<Rightarrow> range_id" where
  "canonical_range_id lo hi =
     (if lo = hi then int_str lo else int_str lo @ CHR ''-'' # int_str hi)"

text \<open>The 400 for a second spelling of a range carries the canonical one.\<close>

definition range_id_refusal :: "range_id \<Rightarrow> int \<Rightarrow> int \<Rightarrow> range_id option" where
  "range_id_refusal rid lo hi =
     (let canon = canonical_range_id lo hi in if rid = canon then None else Some canon)"

text \<open>\<open>[int(x) for x in str(rid).split("-")]\<close>, or None where \<open>int\<close> raises.\<close>

definition id_parts :: "range_id \<Rightarrow> int list option" where
  "id_parts rid = those (map py_int (py_split CHR ''-'' rid))"

fun any_parts :: "int \<Rightarrow> int list \<Rightarrow> (int \<times> int) option" where
  "any_parts tip [n] = (if 0 \<le> n \<and> n < tip then Some (n, n) else None)"
| "any_parts tip [lo, hi] = (if lo < 0 \<or> hi \<ge> tip \<or> hi < lo then None else Some (lo, hi))"
| "any_parts tip _ = None"

definition parse_any_range :: "int \<Rightarrow> range_id \<Rightarrow> (int \<times> int) option" where
  "parse_any_range tip rid = Option.bind (id_parts rid) (any_parts tip)"

text \<open>
  A claim id: a single block, or a block range on one of the two grids \<open>RANGE_SIZE\<close> and
  \<open>CLAIM_WIDTH\<close>. The loop over the set of the two widths returns at the first that fits.
\<close>

definition on_grid :: "int \<Rightarrow> int \<Rightarrow> int \<Rightarrow> bool" where
  "on_grid g lo hi \<longleftrightarrow> g > 1 \<and> hi - lo + 1 = g \<and> lo mod g = 0"

fun claim_parts :: "int \<Rightarrow> int \<Rightarrow> int \<Rightarrow> int list \<Rightarrow> (int \<times> int) option" where
  "claim_parts range_size claim_width tip [n] = (if 0 \<le> n \<and> n < tip then Some (n, n) else None)"
| "claim_parts range_size claim_width tip [lo, hi] =
     (if lo < 0 \<or> hi \<ge> tip \<or> hi < lo then None
      else if on_grid range_size lo hi \<or> on_grid claim_width lo hi then Some (lo, hi)
      else None)"
| "claim_parts range_size claim_width tip _ = None"

definition parse_range :: "int \<Rightarrow> int \<Rightarrow> int \<Rightarrow> range_id \<Rightarrow> (int \<times> int) option" where
  "parse_range range_size claim_width tip rid =
     Option.bind (id_parts rid) (claim_parts range_size claim_width tip)"

section \<open>Lemmas\<close>

lemma nat_str_no_dash [simp]: "CHR ''-'' \<notin> set (nat_str n)"
  by (rule all_digits_no_char [OF nat_str_digits]) simp

lemma int_str_inj [simp]: "int_str a = int_str b \<longleftrightarrow> a = b"
proof -
  have ne: "nat_str n \<noteq> CHR ''-'' # s" for n s using nat_str_no_dash [of n] by (metis list.set_intros(1))
  show ?thesis using ne ne [symmetric] by (auto simp: int_str_def nat_str_inj)
qed

lemma split_canonical:
  "0 \<le> lo \<Longrightarrow> 0 \<le> hi \<Longrightarrow> py_split CHR ''-'' (canonical_range_id lo hi) =
     (if lo = hi then [nat_str (nat lo)] else [nat_str (nat lo), nat_str (nat hi)])"
  by (simp add: canonical_range_id_def int_str_nonneg py_split_none py_split_one)

fun_cases any_parts_Some: "any_parts tip ps = Some p"
fun_cases claim_parts_Some: "claim_parts g w tip ps = Some p"

lemma parse_any_range_bounds:
  "parse_any_range tip rid = Some (lo, hi) \<Longrightarrow> 0 \<le> lo \<and> lo \<le> hi \<and> hi < tip"
  by (auto simp: parse_any_range_def bind_eq_Some_conv elim!: any_parts_Some split: if_splits)

lemma parse_range_any: "parse_range g w tip rid = Some p \<Longrightarrow> parse_any_range tip rid = Some p"
  by (auto simp: parse_any_range_def parse_range_def bind_eq_Some_conv
      elim!: claim_parts_Some split: if_splits)

lemma parse_range_shape:
  "parse_range g w tip rid = Some (lo, hi) \<Longrightarrow> lo = hi \<or> on_grid g lo hi \<or> on_grid w lo hi"
  by (auto simp: parse_range_def bind_eq_Some_conv elim!: claim_parts_Some split: if_splits)

lemma parse_canonical:
  assumes "0 \<le> lo" "lo \<le> hi" "hi < tip"
  shows "parse_any_range tip (canonical_range_id lo hi) = Some (lo, hi)"
proof -
  have "0 \<le> hi" using assms by simp
  then have "id_parts (canonical_range_id lo hi) = Some (if lo = hi then [lo] else [lo, hi])"
    using assms by (simp add: id_parts_def split_canonical)
  with assms show ?thesis by (simp add: parse_any_range_def)
qed

lemma refusal_None_iff: "range_id_refusal rid lo hi = None \<longleftrightarrow> rid = canonical_range_id lo hi"
  by (simp add: range_id_refusal_def Let_def)

lemma canonical_inj:
  assumes "0 \<le> lo" "lo \<le> hi" "0 \<le> lo'" "lo' \<le> hi'"
    and "canonical_range_id lo hi = canonical_range_id lo' hi'"
  shows "lo = lo' \<and> hi = hi'"
proof -
  have "hi < hi + hi' + 1" "hi' < hi + hi' + 1" using assms(1-4) by auto
  then have "Some (lo, hi) = Some (lo', hi')"
    using parse_canonical [of lo hi "hi + hi' + 1"] parse_canonical [of lo' hi' "hi + hi' + 1"]
    unfolding assms(5) using assms(1-4) by simp
  then show ?thesis by simp
qed

lemma same_grid_disjoint:
  assumes "on_grid g lo hi" "on_grid g lo' hi'" "lo \<noteq> lo'"
  shows "{lo..hi} \<inter> {lo'..hi'} = {}"
proof -
  from assms obtain a b where ab: "lo = g * a" "lo' = g * b"
    by (auto simp: on_grid_def dvd_def mod_eq_0_iff_dvd)
  from assms have g: "g > 1" and w: "hi = lo + g - 1" "hi' = lo' + g - 1" by (auto simp: on_grid_def)
  from ab assms(3) have "a \<noteq> b" by auto
  then consider "a + 1 \<le> b" | "b + 1 \<le> a" by linarith
  then show ?thesis
  proof cases
    case 1
    with g have "g * (a + 1) \<le> g * b" by (intro mult_left_mono) auto
    with ab w show ?thesis by (auto simp: algebra_simps)
  next
    case 2
    with g have "g * (b + 1) \<le> g * a" by (intro mult_left_mono) auto
    with ab w show ?thesis by (auto simp: algebra_simps)
  qed
qed

text \<open>Aligned blocks of width \<open>g\<close> and of a multiple \<open>w\<close> of it are nested or disjoint.\<close>

lemma aligned_nested:
  fixes g w a b :: int
  assumes g: "0 < g" and "g dvd w"
  shows "{g * a..g * a + g - 1} \<subseteq> {w * b..w * b + w - 1}
    \<or> {g * a..g * a + g - 1} \<inter> {w * b..w * b + w - 1} = {}"
proof -
  from assms(2) obtain k where k: "w = g * k" by (auto simp: dvd_def)
  consider "a < k * b" | "k * b \<le> a" "a < k * b + k" | "k * b + k \<le> a" by linarith
  then show ?thesis
  proof cases
    case 1
    with g have "g * (a + 1) \<le> g * (k * b)" by (intro mult_left_mono) auto
    with k show ?thesis by (auto simp: algebra_simps)
  next
    case 2
    with g have "g * (k * b) \<le> g * a" "g * (a + 1) \<le> g * (k * b + k)"
      by (auto intro!: mult_left_mono)
    with k show ?thesis by (auto simp: algebra_simps)
  next
    case 3
    with g have "g * (k * b + k) \<le> g * a" by (intro mult_left_mono) auto
    with k show ?thesis by (auto simp: algebra_simps)
  qed
qed

lemma nested_grid:
  assumes "on_grid g lo hi" "on_grid w lo' hi'" "g dvd w"
  shows "{lo..hi} \<subseteq> {lo'..hi'} \<or> {lo..hi} \<inter> {lo'..hi'} = {}"
proof -
  from assms obtain a b where "lo = g * a" "lo' = w * b"
    by (auto simp: on_grid_def dvd_def mod_eq_0_iff_dvd)
  moreover have "hi = lo + g - 1" "hi' = lo' + w - 1" "0 < g" using assms by (auto simp: on_grid_def)
  ultimately show ?thesis using aligned_nested [of g w a b] assms(3) by simp
qed

lemma single_nested: "lo = hi \<Longrightarrow> {lo..hi} \<subseteq> A \<or> {lo..hi} \<inter> A = {}" for lo hi :: int
  by auto

end
