(* ===== verification/Board.thy ===== *)
theory Board
  imports Range_Id
begin

text \<open>
  The coordinator's state (\<open>coordinator/server.py\<close>): its configuration, the tables that
  \<open>init_db\<close> creates, what it reads from outside (clock, directories, the node's tip file, the
  signature and hash libraries) and the operations that use them directly: the servable and chain
  tips, which file serves a block, the bulk-bundle plan, the liveness of a claim and the counting of
  failed submissions. Fields of the configuration carry the names of the source's constants.
\<close>

section \<open>Configuration\<close>

record config =
  TIP_FLOOR :: int
  TIP_TTL :: rat
  TIP_FILE_AGE :: rat
  RANGE_SIZE :: int
  SEED :: nat
  BULK_MAX :: int
  GENESIS_TIP :: string
  CLAIM_TTL :: rat
  CLAIM_MAX :: rat
  CLAIM_GRACE :: rat
  CLAIM_OPEN_MAX :: nat
  CLAIM_RETAKE_WAIT :: rat
  CLAIM_REQUIRE_SIG :: bool
  CLAIM_WIDTH :: int
  FOLD_CLAIM_TTL :: rat
  FOLD_CLAIM_CAP :: nat
  BEAT_SKEW :: rat
  MAX_ATTEMPTS :: int
  MAX_ENV_FAILURES :: int
  MAX_BODY :: int
  MAX_HANDLE :: nat
  SPONSOR_NAME_MAX :: nat
  HANDLE_DENY :: "string list"
  RATE_WINDOW :: rat
  RATE_MAP_MAX :: int
  RATE_EXEMPT :: "string list"
  FRONTIER_SETTLE :: rat
  ROTATE_ENABLED :: bool
  ROTATE_MAX_SKEW :: rat
  ROTATE_MAX_DEPTH :: nat
  HAVE_ED :: bool
  ALLOW_UNSIGNED :: bool
  VERIFY_MOCK :: bool
  ALLOW_MOCK :: bool
  HOST_BIN_OK :: bool

text \<open>The values a deployment that sets no environment variable runs with.\<close>

definition default_config :: config where
  "default_config = \<lparr>
     TIP_FLOOR = 958301, TIP_TTL = 300, TIP_FILE_AGE = 3600, RANGE_SIZE = 1000, SEED = 60,
     BULK_MAX = 1000,
     GENESIS_TIP = ''6fe28c0ab6f1b372c1a6a246ae63f74f931e8365e15a089c68d6190000000000'',
     CLAIM_TTL = 3600, CLAIM_MAX = 86400, CLAIM_GRACE = 600, CLAIM_OPEN_MAX = 4,
     CLAIM_RETAKE_WAIT = 3600, CLAIM_REQUIRE_SIG = False, CLAIM_WIDTH = 1,
     FOLD_CLAIM_TTL = 60, FOLD_CLAIM_CAP = 2, BEAT_SKEW = 120,
     MAX_ATTEMPTS = 3, MAX_ENV_FAILURES = 12, MAX_BODY = 8388608, MAX_HANDLE = 48,
     SPONSOR_NAME_MAX = 40,
     HANDLE_DENY = [''satoshi'', ''satoshinakamoto'', ''admin'', ''administrator'', ''official'',
       ''bitcoinghost'', ''bitcoinghostofficial'', ''hazync'', ''moderator'', ''mod'', ''root'',
       ''system'', ''team'', ''support'', ''staff''],
     RATE_WINDOW = 60, RATE_MAP_MAX = 50000, RATE_EXEMPT = [], FRONTIER_SETTLE = 30,
     ROTATE_ENABLED = False, ROTATE_MAX_SKEW = 300, ROTATE_MAX_DEPTH = 32,
     HAVE_ED = True, ALLOW_UNSIGNED = False, VERIFY_MOCK = False, ALLOW_MOCK = False,
     HOST_BIN_OK = True \<rparr>"

lemma default_config_simps [simp]:
  "TIP_FLOOR default_config = 958301"
  "TIP_TTL default_config = 300"
  "TIP_FILE_AGE default_config = 3600"
  "RANGE_SIZE default_config = 1000"
  "SEED default_config = 60"
  "BULK_MAX default_config = 1000"
  "GENESIS_TIP default_config = ''6fe28c0ab6f1b372c1a6a246ae63f74f931e8365e15a089c68d6190000000000''"
  "CLAIM_TTL default_config = 3600"
  "CLAIM_MAX default_config = 86400"
  "CLAIM_GRACE default_config = 600"
  "CLAIM_OPEN_MAX default_config = 4"
  "CLAIM_RETAKE_WAIT default_config = 3600"
  "CLAIM_REQUIRE_SIG default_config = False"
  "CLAIM_WIDTH default_config = 1"
  "FOLD_CLAIM_TTL default_config = 60"
  "FOLD_CLAIM_CAP default_config = 2"
  "BEAT_SKEW default_config = 120"
  "MAX_ATTEMPTS default_config = 3"
  "MAX_ENV_FAILURES default_config = 12"
  "MAX_BODY default_config = 8388608"
  "MAX_HANDLE default_config = 48"
  "SPONSOR_NAME_MAX default_config = 40"
  "HANDLE_DENY default_config = [''satoshi'', ''satoshinakamoto'', ''admin'', ''administrator'', ''official'', ''bitcoinghost'', ''bitcoinghostofficial'', ''hazync'', ''moderator'', ''mod'', ''root'', ''system'', ''team'', ''support'', ''staff'']"
  "RATE_WINDOW default_config = 60"
  "RATE_MAP_MAX default_config = 50000"
  "RATE_EXEMPT default_config = []"
  "FRONTIER_SETTLE default_config = 30"
  "ROTATE_ENABLED default_config = False"
  "ROTATE_MAX_SKEW default_config = 300"
  "ROTATE_MAX_DEPTH default_config = 32"
  "HAVE_ED default_config = True"
  "ALLOW_UNSIGNED default_config = False"
  "VERIFY_MOCK default_config = False"
  "ALLOW_MOCK default_config = False"
  "HOST_BIN_OK default_config = True"
  by (simp_all add: default_config_def)

section \<open>What the process reads from outside\<close>

text \<open>
  \<open>w_bridge\<close> and \<open>w_witness\<close> are the file names in \<open>BRIDGE_DIR\<close> and \<open>WITNESS\<close> (None: unset or
  unreadable), \<open>w_tip_cache\<close> is \<open>_tip_cache\<close>, \<open>w_tip_file\<close> the modification time and text of
  \<open>TIP_FILE\<close>. \<open>w_ed25519\<close> is the library's \<open>pk.verify(sig, message)\<close> on the raw bytes (false where
  it raises) and \<open>w_sha256\<close> the hex digest; both are code outside the repository.
\<close>

record world =
  w_now :: time
  w_bridge :: "string list option"
  w_witness :: "string list option"
  w_tip_cache :: "time \<times> int option"
  w_tip_file :: "(time \<times> string) option"
  w_ed25519 :: "string \<Rightarrow> string \<Rightarrow> string \<Rightarrow> bool"
  w_sha256 :: "string \<Rightarrow> string"

section \<open>Tables\<close>

datatype status = Open | Claimed | Verified | Failed

record range_row =
  r_id :: range_id
  r_lo :: int
  r_hi :: int
  r_status :: status
  r_assignee :: "pubkey option"
  r_handle :: "string option"
  r_receipt_sha :: "string option"
  r_claimed_at :: "time option"
  r_verified_at :: "time option"
  r_last_beat :: "time option"
  r_attempts :: "int option"
  r_env_failures :: "int option"
  r_last_error :: "string option"
  r_last_failed_at :: "time option"
  r_last_assignee :: "pubkey option"
  r_claim_nonce :: "string option"
  r_claim_signed :: "int option"

record vrange_row =
  v_id :: range_id
  v_lo :: int
  v_hi :: int
  v_in_tip :: "string option"
  v_out_tip :: "string option"
  v_pubkey :: "pubkey option"
  v_handle :: "string option"
  v_ts :: "time option"
  v_out_leaves :: "int option"
  v_range_work :: "string option"
  v_in_bhash :: "string option"
  v_out_bhash :: "string option"

record contributor =
  c_pubkey :: pubkey
  c_handle :: "string option"
  c_blocks :: int
  c_first_seen :: "time option"
  c_last_version :: "string option"
  c_last_version_at :: "time option"

record submission =
  s_range_id :: range_id
  s_pubkey :: pubkey
  s_handle :: string
  s_receipt_sha :: string
  s_sig :: string
  s_verified :: bool
  s_note :: string
  s_ts :: time

record rotation =
  ro_old :: pubkey
  ro_new :: pubkey
  ro_msg_ts :: rat
  ro_sig_old :: string
  ro_sig_new :: string
  ro_created :: time

datatype sp_status = Requested | Invoiced | Paid | Proving | Proven | Underpaid | Expired | Cancelled | Refunded

record sponsorship =
  sp_id :: int
  sp_lo :: int
  sp_hi :: int
  sp_name :: string
  sp_status :: sp_status
  sp_created_at :: time
  sp_min_usd :: "int option"
  sp_min_sats :: "int option"
  sp_pledged_sats :: "int option"
  sp_paid_sats :: "int option"
  sp_invoice_id :: "string option"
  sp_paid_at :: "time option"
  sp_proven_at :: "time option"
  sp_token_hash :: "string option"
  sp_note :: "string option"
  sp_checkout_url :: "string option"
  sp_invoice_expires_at :: "time option"
  sp_hold_until :: "time option"
  sp_watch_until :: "time option"
  sp_invoice_status :: "string option"

record sponsor_key =
  k_pubkey :: pubkey
  k_sponsorship :: "int option"
  k_handle :: string
  k_created_at :: time

record sponsor_payment =
  p_sponsorship :: int
  p_id :: string
  p_method :: "string option"
  p_sats :: "int option"
  p_status :: string
  p_received_at :: "time option"
  p_seen_at :: time

record spine_meta =
  m_lo :: int
  m_hi :: int
  m_out_tip :: string
  m_out_leaves :: int
  m_range_work :: string
  m_sha256 :: string
  m_bytes :: int
  m_handle :: string
  m_pubkey :: string
  m_ts :: time

text \<open>The database together with the stored proof files (\<open>proof_<id>.bin\<close>) and the spine (\<open>spine.json\<close> and \<open>spine.bin\<close>).\<close>

record board =
  ranges :: "range_row list"
  vranges :: "vrange_row list"
  submissions :: "submission list"
  contributors :: "contributor list"
  rotations :: "rotation list"
  sponsorships :: "sponsorship list"
  sponsor_keys :: "sponsor_key list"
  sponsor_payments :: "sponsor_payment list"
  meta :: "string \<Rightarrow> string option"
  proofs :: "range_id \<Rightarrow> string option"
  spine :: "spine_meta option"
  spine_bin :: "string option"

text \<open>A row of \<open>INSERT INTO ranges(id,lo,hi)\<close>: every other column takes its default.\<close>

definition new_range :: "range_id \<Rightarrow> int \<Rightarrow> int \<Rightarrow> range_row" where
  "new_range rid lo hi = \<lparr> r_id = rid, r_lo = lo, r_hi = hi, r_status = Open, r_assignee = None,
     r_handle = None, r_receipt_sha = None, r_claimed_at = None, r_verified_at = None,
     r_last_beat = None, r_attempts = Some 0, r_env_failures = Some 0, r_last_error = None,
     r_last_failed_at = None, r_last_assignee = None, r_claim_nonce = None, r_claim_signed = None \<rparr>"

definition empty_board :: board where
  "empty_board = \<lparr> ranges = [], vranges = [], submissions = [], contributors = [], rotations = [],
     sponsorships = [], sponsor_keys = [], sponsor_payments = [], meta = (\<lambda>_. None),
     proofs = (\<lambda>_. None), spine = None, spine_bin = None \<rparr>"

lemma empty_board_simps [simp]:
  "ranges empty_board = []" "vranges empty_board = []" "submissions empty_board = []"
  "contributors empty_board = []" "rotations empty_board = []" "sponsorships empty_board = []"
  "sponsor_keys empty_board = []" "sponsor_payments empty_board = []" "meta empty_board k = None"
  "proofs empty_board r = None" "spine empty_board = None" "spine_bin empty_board = None"
  by (simp_all add: empty_board_def)

text \<open>\<open>init_db\<close>: the tables exist already, so all it does to a board is seed an empty \<open>ranges\<close>.\<close>

definition seed_rows :: "config \<Rightarrow> range_row list" where
  "seed_rows cfg = map (\<lambda>i. let lo = int i * RANGE_SIZE cfg; hi = lo + RANGE_SIZE cfg - 1
     in new_range (int_str lo @ CHR ''-'' # int_str hi) lo hi) [0..<SEED cfg]"

definition init_db :: "config \<Rightarrow> board \<Rightarrow> board" where
  "init_db cfg b = (if length (ranges b) = 0 then b\<lparr>ranges := seed_rows cfg\<rparr> else b)"

text \<open>The two tables the handlers write with \<open>INSERT OR REPLACE\<close> keep the laws of a keyed table.\<close>

interpretation range_table: keyed_table r_id "\<lambda>t. distinct (map r_id t)" set "row_of r_id" "put_row r_id"
  by unfold_locales (auto simp: row_of_put distinct_put_row row_of_mem)

section \<open>What the coordinator can serve\<close>

text \<open>
  The block number in a file name \<open><prefix><digits>.json\<close>. The names are ASCII, where \<open>isdigit\<close> is a
  decimal digit and \<open>int\<close> of the digits succeeds.
\<close>

definition name_block :: "string \<Rightarrow> string \<Rightarrow> int option" where
  "name_block pre n =
     (if prefixed pre n \<and> suffixed ''.json'' n
      then let core = take (length n - length pre - 5) (drop (length pre) n)
           in if core \<noteq> [] \<and> all_digits core then py_int core else None
      else None)"

definition scan_dir :: "string \<Rightarrow> string list option \<Rightarrow> int option \<Rightarrow> int option" where
  "scan_dir pre d hi = fold (\<lambda>n h. case name_block pre n of None \<Rightarrow> h
      | Some v \<Rightarrow> (case h of None \<Rightarrow> Some v | Some x \<Rightarrow> if v > x then Some v else h))
     (case d of None \<Rightarrow> [] | Some ns \<Rightarrow> ns) hi"

text \<open>The result, and the cache it leaves.\<close>

definition servable_high :: "config \<Rightarrow> world \<Rightarrow> bool \<Rightarrow> int option \<times> (time \<times> int option)" where
  "servable_high cfg w force =
     (let (t, v) = w_tip_cache w in
      if \<not> force \<and> v \<noteq> None \<and> w_now w - t < TIP_TTL cfg then (v, (t, v))
      else let hi = scan_dir ''block_'' (w_witness w) (scan_dir ''bundle_'' (w_bridge w) None)
           in (hi, (w_now w, hi)))"

definition node_tip :: "config \<Rightarrow> world \<Rightarrow> int option" where
  "node_tip cfg w = (case w_tip_file w of
      None \<Rightarrow> None
    | Some (mtime, txt) \<Rightarrow>
        if w_now w - mtime > TIP_FILE_AGE cfg then None
        else (case py_int txt of None \<Rightarrow> None | Some v \<Rightarrow> if v > 0 then Some v else None))"

definition chain_tip :: "config \<Rightarrow> world \<Rightarrow> int" where
  "chain_tip cfg w =
     max (TIP_FLOOR cfg)
       (max (case fst (servable_high cfg w False) of None \<Rightarrow> 0 | Some h \<Rightarrow> h + 1)
            (case node_tip cfg w of None \<Rightarrow> 0 | Some n \<Rightarrow> n + 1))"

definition provable_tip :: "config \<Rightarrow> world \<Rightarrow> int" where
  "provable_tip cfg w = (case fst (servable_high cfg w False) of None \<Rightarrow> 0 | Some h \<Rightarrow> h + 1)"

text \<open>
  \<open>bundle_path\<close>: the directory (\<open>True\<close>: the bridge) and the file name that serves a block.
\<close>

definition in_dir :: "string \<Rightarrow> string list option \<Rightarrow> bool" where
  "in_dir n d = (case d of None \<Rightarrow> False | Some ns \<Rightarrow> n \<in> set ns)"

definition bundle_path :: "world \<Rightarrow> int \<Rightarrow> (bool \<times> string) option" where
  "bundle_path w blk =
     (let b = ''bundle_'' @ int_str blk @ ''.json''; l = ''block_'' @ int_str blk @ ''.json'' in
      if in_dir b (w_bridge w) then Some (True, b)
      else if in_dir l (w_witness w) then Some (False, l)
      else None)"

datatype bulk_error = FromBad | CountBad | TooMany int

definition bulk_plan :: "config \<Rightarrow> world \<Rightarrow> int option \<Rightarrow> int option \<Rightarrow>
    int list \<times> int list \<times> bulk_error option" where
  "bulk_plan cfg w frm count =
     (case frm of None \<Rightarrow> ([], [], Some FromBad) | Some f \<Rightarrow>
      if f < 0 then ([], [], Some FromBad)
      else case count of None \<Rightarrow> ([], [], Some CountBad) | Some n \<Rightarrow>
        if n < 1 then ([], [], Some CountBad)
        else if n > BULK_MAX cfg then ([], [], Some (TooMany (BULK_MAX cfg)))
        else (let hs = [f..f + n - 1] in
              (filter (\<lambda>h. bundle_path w h \<noteq> None) hs, filter (\<lambda>h. bundle_path w h = None) hs, None)))"

section \<open>The liveness of a claim\<close>

definition live_claim :: "config \<Rightarrow> time \<Rightarrow> range_row \<Rightarrow> bool" where
  "live_claim cfg now r \<longleftrightarrow> r_status r = Claimed
     \<and> gt_opt (coalesce (r_last_beat r) (r_claimed_at r)) (now - CLAIM_TTL cfg)
     \<and> gt_opt (r_claimed_at r) (now - CLAIM_MAX cfg)
     \<and> (r_last_beat r \<noteq> None \<or> gt_opt (r_claimed_at r) (now - CLAIM_GRACE cfg))"

section \<open>Failed submissions\<close>

definition ENV_ERR :: "string list" where
  "ENV_ERR = [''out of memory'', ''oom'', ''cudaerror'', ''cuda error'', ''hash_rows'',
     ''illegal memory access'', ''allocation failed'', ''no cuda-capable device'',
     ''received signal'', ''keyboardinterrupt'', ''systemexit'']"

definition is_env_failure :: "string \<Rightarrow> bool" where
  "is_env_failure err = (let e = lower err in list_ex (\<lambda>s. infix_of s e) ENV_ERR)"

datatype failure_branch = Parked | EnvFailure | Counted

text \<open>
  One clock read and up to three statements: an environmental failure is counted apart and never
  parks; otherwise the attempt is counted and, at the cap, every row not verified turns \<open>Failed\<close>.
\<close>

definition count_env :: "time \<Rightarrow> range_id \<Rightarrow> string \<Rightarrow> range_row list \<Rightarrow> range_row list" where
  "count_env now rid err = upd_where (\<lambda>r. r_id r = rid)
     (\<lambda>r. r\<lparr>r_env_failures := Some (the (coalesce (r_env_failures r) (Some 0)) + 1),
            r_last_error := Some err, r_last_failed_at := Some now\<rparr>)"

definition count_attempt :: "time \<Rightarrow> range_id \<Rightarrow> string \<Rightarrow> range_row list \<Rightarrow> range_row list" where
  "count_attempt now rid err = upd_where (\<lambda>r. r_id r = rid)
     (\<lambda>r. r\<lparr>r_attempts := Some (the (coalesce (r_attempts r) (Some 0)) + 1),
            r_last_error := Some err, r_last_failed_at := Some now\<rparr>)"

definition park :: "range_id \<Rightarrow> range_row list \<Rightarrow> range_row list" where
  "park rid = upd_where (\<lambda>r. r_id r = rid \<and> r_status r \<noteq> Verified) (\<lambda>r. r\<lparr>r_status := Failed\<rparr>)"

definition record_submission_failure ::
    "config \<Rightarrow> time \<Rightarrow> range_id \<Rightarrow> string \<Rightarrow> range_row list \<Rightarrow> failure_branch \<times> range_row list" where
  "record_submission_failure cfg now rid note rows =
     (let err = take 500 note in
      if is_env_failure err then (EnvFailure, count_env now rid err rows)
      else
        (let rows1 = count_attempt now rid err rows
         in case row_of r_id rid rows1 of
              None \<Rightarrow> (Counted, rows1)
            | Some a \<Rightarrow>
                if the (coalesce (r_attempts a) (Some 0)) \<ge> MAX_ATTEMPTS cfg
                then (if list_ex (\<lambda>r. r_id r = rid \<and> r_status r \<noteq> Verified) rows1 then Parked else Counted,
                      park rid rows1)
                else (Counted, rows1)))"

section \<open>Lemmas\<close>

lemma suffixed_append [simp]: "suffixed p (s @ p)"
  by (simp add: suffixed_def)

lemma name_block_str: "0 \<le> n \<Longrightarrow> name_block pre (pre @ int_str n @ ''.json'') = Some n"
  using suffixed_append [of "''.json''" "pre @ int_str n"]
  by (simp add: name_block_def int_str_nonneg)

text \<open>The scan is a fold of the maximum, with \<open>None\<close> below every height.\<close>

lemma scan_dir_max: "scan_dir pre d hi =
    fold (\<lambda>n h. max h (name_block pre n)) (case d of None \<Rightarrow> [] | Some ns \<Rightarrow> ns) hi"
proof -
  have "(case name_block pre n of None \<Rightarrow> h
      | Some v \<Rightarrow> (case h of None \<Rightarrow> Some v | Some x \<Rightarrow> if v > x then Some v else h))
      = max h (name_block pre n)" for n h
    by (cases h; cases "name_block pre n") (auto simp: max_def)
  then show ?thesis by (simp add: scan_dir_def)
qed

lemma fold_max_ge:
  fixes f :: "'a \<Rightarrow> 'b :: linorder"
  shows "h \<le> fold (\<lambda>n h. max h (f n)) ns h"
    and "n \<in> set ns \<Longrightarrow> f n \<le> fold (\<lambda>n h. max h (f n)) ns h"
  by (induction ns arbitrary: h) (auto intro: order_trans [OF max.cobounded1] order_trans [OF max.cobounded2])

lemma scan_dir_mono: "hi \<le> scan_dir pre d hi"
  by (simp add: scan_dir_max fold_max_ge)

lemma scan_dir_in: "in_dir n d \<Longrightarrow> name_block pre n \<le> scan_dir pre d hi"
  using fold_max_ge(2) [where f = "name_block pre"]
  by (auto simp: scan_dir_max in_dir_def split: option.splits)

lemma servable_scan:
  assumes "0 \<le> n" "bundle_path w n \<noteq> None"
  shows "Some n \<le> scan_dir ''block_'' (w_witness w) (scan_dir ''bundle_'' (w_bridge w) None)"
proof (cases "in_dir (''bundle_'' @ int_str n @ ''.json'') (w_bridge w)")
  case True
  from scan_dir_in [OF this, of "''bundle_''" None] name_block_str [OF assms(1), of "''bundle_''"]
  have "Some n \<le> scan_dir ''bundle_'' (w_bridge w) None" by simp
  then show ?thesis using scan_dir_mono order_trans by blast
next
  case False
  with assms(2) have "in_dir (''block_'' @ int_str n @ ''.json'') (w_witness w)"
    by (auto simp: bundle_path_def Let_def split: if_splits)
  from scan_dir_in [OF this, of "''block_''"] name_block_str [OF assms(1), of "''block_''"]
  show ?thesis by simp
qed

lemma provable_le_chain: "provable_tip cfg w \<le> chain_tip cfg w"
  by (auto simp: provable_tip_def chain_tip_def split: option.splits)

lemma chain_tip_floor: "TIP_FLOOR cfg \<le> chain_tip cfg w"
  by (simp add: chain_tip_def)

text \<open>A recorded failure keeps every row's id and span, and a verified row's status.\<close>

definition row_kept :: "failure_branch \<Rightarrow> range_row \<Rightarrow> range_row \<Rightarrow> bool" where
  "row_kept br r r' \<longleftrightarrow> r_id r' = r_id r \<and> r_lo r' = r_lo r \<and> r_hi r' = r_hi r
    \<and> (r_status r' = r_status r \<or> r_status r \<noteq> Verified \<and> r_status r' = Failed \<and> br = Parked)"

lemmas rows_all2 = list_all2_map2 list_all2_same upd_where_def row_kept_def

lemma count_kept: "list_all2 (row_kept br) rows (count_env now rid err rows)"
    "list_all2 (row_kept br) rows (count_attempt now rid err rows)"
  by (simp_all add: count_env_def count_attempt_def rows_all2)

lemma park_kept: "list_all2 (row_kept Parked) rows (park rid rows)"
    "list_all (\<lambda>r. r_id r = rid \<longrightarrow> r_status r = Verified) rows \<Longrightarrow> list_all2 (row_kept br) rows (park rid rows)"
  by (auto simp: park_def rows_all2 list_all_iff)

lemma row_kept_trans: "list_all2 (row_kept br) xs ys \<Longrightarrow> list_all2 (row_kept br) ys zs \<Longrightarrow> list_all2 (row_kept br) xs zs"
  by (erule (1) list_all2_trans [rotated]) (auto simp: row_kept_def)

lemma failure_keeps:
  assumes "record_submission_failure cfg now rid note rows = (br, rows')"
  shows "list_all2 (row_kept br) rows rows'"
proof -
  let ?rows1 = "count_attempt now rid (take 500 note) rows"
  have a: "list_all2 (row_kept b) rows ?rows1" for b by (rule count_kept(2))
  have "list_all2 (row_kept Parked) rows (park rid ?rows1)"
    by (rule row_kept_trans [OF a park_kept(1)])
  moreover have "list_all2 (row_kept br) rows (park rid ?rows1)"
    if "list_all (\<lambda>r. r_id r = rid \<longrightarrow> r_status r = Verified) ?rows1"
    by (rule row_kept_trans [OF a park_kept(2) [OF that]])
  ultimately show ?thesis
    using assms a
    by (auto simp: record_submission_failure_def Let_def count_kept list_ex_iff list_all_iff
        split: if_splits option.splits)
qed

lemma failure_ids: "record_submission_failure cfg now rid note rows = (br, rows') \<Longrightarrow>
    map r_id rows' = map r_id rows"
  by (drule failure_keeps) (auto simp: list_all2_conv_all_nth row_kept_def intro: nth_equalityI)

section \<open>Properties\<close>

text \<open>
  Allocation may hand out every height the coordinator has a file for: when the tip cache
  has aged out, a height with a bundle or a legacy witness lies below \<open>provable_tip\<close>, which never
  exceeds the bound \<open>chain_tip\<close> that submissions are parsed against.
\<close>

theorem served_below_tip:
  assumes "w_now w - fst (w_tip_cache w) \<ge> TIP_TTL cfg" and "0 \<le> n" and "bundle_path w n \<noteq> None"
  shows "n < provable_tip cfg w \<and> provable_tip cfg w \<le> chain_tip cfg w"
proof -
  have "Some n \<le> fst (servable_high cfg w False)"
    using servable_scan [OF assms(2,3)] assms(1)
    by (auto simp: servable_high_def Let_def split: prod.split)
  then obtain m where "fst (servable_high cfg w False) = Some m" "n \<le> m"
    by (cases "fst (servable_high cfg w False)") auto
  then show ?thesis using provable_le_chain [of cfg w] by (simp add: provable_tip_def)
qed

definition example_world :: world where
  "example_world = \<lparr> w_now = 1000, w_bridge = Some [''bundle_5.json'', ''bundle_17.json'', ''readme''],
     w_witness = Some [''block_9.json''], w_tip_cache = (0, None), w_tip_file = None,
     w_ed25519 = (\<lambda>pk sig msg. sig = msg), w_sha256 = (\<lambda>s. s) \<rparr>"

theorem served_below_tip_witness:
  "17 < provable_tip default_config example_world
   \<and> provable_tip default_config example_world \<le> chain_tip default_config example_world"
proof (rule served_below_tip)
  have "nat_str 17 = ''17''" by (simp add: nat_str.simps digit_char_def) code_simp
  then show "bundle_path example_world 17 \<noteq> None"
    by (simp add: bundle_path_def example_world_def in_dir_def int_str_def)
qed (simp_all add: default_config_def example_world_def)

text \<open>
  A bulk request is answered for exactly the heights it names: a valid one splits
  \<open>[from, from+count)\<close>, in order and without loss or repetition, into the heights with a file and
  those without; a malformed or oversized one yields an error and no height at all.
\<close>

theorem bulk_plan_exact:
  "case bulk_plan cfg w frm count of (hs, ms, err) \<Rightarrow>
     (case err of
        None \<Rightarrow> (\<exists>f n. frm = Some f \<and> count = Some n \<and> 0 \<le> f \<and> 1 \<le> n \<and> n \<le> BULK_MAX cfg
          \<and> sorted hs \<and> distinct hs \<and> sorted ms \<and> distinct ms
          \<and> set hs = {h. f \<le> h \<and> h < f + n \<and> bundle_path w h \<noteq> None}
          \<and> set ms = {h. f \<le> h \<and> h < f + n \<and> bundle_path w h = None})
      | Some e \<Rightarrow> hs = [] \<and> ms = []
          \<and> \<not> (\<exists>f n. frm = Some f \<and> count = Some n \<and> 0 \<le> f \<and> 1 \<le> n \<and> n \<le> BULK_MAX cfg))"
  by (auto simp: bulk_plan_def Let_def sorted_wrt_filter split: option.split)

lemma row_of_counts:
    "row_of r_id k (count_env now rid e rows) = map_option (\<lambda>x. if r_id x = rid then
        x\<lparr>r_env_failures := Some (the (coalesce (r_env_failures x) (Some 0)) + 1),
            r_last_error := Some e, r_last_failed_at := Some now\<rparr> else x) (row_of r_id k rows)"
    "row_of r_id k (count_attempt now rid e rows) = map_option (\<lambda>x. if r_id x = rid then
        x\<lparr>r_attempts := Some (the (coalesce (r_attempts x) (Some 0)) + 1),
            r_last_error := Some e, r_last_failed_at := Some now\<rparr> else x) (row_of r_id k rows)"
    "row_of r_id k (park rid rows) = map_option (\<lambda>x. if r_id x = rid \<and> r_status x \<noteq> Verified then
        x\<lparr>r_status := Failed\<rparr> else x) (row_of r_id k rows)"
  by (simp_all add: count_env_def count_attempt_def park_def row_of_upd)

lemma failure_cases:
  assumes "record_submission_failure cfg now rid note rows = (br, rows')"
  obtains (env) "is_env_failure (take 500 note)" "br = EnvFailure" "rows' = count_env now rid (take 500 note) rows"
  | (counted) "rows' = count_attempt now rid (take 500 note) rows" "br = Counted"
  | (parked) a where "\<not> is_env_failure (take 500 note)"
      "row_of r_id rid (count_attempt now rid (take 500 note) rows) = Some a"
      "the (coalesce (r_attempts a) (Some 0)) \<ge> MAX_ATTEMPTS cfg"
      "rows' = park rid (count_attempt now rid (take 500 note) rows)"
      "br = (if list_ex (\<lambda>r. r_id r = rid \<and> r_status r \<noteq> Verified)
                (count_attempt now rid (take 500 note) rows) then Parked else Counted)"
  using assms unfolding record_submission_failure_def Let_def
  by (simp split: if_split_asm option.split_asm)

text \<open>
  Recording a failed submission never touches another row's status, never takes a
  verified row out of \<open>verified\<close>, and never parks for an environmental error: a status only ever
  changes to \<open>failed\<close>, on the named row, once its counted attempts reach \<open>MAX_ATTEMPTS\<close>.
\<close>

theorem failure_parks_only_at_cap:
  assumes "record_submission_failure cfg now rid note rows = (br, rows')"
    and "row_of r_id k rows = Some r" and "row_of r_id k rows' = Some r'"
    and "r_status r' \<noteq> r_status r"
  shows "k = rid \<and> br = Parked \<and> r_status r \<noteq> Verified \<and> r_status r' = Failed
    \<and> \<not> is_env_failure (take 500 note)
    \<and> the (coalesce (r_attempts r) (Some 0)) + 1 \<ge> MAX_ATTEMPTS cfg"
  using assms(1)
proof (cases rule: failure_cases)
  case env
  with assms(2-) show ?thesis by (auto simp: row_of_counts split: if_splits)
next
  case counted
  with assms(2-) show ?thesis by (auto simp: row_of_counts split: if_splits)
next
  case (parked a)
  let ?x = "if r_id r = rid then r\<lparr>r_attempts := Some (the (coalesce (r_attempts r) (Some 0)) + 1),
      r_last_error := Some (take 500 note), r_last_failed_at := Some now\<rparr> else r"
  have k: "r_id r = k" using row_of_Some [OF assms(2)] by simp
  have x: "row_of r_id k (count_attempt now rid (take 500 note) rows) = Some ?x"
    by (simp add: row_of_counts assms(2))
  with parked(4) assms(3) have r': "r' = (if r_id ?x = rid \<and> r_status ?x \<noteq> Verified then ?x\<lparr>r_status := Failed\<rparr> else ?x)"
    by (simp only: row_of_counts(3)) simp
  with assms(4) have rid: "r_id r = rid" and st: "r_status r \<noteq> Verified" "r_status r' = Failed"
    by (auto split: if_splits)
  with parked(2) x k have a: "a = ?x" by simp
  have "?x \<in> set (count_attempt now rid (take 500 note) rows)" using row_of_Some [OF x] by simp
  with rid st have "list_ex (\<lambda>r. r_id r = rid \<and> r_status r \<noteq> Verified) (count_attempt now rid (take 500 note) rows)"
    by (auto simp: list_ex_iff intro!: bexI [of _ ?x])
  with parked rid st k a show ?thesis by simp
qed

definition example_row :: range_row where
  "example_row = (new_range ''7'' 7 7)\<lparr>r_status := Claimed, r_attempts := Some 2\<rparr>"

theorem failure_parks_only_at_cap_witness:
  "fst (record_submission_failure default_config 50 ''7'' ''bad proof'' [example_row]) = Parked
   \<and> \<not> is_env_failure (take 500 ''bad proof'')
   \<and> MAX_ATTEMPTS default_config \<le> the (coalesce (r_attempts example_row) (Some 0)) + 1"
proof -
  let ?r = "record_submission_failure default_config 50 ''7'' ''bad proof'' [example_row]"
  have ev: "?r = (Parked, [example_row\<lparr>r_attempts := Some 3, r_last_error := Some ''bad proof'',
      r_last_failed_at := Some 50, r_status := Failed\<rparr>])"
    by code_simp
  then show ?thesis
    using failure_parks_only_at_cap [of default_config 50 "''7''" "''bad proof''" "[example_row]" "fst ?r" "snd ?r"
        "''7''" example_row "hd (snd ?r)"]
    by (simp add: row_of_def) (simp add: example_row_def new_range_def)
qed

end
