(* ===== verification/Handles.thy ===== *)
theory Handles
  imports Board "HOL-Library.AList"
begin

text \<open>
  Who a request comes from (\<open>coordinator/server.py\<close>): the sliding-window rate limiter, the display
  handle and the names nobody may take, hex keys and signatures, the moderation list and the client
  version note. The lemmas show the limiter's window bound and its eviction to be invisible, that a
  cleaned handle is safe to render, and what \<open>is_hex\<close> accepts.
\<close>

section \<open>The rate limiter\<close>

text \<open>\<open>_rate\<close> is a dict, an association list in insertion order, from (kind, ip) to time stamps.\<close>

type_synonym rate_key = "string \<times> string"
type_synonym rate_map = "(rate_key \<times> time list) list"

definition stamps :: "rate_key \<Rightarrow> rate_map \<Rightarrow> time list" where
  "stamps k m = (case map_of m k of None \<Rightarrow> [] | Some q \<Rightarrow> q)"

definition rate_evict :: "config \<Rightarrow> time \<Rightarrow> rate_map \<Rightarrow> rate_map" where
  "rate_evict cfg now m =
     (if int (length m) > RATE_MAP_MAX cfg
      then filter (\<lambda>(k, v). \<not> (v = [] \<or> now - last v \<ge> RATE_WINDOW cfg)) m else m)"

definition rate_ok :: "config \<Rightarrow> time \<Rightarrow> string \<Rightarrow> string \<Rightarrow> nat \<Rightarrow> rate_map \<Rightarrow> bool \<times> rate_map" where
  "rate_ok cfg now ip kind limit m =
     (if ip \<in> set (RATE_EXEMPT cfg) then (True, m)
      else
        (let m1 = rate_evict cfg now m; key = (kind, ip);
             q = filter (\<lambda>t. now - t < RATE_WINDOW cfg) (stamps key m1)
         in if length q \<ge> limit then (False, AList.update key q m1)
            else (True, AList.update key (q @ [now]) m1)))"

section \<open>Handles\<close>

definition is_printable :: "char \<Rightarrow> bool" where
  "is_printable c = (let k = (of_char c :: nat) in (32 \<le> k \<and> k \<le> 126) \<or> (161 \<le> k \<and> k \<noteq> 173))"

definition is_alnum :: "char \<Rightarrow> bool" where
  "is_alnum c = (let k = (of_char c :: nat) in
     (48 \<le> k \<and> k \<le> 57) \<or> (65 \<le> k \<and> k \<le> 90) \<or> (97 \<le> k \<and> k \<le> 122)
     \<or> k \<in> {170, 178, 179, 181, 185, 186, 188, 189, 190} \<or> (192 \<le> k \<and> k \<noteq> 215 \<and> k \<noteq> 247))"

definition html_char :: "char \<Rightarrow> bool" where
  "html_char c \<longleftrightarrow> c \<in> set ''<>&'' \<or> c = CHR 0x22 \<or> c = CHR 0x27"

definition clean_handle :: "config \<Rightarrow> string \<Rightarrow> nat option \<Rightarrow> string" where
  "clean_handle cfg h cap =
     (let h1 = py_strip (filter (\<lambda>c. is_printable c \<and> \<not> html_char c) (if h = [] then ''anon'' else h));
          n = (case cap of None \<Rightarrow> MAX_HANDLE cfg | Some k \<Rightarrow> if k = 0 then MAX_HANDLE cfg else k);
          h2 = take n h1
      in if h2 = [] then ''anon'' else h2)"

definition handle_reserved :: "config \<Rightarrow> string \<Rightarrow> bool" where
  "handle_reserved cfg h \<longleftrightarrow> filter is_alnum (lower h) \<in> set (HANDLE_DENY cfg)"

text \<open>
  The compatibility forms (NFKC) of the characters up to 255, restricted to what the filter that
  follows can keep: marks, spaces and the fraction slash are not alphanumeric, and the micro sign
  (which becomes the Greek letter) stays a letter of its own.
\<close>

definition nfkc_char :: "char \<Rightarrow> string" where
  "nfkc_char c = (let k = (of_char c :: nat) in
     if k = 170 then ''a'' else if k = 178 then ''2'' else if k = 179 then ''3''
     else if k = 185 then ''1'' else if k = 186 then ''o''
     else if k = 188 then ''14'' else if k = 189 then ''12'' else if k = 190 then ''34''
     else if k \<in> {160, 168, 175, 180, 184} then '' '' else [c])"

definition fold_digit :: "char \<Rightarrow> char" where
  "fold_digit c = (if c = CHR ''0'' then CHR ''o'' else if c = CHR ''5'' then CHR ''s'' else c)"

definition handle_fold :: "string \<Rightarrow> string" where
  "handle_fold h = map fold_digit (filter is_alnum (lower (concat (map nfkc_char h))))"

definition SPONSOR_HANDLE_PREFIX :: string where
  "SPONSOR_HANDLE_PREFIX = ''SPONSOR: ''"

definition sponsor_key_registered :: "board \<Rightarrow> pubkey option \<Rightarrow> bool" where
  "sponsor_key_registered b pk = (case pk of None \<Rightarrow> False
     | Some p \<Rightarrow> p \<noteq> [] \<and> row_of k_pubkey (lower p) (sponsor_keys b) \<noteq> None)"

definition handle_cap :: "config \<Rightarrow> board \<Rightarrow> pubkey option \<Rightarrow> nat" where
  "handle_cap cfg b pk =
     (if sponsor_key_registered b pk
      then max (MAX_HANDLE cfg) (length SPONSOR_HANDLE_PREFIX + SPONSOR_NAME_MAX cfg)
      else MAX_HANDLE cfg)"

definition handle_refused :: "config \<Rightarrow> board \<Rightarrow> string \<Rightarrow> pubkey option \<Rightarrow> bool" where
  "handle_refused cfg b h pk \<longleftrightarrow>
     handle_reserved cfg h \<or> (prefixed ''sponsor'' (handle_fold h) \<and> \<not> sponsor_key_registered b pk)"

section \<open>Hex and signatures\<close>

definition hex_val :: "char \<Rightarrow> nat option" where
  "hex_val c = (let k = (of_char c :: nat) in
     if 48 \<le> k \<and> k \<le> 57 then Some (k - 48)
     else if 65 \<le> k \<and> k \<le> 70 then Some (k - 55)
     else if 97 \<le> k \<and> k \<le> 102 then Some (k - 87) else None)"

definition ascii_space :: "char \<Rightarrow> bool" where
  "ascii_space c = (let k = (of_char c :: nat) in (9 \<le> k \<and> k \<le> 13) \<or> k = 32)"

text \<open>\<open>bytes.fromhex\<close>: pairs of digits, ASCII white space allowed before and between the pairs.\<close>

fun fromhex :: "string \<Rightarrow> string option" where
  "fromhex [] = Some []"
| "fromhex [c] = (if ascii_space c then Some [] else None)"
| "fromhex (c # d # s) =
     (if ascii_space c then fromhex (d # s)
      else case (hex_val c, hex_val d) of
             (Some a, Some b) \<Rightarrow> map_option ((#) (char_of (16 * a + b))) (fromhex s)
           | _ \<Rightarrow> None)"

definition is_hex :: "string \<Rightarrow> nat \<Rightarrow> bool" where
  "is_hex s nbytes \<longleftrightarrow> length s = nbytes * 2 \<and> fromhex s \<noteq> None"

definition verify_sig :: "config \<Rightarrow> world \<Rightarrow> string \<Rightarrow> string \<Rightarrow> string \<Rightarrow> bool" where
  "verify_sig cfg w pubkey_hex sig_hex msg =
     (if \<not> HAVE_ED cfg then ALLOW_UNSIGNED cfg
      else case (fromhex pubkey_hex, fromhex sig_hex) of
             (Some pk, Some sig) \<Rightarrow> w_ed25519 w pk sig msg
           | _ \<Rightarrow> False)"

section \<open>The moderation list and the client version\<close>

text \<open>Text-mode line ends, then one stripped lower-case key per line that is no comment.\<close>

fun universal_newlines :: "string \<Rightarrow> string" where
  "universal_newlines [] = []"
| "universal_newlines (c # s) =
     (if c = CHR 0x0D
      then (case s of d # t \<Rightarrow> if d = CHR 0x0A then universal_newlines s else CHR 0x0A # universal_newlines s
                    | [] \<Rightarrow> [CHR 0x0A])
      else c # universal_newlines s)"

definition blocked_pubkeys :: "string option \<Rightarrow> string list" where
  "blocked_pubkeys f = (case f of None \<Rightarrow> []
     | Some txt \<Rightarrow> map (\<lambda>l. lower (py_strip l))
         (filter (\<lambda>l. py_strip l \<noteq> [] \<and> \<not> prefixed ''#'' l) (py_split (CHR 0x0A) (universal_newlines txt))))"

definition note_client_version :: "time \<Rightarrow> pubkey \<Rightarrow> string option \<Rightarrow> board \<Rightarrow> board" where
  "note_client_version now pk v b = (case v of None \<Rightarrow> b
     | Some s \<Rightarrow> if s = [] then b else b\<lparr>contributors := upd_where (\<lambda>r. c_pubkey r = pk)
         (\<lambda>r. r\<lparr>c_last_version := Some (take 32 s), c_last_version_at := Some now\<rparr>) (contributors b)\<rparr>)"

section \<open>Lemmas on the limiter\<close>

definition in_window :: "config \<Rightarrow> time \<Rightarrow> time \<Rightarrow> bool" where
  "in_window cfg now t \<longleftrightarrow> now - t < RATE_WINDOW cfg"

text \<open>
  The calls that \<open>rate_ok\<close> let through, in order; \<open>budget\<close> gives each kind of call its budget.
\<close>

type_synonym rate_call = "time \<times> string \<times> string"

fun rate_trace :: "config \<Rightarrow> (string \<Rightarrow> nat) \<Rightarrow> rate_call list \<Rightarrow> rate_map \<Rightarrow> rate_call list" where
  "rate_trace cfg budget [] m = []"
| "rate_trace cfg budget ((now, ip, kind) # cs) m =
     (let (ok, m') = rate_ok cfg now ip kind (budget kind) m
      in (if ok then [(now, ip, kind)] else []) @ rate_trace cfg budget cs m')"

definition rate_wf :: "time \<Rightarrow> rate_map \<Rightarrow> bool" where
  "rate_wf t0 m \<longleftrightarrow> distinct (map fst m) \<and> (\<forall>(k, q) \<in> set m. sorted q \<and> (\<forall>t \<in> set q. t \<le> t0))"

lemma stamps_wf: "rate_wf t0 m \<Longrightarrow> sorted (stamps k m) \<and> (\<forall>t \<in> set (stamps k m). t \<le> t0)"
  by (auto simp: stamps_def rate_wf_def split: option.split dest!: map_of_SomeD)

lemma stamps_update: "stamps k (AList.update k' q m) = (if k = k' then q else stamps k m)"
  by (simp add: stamps_def AList.update_conv')

lemma set_update: "set (AList.update k q m) \<subseteq> insert (k, q) (set m)"
  by (induction m) (auto split: if_splits)

lemma rate_wf_update:
  "rate_wf t0 m \<Longrightarrow> sorted q \<Longrightarrow> (\<And>t. t \<in> set q \<Longrightarrow> t \<le> t0) \<Longrightarrow> rate_wf t0 (AList.update k q m)"
  using set_update [of k q m] unfolding rate_wf_def by (auto simp: AList.distinct_update dest!: subsetD)

lemma rate_wf_mono: "rate_wf t0 m \<Longrightarrow> t0 \<le> t1 \<Longrightarrow> rate_wf t1 m"
  unfolding rate_wf_def by fastforce

lemma rate_wf_evict: "rate_wf t0 m \<Longrightarrow> rate_wf t0 (rate_evict cfg now m)"
  by (auto simp: rate_wf_def rate_evict_def distinct_map intro: inj_on_subset)

lemma aged_all:
  "sorted q \<Longrightarrow> q \<noteq> [] \<Longrightarrow> now - last q \<ge> RATE_WINDOW cfg \<Longrightarrow> now \<le> n \<Longrightarrow> filter (in_window cfg n) q = []"
proof (induction q rule: rev_induct)
  case (snoc x q)
  then show ?case by (force simp: sorted_append in_window_def filter_empty_conv)
qed simp

text \<open>Eviction only forgets stamps that no later window can contain.\<close>

lemma evict_window:
  assumes "rate_wf t0 m" "now \<le> n"
  shows "filter (in_window cfg n) (stamps k (rate_evict cfg now m)) = filter (in_window cfg n) (stamps k m)"
proof (cases "map_of m k")
  case None
  then have "map_of (rate_evict cfg now m) k = None"
    by (auto simp: rate_evict_def map_of_eq_None_iff)
  with None show ?thesis by (simp add: stamps_def)
next
  case (Some q)
  then have mem: "(k, q) \<in> set m" by (rule map_of_SomeD)
  from assms(1) have d: "distinct (map fst m)" and sq: "sorted q"
    using mem by (auto simp: rate_wf_def)
  have d': "distinct (map fst (rate_evict cfg now m))"
    using rate_wf_evict [OF assms(1)] by (simp add: rate_wf_def)
  show ?thesis
  proof (cases "(k, q) \<in> set (rate_evict cfg now m)")
    case True
    with d' Some show ?thesis by (simp add: stamps_def map_of_is_SomeI)
  next
    case False
    with mem have gone: "q = [] \<or> now - last q \<ge> RATE_WINDOW cfg"
      by (auto simp: rate_evict_def split: if_splits)
    have "map_of (rate_evict cfg now m) k = None"
    proof (rule ccontr)
      assume "map_of (rate_evict cfg now m) k \<noteq> None"
      then obtain q' where q': "(k, q') \<in> set (rate_evict cfg now m)" by (auto dest: map_of_SomeD)
      then have "(k, q') \<in> set m" by (auto simp: rate_evict_def split: if_splits)
      with d mem have "q' = q" by (metis map_of_is_SomeI option.inject)
      with q' False show False by simp
    qed
    with Some gone sq aged_all [of q cfg now n] assms(2) show ?thesis
      by (cases "q = []") (auto simp: stamps_def)
  qed
qed

definition key_stamps :: "string \<Rightarrow> string \<Rightarrow> rate_call list \<Rightarrow> time list" where
  "key_stamps ip kind cs = map fst (filter (\<lambda>(t, i, k). i = ip \<and> k = kind) cs)"

definition window_count :: "config \<Rightarrow> time \<Rightarrow> time list \<Rightarrow> nat" where
  "window_count cfg T ts = length (filter (\<lambda>t. in_window cfg T t \<and> t \<le> T) ts)"

lemma rate_ok_unfold:
  assumes "ip \<notin> set (RATE_EXEMPT cfg)" "rate_ok cfg now ip kind n m = (ok, m')"
    and q: "q = filter (in_window cfg now) (stamps (kind, ip) (rate_evict cfg now m))"
  shows "ok \<longleftrightarrow> length q < n"
    and "m' = AList.update (kind, ip) (if ok then q @ [now] else q) (rate_evict cfg now m)"
  using assms(1,2) unfolding q
  by (auto simp: rate_ok_def Let_def in_window_def [abs_def] split: if_splits)

lemma rate_ok_step:
  assumes wf: "rate_wf t0 m" and le: "t0 \<le> now" and rs: "rate_ok cfg now ip' kind' n m = (ok, m')"
  shows "rate_wf now m'"
    and "ip \<notin> set (RATE_EXEMPT cfg) \<Longrightarrow> now \<le> u \<Longrightarrow>
      filter (in_window cfg u) (stamps (kind, ip) m') =
      filter (in_window cfg u) (stamps (kind, ip) m @ (if ok \<and> ip = ip' \<and> kind = kind' then [now] else []))"
proof -
  let ?e = "rate_evict cfg now m"
  let ?q = "filter (in_window cfg now) (stamps (kind', ip') ?e)"
  have wfe: "rate_wf now ?e" by (rule rate_wf_evict [OF rate_wf_mono [OF wf le]])
  from stamps_wf [OF this, of "(kind', ip')"]
  have q: "sorted ?q" "\<And>t. t \<in> set ?q \<Longrightarrow> t \<le> now"
    by (auto intro: sorted_wrt_filter)
  show "rate_wf now m'"
  proof (cases "ip' \<in> set (RATE_EXEMPT cfg)")
    case True
    with rs rate_wf_mono [OF wf le] show ?thesis by (simp add: rate_ok_def)
  next
    case False
    from rate_ok_unfold(2) [OF this rs refl] q show ?thesis
      by (auto intro!: rate_wf_update [OF wfe] simp: sorted_append split: if_splits)
  qed
  show "filter (in_window cfg u) (stamps (kind, ip) m') =
      filter (in_window cfg u) (stamps (kind, ip) m @ (if ok \<and> ip = ip' \<and> kind = kind' then [now] else []))"
    if ip: "ip \<notin> set (RATE_EXEMPT cfg)" and u: "now \<le> u"
  proof (cases "ip' \<in> set (RATE_EXEMPT cfg)")
    case True
    with rs ip show ?thesis by (auto simp: rate_ok_def)
  next
    case False
    have keep: "filter (in_window cfg u) (filter (in_window cfg now) ts) = filter (in_window cfg u) ts" for ts
      using u by (auto simp: in_window_def intro!: filter_cong)
    show ?thesis
      unfolding rate_ok_unfold(2) [OF False rs refl] using keep evict_window [OF wf u, of cfg]
      by (auto simp: stamps_update simp del: filter_filter)
  qed
qed

lemma window_mono: "window_count cfg T ts \<le> window_count cfg T (ts @ us)"
  by (simp add: window_count_def)

lemma trace_window:
  assumes "ip \<notin> set (RATE_EXEMPT cfg)" "rate_wf t0 m" "sorted (t0 # map fst calls)"
    and "\<And>u. t0 \<le> u \<Longrightarrow> filter (in_window cfg u) (stamps (kind, ip) m) = filter (in_window cfg u) acc"
    and "\<And>t. t \<in> set acc \<Longrightarrow> t \<le> t0" and "\<And>T. window_count cfg T acc \<le> budget kind"
  shows "window_count cfg T (acc @ key_stamps ip kind (rate_trace cfg budget calls m)) \<le> budget kind"
  using assms(2-)
proof (induction calls arbitrary: t0 m acc)
  case Nil
  then show ?case by (simp add: key_stamps_def)
next
  case (Cons c calls)
  obtain now ip' kind' where c: "c = (now, ip', kind')" by (cases c) auto
  obtain ok m' where rs: "rate_ok cfg now ip' kind' (budget kind') m = (ok, m')" by force
  let ?hit = "ok \<and> ip = ip' \<and> kind = kind'"
  let ?acc = "acc @ (if ?hit then [now] else [])"
  have le: "t0 \<le> now" and srt: "sorted (now # map fst calls)" using Cons.prems(2) c by auto
  note st = rate_ok_step [OF Cons.prems(1) le rs]
  have mem: "t \<le> now" if "t \<in> set ?acc" for t
    using that Cons.prems(4) le by (auto split: if_splits dest: order_trans)
  have win: "window_count cfg T ?acc \<le> budget kind" for T
  proof (cases "?hit \<and> now \<le> T")
    case True
    then have hit: ?hit and T: "now \<le> T" by auto
    have "length (filter (in_window cfg now) acc) < budget kind"
      using rate_ok_unfold(1) [OF assms(1) _ refl, of now kind "budget kind" m] hit rs
        evict_window [OF Cons.prems(1), of now now cfg "(kind, ip)"] Cons.prems(3) [OF le] by simp
    moreover have "length (filter (\<lambda>t. in_window cfg T t \<and> t \<le> T) acc) \<le> length (filter (in_window cfg now) acc)"
      using T by (intro length_filter_imp) (auto simp: in_window_def)
    ultimately show ?thesis using hit by (simp add: window_count_def)
  next
    case False
    then show ?thesis using Cons.prems(5) [of T] by (auto simp: window_count_def)
  qed
  have "window_count cfg T (?acc @ key_stamps ip kind (rate_trace cfg budget calls m')) \<le> budget kind"
  proof (rule Cons.IH [OF st(1) srt _ mem win])
    show "filter (in_window cfg u) (stamps (kind, ip) m') = filter (in_window cfg u) ?acc" if "now \<le> u" for u
      using st(2) [OF assms(1) that, of kind] Cons.prems(3) [of u] that le by simp
  qed
  moreover have "acc @ key_stamps ip kind (rate_trace cfg budget (c # calls) m)
      = ?acc @ key_stamps ip kind (rate_trace cfg budget calls m')"
    by (auto simp: c rs key_stamps_def)
  ultimately show ?case by simp
qed

section \<open>Lemmas on handles and hex\<close>

lemma set_py_strip: "set (py_strip s) \<subseteq> set s"
  by (auto simp: py_strip_def dest!: set_dropWhileD)

lemma py_strip_hd: "py_strip s \<noteq> [] \<Longrightarrow> \<not> is_space (hd (py_strip s))"
proof -
  assume ne: "py_strip s \<noteq> []"
  let ?t = "dropWhile is_space s" and ?d = "dropWhile is_space (rev (dropWhile is_space s))"
  obtain u where u: "rev ?t = u @ ?d" by (metis takeWhile_dropWhile_id)
  then have t: "?t = rev ?d @ rev u" by (metis rev_append rev_rev_ident)
  have "rev ?d \<noteq> []" using ne by (simp add: py_strip_def)
  then have h: "hd (rev ?d @ rev u) = hd (rev ?d)" "rev ?d @ rev u \<noteq> []" by (simp_all only: hd_append) auto
  have "?t \<noteq> []" "hd ?t = hd (rev ?d)" using h t by argo+
  then show ?thesis using hd_dropWhile [of is_space s] by (simp add: py_strip_def)
qed

lemma fromhex_length:
  "fromhex s = Some bs \<Longrightarrow> \<not> list_ex ascii_space s \<Longrightarrow> length s = 2 * length bs"
  by (induction s arbitrary: bs rule: fromhex.induct) (auto split: option.splits if_splits)

lemma fromhex_digits:
  "\<not> list_ex ascii_space s \<Longrightarrow> fromhex s = Some bs \<Longrightarrow> list_all (\<lambda>c. hex_val c \<noteq> None) s"
  by (induction s arbitrary: bs rule: fromhex.induct) (auto split: option.splits if_splits)

lemma fromhex_blank: "list_all ascii_space s \<Longrightarrow> fromhex s = Some []"
  by (induction s rule: fromhex.induct) auto

lemma is_hex_replicate:
  assumes "hex_val c = Some v" "\<not> ascii_space c"
  shows "is_hex (replicate (2 * n) c) n" and "fromhex (replicate (2 * n) c) = Some (replicate n (char_of (16 * v + v)))"
proof -
  have "fromhex (replicate (2 * n) c) = Some (replicate n (char_of (16 * v + v)))" for n
    using assms by (induction n) simp_all
  then show "is_hex (replicate (2 * n) c) n"
      "fromhex (replicate (2 * n) c) = Some (replicate n (char_of (16 * v + v)))"
    by (simp_all add: is_hex_def)
qed

section \<open>Properties\<close>

text \<open>
  Claim C30. The limiter keeps its promise over every sliding window: in any run of calls from the
  empty map whose clock does not go back, with any other clients interleaved and any number of
  evictions, the calls of one client and kind let through in a window \<open>(T - RATE_WINDOW, T]\<close> are at
  most its budget.
\<close>

theorem rate_window_bound:
  assumes "ip \<notin> set (RATE_EXEMPT cfg)" and "sorted (map fst calls)"
  shows "window_count cfg T (key_stamps ip kind (rate_trace cfg budget calls [])) \<le> budget kind"
proof (cases calls)
  case Nil
  then show ?thesis by (simp add: window_count_def key_stamps_def)
next
  case (Cons c cs)
  have "window_count cfg T ([] @ key_stamps ip kind (rate_trace cfg budget calls [])) \<le> budget kind"
    by (rule trace_window [OF assms(1), of "fst c"])
      (use Cons assms(2) in \<open>auto simp: rate_wf_def stamps_def window_count_def\<close>)
  then show ?thesis by simp
qed

theorem rate_window_bound_witness:
  "window_count default_config 70 (key_stamps ''a'' ''w''
      (rate_trace default_config (\<lambda>_. 2)
         [(0, ''a'', ''w''), (5, ''b'', ''w''), (20, ''a'', ''w''), (30, ''a'', ''w''), (61, ''a'', ''w'')] [])) \<le> 2
   \<and> key_stamps ''a'' ''w'' (rate_trace default_config (\<lambda>_. 2)
         [(0, ''a'', ''w''), (5, ''b'', ''w''), (20, ''a'', ''w''), (30, ''a'', ''w''), (61, ''a'', ''w'')] []) = [0, 20, 61]"
  using rate_window_bound [of "''a''" default_config
      "[(0, ''a'', ''w''), (5, ''b'', ''w''), (20, ''a'', ''w''), (30, ''a'', ''w''), (61, ''a'', ''w'')]"
      70 "''w''" "\<lambda>_. 2"]
  by simp (simp add: rate_ok_def rate_evict_def stamps_def key_stamps_def Let_def)

text \<open>
  Whatever arrives as a handle, what is stored is safe to show: never empty, no
  character that is not printable, none of the HTML-significant characters, no leading white space,
  and never longer than the cap in force (or the four letters of \<open>anon\<close>).
\<close>

theorem clean_handle_safe:
  fixes cfg :: config
  defines "n cap \<equiv> case cap of None \<Rightarrow> MAX_HANDLE cfg | Some k \<Rightarrow> if k = 0 then MAX_HANDLE cfg else k"
  shows "clean_handle cfg h cap \<noteq> [] \<and> list_all (\<lambda>c. is_printable c \<and> \<not> html_char c) (clean_handle cfg h cap)
    \<and> \<not> is_space (hd (clean_handle cfg h cap)) \<and> length (clean_handle cfg h cap) \<le> max 4 (n cap)"
proof -
  let ?f = "filter (\<lambda>c. is_printable c \<and> \<not> html_char c) (if h = [] then ''anon'' else h)"
  have c: "clean_handle cfg h cap = (if take (n cap) (py_strip ?f) = [] then ''anon'' else take (n cap) (py_strip ?f))"
    by (simp add: clean_handle_def n_def Let_def)
  have "set (take (n cap) (py_strip ?f)) \<subseteq> set ?f"
    using set_py_strip [of ?f] set_take_subset by fast
  then have "list_all (\<lambda>c. is_printable c \<and> \<not> html_char c) (take (n cap) (py_strip ?f))"
    by (auto simp: list_all_iff)
  moreover have "list_all (\<lambda>c. is_printable c \<and> \<not> html_char c) ''anon''"
    by (simp add: is_printable_def html_char_def)
  moreover have "\<not> is_space (hd (take (n cap) (py_strip ?f)))" if "take (n cap) (py_strip ?f) \<noteq> []"
    using that py_strip_hd [of ?f] by (cases "py_strip ?f") (auto simp: take_Cons split: nat.splits)
  ultimately show ?thesis unfolding c by (auto simp: is_space_def)
qed

text \<open>
  Without white space \<open>is_hex s n\<close> is what its comment says: exactly \<open>2 n\<close> hex digits, that
  decode to \<open>n\<close> bytes. But \<open>bytes.fromhex\<close> skips white space, so a string of \<open>2 n\<close> blanks passes too
  and decodes to no byte at all.
\<close>

theorem is_hex_exact:
  "(\<not> list_ex ascii_space s \<longrightarrow> is_hex s n \<longrightarrow>
      length s = 2 * n \<and> list_all (\<lambda>c. hex_val c \<noteq> None) s \<and> map_option length (fromhex s) = Some n)
   \<and> (length s = 2 * n \<and> list_all ascii_space s \<longrightarrow> is_hex s n \<and> fromhex s = Some [])"
  using fromhex_length [of s] fromhex_digits [of s] fromhex_blank [of s]
  by (auto simp: is_hex_def)

theorem is_hex_exact_witness:
  "map_option length (fromhex ''00ffA9'') = Some 3 \<and> is_hex ''      '' 3 \<and> fromhex ''      '' = Some []"
  using is_hex_exact [of "''00ffA9''" 3] is_hex_exact [of "''      ''" 3]
  by (simp add: is_hex_def ascii_space_def hex_val_def)

text \<open>
  A signature check fails closed: without the library only the explicit developer switch
  lets a message pass, and with it a key or a signature that is not hex never does; whatever passes was
  accepted by the library on the decoded bytes.
\<close>

theorem verify_sig_closed:
  "verify_sig cfg w pk sig msg =
     ((HAVE_ED cfg \<and> (\<exists>p s. fromhex pk = Some p \<and> fromhex sig = Some s \<and> w_ed25519 w p s msg))
      \<or> (\<not> HAVE_ED cfg \<and> ALLOW_UNSIGNED cfg))"
  by (auto simp: verify_sig_def split: option.split)

end
