(* ===== verification/Rotation.thy ===== *)
theory Rotation
  imports Handles
begin

text \<open>
  Key rotation (\<open>coordinator/server.py\<close>: \<open>rotate_message\<close>, \<open>rotation_map\<close>, \<open>resolve_pubkey\<close>,
  \<open>rotate\<close>). A rotation is an edge from an old key to a new one, signed by both; attribution follows
  the edges when it is read. The lemmas show what an accepted rotation needed, what it changes, that
  following the edges ends at a head, and when the graph stays free of cycles.
\<close>

definition rotate_message :: "pubkey \<Rightarrow> pubkey \<Rightarrow> rat \<Rightarrow> string" where
  "rotate_message old new ts =
     ''hazync-rotate-v1:'' @ lower old @ '':'' @ lower new @ '':'' @ int_str (py_trunc ts)"

definition rotation_map :: "board \<Rightarrow> pubkey \<Rightarrow> pubkey option" where
  "rotation_map b k = map_option ro_new (row_of ro_old k (rotations b))"

text \<open>The loop of \<open>resolve_pubkey\<close>, bounded by \<open>ROTATE_MAX_DEPTH\<close> and by the keys already seen.\<close>

fun follow :: "nat \<Rightarrow> (pubkey \<Rightarrow> pubkey option) \<Rightarrow> pubkey list \<Rightarrow> pubkey \<Rightarrow> pubkey" where
  "follow 0 m seen cur = cur"
| "follow (Suc n) m seen cur =
     (case m cur of None \<Rightarrow> cur
      | Some nxt \<Rightarrow> if nxt \<in> set seen then cur else follow n m (nxt # seen) nxt)"

definition resolve_pubkey :: "config \<Rightarrow> (pubkey \<Rightarrow> pubkey option) \<Rightarrow> pubkey option \<Rightarrow> pubkey" where
  "resolve_pubkey cfg m pk =
     (let cur = lower (case pk of None \<Rightarrow> [] | Some p \<Rightarrow> p) in follow (ROTATE_MAX_DEPTH cfg) m [cur] cur)"

section \<open>The request\<close>

text \<open>A field that is missing or \<open>null\<close> is None; \<open>rb_ts\<close> is the finite value of \<open>float(ts)\<close>.\<close>

record rotate_body =
  rb_old :: "string option"
  rb_new :: "string option"
  rb_sig_old :: string
  rb_sig_new :: string
  rb_ts :: "rat option"
  rb_handle :: "string option"

datatype rotate_error = SwitchedOff | KeysNotHex | SigsNotHex | KeysRequired | SameKey | TsRequired
  | Skewed | OldSigInvalid | NewSigInvalid | Moderated | AlreadyRotated pubkey | WouldCycle | HandleTaken

record rotate_ok =
  ok_old :: pubkey
  ok_new :: pubkey
  ok_resolved :: pubkey
  ok_handle :: string

definition rotate_check :: "config \<Rightarrow> world \<Rightarrow> string list \<Rightarrow> rotate_body \<Rightarrow>
    rotate_error + (pubkey \<times> pubkey \<times> rat)" where
  "rotate_check cfg w blk body =
     (let old = lower (py_strip (or_empty (rb_old body))); new = lower (py_strip (or_empty (rb_new body)));
          s_old = rb_sig_old body; s_new = rb_sig_new body in
      if \<not> ROTATE_ENABLED cfg then Inl SwitchedOff
      else if HAVE_ED cfg \<and> (\<not> is_hex old 32 \<or> \<not> is_hex new 32) then Inl KeysNotHex
      else if HAVE_ED cfg \<and> (\<not> is_hex s_old 64 \<or> \<not> is_hex s_new 64) then Inl SigsNotHex
      else if old = [] \<or> new = [] then Inl KeysRequired
      else if old = new then Inl SameKey
      else case rb_ts body of None \<Rightarrow> Inl TsRequired | Some ts \<Rightarrow>
        if abs (w_now w - ts) > ROTATE_MAX_SKEW cfg then Inl Skewed
        else if \<not> verify_sig cfg w old s_old (rotate_message old new ts) then Inl OldSigInvalid
        else if \<not> verify_sig cfg w new s_new (rotate_message old new ts) then Inl NewSigInvalid
        else if old \<in> set blk \<or> new \<in> set blk then Inl Moderated
        else Inr (old, new, ts))"

definition new_contributor :: "pubkey \<Rightarrow> string option \<Rightarrow> time \<Rightarrow> contributor" where
  "new_contributor pk h now = \<lparr> c_pubkey = pk, c_handle = h, c_blocks = 0, c_first_seen = Some now,
     c_last_version = None, c_last_version_at = None \<rparr>"

text \<open>
  The handler. Everything from the rotation map on runs under the lock; a reserved handle closes the
  connection without a commit, which drops the row inserted before it.
\<close>

definition rotate :: "config \<Rightarrow> world \<Rightarrow> string list \<Rightarrow> rotate_body \<Rightarrow> board \<Rightarrow>
    (rotate_error + rotate_ok) \<times> board" where
  "rotate cfg w blk body b =
     (case rotate_check cfg w blk body of
        Inl e \<Rightarrow> (Inl e, b)
      | Inr (old, new, ts) \<Rightarrow>
          (case rotation_map b old of
             Some k \<Rightarrow> (Inl (AlreadyRotated k), b)
           | None \<Rightarrow>
               if resolve_pubkey cfg (rotation_map b) (Some new) = old then (Inl WouldCycle, b)
               else
                 (let row = \<lparr> ro_old = old, ro_new = new, ro_msg_ts = ts, ro_sig_old = rb_sig_old body,
                              ro_sig_new = rb_sig_new body, ro_created = w_now w \<rparr>;
                      h0 = or_empty (rb_handle body);
                      h1 = (if h0 = [] then (case row_of c_pubkey old (contributors b) of None \<Rightarrow> []
                                             | Some r \<Rightarrow> or_empty (c_handle r)) else h0);
                      h = clean_handle cfg h1 (Some (handle_cap cfg b (Some new)))
                  in if handle_refused cfg b h (Some new) then (Inl HandleTaken, b)
                     else
                       (let b' = b\<lparr>rotations := rotations b @ [row],
                                   contributors := ins_ignore c_pubkey (new_contributor new (Some h) (w_now w))
                                     (contributors b)\<rparr>
                        in (Inr \<lparr> ok_old = old, ok_new = new,
                                  ok_resolved = resolve_pubkey cfg (rotation_map b') (Some old),
                                  ok_handle = h \<rparr>, b')))))"

section \<open>Lemmas\<close>

definition edges :: "(pubkey \<Rightarrow> pubkey option) \<Rightarrow> (pubkey \<times> pubkey) set" where
  "edges m = {(a, c). m a = Some c}"

lemma edges_iff [simp]: "(a, c) \<in> edges m \<longleftrightarrow> m a = Some c"
  by (simp add: edges_def)

lemma lower_char_idem: "lower_char (lower_char c) = lower_char c"
  by (auto simp: lower_char_def Let_def of_char_of take_bit_eq_mod)

lemma lower_lower [simp]: "lower (lower s) = lower s"
  by (simp add: lower_def lower_char_idem)

lemma follow_stop: "m cur = None \<Longrightarrow> follow n m seen cur = cur"
  by (cases n) auto

lemma resolve_no_rotation: "rotations b = [] \<Longrightarrow> resolve_pubkey cfg (rotation_map b) pk = lower (or_empty pk)"
  by (simp add: resolve_pubkey_def or_empty_def rotation_map_def row_of_def follow_stop Let_def)

lemma follow_reaches: "(cur, follow n m seen cur) \<in> (edges m)\<^sup>*"
  by (induction n m seen cur rule: follow.induct)
    (auto split: option.split intro: converse_rtrancl_into_rtrancl)

lemma follow_head:
  assumes "acyclic (edges m)" "(cur, z) \<in> edges m ^^ k" "k \<le> n" "m z = None"
    and "\<And>s. s \<in> set seen \<Longrightarrow> (s, cur) \<in> (edges m)\<^sup>*"
  shows "follow n m seen cur = z"
  using assms
proof (induction n m seen cur arbitrary: k rule: follow.induct)
  case (1 m seen cur)
  then show ?case by simp
next
  case (2 n m seen cur)
  show ?case
  proof (cases k)
    case 0
    with 2 show ?thesis by simp
  next
    case (Suc j)
    with "2.prems"(2) obtain nxt where nxt: "m cur = Some nxt" "(nxt, z) \<in> edges m ^^ j"
      by (metis edges_iff relpow_Suc_E2)
    have new: "nxt \<notin> set seen"
    proof
      assume "nxt \<in> set seen"
      with "2.prems"(5) have "(nxt, cur) \<in> (edges m)\<^sup>*" by blast
      with nxt(1) have "(nxt, nxt) \<in> (edges m)\<^sup>+" by (meson edges_iff rtrancl_into_trancl1)
      with "2.prems"(1) show False by (simp add: acyclic_def)
    qed
    have "follow n m (nxt # seen) nxt = z"
    proof (rule "2.IH" [OF nxt(1) new "2.prems"(1) nxt(2)])
      show "(s, nxt) \<in> (edges m)\<^sup>*" if "s \<in> set (nxt # seen)" for s
        using that "2.prems"(5) nxt(1) by (auto intro: rtrancl_into_rtrancl [of _ cur])
    qed (use Suc "2.prems" in auto)
    with nxt(1) new show ?thesis by simp
  qed
qed

lemma resolve_head:
  assumes "acyclic (edges m)" "(lower pk, z) \<in> edges m ^^ k" "k \<le> ROTATE_MAX_DEPTH cfg" "m z = None"
  shows "resolve_pubkey cfg m (Some pk) = z"
  unfolding resolve_pubkey_def Let_def option.case
  by (rule follow_head [OF assms]) auto

text \<open>Accepting a rotation adds one edge from a key that had none.\<close>

lemma rotate_Inr:
  assumes "rotate cfg w blk body b = (Inr r, b')"
  obtains ts where "rotate_check cfg w blk body = Inr (ok_old r, ok_new r, ts)"
    and "rotation_map b (ok_old r) = None"
    and "resolve_pubkey cfg (rotation_map b) (Some (ok_new r)) \<noteq> ok_old r"
    and "rotation_map b' = (rotation_map b)(ok_old r \<mapsto> ok_new r)"
    and "\<exists>row. rotations b' = rotations b @ [row] \<and> ro_old row = ok_old r \<and> ro_new row = ok_new r"
    and "vranges b' = vranges b" and "submissions b' = submissions b" and "ranges b' = ranges b"
    and "ok_resolved r = resolve_pubkey cfg (rotation_map b') (Some (ok_old r))"
proof -
  from assms obtain old new ts where chk: "rotate_check cfg w blk body = Inr (old, new, ts)"
    by (auto simp: rotate_def split: sum.splits)
  with assms have none: "rotation_map b old = None"
    by (auto simp: rotate_def split: option.splits)
  then have row: "row_of ro_old old (rotations b) = None" by (simp add: rotation_map_def)
  have map': "rotation_map (b\<lparr>rotations := rotations b @ [x], contributors := y\<rparr>)
      = (rotation_map b)(old \<mapsto> new)" if "ro_old x = old" "ro_new x = new" for x y
    using that row by (auto simp: rotation_map_def row_of_def find_append fun_eq_iff split: option.split)
  show ?thesis
    by (rule that [of ts])
      (use assms chk none map' in \<open>auto simp: rotate_def Let_def split: if_splits\<close>)
qed

lemma rotate_check_Inr:
  assumes "rotate_check cfg w blk body = Inr (old, new, ts)"
  shows "ROTATE_ENABLED cfg" and "old \<noteq> new" and "old \<noteq> []" and "new \<noteq> []"
    and "verify_sig cfg w old (rb_sig_old body) (rotate_message old new ts)"
    and "verify_sig cfg w new (rb_sig_new body) (rotate_message old new ts)"
    and "abs (w_now w - ts) \<le> ROTATE_MAX_SKEW cfg"
    and "old \<notin> set blk" and "new \<notin> set blk" and "lower old = old" and "lower new = new"
  using assms by (auto simp: rotate_check_def Let_def split: if_splits option.splits)

section \<open>Properties\<close>

text \<open>
  A rotation happens only with the consent of both keys and while rotation is switched on:
  each signed the same fresh message naming old and new, neither is on the moderation list, and the
  old key had not rotated before. It rewrites no history: one edge is appended, the ledger of ranges,
  proofs and submissions stays as it was, and a refused request changes nothing at all.
\<close>

theorem rotate_authorised:
  assumes "rotate cfg w blk body b = (res, b')"
  shows "case res of
      Inl e \<Rightarrow> b' = b
    | Inr r \<Rightarrow> (\<exists>ts. abs (w_now w - ts) \<le> ROTATE_MAX_SKEW cfg
          \<and> verify_sig cfg w (ok_old r) (rb_sig_old body) (rotate_message (ok_old r) (ok_new r) ts)
          \<and> verify_sig cfg w (ok_new r) (rb_sig_new body) (rotate_message (ok_old r) (ok_new r) ts))
        \<and> ROTATE_ENABLED cfg \<and> ok_old r \<noteq> ok_new r \<and> ok_old r \<notin> set blk \<and> ok_new r \<notin> set blk
        \<and> rotation_map b (ok_old r) = None
        \<and> rotation_map b' = (rotation_map b)(ok_old r \<mapsto> ok_new r)
        \<and> vranges b' = vranges b \<and> submissions b' = submissions b \<and> ranges b' = ranges b"
proof (cases res)
  case (Inl e)
  with assms show ?thesis by (auto simp: rotate_def Let_def split: sum.splits option.splits if_splits)
next
  case (Inr r)
  from rotate_Inr [OF assms [unfolded Inr]] obtain ts
    where ts: "rotate_check cfg w blk body = Inr (ok_old r, ok_new r, ts)"
      and "rotation_map b (ok_old r) = None" "rotation_map b' = (rotation_map b)(ok_old r \<mapsto> ok_new r)"
        "vranges b' = vranges b" "submissions b' = submissions b" "ranges b' = ranges b"
    by metis
  with rotate_check_Inr [OF ts] Inr show ?thesis by auto
qed

definition rotate_config :: config where
  "rotate_config = default_config\<lparr>ROTATE_ENABLED := True, HAVE_ED := False, ALLOW_UNSIGNED := True\<rparr>"

definition rotate_request :: "string \<Rightarrow> string \<Rightarrow> rotate_body" where
  "rotate_request old new = \<lparr> rb_old = Some old, rb_new = Some new, rb_sig_old = [], rb_sig_new = [],
     rb_ts = Some 1000, rb_handle = None \<rparr>"

theorem rotate_authorised_witness:
  "verify_sig rotate_config example_world ''a'' [] (rotate_message ''a'' ''b'' 1000)
   \<and> rotation_map (snd (rotate rotate_config example_world [] (rotate_request ''A'' ''b'') empty_board)) ''a'' = Some ''b''"
proof -
  let ?r = "rotate rotate_config example_world [] (rotate_request ''A'' ''b'') empty_board"
  have "map_sum (\<lambda>e. e) (\<lambda>r. (ok_old r, ok_new r)) (fst ?r) = Inr (''a'', ''b'')" by code_simp
  then obtain r where r: "fst ?r = Inr r" "ok_old r = ''a''" "ok_new r = ''b''" by (cases "fst ?r") auto
  then have "?r = (Inr r, snd ?r)" by (metis prod.collapse)
  from rotate_authorised [OF this] r show ?thesis
    by (auto simp: verify_sig_def rotate_config_def)
qed

text \<open>
  Claim C31. As long as no chain of rotations is longer than \<open>ROTATE_MAX_DEPTH\<close>, the check before the
  insert keeps the graph of rotations free of cycles, and an old key then resolves to the head of the
  key it rotated to.
\<close>

theorem rotate_acyclic:
  assumes "rotate cfg w blk body b = (Inr r, b')" and "acyclic (edges (rotation_map b))"
    and "\<And>x. (ok_new r, x) \<notin> edges (rotation_map b) ^^ Suc (ROTATE_MAX_DEPTH cfg)"
  shows "acyclic (edges (rotation_map b'))"
proof -
  let ?m = "rotation_map b" and ?o = "ok_old r" and ?n = "ok_new r"
  from rotate_Inr [OF assms(1)] obtain ts where
    ts: "rotate_check cfg w blk body = Inr (?o, ?n, ts)" and none: "?m ?o = None"
    and ne: "resolve_pubkey cfg ?m (Some ?n) \<noteq> ?o" and m': "rotation_map b' = ?m(?o \<mapsto> ?n)"
    by metis
  have "(?n, ?o) \<notin> (edges ?m)\<^sup>*"
  proof
    assume "(?n, ?o) \<in> (edges ?m)\<^sup>*"
    then obtain k where k: "(?n, ?o) \<in> edges ?m ^^ k" by (auto simp: rtrancl_power)
    have "k \<le> ROTATE_MAX_DEPTH cfg"
    proof (rule ccontr)
      assume "\<not> k \<le> ROTATE_MAX_DEPTH cfg"
      then obtain j where "k = Suc (ROTATE_MAX_DEPTH cfg) + j" by (metis less_iff_Suc_add add_Suc not_le)
      with k obtain x where "(?n, x) \<in> edges ?m ^^ Suc (ROTATE_MAX_DEPTH cfg)"
        by (metis relcomp.cases relpow_add)
      with assms(3) show False by blast
    qed
    with resolve_head [OF assms(2), of ?n ?o k cfg] k none rotate_check_Inr(11) [OF ts] ne show False by simp
  qed
  moreover have "edges (?m(?o \<mapsto> ?n)) = insert (?o, ?n) (edges ?m)"
    using none by (auto simp: edges_def split: if_splits)
  ultimately show ?thesis using assms(2) by (simp add: m' acyclic_insert)
qed

theorem rotate_acyclic_witness:
  "acyclic (edges (rotation_map (snd (rotate rotate_config example_world [] (rotate_request ''A'' ''b'') empty_board))))"
proof -
  let ?r = "rotate rotate_config example_world [] (rotate_request ''A'' ''b'') empty_board"
  have "\<not> isl (fst ?r)" by code_simp
  then obtain r where r: "?r = (Inr r, snd ?r)" by (metis isl_def sum.exhaust prod.collapse)
  have e: "edges (rotation_map empty_board) = {}"
    by (auto simp: rotation_map_def empty_board_def row_of_def)
  show ?thesis by (rule rotate_acyclic [OF r]) (simp_all add: e acyclic_def)
qed

text \<open>
  The bound in the previous claim is needed: the check walks only \<open>ROTATE_MAX_DEPTH\<close> edges. On a board
  with the 33 rotations 0 to 1, .., 32 to 33, the request that rotates 33 to 0 is accepted.
\<close>

definition chain_rows :: "nat \<Rightarrow> rotation list" where
  "chain_rows n = map (\<lambda>i. \<lparr> ro_old = nat_str i, ro_new = nat_str (Suc i), ro_msg_ts = 0, ro_sig_old = [],
     ro_sig_new = [], ro_created = 0 \<rparr>) [0..<n]"

lemma chain_map: "rotation_map (empty_board\<lparr>rotations := chain_rows n\<rparr>) (nat_str i)
    = (if i < n then Some (nat_str (Suc i)) else None)"
proof (cases "i < n")
  case True
  let ?r = "\<lparr> ro_old = nat_str i, ro_new = nat_str (Suc i), ro_msg_ts = 0, ro_sig_old = [],
     ro_sig_new = [], ro_created = 0 \<rparr>"
  have "row_of ro_old (ro_old ?r) (chain_rows n) = Some ?r"
    using True by (intro row_of_in) (auto simp: chain_rows_def distinct_map inj_on_def nat_str_inj)
  with True show ?thesis by (simp add: rotation_map_def)
next
  case False
  then have "row_of ro_old (nat_str i) (chain_rows n) = None"
    by (auto simp: row_of_None chain_rows_def nat_str_inj)
  with False show ?thesis by (simp add: rotation_map_def)
qed

lemma chain_path: "i \<le> n \<Longrightarrow> (nat_str 0, nat_str i) \<in> (edges (rotation_map (empty_board\<lparr>rotations := chain_rows n\<rparr>)))\<^sup>*"
proof (induction i)
  case (Suc i)
  then have "(nat_str i, nat_str (Suc i)) \<in> edges (rotation_map (empty_board\<lparr>rotations := chain_rows n\<rparr>))"
    by (simp add: chain_map)
  with Suc show ?case by (meson Suc_leD rtrancl.rtrancl_into_rtrancl)
qed simp

theorem long_chain_closes_cycle:
  "\<not> isl (fst (rotate rotate_config example_world [] (rotate_request (nat_str 33) (nat_str 0))
            (empty_board\<lparr>rotations := chain_rows 33\<rparr>)))
   \<and> \<not> acyclic (edges (rotation_map (snd (rotate rotate_config example_world []
            (rotate_request (nat_str 33) (nat_str 0)) (empty_board\<lparr>rotations := chain_rows 33\<rparr>)))))"
proof -
  let ?b = "empty_board\<lparr>rotations := chain_rows 33\<rparr>"
  let ?r = "rotate rotate_config example_world [] (rotate_request (nat_str 33) (nat_str 0)) ?b"
  have ev: "map_sum (\<lambda>e. e) (\<lambda>r. (ok_old r, ok_new r)) (fst ?r) = Inr (nat_str 33, nat_str 0)" by code_simp
  then obtain r where r: "fst ?r = Inr r" "ok_old r = nat_str 33" "ok_new r = nat_str 0" by (cases "fst ?r") auto
  then have rr: "?r = (Inr r, snd ?r)" by (metis prod.collapse)
  from rotate_Inr [OF rr] r have m': "rotation_map (snd ?r) = (rotation_map ?b)(nat_str 33 \<mapsto> nat_str 0)" by metis
  have none: "rotation_map ?b (nat_str 33) = None" by (simp add: chain_map)
  have "edges (rotation_map (snd ?r)) = insert (nat_str 33, nat_str 0) (edges (rotation_map ?b))"
    unfolding m' using none by (auto simp: edges_def split: if_splits)
  with chain_path [of 33 33] ev show ?thesis by (auto simp: acyclic_insert r)
qed

end
