(* ===== verification/Coverage.thy ===== *)
theory Coverage
  imports Rotation "HOL-Library.List_Lexorder" "HOL-Library.Char_ord" "HOL-Library.Multiset"
begin

text \<open>
  What the verified ranges cover (\<open>coordinator/server.py\<close>: \<open>overlapping\<close>, \<open>_overlapping_vrange\<close>,
  \<open>_tiled_by_verified\<close>, \<open>proven_count\<close>, \<open>is_fold_seam\<close>, \<open>fold_spans\<close>, \<open>folded_count\<close>,
  \<open>contributions_by_pubkey\<close>). The lemmas show that the two interval merges count a union of
  intervals, per contributor and overall, that the tiling loop decides whether the ranges inside a span
  cover it, and exactly which ranges the fold test recognises.
\<close>

section \<open>Overlap and tiling\<close>

definition v_span :: "vrange_row \<Rightarrow> int set" where
  "v_span r = {v_lo r..v_hi r}"

definition covered :: "board \<Rightarrow> int set" where
  "covered b = (\<Union>r \<in> set (vranges b). v_span r)"

text \<open>The proofs are a keyed table whose rows cover heights.\<close>

interpretation vrange_table: covering_table v_id "\<lambda>t. distinct (map v_id t)" set "row_of v_id" "put_row v_id" v_span
  by unfold_locales (auto simp: row_of_put distinct_put_row row_of_mem)

text \<open>\<open>overlapping\<close>: the ids of the rows, whatever their shape, that own a block of the interval.\<close>

definition overlapping :: "board \<Rightarrow> int \<Rightarrow> int \<Rightarrow> range_id \<Rightarrow> range_id list" where
  "overlapping b lo hi exclude = map r_id (filter (\<lambda>r. r_status r \<in> {Claimed, Verified, Failed}
     \<and> r_id r \<noteq> exclude \<and> r_lo r \<le> hi \<and> r_hi r \<ge> lo) (ranges b))"

text \<open>\<open>ORDER BY lo LIMIT 1\<close>: the first row of the smallest start.\<close>

definition overlapping_vrange :: "board \<Rightarrow> int \<Rightarrow> int \<Rightarrow> vrange_row option" where
  "overlapping_vrange b lo hi =
     (case sort_key v_lo (filter (\<lambda>r. v_lo r \<le> hi \<and> v_hi r \<ge> lo) (vranges b)) of
        [] \<Rightarrow> None | r # _ \<Rightarrow> Some r)"

definition max_list :: "int list \<Rightarrow> int option" where
  "max_list xs = (case xs of [] \<Rightarrow> None | x # ys \<Rightarrow> Some (fold max ys x))"

function tile_loop :: "(int \<times> int) list \<Rightarrow> int \<Rightarrow> int \<Rightarrow> bool" where
  "tile_loop rows reach hi =
     (if reach < hi
      then (case max_list (map snd (filter (\<lambda>(l, h). l \<le> reach + 1 \<and> h > reach) rows)) of
              None \<Rightarrow> False
            | Some nxt \<Rightarrow> tile_loop rows nxt hi)
      else True)"
  by pat_completeness auto

lemma fold_max_mem: "fold max ys x \<in> set (x # ys)" for x :: int
proof (induction ys arbitrary: x)
  case (Cons y ys)
  from Cons.IH [of "max y x"] show ?case by (auto simp: max_def split: if_splits)
qed simp

lemma max_list_mem: "max_list xs = Some m \<Longrightarrow> m \<in> set xs \<and> (\<forall>x \<in> set xs. x \<le> m)"
proof (cases xs)
  case (Cons y ys)
  assume "max_list xs = Some m"
  with Cons have m: "m = fold max ys y" by (simp add: max_list_def)
  have "y \<le> fold max ys y" "\<And>x. x \<in> set ys \<Longrightarrow> x \<le> fold max ys y"
    using fold_max_ge(1) [of y "\<lambda>x. x" ys] fold_max_ge(2) [of _ ys "\<lambda>x. x" y]
    by (simp_all add: max.commute)
  then show ?thesis using fold_max_mem [of ys y] Cons m by auto
qed (simp add: max_list_def)

lemma max_list_None: "max_list xs = None \<longleftrightarrow> xs = []"
  by (auto simp: max_list_def split: list.splits)

termination tile_loop
  by (relation "measure (\<lambda>(rows, reach, hi). nat (hi - reach))") (auto dest!: max_list_mem)

declare tile_loop.simps [simp del]

definition tiled_by_verified :: "board \<Rightarrow> int \<Rightarrow> int \<Rightarrow> bool" where
  "tiled_by_verified b lo hi =
     tile_loop (map (\<lambda>r. (v_lo r, v_hi r))
       (sort_key v_lo (filter (\<lambda>r. v_lo r \<ge> lo \<and> v_hi r \<le> hi) (vranges b)))) (lo - 1) hi"

section \<open>Merged counts\<close>

fun merge_step :: "int \<times> int \<Rightarrow> int \<times> (int \<times> int) option \<Rightarrow> int \<times> (int \<times> int) option" where
  "merge_step (lo, hi) (acc, None) = (acc, Some (lo, hi))"
| "merge_step (lo, hi) (acc, Some (cl, ch)) =
     (if lo > ch + 1 then (acc + (ch - cl + 1), Some (lo, hi)) else (acc, Some (cl, max ch hi)))"

fun merge_close :: "int \<times> (int \<times> int) option \<Rightarrow> int" where
  "merge_close (acc, None) = acc"
| "merge_close (acc, Some (cl, ch)) = acc + (ch - cl + 1)"

definition merge_total :: "(int \<times> int) list \<Rightarrow> int" where
  "merge_total spans = merge_close (fold merge_step (sort spans) (0, None))"

definition proven_count :: "board \<Rightarrow> int" where
  "proven_count b = merge_total (map (\<lambda>r. (v_lo r, v_hi r)) (vranges b))"

section \<open>Folds\<close>

definition is_fold_seam :: "int \<Rightarrow> int \<Rightarrow> (int \<Rightarrow> int option) \<Rightarrow> (int \<Rightarrow> int list) \<Rightarrow> bool" where
  "is_fold_seam lo hi by_start ends_at = list_ex (\<lambda>m. by_start (m + 1) = Some hi) (ends_at lo)"

text \<open>
  The walk in \<open>ts\<close> order: each row with the verdict, then the row joins the two indices. \<open>fold_spans\<close>
  keeps the folds, \<open>contributions_by_pubkey\<close> sorts the rows into folds and proofs.
\<close>

definition start_step :: "int \<Rightarrow> int \<Rightarrow> (int \<Rightarrow> int option) \<Rightarrow> int \<Rightarrow> int option" where
  "start_step lo hi by_start =
     (if (case by_start lo of None \<Rightarrow> -1 | Some h \<Rightarrow> h) < hi then by_start(lo \<mapsto> hi) else by_start)"

fun fold_walk :: "(int \<Rightarrow> int option) \<Rightarrow> (int \<Rightarrow> int list) \<Rightarrow> vrange_row list \<Rightarrow> (vrange_row \<times> bool) list" where
  "fold_walk by_start ends_at [] = []"
| "fold_walk by_start ends_at (r # rs) =
     (r, v_hi r > v_lo r \<and> is_fold_seam (v_lo r) (v_hi r) by_start ends_at)
     # fold_walk (start_step (v_lo r) (v_hi r) by_start)
         (ends_at(v_lo r := List.insert (v_hi r) (ends_at (v_lo r)))) rs"

definition by_ts :: "board \<Rightarrow> vrange_row list" where
  "by_ts b = sort_key v_ts (vranges b)"

definition walked :: "board \<Rightarrow> (vrange_row \<times> bool) list" where
  "walked b = fold_walk (\<lambda>_. None) (\<lambda>_. []) (by_ts b)"

definition fold_spans :: "board \<Rightarrow> (range_id \<times> int \<times> int) list" where
  "fold_spans b = map (\<lambda>(r, _). (v_id r, v_lo r, v_hi r)) (filter snd (walked b))"

definition folded_count :: "board \<Rightarrow> int" where
  "folded_count b = merge_total (map snd (fold_spans b))"

section \<open>Contributions\<close>

fun group_step :: "pubkey \<times> int \<times> int \<Rightarrow> (pubkey \<Rightarrow> int) \<times> (pubkey \<times> int \<times> int) option
    \<Rightarrow> (pubkey \<Rightarrow> int) \<times> (pubkey \<times> int \<times> int) option" where
  "group_step (pk, lo, hi) (out, None) = (out, Some (pk, lo, hi))"
| "group_step (pk, lo, hi) (out, Some (cp, cl, ch)) =
     (if pk \<noteq> cp then (out(cp := out cp + (ch - cl + 1)), Some (pk, lo, hi))
      else if lo > ch + 1 then (out(cp := out cp + (ch - cl + 1)), Some (cp, lo, hi))
      else (out, Some (cp, cl, max ch hi)))"

fun group_close :: "(pubkey \<Rightarrow> int) \<times> (pubkey \<times> int \<times> int) option \<Rightarrow> pubkey \<Rightarrow> int" where
  "group_close (out, None) = out"
| "group_close (out, Some (cp, cl, ch)) = out(cp := out cp + (ch - cl + 1))"

text \<open>\<open>LIKE 'spine:1-%'\<close> ignores the case of ASCII letters.\<close>

definition is_spine_row :: "submission \<Rightarrow> bool" where
  "is_spine_row s = prefixed ''spine:1-'' (lower (s_range_id s))"

record contribution =
  proved :: int
  folded :: nat
  anchored :: nat

definition proof_items :: "config \<Rightarrow> board \<Rightarrow> (pubkey \<times> int \<times> int) list" where
  "proof_items cfg b = map (\<lambda>(r, _). (resolve_pubkey cfg (rotation_map b) (v_pubkey r), v_lo r, v_hi r))
     (filter (\<lambda>x. \<not> snd x) (walked b))"

definition fold_keys :: "config \<Rightarrow> board \<Rightarrow> pubkey list" where
  "fold_keys cfg b = map (\<lambda>(r, _). resolve_pubkey cfg (rotation_map b) (v_pubkey r)) (filter snd (walked b))"

definition spine_keys :: "config \<Rightarrow> board \<Rightarrow> pubkey list" where
  "spine_keys cfg b = map (\<lambda>s. resolve_pubkey cfg (rotation_map b) (Some (s_pubkey s)))
     (filter is_spine_row (submissions b))"

definition contributions_by_pubkey :: "config \<Rightarrow> board \<Rightarrow> pubkey \<Rightarrow> contribution option" where
  "contributions_by_pubkey cfg b pk =
     (let items = sort (proof_items cfg b);
          out = group_close (fold group_step items (\<lambda>_. 0, None));
          fks = fold_keys cfg b; sks = spine_keys cfg b
      in if pk \<in> fst ` set items \<or> pk \<in> set fks \<or> pk \<in> set sks
         then Some \<lparr> proved = out pk, folded = count_list fks pk, anchored = count_list sks pk \<rparr>
         else None)"

section \<open>Lemmas on tiling\<close>

text \<open>The loop is true exactly when the rows cover every height past \<open>reach\<close> up to \<open>hi\<close>.\<close>

lemma tile_loop_iff: "tile_loop rows reach hi \<longleftrightarrow> {reach + 1..hi} \<subseteq> span_set rows"
proof (induction rows reach hi rule: tile_loop.induct)
  case (1 rows reach hi)
  let ?c = "map snd (filter (\<lambda>(l, h). l \<le> reach + 1 \<and> h > reach) rows)"
  show ?case
  proof (cases "reach < hi")
    case False
    then show ?thesis by (simp add: tile_loop.simps [of rows reach hi])
  next
    case True
    show ?thesis
    proof (cases "max_list ?c")
      case None
      then have "reach + 1 \<notin> span_set rows"
        by (force simp: max_list_None span_set_mem filter_empty_conv)
      moreover have "reach + 1 \<in> {reach + 1..hi}" using True by simp
      ultimately have "\<not> {reach + 1..hi} \<subseteq> span_set rows" by blast
      with True None show ?thesis by (simp add: tile_loop.simps [of rows reach hi])
    next
      case (Some nxt)
      from max_list_mem [OF Some] obtain l where l: "(l, nxt) \<in> set rows" "l \<le> reach + 1" "reach < nxt" by auto
      then have "{reach + 1..nxt} \<subseteq> span_set rows" by (auto simp: span_set_mem) (meson order_trans)
      then have "{nxt + 1..hi} \<subseteq> span_set rows \<longleftrightarrow> {reach + 1..hi} \<subseteq> span_set rows"
        using l(3) by (auto simp: subset_iff) (metis add1_zle_eq linorder_not_less)
      with True Some "1.IH" [OF True Some] show ?thesis
        by (simp add: tile_loop.simps [of rows reach hi])
    qed
  qed
qed

lemma span_set_rows: "span_set (map (\<lambda>r. (v_lo r, v_hi r)) rs) = (\<Union>r \<in> set rs. v_span r)"
  by (auto simp: span_set_def v_span_def)

lemma tiled_iff: "tiled_by_verified b lo hi \<longleftrightarrow>
    {lo..hi} \<subseteq> (\<Union>r \<in> {r \<in> set (vranges b). lo \<le> v_lo r \<and> v_hi r \<le> hi}. v_span r)"
  by (simp add: tiled_by_verified_def tile_loop_iff span_set_rows)

lemma tiled_covered: "tiled_by_verified b lo hi \<Longrightarrow> {lo..hi} \<subseteq> covered b"
  by (auto simp: tiled_iff covered_def)

lemma overlapping_vrange_None:
  "overlapping_vrange b lo hi = None \<longleftrightarrow> (\<forall>r \<in> set (vranges b). \<not> (v_lo r \<le> hi \<and> v_hi r \<ge> lo))"
proof -
  let ?f = "filter (\<lambda>r. v_lo r \<le> hi \<and> v_hi r \<ge> lo) (vranges b)"
  have "overlapping_vrange b lo hi = None \<longleftrightarrow> sort_key v_lo ?f = []"
    by (simp add: overlapping_vrange_def split: list.split)
  also have "\<dots> \<longleftrightarrow> set (sort_key v_lo ?f) = {}" by (simp only: set_empty)
  finally show ?thesis by (auto simp: filter_empty_conv)
qed

lemma overlapping_vrange_Some:
  "overlapping_vrange b lo hi = Some r \<Longrightarrow> r \<in> set (vranges b) \<and> v_lo r \<le> hi \<and> lo \<le> v_hi r"
proof -
  assume a: "overlapping_vrange b lo hi = Some r"
  then have "r \<in> set (sort_key v_lo (filter (\<lambda>r. v_lo r \<le> hi \<and> v_hi r \<ge> lo) (vranges b)))"
    unfolding overlapping_vrange_def
    by (cases "sort_key v_lo (filter (\<lambda>r. v_lo r \<le> hi \<and> v_hi r \<ge> lo) (vranges b))") auto
  then show ?thesis by simp
qed

section \<open>Lemmas on merged counts\<close>

text \<open>
  One argument serves both merges. After the items \<open>xs\<close>, in order, the closed intervals and the open
  one count the union of each key's intervals, and everything of the open key lies below its end.
\<close>

definition key_cover :: "'k \<Rightarrow> ('k \<times> int \<times> int) list \<Rightarrow> int set" where
  "key_cover k xs = (\<Union>(q, lo, hi) \<in> {x \<in> set xs. fst x = k}. {lo..hi})"

lemma key_cover_simps [simp]:
  "key_cover k [] = {}"
  "key_cover k (xs @ [(q, lo, hi)]) = (if q = k then key_cover k xs \<union> {lo..hi} else key_cover k xs)"
  by (auto simp: key_cover_def)

lemma finite_key_cover [simp]: "finite (key_cover k xs)"
  by (auto simp: key_cover_def)

lemma key_cover_notin: "k \<notin> fst ` set xs \<Longrightarrow> key_cover k xs = {}"
  by (force simp: key_cover_def)

definition open_count :: "pubkey \<Rightarrow> (pubkey \<times> int \<times> int) option \<Rightarrow> int" where
  "open_count k c = (case c of None \<Rightarrow> 0 | Some (cp, cl, ch) \<Rightarrow> if k = cp then ch - cl + 1 else 0)"

definition group_inv :: "(pubkey \<times> int \<times> int) list \<Rightarrow> (pubkey \<Rightarrow> int) \<times> (pubkey \<times> int \<times> int) option \<Rightarrow> bool" where
  "group_inv xs st \<longleftrightarrow>
     (\<forall>k. fst st k + open_count k (snd st) = int (card (key_cover k xs)))
     \<and> (case snd st of None \<Rightarrow> xs = []
        | Some (cp, cl, ch) \<Rightarrow> cl \<le> ch \<and> (\<exists>h. (cp, cl, h) \<in> set xs) \<and> {cl..ch} \<subseteq> key_cover cp xs
            \<and> key_cover cp xs \<subseteq> {..ch} \<and> (\<forall>x \<in> set xs. fst x \<le> cp))"

lemma card_extend:
  assumes "finite A" "A \<subseteq> {..ch}" "{cl..ch} \<subseteq> A" "cl \<le> lo" "lo \<le> hi" "lo \<le> ch + 1"
  shows "int (card (A \<union> {lo..hi})) = int (card A) + (max ch hi - ch)"
proof -
  have "A \<union> {lo..hi} = A \<union> {ch + 1..max ch hi}" using assms by (auto simp: subset_iff)
  moreover have "card (A \<union> {ch + 1..max ch hi}) = card A + card {ch + 1..max ch hi}"
    using assms by (intro card_Un_disjoint) (auto simp: subset_iff)
  ultimately show ?thesis by simp
qed

lemma card_apart:
  assumes "finite A" "A \<subseteq> {..ch}" "ch < lo" "lo \<le> hi"
  shows "int (card (A \<union> {lo..hi})) = int (card A) + (hi - lo + 1)"
proof -
  have "A \<inter> {lo..hi} = {}" using assms by (auto simp: subset_iff)
  then have "card (A \<union> {lo..hi}) = card A + card {lo..hi}"
    using assms by (intro card_Un_disjoint) auto
  with assms show ?thesis by simp
qed

lemma group_inv_step:
  assumes inv: "group_inv xs st" and ord: "\<And>x. x \<in> set xs \<Longrightarrow> x \<le> (pk, lo, hi)" and le: "lo \<le> hi"
  shows "group_inv (xs @ [(pk, lo, hi)]) (group_step (pk, lo, hi) st)"
proof (cases st)
  case (Pair out c)
  have cnt: "out k + open_count k c = int (card (key_cover k xs))" for k
    using inv Pair by (simp add: group_inv_def)
  have top: "fst x \<le> pk" if "x \<in> set xs" for x
    using ord [OF that] by (cases x) auto
  show ?thesis
  proof (cases c)
    case None
    with inv Pair have "xs = []" by (simp add: group_inv_def)
    with cnt None Pair le show ?thesis by (auto simp: group_inv_def open_count_def key_cover_def)
  next
    case (Some t)
    obtain cp cl ch where c: "c = Some (cp, cl, ch)" using Some by (cases t) auto
    have i: "cl \<le> ch" "{cl..ch} \<subseteq> key_cover cp xs" "key_cover cp xs \<subseteq> {..ch}"
        "\<And>x. x \<in> set xs \<Longrightarrow> fst x \<le> cp"
      using inv Pair c by (simp_all add: group_inv_def)
    obtain h0 where h0: "(cp, cl, h0) \<in> set xs" using inv Pair c by (auto simp: group_inv_def)
    have cp: "cp \<le> pk" using top [OF h0] by simp
    have o: "out k = int (card (key_cover k xs)) - (if k = cp then ch - cl + 1 else 0)" for k
      using cnt [of k] c by (simp add: open_count_def)
    show ?thesis
    proof (cases "pk = cp")
      case False
      with cp have "cp < pk" by simp
      with i(4) have "pk \<notin> fst ` set xs" by (auto simp: not_le [symmetric])
      with cnt [of pk] False c have z: "out pk = 0" "key_cover pk xs = {}"
        by (simp_all add: key_cover_notin open_count_def)
      with o c False le top show ?thesis
        by (auto simp: group_inv_def open_count_def Pair)
    next
      case True
      have cl: "cl \<le> lo" using ord [OF h0] True by auto
      show ?thesis
      proof (cases "lo > ch + 1")
        case True
        then have "int (card (key_cover cp xs \<union> {lo..hi})) = int (card (key_cover cp xs)) + (hi - lo + 1)"
          using i le by (intro card_apart) auto
        with True \<open>pk = cp\<close> o c le top i(3) show ?thesis
          by (auto simp: group_inv_def open_count_def Pair)
      next
        case False
        then have "int (card (key_cover cp xs \<union> {lo..hi})) = int (card (key_cover cp xs)) + (max ch hi - ch)"
          using i cl le by (intro card_extend [of _ ch cl]) auto
        moreover have "{cl..max ch hi} \<subseteq> key_cover cp xs \<union> {lo..hi}"
          using i(2) False by (auto simp: subset_iff max_def split: if_splits)
        ultimately show ?thesis
          using False \<open>pk = cp\<close> o c le top i cl h0 by (auto simp: group_inv_def open_count_def Pair)
      qed
    qed
  qed
qed

lemma group_inv_fold:
  "sorted xs \<Longrightarrow> (\<And>q lo hi. (q, lo, hi) \<in> set xs \<Longrightarrow> lo \<le> hi) \<Longrightarrow>
   group_inv xs (fold group_step xs (\<lambda>_. 0, None))"
proof (induction xs rule: rev_induct)
  case Nil
  then show ?case by (simp add: group_inv_def open_count_def)
next
  case (snoc x xs)
  obtain pk lo hi where x: "x = (pk, lo, hi)" by (cases x)
  have "group_inv (xs @ [(pk, lo, hi)]) (group_step (pk, lo, hi) (fold group_step xs (\<lambda>_. 0, None)))"
    using snoc by (intro group_inv_step) (auto simp: sorted_append x)
  then show ?case by (simp add: x)
qed

lemma group_close_count: "group_close st k = fst st k + open_count k (snd st)"
  by (cases st rule: group_close.cases) (auto simp: open_count_def)

theorem group_close_card:
  assumes "\<And>q lo hi. (q, lo, hi) \<in> set xs \<Longrightarrow> lo \<le> hi"
  shows "group_close (fold group_step (sort xs) (\<lambda>_. 0, None)) k = int (card (key_cover k xs))"
proof -
  have "group_inv (sort xs) (fold group_step (sort xs) (\<lambda>_. 0, None))"
    using assms by (intro group_inv_fold) auto
  then have "group_close (fold group_step (sort xs) (\<lambda>_. 0, None)) k = int (card (key_cover k (sort xs)))"
    by (simp add: group_inv_def group_close_count)
  then show ?thesis by (simp add: key_cover_def)
qed

text \<open>The unkeyed loop is the keyed one with a single key.\<close>

lemma merge_as_group:
  "group_close (fold group_step (map (\<lambda>p. (k, p)) xs) (out, map_option (\<lambda>p. (k, p)) c)) k
   = merge_close (fold merge_step xs (out k, c))"
proof (induction xs arbitrary: out c)
  case Nil
  then show ?case by (cases c) auto
next
  case (Cons p xs)
  obtain lo hi where p: "p = (lo, hi)" by (cases p)
  show ?case
  proof (cases c)
    case None
    then show ?thesis using Cons.IH [of out "Some (lo, hi)"] by (simp add: p)
  next
    case (Some q)
    obtain cl ch where q: "q = (cl, ch)" by (cases q)
    show ?thesis
      using Some Cons.IH [of out "Some (cl, max ch hi)"] Cons.IH [of "out(k := out k + (ch - cl + 1))" "Some (lo, hi)"]
      by (simp add: p q fun_upd_def)
  qed
qed

lemma sort_map_key: "sort (map (\<lambda>p. (k, p)) xs) = map (\<lambda>p. (k, p)) (sort xs)"
  for k :: "'a :: linorder" and xs :: "'b :: linorder list"
  by (rule properties_for_sort) (auto simp: sorted_map sorted_wrt_map less_eq_prod_def)

lemma merge_total_card:
  assumes "\<And>lo hi. (lo, hi) \<in> set xs \<Longrightarrow> lo \<le> hi"
  shows "merge_total xs = int (card (span_set xs))"
proof -
  let ?k = "[] :: pubkey"
  have "merge_total xs = group_close (fold group_step (map (\<lambda>p. (?k, p)) (sort xs)) (\<lambda>_. 0, None)) ?k"
    using merge_as_group [of ?k "sort xs" "\<lambda>_. 0" None] by (simp add: merge_total_def)
  also have "\<dots> = int (card (key_cover ?k (map (\<lambda>p. (?k, p)) xs)))"
    unfolding sort_map_key [symmetric] by (rule group_close_card) (use assms in auto)
  also have "key_cover ?k (map (\<lambda>p. (?k, p)) xs) = span_set xs"
    by (auto simp: key_cover_def span_set_def)
  finally show ?thesis .
qed

section \<open>Lemmas on folds\<close>

text \<open>
  The verdict as a predicate on the rows that arrived before: some earlier range starts where \<open>r\<close>
  does and some earlier range continues it up to the end of \<open>r\<close>, and no earlier range with that
  second start is wider.
\<close>

definition made_by_fold :: "vrange_row list \<Rightarrow> vrange_row \<Rightarrow> bool" where
  "made_by_fold seen r \<longleftrightarrow> v_lo r < v_hi r \<and>
     list_ex (\<lambda>a. v_lo a = v_lo r
       \<and> list_ex (\<lambda>c. v_lo c = v_hi a + 1 \<and> v_hi c = v_hi r) seen
       \<and> list_all (\<lambda>d. v_lo d = v_hi a + 1 \<longrightarrow> v_hi d \<le> v_hi r) seen) seen"

definition starts_inv :: "vrange_row list \<Rightarrow> (int \<Rightarrow> int option) \<Rightarrow> bool" where
  "starts_inv seen bs \<longleftrightarrow> (\<forall>lo. case bs lo of
       None \<Rightarrow> \<forall>r \<in> set seen. v_lo r \<noteq> lo
     | Some h \<Rightarrow> (\<exists>r \<in> set seen. v_lo r = lo \<and> v_hi r = h) \<and> (\<forall>r \<in> set seen. v_lo r = lo \<longrightarrow> v_hi r \<le> h))"

definition ends_inv :: "vrange_row list \<Rightarrow> (int \<Rightarrow> int list) \<Rightarrow> bool" where
  "ends_inv seen ea \<longleftrightarrow> (\<forall>lo m. m \<in> set (ea lo) \<longleftrightarrow> (\<exists>r \<in> set seen. v_lo r = lo \<and> v_hi r = m))"

lemma starts_invD: "starts_inv seen bs \<Longrightarrow> case bs lo of
       None \<Rightarrow> \<forall>r \<in> set seen. v_lo r \<noteq> lo
     | Some h \<Rightarrow> (\<exists>r \<in> set seen. v_lo r = lo \<and> v_hi r = h) \<and> (\<forall>r \<in> set seen. v_lo r = lo \<longrightarrow> v_hi r \<le> h)"
  by (simp add: starts_inv_def)

lemma starts_inv_step:
  assumes "starts_inv seen bs" "0 \<le> v_hi r"
  shows "starts_inv (seen @ [r]) (start_step (v_lo r) (v_hi r) bs)"
  unfolding starts_inv_def
proof
  fix lo
  have i: "case bs lo of None \<Rightarrow> \<forall>r \<in> set seen. v_lo r \<noteq> lo
     | Some h \<Rightarrow> (\<exists>r \<in> set seen. v_lo r = lo \<and> v_hi r = h) \<and> (\<forall>r \<in> set seen. v_lo r = lo \<longrightarrow> v_hi r \<le> h)"
    using assms(1) by (simp add: starts_inv_def)
  show "case start_step (v_lo r) (v_hi r) bs lo of None \<Rightarrow> \<forall>x \<in> set (seen @ [r]). v_lo x \<noteq> lo
     | Some h \<Rightarrow> (\<exists>x \<in> set (seen @ [r]). v_lo x = lo \<and> v_hi x = h)
         \<and> (\<forall>x \<in> set (seen @ [r]). v_lo x = lo \<longrightarrow> v_hi x \<le> h)"
    using i assms(2) by (cases "bs lo") (fastforce simp: start_step_def)+
qed

lemma ends_inv_step:
  "ends_inv seen ea \<Longrightarrow> ends_inv (seen @ [r]) (ea(v_lo r := List.insert (v_hi r) (ea (v_lo r))))"
  by (auto simp: ends_inv_def)

lemma seam_made_by_fold:
  assumes "starts_inv seen bs" "ends_inv seen ea"
  shows "v_hi r > v_lo r \<and> is_fold_seam (v_lo r) (v_hi r) bs ea \<longleftrightarrow> made_by_fold seen r"
proof -
  have s: "bs n = Some h \<longleftrightarrow> (\<exists>c \<in> set seen. v_lo c = n \<and> v_hi c = h) \<and> (\<forall>d \<in> set seen. v_lo d = n \<longrightarrow> v_hi d \<le> h)"
    for n h
  proof (cases "bs n")
    case None
    with starts_invD [OF assms(1), of n] have "\<forall>r \<in> set seen. v_lo r \<noteq> n" by simp
    with None show ?thesis by auto
  next
    case (Some a)
    with assms(1) have "(\<exists>r \<in> set seen. v_lo r = n \<and> v_hi r = a)" "(\<forall>r \<in> set seen. v_lo r = n \<longrightarrow> v_hi r \<le> a)"
      using starts_invD [OF assms(1), of n] by simp_all
    with Some show ?thesis by (auto intro: order_antisym)
  qed
  have e: "list_ex P (ea lo) \<longleftrightarrow> list_ex (\<lambda>a. v_lo a = lo \<and> P (v_hi a)) seen" for P lo
    using assms(2) by (auto simp: ends_inv_def list_ex_iff)
  show ?thesis
    by (simp add: is_fold_seam_def made_by_fold_def s e) (simp add: list_ex_iff list_all_iff)
qed

lemma fold_walk_verdicts:
  assumes "starts_inv seen bs" "ends_inv seen ea" "list_all (\<lambda>r. 0 \<le> v_hi r) rs"
  shows "fold_walk bs ea rs = map (\<lambda>i. (rs ! i, made_by_fold (seen @ take i rs) (rs ! i))) [0..<length rs]"
  using assms
proof (induction rs arbitrary: seen bs ea)
  case (Cons r rs)
  have "fold_walk bs ea (r # rs) = (r, made_by_fold seen r) #
      map (\<lambda>i. (rs ! i, made_by_fold ((seen @ [r]) @ take i rs) (rs ! i))) [0..<length rs]"
    using Cons.IH [OF starts_inv_step [OF Cons.prems(1), of r] ends_inv_step [OF Cons.prems(2), of r]]
      Cons.prems seam_made_by_fold [OF Cons.prems(1,2), of r] by (simp add: fun_upd_def)
  then show ?case by (simp add: map_upt_Suc del: upt_Suc)
qed simp

lemma walked_rows [simp]: "map fst (walked b) = by_ts b"
proof -
  have "map fst (fold_walk bs ea rs) = rs" for bs ea rs
    by (induction rs arbitrary: bs ea) auto
  then show ?thesis by (simp add: walked_def)
qed

lemma walked_mem: "(r, f) \<in> set (walked b) \<Longrightarrow> r \<in> set (vranges b)"
proof -
  assume "(r, f) \<in> set (walked b)"
  then have "fst (r, f) \<in> fst ` set (walked b)" by (rule imageI)
  then have "r \<in> set (map fst (walked b))" unfolding set_map by (simp only: fst_conv)
  then show ?thesis unfolding walked_rows by (simp add: by_ts_def)
qed

lemma count_map_filter: "count_list (map f (filter P xs)) k = length (filter (\<lambda>x. P x \<and> f x = k) xs)"
  by (induction xs) auto

section \<open>Properties\<close>

text \<open>
  The headline count of proven blocks is the number of distinct blocks covered by verified
  ranges, however they overlap.
\<close>

theorem proven_count_card:
  assumes "list_all (\<lambda>r. v_lo r \<le> v_hi r) (vranges b)"
  shows "proven_count b = int (card (covered b))"
proof -
  have "proven_count b = int (card (span_set (map (\<lambda>r. (v_lo r, v_hi r)) (vranges b))))"
    unfolding proven_count_def by (rule merge_total_card) (use assms in \<open>auto simp: list_all_iff\<close>)
  then show ?thesis by (simp add: span_set_rows covered_def)
qed

definition vr :: "int \<Rightarrow> int \<Rightarrow> time \<Rightarrow> vrange_row" where
  "vr lo hi t = \<lparr> v_id = canonical_range_id lo hi, v_lo = lo, v_hi = hi, v_in_tip = None, v_out_tip = None,
     v_pubkey = None, v_handle = None, v_ts = Some t, v_out_leaves = None, v_range_work = None,
     v_in_bhash = None, v_out_bhash = None \<rparr>"

lemma vr_simps [simp]: "v_id (vr lo hi t) = canonical_range_id lo hi" "v_lo (vr lo hi t) = lo"
  "v_hi (vr lo hi t) = hi" "v_ts (vr lo hi t) = Some t" "v_pubkey (vr lo hi t) = None"
  by (simp_all add: vr_def)

theorem proven_count_card_witness:
  "proven_count (empty_board\<lparr>vranges := [vr 5 9 1, vr 1 3 2, vr 2 6 3, vr 20 20 4]\<rparr>) = int (card ({1..9} \<union> {20 :: int}))"
proof -
  have "covered (empty_board\<lparr>vranges := [vr 5 9 1, vr 1 3 2, vr 2 6 3, vr 20 20 4]\<rparr>) = {1..9} \<union> {20}"
    by (auto simp: covered_def v_span_def)
  then show ?thesis
    using proven_count_card [of "empty_board\<lparr>vranges := [vr 5 9 1, vr 1 3 2, vr 2 6 3, vr 20 20 4]\<rparr>"] by simp
qed

text \<open>
  The tiling test of the submit gate is exactly coverage: it holds when every block of the
  span lies in a verified range that is itself inside the span. (Ranges that overlap each other
  pass too, so it is a cover, not a partition.)
\<close>

theorem tiled_exact:
  "tiled_by_verified b lo hi \<longleftrightarrow>
     (\<forall>h. lo \<le> h \<and> h \<le> hi \<longrightarrow> (\<exists>r \<in> set (vranges b). lo \<le> v_lo r \<and> v_lo r \<le> h \<and> h \<le> v_hi r \<and> v_hi r \<le> hi))"
  unfolding tiled_iff v_span_def by (auto simp: subset_iff)

theorem tiled_exact_witness:
  "tiled_by_verified (empty_board\<lparr>vranges := [vr 4 6 1, vr 1 4 2, vr 9 9 3]\<rparr>) 1 6
   \<and> \<not> tiled_by_verified (empty_board\<lparr>vranges := [vr 4 6 1, vr 1 4 2, vr 9 9 3]\<rparr>) 4 9"
proof
  show "tiled_by_verified (empty_board\<lparr>vranges := [vr 4 6 1, vr 1 4 2, vr 9 9 3]\<rparr>) 1 6"
    unfolding tiled_exact by auto
  show "\<not> tiled_by_verified (empty_board\<lparr>vranges := [vr 4 6 1, vr 1 4 2, vr 9 9 3]\<rparr>) 4 9"
    unfolding tiled_exact by (auto intro!: exI [of _ 7])
qed

text \<open>
  The fold verdict, row by row in the order of arrival: a range counts as a fold exactly when
  two earlier ranges \<open>[lo..m]\<close> and \<open>[m+1..hi]\<close> meet inside it and no earlier range from \<open>m+1\<close> goes
  further than \<open>hi\<close>. The published fold list is the ranges with that verdict.
\<close>

theorem fold_verdict_exact:
  assumes "list_all (\<lambda>r. 0 \<le> v_hi r) (vranges b)"
  shows "fold_spans b = map (\<lambda>i. (v_id (by_ts b ! i), v_lo (by_ts b ! i), v_hi (by_ts b ! i)))
           (filter (\<lambda>i. made_by_fold (take i (by_ts b)) (by_ts b ! i)) [0..<length (vranges b)])"
proof -
  have "walked b = map (\<lambda>i. (by_ts b ! i, made_by_fold (take i (by_ts b)) (by_ts b ! i))) [0..<length (by_ts b)]"
    using fold_walk_verdicts [of "[]" "\<lambda>_. None" "\<lambda>_. []" "by_ts b"] assms
    by (simp add: walked_def starts_inv_def ends_inv_def by_ts_def list_all_iff)
  then show ?thesis by (simp add: fold_spans_def filter_map comp_def by_ts_def)
qed

theorem fold_verdict_exact_witness:
  "fold_spans (empty_board\<lparr>vranges := [vr 1 1 1, vr 2 2 2, vr 1 2 3]\<rparr>) = [(canonical_range_id 1 2, 1, 2)]"
  using fold_verdict_exact [of "empty_board\<lparr>vranges := [vr 1 1 1, vr 2 2 2, vr 1 2 3]\<rparr>"]
  by (simp add: by_ts_def sort_key_def made_by_fold_def upt_rec)

text \<open>
  The restriction to the widest earlier range loses folds: with 2, then 2..3, then 1 on the board, the
  fold 1..2 of the proofs of 1 and of 2 is not recognised, although both were verified before it.
\<close>

theorem fold_seam_misses_fold:
  "fold_spans (empty_board\<lparr>vranges := [vr 2 2 1, vr 2 3 2, vr 1 1 3, vr 1 2 4]\<rparr>) = []"
  by (simp add: fold_spans_def walked_def by_ts_def sort_key_def is_fold_seam_def start_step_def)

text \<open>
  Claim C29. The blocks a contributor is credited with having proved are the distinct blocks of the
  ranges that are not folds and whose key resolves to them, so no rotation and no overlap counts a block
  twice for one person; folds and spine advances are counted apart.
\<close>

theorem contributions_exact:
  assumes "list_all (\<lambda>r. v_lo r \<le> v_hi r) (vranges b)" and "contributions_by_pubkey cfg b pk = Some c"
  shows "proved c = int (card (\<Union>r \<in> {r. (r, False) \<in> set (walked b)
            \<and> resolve_pubkey cfg (rotation_map b) (v_pubkey r) = pk}. v_span r))
    \<and> folded c = length (filter (\<lambda>(r, f). f \<and> resolve_pubkey cfg (rotation_map b) (v_pubkey r) = pk) (walked b))
    \<and> anchored c = length (filter (\<lambda>s. is_spine_row s \<and>
            resolve_pubkey cfg (rotation_map b) (Some (s_pubkey s)) = pk) (submissions b))"
proof -
  have "lo \<le> hi" if "(q, lo, hi) \<in> set (proof_items cfg b)" for q lo hi
    using that assms(1) walked_mem by (fastforce simp: proof_items_def list_all_iff)
  from group_close_card [OF this]
  have "proved c = int (card (key_cover pk (proof_items cfg b)))"
    using assms(2) by (auto simp: contributions_by_pubkey_def Let_def split: if_splits)
  moreover have "key_cover pk (proof_items cfg b) = (\<Union>r \<in> {r. (r, False) \<in> set (walked b)
            \<and> resolve_pubkey cfg (rotation_map b) (v_pubkey r) = pk}. v_span r)"
    by (force simp: key_cover_def proof_items_def v_span_def)
  moreover have "folded c = count_list (fold_keys cfg b) pk" "anchored c = count_list (spine_keys cfg b) pk"
    using assms(2) by (auto simp: contributions_by_pubkey_def Let_def split: if_splits)
  ultimately show ?thesis
    by (simp add: fold_keys_def spine_keys_def count_map_filter split_def)
qed

theorem contributions_exact_witness:
  "case contributions_by_pubkey default_config
      (empty_board\<lparr>vranges := [vr 1 1 1, vr 2 2 2, vr 1 2 3, vr 2 4 4]\<rparr>) [] of
     None \<Rightarrow> False
   | Some c \<Rightarrow> proved c = 4 \<and> folded c = 1 \<and> anchored c = 0"
proof -
  let ?b = "empty_board\<lparr>vranges := [vr 1 1 1, vr 2 2 2, vr 1 2 3, vr 2 4 4]\<rparr>"
  have w: "walked ?b = [(vr 1 1 1, False), (vr 2 2 2, False), (vr 1 2 3, True), (vr 2 4 4, False)]"
    by (simp add: walked_def by_ts_def sort_key_def is_fold_seam_def start_step_def)
  have r: "resolve_pubkey default_config (rotation_map ?b) None = []"
    by (simp add: resolve_no_rotation or_empty_def lower_def)
  have "\<exists>c. contributions_by_pubkey default_config ?b [] = Some c"
    by (simp add: contributions_by_pubkey_def Let_def proof_items_def w r)
  then obtain c where c: "contributions_by_pubkey default_config ?b [] = Some c" by blast
  have "{r. (r, False) \<in> set (walked ?b) \<and> resolve_pubkey default_config (rotation_map ?b) (v_pubkey r) = []}
      = {vr 1 1 1, vr 2 2 2, vr 2 4 4}"
    unfolding w by (auto simp: r)
  then have "(\<Union>r \<in> {r. (r, False) \<in> set (walked ?b)
      \<and> resolve_pubkey default_config (rotation_map ?b) (v_pubkey r) = []}. v_span r) = {1..4}"
    by (auto simp: v_span_def)
  with contributions_exact [OF _ c] c show ?thesis by (simp add: w r)
qed

end
