(* ===== verification/Frontier.thy ===== *)
theory Frontier
  imports Coverage
begin

text \<open>
  The genesis-anchored frontier (\<open>coordinator/server.py\<close>: \<open>_frontier_chain\<close>, \<open>_cover_settled\<close>,
  \<open>frontier_proof\<close>, \<open>_single_flight\<close>). The walk is a dynamic program over the verified ranges in
  order of \<open>lo\<close>; its specification is the inductive set of seam-continuous chains that start at the
  genesis anchor. The lemmas show that the walk returns a chain of greatest work, and of greatest
  height among those, whatever the order of the rows.
\<close>

section \<open>The walk\<close>

definition rwork :: "vrange_row \<Rightarrow> int" where
  "rwork r = (case v_range_work r of None \<Rightarrow> 0
     | Some s \<Rightarrow> if s = [] then 0 else (case py_int s of None \<Rightarrow> 0 | Some n \<Rightarrow> n))"

text \<open>\<open>str(x)\<close> of a column that may be NULL.\<close>

definition py_str :: "string option \<Rightarrow> string" where
  "py_str s = (case s of None \<Rightarrow> ''None'' | Some x \<Rightarrow> x)"

definition has_bhash :: "vrange_row \<Rightarrow> bool" where
  "has_bhash r \<longleftrightarrow> v_in_bhash r \<noteq> None \<and> v_in_bhash r \<noteq> Some []"

definition seam :: "vrange_row \<Rightarrow> vrange_row \<Rightarrow> bool" where
  "seam p r \<longleftrightarrow> v_out_tip p = v_in_tip r \<and> py_str (v_out_bhash p) = py_str (v_in_bhash r) \<and> v_hi p + 1 = v_lo r"

definition anchored_row :: "config \<Rightarrow> vrange_row \<Rightarrow> bool" where
  "anchored_row cfg r = is_genesis_anchored (GENESIS_TIP cfg) (v_in_tip r) (v_lo r)"

record frontier =
  f_hi :: int
  f_tip :: "string option"
  f_work :: int
  f_leaves :: int

text \<open>
  One row of the walk: \<open>best\<close> maps the index of a row already reached from genesis to the greatest work
  of a chain that ends there.
\<close>

definition best_pred :: "vrange_row list \<Rightarrow> (nat \<Rightarrow> int option) \<Rightarrow> vrange_row \<Rightarrow> int option" where
  "best_pred rows best r = fold (\<lambda>j acc. if seam (rows ! j) r
       then (case best j of None \<Rightarrow> acc
             | Some pw \<Rightarrow> (case acc of None \<Rightarrow> Some pw | Some a \<Rightarrow> if pw > a then Some pw else acc))
       else acc) [0..<length rows] None"

definition cum_work :: "config \<Rightarrow> vrange_row list \<Rightarrow> (nat \<Rightarrow> int option) \<Rightarrow> vrange_row \<Rightarrow> int option" where
  "cum_work cfg rows best r =
     (if \<not> has_bhash r then None
      else if anchored_row cfg r then Some (rwork r)
      else map_option (\<lambda>w. w + rwork r) (best_pred rows best r))"

definition raise_frontier :: "vrange_row \<Rightarrow> int \<Rightarrow> frontier \<Rightarrow> frontier" where
  "raise_frontier r cw f =
     (if cw > f_work f \<or> (cw = f_work f \<and> v_hi r > f_hi f)
      then \<lparr> f_hi = v_hi r, f_tip = v_out_tip r, f_work = cw,
             f_leaves = (case v_out_leaves r of None \<Rightarrow> 0 | Some n \<Rightarrow> n) \<rparr>
      else f)"

definition walk_step :: "config \<Rightarrow> vrange_row list \<Rightarrow> nat \<Rightarrow> (nat \<Rightarrow> int option) \<times> frontier
    \<Rightarrow> (nat \<Rightarrow> int option) \<times> frontier" where
  "walk_step cfg rows i st =
     (let (best, f) = st; r = rows ! i in
      case cum_work cfg rows best r of
        None \<Rightarrow> (best, f)
      | Some cw \<Rightarrow> (best(i \<mapsto> cw), raise_frontier r cw f))"

definition genesis_frontier :: "config \<Rightarrow> frontier" where
  "genesis_frontier cfg = \<lparr> f_hi = 0, f_tip = Some (GENESIS_TIP cfg), f_work = 0, f_leaves = 0 \<rparr>"

definition frontier_rows :: "board \<Rightarrow> vrange_row list" where
  "frontier_rows b = sort_key v_lo (sort_key v_ts (vranges b))"

definition frontier_chain :: "config \<Rightarrow> board \<Rightarrow> frontier" where
  "frontier_chain cfg b =
     (let rows = frontier_rows b in
      snd (fold (walk_step cfg rows) [0..<length rows] (\<lambda>_. None, genesis_frontier cfg)))"

section \<open>The cached snapshot\<close>

text \<open>
  \<open>_single_flight\<close> for one caller at a time: a value younger than the time to live is served, otherwise
  it is recomputed and stored with the time the computation began or ended. A frontier snapshot carries
  the time its read of the table began; \<open>_frontier_invalidate\<close> drops it.
\<close>

type_synonym snapshot = "time \<times> frontier"

definition frontier_snapshot :: "config \<Rightarrow> rat \<Rightarrow> time \<Rightarrow> board \<Rightarrow> (time \<times> snapshot) option \<Rightarrow> snapshot \<times> (time \<times> snapshot) option" where
  "frontier_snapshot cfg ttl now b cache =
     (case cache of
        Some (t, v) \<Rightarrow> if now - t < ttl then (v, cache) else ((now, frontier_chain cfg b), Some (now, now, frontier_chain cfg b))
      | None \<Rightarrow> ((now, frontier_chain cfg b), Some (now, now, frontier_chain cfg b)))"

definition cover_settled :: "config \<Rightarrow> board \<Rightarrow> int \<Rightarrow> time \<Rightarrow> bool" where
  "cover_settled cfg b n taken_at =
     list_all (\<lambda>r. \<not> (v_lo r \<le> n \<and> v_hi r \<ge> n
        \<and> (case v_ts r of None \<Rightarrow> 0 | Some t \<Rightarrow> t) > taken_at - FRONTIER_SETTLE cfg)) (vranges b)"

section \<open>The specification: chains from genesis\<close>

inductive seam_chain :: "config \<Rightarrow> vrange_row set \<Rightarrow> vrange_row \<Rightarrow> int \<Rightarrow> bool" for cfg R where
  genesis: "r \<in> R \<Longrightarrow> has_bhash r \<Longrightarrow> anchored_row cfg r \<Longrightarrow> seam_chain cfg R r (rwork r)"
| extend: "seam_chain cfg R p w \<Longrightarrow> r \<in> R \<Longrightarrow> has_bhash r \<Longrightarrow> seam p r \<Longrightarrow> seam_chain cfg R r (w + rwork r)"

inductive_cases seam_chainE: "seam_chain cfg R r w"

lemma seam_chain_mem: "seam_chain cfg R r w \<Longrightarrow> r \<in> R \<and> has_bhash r"
  by (auto elim: seam_chainE)

text \<open>A chain covers every height from 1 to its end.\<close>

lemma seam_chain_cover: "seam_chain cfg R r w \<Longrightarrow> {1..v_hi r} \<subseteq> (\<Union>x \<in> R. v_span x)"
proof (induction rule: seam_chain.induct)
  case (genesis r)
  then have "{1..v_hi r} = v_span r" by (simp add: anchored_row_def is_genesis_anchored_def v_span_def)
  with genesis show ?case by blast
next
  case (extend p w r)
  then have "{1..v_hi r} \<subseteq> {1..v_hi p} \<union> v_span r" by (auto simp: seam_def v_span_def)
  with extend show ?case by blast
qed

lemma seam_chain_lo: "seam_chain cfg R r w \<Longrightarrow> (\<And>x. x \<in> R \<Longrightarrow> v_lo x \<le> v_hi x) \<Longrightarrow> 1 \<le> v_lo r"
proof (induction rule: seam_chain.induct)
  case (extend p w r)
  then have "1 \<le> v_lo p" "v_lo p \<le> v_hi p" by (auto dest: seam_chain_mem)
  with extend show ?case by (simp add: seam_def)
qed (simp add: anchored_row_def is_genesis_anchored_def)

section \<open>The walk finds the greatest chain\<close>

lemma best_pred_max:
  "best_pred rows best r = fold (\<lambda>j h. max h (if seam (rows ! j) r then best j else None)) [0..<length rows] None"
proof -
  have "(if seam (rows ! j) r
       then (case best j of None \<Rightarrow> acc
             | Some pw \<Rightarrow> (case acc of None \<Rightarrow> Some pw | Some a \<Rightarrow> if pw > a then Some pw else acc))
       else acc) = max acc (if seam (rows ! j) r then best j else None)" for j acc
    by (cases acc; cases "best j") (auto simp: max_def)
  then show ?thesis by (simp add: best_pred_def)
qed

lemma fold_max_attained:
  fixes f :: "'a \<Rightarrow> 'b :: linorder"
  shows "fold (\<lambda>n h. max h (f n)) ns h = h \<or> (\<exists>n \<in> set ns. fold (\<lambda>n h. max h (f n)) ns h = f n)"
proof (induction ns arbitrary: h)
  case (Cons a ns)
  from Cons.IH [of "max h (f a)"] show ?case by (auto simp: max_def split: if_splits)
qed simp

lemma best_pred_ge: "j < length rows \<Longrightarrow> seam (rows ! j) r \<Longrightarrow> best j \<le> best_pred rows best r"
  using fold_max_ge(2) [of j "[0..<length rows]" "\<lambda>j. if seam (rows ! j) r then best j else None" None]
  by (simp add: best_pred_max)

lemma best_pred_Some:
  "best_pred rows best r = Some m \<Longrightarrow> \<exists>j < length rows. seam (rows ! j) r \<and> best j = Some m"
  using fold_max_attained [of "\<lambda>j. if seam (rows ! j) r then best j else None" "[0..<length rows]" None]
  by (auto simp: best_pred_max split: if_splits)

definition top_chain :: "config \<Rightarrow> vrange_row list \<Rightarrow> vrange_row \<Rightarrow> int option \<Rightarrow> bool" where
  "top_chain cfg rows r c \<longleftrightarrow> (case c of
       None \<Rightarrow> \<forall>w. \<not> seam_chain cfg (set rows) r w
     | Some m \<Rightarrow> seam_chain cfg (set rows) r m \<and> (\<forall>w. seam_chain cfg (set rows) r w \<longrightarrow> w \<le> m))"

definition best_ok :: "config \<Rightarrow> vrange_row list \<Rightarrow> nat \<Rightarrow> (nat \<Rightarrow> int option) \<Rightarrow> bool" where
  "best_ok cfg rows n best \<longleftrightarrow>
     (\<forall>i < n. top_chain cfg rows (rows ! i) (best i)) \<and> (\<forall>i \<ge> n. best i = None)"

lemma best_okD:
  "best_ok cfg rows n best \<Longrightarrow> best i = Some m \<Longrightarrow> i < n \<and> top_chain cfg rows (rows ! i) (Some m)"
  unfolding best_ok_def by (metis leI option.distinct(1))

definition rows_ok :: "vrange_row list \<Rightarrow> bool" where
  "rows_ok rows \<longleftrightarrow> sorted (map v_lo rows) \<and> (\<forall>x \<in> set rows. v_lo x \<le> v_hi x)"

lemma seam_before:
  assumes ok: "rows_ok rows" and "i < length rows" "j < length rows" "seam (rows ! j) (rows ! i)"
  shows "j < i"
proof (rule ccontr)
  assume "\<not> j < i"
  then have "v_lo (rows ! i) \<le> v_lo (rows ! j)"
    using ok assms(2,3) by (simp add: rows_ok_def sorted_iff_nth_mono)
  moreover have "v_lo (rows ! j) \<le> v_hi (rows ! j)" using ok assms(3) by (simp add: rows_ok_def)
  ultimately show False using assms(4) by (simp add: seam_def)
qed

lemma cum_work_top:
  assumes ok: "rows_ok rows" and i: "i < length rows" and bok: "best_ok cfg rows i best"
  shows "top_chain cfg rows (rows ! i) (cum_work cfg rows best (rows ! i))"
proof -
  have wf: "v_lo x \<le> v_hi x" if "x \<in> set rows" for x using ok that by (simp add: rows_ok_def)
  let ?r = "rows ! i"
  have r: "?r \<in> set rows" using i by simp
  show ?thesis
  proof (cases "has_bhash ?r")
    case False
    then show ?thesis by (auto simp: cum_work_def top_chain_def dest: seam_chain_mem)
  next
    case bh: True
    show ?thesis
    proof (cases "anchored_row cfg ?r")
      case True
      have "w \<le> rwork ?r" if "seam_chain cfg (set rows) ?r w" for w
        using that
      proof (cases rule: seam_chain.cases)
        case (extend p w')
        then have "1 \<le> v_lo p" "v_lo p \<le> v_hi p"
          using seam_chain_lo [OF extend(2)] wf seam_chain_mem [OF extend(2)] by auto
        with extend True show ?thesis by (simp add: seam_def anchored_row_def is_genesis_anchored_def)
      qed simp
      with True bh r show ?thesis
        by (auto simp: cum_work_def top_chain_def intro: seam_chain.genesis)
    next
      case False
      have ext: "\<exists>j m. j < length rows \<and> seam (rows ! j) ?r \<and> best j = Some m \<and> w \<le> m + rwork ?r"
        if "seam_chain cfg (set rows) ?r w" for w
        using that
      proof (cases rule: seam_chain.cases)
        case (extend p w')
        then obtain j where j: "j < length rows" "p = rows ! j"
          by (metis in_set_conv_nth seam_chain_mem)
        with seam_before [OF ok i j(1)] extend have "j < i" by simp
        with bok have "top_chain cfg rows p (best j)" by (simp add: best_ok_def j)
        with extend obtain m where "best j = Some m" "w' \<le> m" by (auto simp: top_chain_def split: option.splits)
        with extend j show ?thesis by auto
      qed (use False in simp)
      show ?thesis
      proof (cases "best_pred rows best ?r")
        case None
        have "\<not> seam_chain cfg (set rows) ?r w" for w
        proof
          assume "seam_chain cfg (set rows) ?r w"
          from ext [OF this] best_pred_ge [of _ rows ?r best] None show False by force
        qed
        with None bh False show ?thesis by (simp add: cum_work_def top_chain_def)
      next
        case (Some m)
        from best_pred_Some [OF this] obtain j where j: "j < length rows" "seam (rows ! j) ?r" "best j = Some m" by blast
        from best_okD [OF bok j(3)] have "seam_chain cfg (set rows) (rows ! j) m" by (simp add: top_chain_def)
        from seam_chain.extend [OF this r bh j(2)] have "seam_chain cfg (set rows) ?r (m + rwork ?r)" .
        moreover have "w \<le> m + rwork ?r" if "seam_chain cfg (set rows) ?r w" for w
          using ext [OF that] best_pred_ge [of _ rows ?r best] Some by force
        ultimately show ?thesis using Some bh False by (simp add: cum_work_def top_chain_def)
      qed
    qed
  qed
qed

definition below :: "int \<Rightarrow> int \<Rightarrow> frontier \<Rightarrow> bool" where
  "below w h f \<longleftrightarrow> w < f_work f \<or> (w = f_work f \<and> h \<le> f_hi f)"

definition walk_ok :: "config \<Rightarrow> vrange_row list \<Rightarrow> nat \<Rightarrow> (nat \<Rightarrow> int option) \<times> frontier \<Rightarrow> bool" where
  "walk_ok cfg rows n st \<longleftrightarrow> best_ok cfg rows n (fst st)
     \<and> (snd st = genesis_frontier cfg \<or>
        (\<exists>r. seam_chain cfg (set rows) r (f_work (snd st)) \<and> v_hi r = f_hi (snd st) \<and> v_out_tip r = f_tip (snd st)))
     \<and> below 0 0 (snd st)
     \<and> (\<forall>i m. fst st i = Some m \<longrightarrow> below m (v_hi (rows ! i)) (snd st))"

lemma below_raise: "below w h f \<Longrightarrow> below w h (raise_frontier r cw f)"
  by (auto simp: below_def raise_frontier_def)

lemma below_raise_self: "below cw (v_hi r) (raise_frontier r cw f)"
  by (auto simp: below_def raise_frontier_def)

lemma walk_ok_step:
  assumes "rows_ok rows" "n < length rows" "walk_ok cfg rows n st"
  shows "walk_ok cfg rows (Suc n) (walk_step cfg rows n st)"
proof -
  obtain best f where st: "st = (best, f)" by (cases st)
  from assms(3) st have bok: "best_ok cfg rows n best" by (simp add: walk_ok_def)
  note t = cum_work_top [OF assms(1,2) bok]
  have bok': "best_ok cfg rows (Suc n) (case cum_work cfg rows best (rows ! n) of None \<Rightarrow> best | Some cw \<Rightarrow> best(n \<mapsto> cw))"
    using bok t by (auto simp: best_ok_def less_Suc_eq split: option.splits)
  show ?thesis
  proof (cases "cum_work cfg rows best (rows ! n)")
    case None
    with assms(3) bok' show ?thesis by (simp add: walk_ok_def walk_step_def st)
  next
    case (Some cw)
    with t have "seam_chain cfg (set rows) (rows ! n) cw" by (simp add: top_chain_def)
    then have "raise_frontier (rows ! n) cw f = f \<or> (\<exists>r. seam_chain cfg (set rows) r (f_work (raise_frontier (rows ! n) cw f))
        \<and> v_hi r = f_hi (raise_frontier (rows ! n) cw f) \<and> v_out_tip r = f_tip (raise_frontier (rows ! n) cw f))"
      by (auto simp: raise_frontier_def)
    with Some assms(3) bok' show ?thesis
      by (auto simp: walk_ok_def walk_step_def st below_raise below_raise_self)
  qed
qed

lemma walk_ok_all:
  assumes "rows_ok rows" "n \<le> length rows"
  shows "walk_ok cfg rows n (fold (walk_step cfg rows) [0..<n] (\<lambda>_. None, genesis_frontier cfg))"
  using assms(2)
proof (induction n)
  case 0
  then show ?case by (simp add: walk_ok_def best_ok_def below_def genesis_frontier_def)
next
  case (Suc n)
  with walk_ok_step [OF assms(1), of n cfg] show ?case by simp
qed

lemma rows_ok_frontier: "list_all (\<lambda>r. v_lo r \<le> v_hi r) (vranges b) \<Longrightarrow> rows_ok (frontier_rows b)"
  by (simp add: rows_ok_def frontier_rows_def list_all_iff)

lemma set_frontier_rows [simp]: "set (frontier_rows b) = set (vranges b)"
  by (simp add: frontier_rows_def)

lemma frontier_spec:
  assumes "list_all (\<lambda>r. v_lo r \<le> v_hi r) (vranges b)"
  shows "frontier_chain cfg b = genesis_frontier cfg \<or>
      (\<exists>r. seam_chain cfg (set (vranges b)) r (f_work (frontier_chain cfg b))
         \<and> v_hi r = f_hi (frontier_chain cfg b) \<and> v_out_tip r = f_tip (frontier_chain cfg b))"
    and "below 0 0 (frontier_chain cfg b)"
    and "seam_chain cfg (set (vranges b)) r w \<Longrightarrow> below w (v_hi r) (frontier_chain cfg b)"
proof -
  let ?rows = "frontier_rows b"
  let ?st = "fold (walk_step cfg ?rows) [0..<length ?rows] (\<lambda>_. None, genesis_frontier cfg)"
  have f: "frontier_chain cfg b = snd ?st" by (simp add: frontier_chain_def Let_def)
  note ok = walk_ok_all [OF rows_ok_frontier [OF assms] order_refl, of cfg]
  from ok show "frontier_chain cfg b = genesis_frontier cfg \<or>
      (\<exists>r. seam_chain cfg (set (vranges b)) r (f_work (frontier_chain cfg b))
         \<and> v_hi r = f_hi (frontier_chain cfg b) \<and> v_out_tip r = f_tip (frontier_chain cfg b))"
    and "below 0 0 (frontier_chain cfg b)"
    by (simp_all add: walk_ok_def f)
  show "below w (v_hi r) (frontier_chain cfg b)" if c: "seam_chain cfg (set (vranges b)) r w"
  proof -
    from seam_chain_mem [OF c] obtain i where i: "i < length ?rows" "r = ?rows ! i"
      by (metis in_set_conv_nth set_frontier_rows)
    with ok have "top_chain cfg ?rows r (fst ?st i)" by (simp add: walk_ok_def best_ok_def)
    with c obtain m where m: "fst ?st i = Some m" "w \<le> m" by (auto simp: top_chain_def split: option.splits)
    with ok i have "below m (v_hi r) (snd ?st)" by (simp add: walk_ok_def)
    with m(2) show ?thesis by (auto simp: below_def f)
  qed
qed

section \<open>Properties\<close>

text \<open>
  Claim C27. The frontier is Bitcoin's rule: the walk returns the end of a chain of verified ranges that
  starts at the genesis anchor and whose every seam joins tips, boundary digests and heights (or the
  genesis state itself), and no such chain has more work, nor the same work and a greater height.
\<close>

theorem frontier_most_work:
  assumes "list_all (\<lambda>r. v_lo r \<le> v_hi r) (vranges b)"
  shows "(frontier_chain cfg b = genesis_frontier cfg \<or>
      (\<exists>r. seam_chain cfg (set (vranges b)) r (f_work (frontier_chain cfg b))
         \<and> v_hi r = f_hi (frontier_chain cfg b) \<and> v_out_tip r = f_tip (frontier_chain cfg b)))
    \<and> (\<forall>r w. seam_chain cfg (set (vranges b)) r w \<longrightarrow>
         w < f_work (frontier_chain cfg b) \<or>
         (w = f_work (frontier_chain cfg b) \<and> v_hi r \<le> f_hi (frontier_chain cfg b)))"
  using frontier_spec(1) [OF assms] frontier_spec(3) [OF assms] by (simp add: below_def)

definition chained :: "int \<Rightarrow> int \<Rightarrow> string \<Rightarrow> string \<Rightarrow> string \<Rightarrow> string \<Rightarrow> string \<Rightarrow> vrange_row" where
  "chained lo hi in_tip out_tip in_b out_b work =
     (vr lo hi 1)\<lparr>v_in_tip := Some in_tip, v_out_tip := Some out_tip, v_in_bhash := Some in_b,
        v_out_bhash := Some out_b, v_range_work := Some work\<rparr>"

text \<open>A fork: a taller chain of little work beside a shorter one of more.\<close>

definition fork_board :: board where
  "fork_board = empty_board\<lparr>vranges := [
     chained 2 3 ''a'' ''b'' ''x'' ''y'' ''1'',
     chained 1 1 (GENESIS_TIP default_config) ''a'' ''g'' ''x'' ''10'',
     chained 1 1 (GENESIS_TIP default_config) ''c'' ''g'' ''z'' ''20'']\<rparr>"

lemma fork_frontier: "frontier_chain default_config fork_board = \<lparr> f_hi = 1, f_tip = Some ''c'', f_work = 20, f_leaves = 0 \<rparr>"
  by code_simp

lemma fork_ok: "list_all (\<lambda>r. v_lo r \<le> v_hi r) (vranges fork_board)"
  by (simp add: fork_board_def chained_def vr_def)

theorem frontier_most_work_witness:
  "\<not> seam_chain default_config (set (vranges fork_board)) (chained 2 3 ''a'' ''b'' ''x'' ''y'' ''1'') 21
   \<and> f_work (frontier_chain default_config fork_board) = 20"
  using frontier_most_work [OF fork_ok, of default_config, THEN conjunct2, THEN spec, THEN spec,
      of "chained 2 3 ''a'' ''b'' ''x'' ''y'' ''1''" 21]
  by (simp add: fork_frontier)

text \<open>
  The frontier never claims a height nobody proved: every block from 1 to the frontier's
  height lies in a verified range, so the height is at most the number of proven blocks.
\<close>

theorem frontier_covered:
  assumes "list_all (\<lambda>r. v_lo r \<le> v_hi r) (vranges b)"
  shows "{1..f_hi (frontier_chain cfg b)} \<subseteq> covered b \<and> f_hi (frontier_chain cfg b) \<le> proven_count b"
proof -
  have c: "{1..f_hi (frontier_chain cfg b)} \<subseteq> covered b"
    using frontier_spec(1) [OF assms, of cfg]
  proof
    assume "frontier_chain cfg b = genesis_frontier cfg"
    then show ?thesis by (simp add: genesis_frontier_def)
  next
    assume "\<exists>r. seam_chain cfg (set (vranges b)) r (f_work (frontier_chain cfg b))
         \<and> v_hi r = f_hi (frontier_chain cfg b) \<and> v_out_tip r = f_tip (frontier_chain cfg b)"
    then show ?thesis unfolding covered_def by (metis seam_chain_cover)
  qed
  have "finite (covered b)" by (simp add: covered_def v_span_def)
  from card_mono [OF this c] proven_count_card [OF assms] c show ?thesis by simp
qed

theorem frontier_covered_witness:
  "{1..f_hi (frontier_chain default_config fork_board)} \<subseteq> covered fork_board
   \<and> f_hi (frontier_chain default_config fork_board) \<le> proven_count fork_board"
  by (rule frontier_covered [OF fork_ok])

text \<open>
  The frontier is a function of the set of verified ranges: two coordinators that hold the
  same ranges, whatever the order they adopted them in, compute the same work and the same height.
\<close>

theorem frontier_converges:
  assumes "list_all (\<lambda>r. v_lo r \<le> v_hi r) (vranges b)" and "set (vranges b') = set (vranges b)"
  shows "f_work (frontier_chain cfg b') = f_work (frontier_chain cfg b)
    \<and> f_hi (frontier_chain cfg b') = f_hi (frontier_chain cfg b)"
proof -
  have ok': "list_all (\<lambda>r. v_lo r \<le> v_hi r) (vranges b')" using assms by (simp add: list_all_iff)
  let ?f = "frontier_chain cfg b" and ?f' = "frontier_chain cfg b'"
  have "below (f_work ?f) (f_hi ?f) ?f'"
    using frontier_spec(1) [OF assms(1), of cfg] frontier_spec(2,3) [OF ok', of cfg]
    by (auto simp: genesis_frontier_def assms(2)) (metis assms(2))
  moreover have "below (f_work ?f') (f_hi ?f') ?f"
    using frontier_spec(1) [OF ok', of cfg] frontier_spec(2,3) [OF assms(1), of cfg]
    by (auto simp: genesis_frontier_def assms(2)) (metis assms(2))
  ultimately show ?thesis by (auto simp: below_def)
qed

theorem frontier_converges_witness:
  "f_work (frontier_chain default_config (fork_board\<lparr>vranges := rev (vranges fork_board)\<rparr>)) = 20
   \<and> f_hi (frontier_chain default_config (fork_board\<lparr>vranges := rev (vranges fork_board)\<rparr>)) = 1"
  using frontier_converges [OF fork_ok, of "fork_board\<lparr>vranges := rev (vranges fork_board)\<rparr>" default_config]
  by (simp add: fork_frontier)

end
