(* ===== verification/Sponsor_Holds.thy ===== *)
theory Sponsor_Holds
  imports Frontier
begin

text \<open>
  Sponsorship prices and holds (\<open>coordinator/server.py\<close>: \<open>_parse_price_bands\<close>, \<open>sponsor_min_usd\<close>,
  \<open>sponsor_min_sats\<close>, \<open>_sponsor_pending\<close>, \<open>_sponsor_holds\<close>, \<open>_sponsor_mark_proven\<close>,
  \<open>_hold_refusal\<close>, \<open>_is_public_sponsorship\<close>, \<open>_public_sponsor\<close>, \<open>coverage_and_held\<close>). The lemmas
  give the price of a span block by block, the exact rounding to sats, and say who may prove a held
  block and when its hold ends.
\<close>

section \<open>Prices\<close>

text \<open>One entry of \<open>SPONSOR_PRICE_BANDS\<close>; every other shape makes the whole setting unpriced.\<close>

fun band_entry :: "json \<Rightarrow> (int \<times> int \<times> int) option" where
  "band_entry (JArr [JInt lo, JInt hi, JInt usd]) =
     (if lo < 1 \<or> hi < lo \<or> usd < 1 then None else Some (lo, hi, usd))"
| "band_entry _ = None"

fun bands_apart :: "(int \<times> int \<times> int) list \<Rightarrow> bool" where
  "bands_apart ((l, h, u) # (l', h', u') # bs) = (l' > h \<and> bands_apart ((l', h', u') # bs))"
| "bands_apart _ = True"

text \<open>The argument is the decoded text, None where \<open>json.loads\<close> raises or the text is empty.\<close>

definition parse_price_bands :: "json option \<Rightarrow> (int \<times> int \<times> int) list option" where
  "parse_price_bands raw = (case raw of
       Some (JArr bs) \<Rightarrow> (case those (map band_entry bs) of
           None \<Rightarrow> None
         | Some out \<Rightarrow> let srt = sort out in if srt = [] \<or> \<not> bands_apart srt then None else Some srt)
     | _ \<Rightarrow> None)"

definition SPONSOR_PRICE_BANDS_DEFAULT :: "(int \<times> int \<times> int) list" where
  "SPONSOR_PRICE_BANDS_DEFAULT = [(1, 200000, 1), (200001, 400000, 2), (400001, 600000, 3),
     (600001, 800000, 4), (800001, 1000000, 5), (1000001, 1000000000, 6)]"

fun band_step :: "int \<Rightarrow> int \<Rightarrow> int \<times> int \<times> int \<Rightarrow> int \<times> int \<Rightarrow> int \<times> int" where
  "band_step lo hi (blo, bhi, usd) (t, cov) =
     (let a = max lo blo; b = min hi bhi in
      if a \<le> b then (t + (b - a + 1) * usd, cov + (b - a + 1)) else (t, cov))"

definition sponsor_min_usd :: "(int \<times> int \<times> int) list option \<Rightarrow> int \<Rightarrow> int \<Rightarrow> int option" where
  "sponsor_min_usd bands lo hi = (case bands of None \<Rightarrow> None | Some bs \<Rightarrow>
     if bs = [] then None
     else (let (t, cov) = fold (band_step lo hi) bs (0, 0) in if cov = hi - lo + 1 then Some t else None))"

text \<open>\<open>Fraction(str(rate))\<close> is the rational rate; the quotient is rounded up.\<close>

definition sponsor_min_sats :: "int option \<Rightarrow> rat option \<Rightarrow> int option" where
  "sponsor_min_sats min_usd rate = (case (min_usd, rate) of
       (Some u, Some r) \<Rightarrow> Some \<lceil>of_int (u * 100000000) / r\<rceil>
     | _ \<Rightarrow> None)"

section \<open>Holds\<close>

definition paid_enough :: "sponsorship \<Rightarrow> bool" where
  "paid_enough s = (case (sp_paid_sats s, sp_min_sats s) of (Some p, Some m) \<Rightarrow> p \<ge> m | _ \<Rightarrow> False)"

definition is_public_sponsorship :: "sponsorship \<Rightarrow> bool" where
  "is_public_sponsorship s \<longleftrightarrow> sp_status s \<in> {Paid, Proving, Proven} \<and> paid_enough s"

definition is_hold :: "sponsorship \<Rightarrow> bool" where
  "is_hold s \<longleftrightarrow> sp_status s \<in> {Paid, Proving} \<and> paid_enough s"

definition is_pending :: "time \<Rightarrow> sponsorship \<Rightarrow> bool" where
  "is_pending now s \<longleftrightarrow> sp_status s = Invoiced \<and> gt_opt (sp_hold_until s) now"

definition sp_meets :: "int \<Rightarrow> int \<Rightarrow> sponsorship \<Rightarrow> bool" where
  "sp_meets lo hi s \<longleftrightarrow> sp_lo s \<le> hi \<and> sp_hi s \<ge> lo"

definition sponsor_pending :: "board \<Rightarrow> time \<Rightarrow> (int \<times> int) option \<Rightarrow> sponsorship list" where
  "sponsor_pending b now inside = sort_key (\<lambda>s. (sp_created_at s, sp_id s))
     (filter (\<lambda>s. is_pending now s \<and> (case inside of None \<Rightarrow> True | Some (lo, hi) \<Rightarrow> sp_meets lo hi s)) (sponsorships b))"

definition sponsor_holds :: "board \<Rightarrow> (int \<times> int) option \<Rightarrow> sponsorship list" where
  "sponsor_holds b inside = sort_key (\<lambda>s. (sp_paid_at s, sp_id s))
     (filter (\<lambda>s. is_hold s \<and> (case inside of None \<Rightarrow> True | Some (lo, hi) \<Rightarrow> sp_meets lo hi s)) (sponsorships b))"

definition public_sponsor :: "board \<Rightarrow> int \<Rightarrow> sponsorship option" where
  "public_sponsor b n = (case sort_key (\<lambda>s. (sp_paid_at s, sp_id s))
       (filter (\<lambda>s. sp_meets n n s \<and> is_public_sponsorship s) (sponsorships b)) of
     [] \<Rightarrow> None | s # _ \<Rightarrow> Some s)"

text \<open>The loop that walks the ranges in order of \<open>lo\<close>; the result is the first height it could not pass.\<close>

fun cover_scan :: "(int \<times> int) list \<Rightarrow> int \<Rightarrow> int \<Rightarrow> int" where
  "cover_scan [] need hi = need"
| "cover_scan ((l, h) # rs) need hi =
     (if l > need then need
      else let n = max need (h + 1) in if n > hi then n else cover_scan rs n hi)"

definition span_rows :: "board \<Rightarrow> int \<Rightarrow> int \<Rightarrow> (int \<times> int) list" where
  "span_rows b lo hi = map (\<lambda>r. (v_lo r, v_hi r))
     (sort_key v_lo (filter (\<lambda>r. v_lo r \<le> hi \<and> v_hi r \<ge> lo) (vranges b)))"

definition span_proven :: "board \<Rightarrow> int \<Rightarrow> int \<Rightarrow> bool" where
  "span_proven b lo hi \<longleftrightarrow> cover_scan (span_rows b lo hi) lo hi > hi"

definition set_proven :: "time \<Rightarrow> int \<Rightarrow> sponsorship list \<Rightarrow> sponsorship list" where
  "set_proven now sid = upd_where (\<lambda>s. sp_id s = sid \<and> sp_status s \<in> {Paid, Proving})
     (\<lambda>s. s\<lparr>sp_status := Proven, sp_proven_at := Some now\<rparr>)"

definition sponsor_mark_proven :: "board \<Rightarrow> int \<Rightarrow> int \<Rightarrow> time \<Rightarrow> int list \<times> board" where
  "sponsor_mark_proven b lo hi now =
     (let ids = map sp_id (filter (\<lambda>s. span_proven b (sp_lo s) (sp_hi s)) (sponsor_holds b (Some (lo, hi))))
      in (ids, b\<lparr>sponsorships := fold (set_proven now) ids (sponsorships b)\<rparr>))"

definition is_proven :: "board \<Rightarrow> int \<Rightarrow> bool" where
  "is_proven b n = list_ex (\<lambda>r. v_lo r \<le> n \<and> n \<le> v_hi r) (vranges b)"

definition key_of_sponsorship :: "board \<Rightarrow> pubkey \<Rightarrow> int \<Rightarrow> bool" where
  "key_of_sponsorship b pk sid = list_ex (\<lambda>k. k_pubkey k = lower pk \<and> k_sponsorship k = Some sid) (sponsor_keys b)"

fun hold_loop :: "board \<Rightarrow> int \<Rightarrow> int \<Rightarrow> pubkey \<Rightarrow> sponsorship list \<Rightarrow> (int \<times> int) option" where
  "hold_loop b lo hi pk [] = None"
| "hold_loop b lo hi pk (s # ss) =
     (case scan_up (\<lambda>h. \<not> is_proven b h) (max lo (sp_lo s)) (min hi (sp_hi s) + 1) of
        None \<Rightarrow> hold_loop b lo hi pk ss
      | Some h \<Rightarrow> if key_of_sponsorship b pk (sp_id s) then hold_loop b lo hi pk ss else Some (sp_id s, h))"

definition hold_refusal :: "board \<Rightarrow> int \<Rightarrow> int \<Rightarrow> pubkey \<Rightarrow> (int \<times> int) option" where
  "hold_refusal b lo hi pk = hold_loop b lo hi pk (sponsor_holds b (Some (lo, hi)))"

text \<open>The two sets \<open>claim\<close> and \<open>pick\<close> agree on, as predicates on a height.\<close>

definition is_held :: "config \<Rightarrow> board \<Rightarrow> time \<Rightarrow> int \<Rightarrow> bool" where
  "is_held cfg b now n \<longleftrightarrow>
     list_ex (\<lambda>r. live_claim cfg now r \<and> r_lo r = n) (ranges b)
     \<or> list_ex (\<lambda>s. sp_lo s \<le> n \<and> n \<le> sp_hi s) (sponsor_holds b None)
     \<or> list_ex (\<lambda>s. sp_lo s \<le> n \<and> n \<le> sp_hi s) (sponsor_pending b now None)"

definition coverage_and_held :: "config \<Rightarrow> board \<Rightarrow> time \<Rightarrow> (int \<Rightarrow> bool) \<times> (int \<Rightarrow> bool)" where
  "coverage_and_held cfg b now = (is_proven b, is_held cfg b now)"

section \<open>Lemmas\<close>

lemma is_proven_iff: "is_proven b n \<longleftrightarrow> n \<in> covered b"
  by (auto simp: is_proven_def covered_def v_span_def list_ex_iff)

lemma cover_scan_iff:
  "sorted (map fst rows) \<Longrightarrow> cover_scan rows need hi > hi \<longleftrightarrow> {need..hi} \<subseteq> span_set rows"
proof (induction rows need hi rule: cover_scan.induct)
  case (2 l h rs need hi)
  show ?case
  proof (cases "l > need")
    case True
    with "2.prems" have "need \<notin> span_set ((l, h) # rs)"
      by (auto simp: span_set_mem)
    then have "{need..hi} \<subseteq> span_set ((l, h) # rs) \<longleftrightarrow> hi < need" by force
    with True show ?thesis by simp
  next
    case False
    let ?n = "max need (h + 1)"
    have e: "{need..hi} \<subseteq> {l..h} \<union> span_set rs \<longleftrightarrow> {?n..hi} \<subseteq> span_set rs"
    proof
      assume a: "{need..hi} \<subseteq> {l..h} \<union> span_set rs"
      show "{?n..hi} \<subseteq> span_set rs"
      proof
        fix x assume "x \<in> {?n..hi}"
        then show "x \<in> span_set rs" using a [THEN subsetD, of x] by auto
      qed
    next
      assume a: "{?n..hi} \<subseteq> span_set rs"
      show "{need..hi} \<subseteq> {l..h} \<union> span_set rs"
      proof
        fix x assume "x \<in> {need..hi}"
        then show "x \<in> {l..h} \<union> span_set rs" using False a [THEN subsetD, of x] by (cases "x \<le> h") auto
      qed
    qed
    show ?thesis
    proof (cases "?n > hi")
      case True
      with False e show ?thesis by (simp add: Let_def del: max_less_iff_conj)
    next
      case nh: False
      with False 2 e show ?thesis by (simp add: Let_def)
    qed
  qed
qed auto

lemma span_proven_iff: "span_proven b lo hi \<longleftrightarrow> {lo..hi} \<subseteq> covered b"
proof -
  have "span_proven b lo hi \<longleftrightarrow> {lo..hi} \<subseteq> span_set (span_rows b lo hi)"
    unfolding span_proven_def by (rule cover_scan_iff) (simp add: span_rows_def comp_def)
  also have "span_set (span_rows b lo hi) = (\<Union>r \<in> {r \<in> set (vranges b). v_lo r \<le> hi \<and> v_hi r \<ge> lo}. v_span r)"
    by (auto simp: span_rows_def span_set_rows [unfolded comp_def])
  also have "{lo..hi} \<subseteq> \<dots> \<longleftrightarrow> {lo..hi} \<subseteq> covered b"
    by (fastforce simp: covered_def v_span_def subset_iff)
  finally show ?thesis .
qed

lemma holds_mem: "s \<in> set (sponsor_holds b (Some (lo, hi))) \<longleftrightarrow> s \<in> set (sponsorships b) \<and> is_hold s \<and> sp_meets lo hi s"
  by (auto simp: sponsor_holds_def)

lemma hold_loop_None:
  "hold_loop b lo hi pk ss = None \<longleftrightarrow>
     (\<forall>s \<in> set ss. key_of_sponsorship b pk (sp_id s) \<or> {max lo (sp_lo s)..min hi (sp_hi s)} \<subseteq> covered b)"
proof (induction ss)
  case (Cons s ss)
  let ?a = "max lo (sp_lo s)" and ?e = "min hi (sp_hi s) + 1"
  show ?case
  proof (cases "scan_up (\<lambda>h. \<not> is_proven b h) ?a ?e")
    case None
    have "{?a..min hi (sp_hi s)} \<subseteq> covered b"
      using scan_up_None [OF None] by (auto simp: is_proven_iff)
    with None Cons show ?thesis by simp
  next
    case (Some h)
    from scan_up_Some [OF this] have "\<not> {?a..min hi (sp_hi s)} \<subseteq> covered b"
      by (auto simp: is_proven_iff subset_iff intro!: exI [of _ h])
    with Some Cons show ?thesis by simp
  qed
qed simp

lemma hold_loop_Some:
  "hold_loop b lo hi pk ss = Some (sid, h) \<Longrightarrow>
   \<exists>s \<in> set ss. sp_id s = sid \<and> \<not> key_of_sponsorship b pk sid \<and> h \<notin> covered b
     \<and> max lo (sp_lo s) \<le> h \<and> h \<le> min hi (sp_hi s)"
proof (induction ss)
  case (Cons s ss)
  show ?case
  proof (cases "scan_up (\<lambda>h. \<not> is_proven b h) (max lo (sp_lo s)) (min hi (sp_hi s) + 1)")
    case None
    with Cons show ?thesis by auto
  next
    case (Some h')
    with Cons scan_up_Some [OF Some] show ?thesis
      by (cases "key_of_sponsorship b pk (sp_id s)") (auto simp: is_proven_iff)
  qed
qed simp

lemma set_proven_row:
  "row_of sp_id k (set_proven now sid ss) = map_option (\<lambda>s. if sp_id s = sid \<and> sp_status s \<in> {Paid, Proving}
      then s\<lparr>sp_status := Proven, sp_proven_at := Some now\<rparr> else s) (row_of sp_id k ss)"
  by (simp add: set_proven_def row_of_upd)

lemma fold_set_proven:
  "row_of sp_id k (fold (set_proven now) ids ss) = map_option (\<lambda>s. if k \<in> set ids \<and> sp_status s \<in> {Paid, Proving}
      then s\<lparr>sp_status := Proven, sp_proven_at := Some now\<rparr> else s) (row_of sp_id k ss)"
proof (induction ids arbitrary: ss)
  case Nil
  then show ?case by (cases "row_of sp_id k ss") auto
next
  case (Cons i ids)
  then show ?case
    by (cases "row_of sp_id k ss") (auto simp: set_proven_row dest: row_of_Some)
qed

text \<open>Block prices.\<close>

definition in_band :: "(int \<times> int \<times> int) list \<Rightarrow> int \<Rightarrow> bool" where
  "in_band bs h \<longleftrightarrow> (\<exists>(l, u, p) \<in> set bs. l \<le> h \<and> h \<le> u)"

definition band_price :: "(int \<times> int \<times> int) list \<Rightarrow> int \<Rightarrow> int" where
  "band_price bs h = (case find (\<lambda>(l, u, p). l \<le> h \<and> h \<le> u) bs of None \<Rightarrow> 0 | Some (l, u, p) \<Rightarrow> p)"

definition bands_ok :: "(int \<times> int \<times> int) list \<Rightarrow> bool" where
  "bands_ok bs \<longleftrightarrow> bands_apart bs \<and> (\<forall>(l, u, p) \<in> set bs. l \<le> u)"

lemma bands_ok_Cons: "bands_ok ((l, u, p) # bs) \<Longrightarrow> bands_ok bs \<and> (\<forall>(l', u', p') \<in> set bs. u < l')"
proof (induction bs arbitrary: l u p)
  case (Cons c bs)
  obtain l' u' p' where c: "c = (l', u', p')" by (cases c)
  with Cons.prems have ok: "bands_ok ((l', u', p') # bs)" "u < l'" "l' \<le> u'" by (auto simp: bands_ok_def)
  from Cons.IH [OF ok(1)] ok c show ?case by fastforce
qed (simp add: bands_ok_def)

lemma price_fold:
  assumes "bands_ok bs"
  shows "fold (band_step lo hi) bs (t0, c0)
     = (t0 + (\<Sum>h \<in> {h \<in> {lo..hi}. in_band bs h}. band_price bs h), c0 + int (card {h \<in> {lo..hi}. in_band bs h}))"
  using assms
proof (induction bs arbitrary: t0 c0)
  case Nil
  then show ?case by (simp add: in_band_def)
next
  case (Cons c bs)
  obtain l u p where c: "c = (l, u, p)" by (cases c)
  from bands_ok_Cons Cons.prems c have ok: "bands_ok bs" and apart: "\<And>l' u' p'. (l', u', p') \<in> set bs \<Longrightarrow> u < l'"
    by blast+
  let ?A = "{max lo l..min hi u}" and ?B = "{h \<in> {lo..hi}. in_band bs h}"
  have out: "u < h" if "in_band bs h" for h using that apart by (force simp: in_band_def)
  have split: "{h \<in> {lo..hi}. in_band (c # bs) h} = ?A \<union> ?B" by (auto simp: in_band_def c)
  have dis: "?A \<inter> ?B = {}" using out by force
  have pA: "band_price (c # bs) h = p" if "h \<in> ?A" for h using that by (simp add: band_price_def c)
  have pB: "band_price (c # bs) h = band_price bs h" if "h \<in> ?B" for h
    using that out [of h] by (simp add: band_price_def c)
  have fin: "finite ?B" by (rule finite_subset [of _ "{lo..hi}"]) auto
  have cA: "int (card {a..e}) = (if a \<le> e then e - a + 1 else 0)" for a e :: int by simp
  have "card (?A \<union> ?B) = card ?A + card ?B"
    by (rule card_Un_disjoint [OF _ fin dis]) simp
  then have card: "int (card (?A \<union> ?B)) = (if max lo l \<le> min hi u then min hi u - max lo l + 1 else 0) + int (card ?B)"
    by (simp only: of_nat_add cA)
  have "(\<Sum>h \<in> ?A \<union> ?B. band_price (c # bs) h) = (\<Sum>h \<in> ?A. band_price (c # bs) h) + (\<Sum>h \<in> ?B. band_price (c # bs) h)"
    by (rule sum.union_disjoint [OF _ fin dis]) simp
  also have "(\<Sum>h \<in> ?A. band_price (c # bs) h) = (\<Sum>h \<in> ?A. p)" by (rule sum.cong [OF refl pA])
  also have "\<dots> = int (card ?A) * p" by simp
  also have "(\<Sum>h \<in> ?B. band_price (c # bs) h) = (\<Sum>h \<in> ?B. band_price bs h)" by (rule sum.cong [OF refl pB])
  finally have sum: "(\<Sum>h \<in> ?A \<union> ?B. band_price (c # bs) h)
      = (if max lo l \<le> min hi u then (min hi u - max lo l + 1) * p else 0) + (\<Sum>h \<in> ?B. band_price bs h)"
    unfolding cA by (simp only: if_distrib [of "\<lambda>x. x * p"] mult_zero_left)
  have "band_step lo hi (l, u, p) (t0, c0)
      = (t0 + (if max lo l \<le> min hi u then (min hi u - max lo l + 1) * p else 0),
         c0 + (if max lo l \<le> min hi u then min hi u - max lo l + 1 else 0))"
    by (simp only: band_step.simps Let_def) simp
  then show ?case
    unfolding split card sum unfolding c by (simp only: fold_simps Cons.IH [OF ok] add.assoc)
qed

lemma band_entry_Some: "band_entry j = Some (l, u, p) \<Longrightarrow> 1 \<le> l \<and> l \<le> u \<and> 1 \<le> p"
  by (cases j rule: band_entry.cases) (auto split: if_splits)

lemma those_mem: "those xs = Some ys \<Longrightarrow> y \<in> set ys \<Longrightarrow> Some y \<in> set xs"
proof (induction xs arbitrary: ys)
  case (Cons x xs)
  then show ?case by (cases x; cases "those xs") auto
qed simp

lemma parse_bands_ok:
  assumes "parse_price_bands raw = Some bs"
  shows "bands_ok bs \<and> bs \<noteq> []"
proof -
  from assms obtain js out where o: "raw = Some (JArr js)" "those (map band_entry js) = Some out"
      "bs = sort out" "bs \<noteq> []" "bands_apart bs"
    by (auto simp: parse_price_bands_def Let_def split: option.splits json.splits if_splits)
  have "l \<le> u" if "(l, u, p) \<in> set bs" for l u p
  proof -
    from that o(3) have "(l, u, p) \<in> set out" by simp
    from those_mem [OF o(2) this] obtain j where "band_entry j = Some (l, u, p)" by auto
    from band_entry_Some [OF this] show ?thesis by simp
  qed
  with o show ?thesis by (auto simp: bands_ok_def)
qed

section \<open>Properties\<close>

text \<open>
  The minimum of a span is priced block by block: with bands that passed the parser, a span
  has a minimum exactly when each of its blocks lies in a band, and then the minimum is the sum of the
  band prices of its blocks.
\<close>

theorem min_usd_per_block:
  assumes "parse_price_bands raw = Some bs" and "lo \<le> hi"
  shows "sponsor_min_usd (Some bs) lo hi =
    (if \<forall>h. lo \<le> h \<and> h \<le> hi \<longrightarrow> in_band bs h then Some (\<Sum>h \<in> {lo..hi}. band_price bs h) else None)"
proof -
  let ?B = "{h \<in> {lo..hi}. in_band bs h}"
  from parse_bands_ok [OF assms(1)] have ok: "bands_ok bs" and ne: "bs \<noteq> []" by auto
  have eq: "sponsor_min_usd (Some bs) lo hi = (if int (card ?B) = hi - lo + 1 then Some (\<Sum>h \<in> ?B. band_price bs h) else None)"
    using ne by (simp add: sponsor_min_usd_def price_fold [OF ok])
  show ?thesis
  proof (cases "\<forall>h. lo \<le> h \<and> h \<le> hi \<longrightarrow> in_band bs h")
    case True
    then have "?B = {lo..hi}" by auto
    with True eq assms(2) show ?thesis by simp
  next
    case False
    then obtain h where h: "h \<in> {lo..hi}" "h \<notin> ?B" by auto
    have "?B \<subseteq> {lo..hi}" by blast
    with h have "?B \<subset> {lo..hi}" by blast
    then have "card ?B < card {lo..hi}" by (rule psubset_card_mono [OF finite_atLeastAtMost_int])
    then have "card ?B < nat (hi - lo + 1)" by (simp only: card_atLeastAtMost_int)
    then have "int (card ?B) \<noteq> hi - lo + 1" using assms(2) by linarith
    then show ?thesis by (simp only: eq False if_False)
  qed
qed

theorem min_usd_per_block_witness:
  "sponsor_min_usd (Some [(1, 10, 1), (11, 20, 2)]) 9 12 = Some (\<Sum>h \<in> {9..12}. band_price [(1, 10, 1), (11, 20, 2)] h)
   \<and> sponsor_min_usd (Some [(1, 10, 1), (11, 20, 2)]) 9 21 = None"
proof -
  have p: "parse_price_bands (Some (JArr [JArr [JInt 11, JInt 20, JInt 2], JArr [JInt 1, JInt 10, JInt 1]]))
      = Some [(1, 10, 1), (11, 20, 2)]"
    by code_simp
  have "in_band [(1, 10, 1), (11, 20, 2)] h" if "9 \<le> h" "h \<le> 12" for h
    using that by (simp add: in_band_def) linarith
  moreover have "\<not> in_band [(1, 10, 1), (11, 20, 2)] 21" by (simp add: in_band_def)
  ultimately show ?thesis
    using min_usd_per_block [OF p, of 9 12] min_usd_per_block [OF p, of 9 21]
    by (auto intro!: exI [of _ 21])
qed

text \<open>
  The minimum in sats never falls short of the dollar minimum at the rate in force, and is the
  least whole number of sats that does not.
\<close>

theorem min_sats_least:
  assumes "0 < rate" and "sponsor_min_sats (Some usd) (Some rate) = Some s"
  shows "of_int (usd * 100000000) \<le> of_int s * rate
    \<and> (\<forall>t. of_int (usd * 100000000) \<le> of_int t * rate \<longrightarrow> s \<le> t)"
proof -
  from assms(2) have s: "s = \<lceil>of_int (usd * 100000000) / rate\<rceil>" by (simp add: sponsor_min_sats_def)
  have eq: "of_int (usd * 100000000) \<le> of_int t * rate \<longleftrightarrow> of_int (usd * 100000000) / rate \<le> of_int t" for t
    using assms(1) by (simp only: divide_le_eq if_True)
  show ?thesis unfolding eq s by (simp add: ceiling_le del: of_int_mult)
qed

theorem min_sats_least_witness:
  "of_int (3 * 100000000) \<le> of_int 5000 * (60000 :: rat)"
  using min_sats_least [of 60000 3 5000] by (simp add: sponsor_min_sats_def)

text \<open>
  A held block is proved for its sponsor only: a submission is refused exactly when the span
  takes in a block, not yet covered, of a paid sponsorship the key is not registered for, and the refusal
  names such a sponsorship and such a block. A span of covered blocks (a fold) is never refused.
\<close>

theorem hold_refusal_exact:
  "case hold_refusal b lo hi pk of
     None \<Rightarrow> (\<forall>s \<in> set (sponsorships b). is_hold s \<and> sp_meets lo hi s \<longrightarrow>
         key_of_sponsorship b pk (sp_id s) \<or> {max lo (sp_lo s)..min hi (sp_hi s)} \<subseteq> covered b)
   | Some (sid, h) \<Rightarrow> (\<exists>s \<in> set (sponsorships b). is_hold s \<and> sp_id s = sid
         \<and> \<not> key_of_sponsorship b pk sid \<and> lo \<le> h \<and> h \<le> hi \<and> sp_lo s \<le> h \<and> h \<le> sp_hi s \<and> h \<notin> covered b)"
proof (cases "hold_refusal b lo hi pk")
  case None
  then have "\<forall>s \<in> set (sponsor_holds b (Some (lo, hi))). key_of_sponsorship b pk (sp_id s)
      \<or> {max lo (sp_lo s)..min hi (sp_hi s)} \<subseteq> covered b"
    by (simp only: hold_refusal_def hold_loop_None)
  with None show ?thesis by (simp add: holds_mem)
next
  case (Some p)
  then obtain sid h where p: "p = (sid, h)" by (cases p)
  with Some have "hold_loop b lo hi pk (sponsor_holds b (Some (lo, hi))) = Some (sid, h)"
    by (simp add: hold_refusal_def)
  from hold_loop_Some [OF this] show ?thesis
    unfolding Some p by (auto simp: holds_mem)
qed

definition example_sponsorship :: sponsorship where
  "example_sponsorship = \<lparr> sp_id = 1, sp_lo = 5, sp_hi = 8, sp_name = ''Ann'', sp_status = Paid, sp_created_at = 1,
     sp_min_usd = Some 4, sp_min_sats = Some 4000, sp_pledged_sats = Some 5000, sp_paid_sats = Some 5000,
     sp_invoice_id = Some ''i1'', sp_paid_at = Some 2, sp_proven_at = None, sp_token_hash = None, sp_note = None,
     sp_checkout_url = None, sp_invoice_expires_at = None, sp_hold_until = None, sp_watch_until = None,
     sp_invoice_status = None \<rparr>"

definition hold_board :: board where
  "hold_board = empty_board\<lparr>sponsorships := [example_sponsorship], vranges := [vr 5 6 1],
     sponsor_keys := [\<lparr> k_pubkey = ''aa'', k_sponsorship = Some 1, k_handle = ''SPONSOR: Ann'', k_created_at = 1 \<rparr>]\<rparr>"

theorem hold_refusal_exact_witness:
  "(\<exists>s \<in> set (sponsorships hold_board). is_hold s \<and> sp_id s = 1 \<and> \<not> key_of_sponsorship hold_board ''bb'' 1
      \<and> (7 :: int) \<notin> covered hold_board)
   \<and> hold_refusal hold_board 6 9 ''bb'' = Some (1, 7) \<and> hold_refusal hold_board 6 9 ''AA'' = None"
proof -
  have ev: "hold_refusal hold_board 6 9 ''bb'' = Some (1, 7)" "hold_refusal hold_board 6 9 ''AA'' = None"
    by code_simp+
  with hold_refusal_exact [of hold_board 6 9 "''bb''"] show ?thesis by auto
qed

text \<open>
  A hold ends exactly when the work it paid for is done: recording a range moves a held
  sponsorship that it touches to \<open>proven\<close> when, and only when, every block of the sponsorship's span is
  covered by verified ranges, whoever proved them. No other sponsorship's status changes.
\<close>

theorem mark_proven_exact:
  assumes "sponsor_mark_proven b lo hi now = (ids, b')" and "distinct (map sp_id (sponsorships b))"
    and "row_of sp_id k (sponsorships b) = Some s" and "row_of sp_id k (sponsorships b') = Some s'"
  shows "sp_status s' = (if is_hold s \<and> sp_meets lo hi s \<and> {sp_lo s..sp_hi s} \<subseteq> covered b then Proven else sp_status s)
    \<and> (k \<in> set ids \<longleftrightarrow> is_hold s \<and> sp_meets lo hi s \<and> {sp_lo s..sp_hi s} \<subseteq> covered b)
    \<and> vranges b' = vranges b \<and> ranges b' = ranges b"
proof -
  have k: "s \<in> set (sponsorships b)" "sp_id s = k" using row_of_Some [OF assms(3)] by auto
  have uniq: "x = s" if "x \<in> set (sponsorships b)" "sp_id x = k" for x
    using row_of_in [OF assms(2) that(1)] that(2) assms(3) by simp
  have ids: "k \<in> set ids \<longleftrightarrow> is_hold s \<and> sp_meets lo hi s \<and> {sp_lo s..sp_hi s} \<subseteq> covered b"
  proof -
    have "k \<in> set ids \<longleftrightarrow> (\<exists>x \<in> set (sponsor_holds b (Some (lo, hi))). sp_id x = k \<and> span_proven b (sp_lo x) (sp_hi x))"
      using assms(1) by (auto simp: sponsor_mark_proven_def Let_def)
    then show ?thesis unfolding span_proven_iff using k by (metis holds_mem uniq)
  qed
  have "s' = (if k \<in> set ids \<and> sp_status s \<in> {Paid, Proving} then s\<lparr>sp_status := Proven, sp_proven_at := Some now\<rparr> else s)"
    using assms(1,3,4) by (auto simp: sponsor_mark_proven_def Let_def fold_set_proven)
  with ids have "sp_status s' = (if k \<in> set ids then Proven else sp_status s)"
    by (auto simp: is_hold_def)
  with ids assms(1) show ?thesis by (auto simp: sponsor_mark_proven_def Let_def)
qed

theorem mark_proven_exact_witness:
  "sp_status (hd (sponsorships (snd (sponsor_mark_proven (hold_board\<lparr>vranges := [vr 5 6 1, vr 7 9 2]\<rparr>) 7 9 50)))) = Proven"
proof -
  let ?b = "hold_board\<lparr>vranges := [vr 5 6 1, vr 7 9 2]\<rparr>"
  let ?m = "sponsor_mark_proven ?b 7 9 50"
  have m: "?m = (fst ?m, snd ?m)" by simp
  have d: "distinct (map sp_id (sponsorships ?b))" by code_simp
  have r: "row_of sp_id 1 (sponsorships ?b) = Some example_sponsorship" by code_simp
  have "row_of sp_id 1 (sponsorships (snd ?m)) = Some (hd (sponsorships (snd ?m)))" by code_simp
  note pe = mark_proven_exact [OF m d r this]
  have h: "is_hold example_sponsorship" "sp_meets 7 9 example_sponsorship" by code_simp+
  have "{sp_lo example_sponsorship..sp_hi example_sponsorship} \<subseteq> covered ?b"
    by (auto simp: covered_def v_span_def example_sponsorship_def)
  with h pe show ?thesis by simp
qed

end
