(* ===== verification/Claims.thy ===== *)
theory Claims
  imports Sponsor_Holds
begin

text \<open>
  Handing out blocks (\<open>coordinator/server.py\<close>: \<open>_claim_by_nonce\<close>, \<open>claim\<close>, \<open>beat\<close>, \<open>pick\<close>,
  \<open>witness_available\<close>, \<open>log_beat_rejection\<close>). A handler takes the board and returns its answer and the
  board it leaves; the clock is read once per request. The lemmas show what a granted block satisfies, that
  a live claim keeps its block, that a retried claim gets its block back, how many live
  claims a grant leaves a key with, and what a beat can change.
\<close>

section \<open>Requests\<close>

text \<open>
  \<open>cb_sig\<close> and \<open>cb_ts\<close> are None where the field is missing or null; \<open>cb_version\<close> is the client version the
  front end adds.
\<close>

record claim_body =
  cb_pubkey :: pubkey
  cb_handle :: string
  cb_nonce :: string
  cb_sig :: "string option"
  cb_ts :: json
  cb_version :: "string option"

datatype claim_error = HandleReserved | TsNotInteger | NonceMissing | ClaimSkew | SigMismatch | SignedOnly
  | TooManyOpen nat | NothingToClaim

definition claim_nonce :: "claim_body \<Rightarrow> string option" where
  "claim_nonce body = (let n = take 64 (cb_nonce body) in if n = [] then None else Some n)"

text \<open>Whether the claim is signed, or why a signed one is refused.\<close>

definition claim_signature :: "config \<Rightarrow> world \<Rightarrow> claim_body \<Rightarrow> claim_error + bool" where
  "claim_signature cfg w body =
     (if cb_sig body \<noteq> None \<or> cb_ts body \<noteq> JNull then
        (case json_int (cb_ts body) of
           None \<Rightarrow> Inl TsNotInteger
         | Some ts \<Rightarrow>
             (case claim_nonce body of
                None \<Rightarrow> Inl NonceMissing
              | Some n \<Rightarrow>
                  if abs (w_now w - of_int ts) > BEAT_SKEW cfg then Inl ClaimSkew
                  else if \<not> verify_sig cfg w (cb_pubkey body) (or_empty (cb_sig body))
                      (''claim:'' @ n @ '':'' @ int_str ts) then Inl SigMismatch
                  else Inr True))
      else if CLAIM_REQUIRE_SIG cfg then Inl SignedOnly
      else Inr False)"

section \<open>Claim\<close>

definition witness_available :: "world \<Rightarrow> int \<Rightarrow> bool" where
  "witness_available w blk \<longleftrightarrow>
     in_dir (''bundle_'' @ int_str blk @ ''.json'') (w_bridge w)
     \<or> in_dir (''block_'' @ int_str blk @ ''.json'') (w_witness w)"

definition retry_live :: "config \<Rightarrow> time \<Rightarrow> range_row \<Rightarrow> bool" where
  "retry_live cfg now r \<longleftrightarrow> r_status r = Claimed
     \<and> gt_opt (coalesce (r_last_beat r) (r_claimed_at r)) (now - CLAIM_TTL cfg)
     \<and> gt_opt (r_claimed_at r) (now - CLAIM_MAX cfg)"

definition claim_by_nonce :: "config \<Rightarrow> board \<Rightarrow> pubkey \<Rightarrow> string option \<Rightarrow> time \<Rightarrow> range_id option" where
  "claim_by_nonce cfg b pk nonce now =
     (if nonce = None \<or> pk = [] then None
      else map_option r_id (find (\<lambda>r. retry_live cfg now r \<and> r_assignee r = Some pk \<and> r_claim_nonce r = nonce) (ranges b)))"

definition claimed_as :: "pubkey \<Rightarrow> bool \<Rightarrow> range_row \<Rightarrow> bool" where
  "claimed_as pk signed r \<longleftrightarrow> r_assignee r = Some pk
     \<and> coalesce (r_claim_signed r) (Some 0) = Some (if signed then 1 else 0)"

definition open_claims :: "config \<Rightarrow> board \<Rightarrow> pubkey \<Rightarrow> bool \<Rightarrow> time \<Rightarrow> nat" where
  "open_claims cfg b pk signed now =
     length (filter (\<lambda>r. claimed_as pk signed r \<and> live_claim cfg now r) (ranges b))"

text \<open>The blocks this key's own never-beaten claims let lapse, held for this key only.\<close>

definition own_lapsed :: "config \<Rightarrow> board \<Rightarrow> pubkey \<Rightarrow> bool \<Rightarrow> time \<Rightarrow> int \<Rightarrow> bool" where
  "own_lapsed cfg b pk signed now n \<longleftrightarrow> pk \<noteq> [] \<and> CLAIM_RETAKE_WAIT cfg > 0 \<and>
     list_ex (\<lambda>r. claimed_as pk signed r \<and> r_status r = Claimed \<and> r_last_beat r = None
        \<and> gt_opt (r_claimed_at r) (now - CLAIM_RETAKE_WAIT cfg) \<and> r_lo r = n) (ranges b)"

definition claim_height :: "config \<Rightarrow> world \<Rightarrow> snapshot \<Rightarrow> board \<Rightarrow> pubkey \<Rightarrow> bool \<Rightarrow> int option" where
  "claim_height cfg w snap b pk signed =
     (let (taken_at, fr) = snap;
          blocker = f_hi fr + 1;
          (proven, held0) = coverage_and_held cfg b (w_now w);
          held = (\<lambda>n. held0 n \<or> own_lapsed cfg b pk signed (w_now w) n);
          ceil = provable_tip cfg w
      in if blocker < ceil \<and> proven blocker \<and> \<not> held blocker \<and> witness_available w blocker
            \<and> cover_settled cfg b blocker taken_at
         then Some blocker
         else scan_up (\<lambda>h. \<not> proven h \<and> \<not> held h \<and> witness_available w h) 1 ceil)"

text \<open>\<open>INSERT OR REPLACE\<close> of nine columns: the others fall back to their defaults.\<close>

definition claim_row :: "int \<Rightarrow> pubkey \<Rightarrow> string \<Rightarrow> time \<Rightarrow> string option \<Rightarrow> bool \<Rightarrow> range_row" where
  "claim_row h pk handle now nonce signed =
     (new_range (int_str h) h h)\<lparr>r_status := Claimed, r_assignee := Some pk, r_handle := Some handle,
        r_claimed_at := Some now, r_claim_nonce := nonce, r_claim_signed := Some (if signed then 1 else 0)\<rparr>"

definition claim :: "config \<Rightarrow> world \<Rightarrow> snapshot \<Rightarrow> claim_body \<Rightarrow> board \<Rightarrow> (claim_error + range_id) \<times> board" where
  "claim cfg w snap body b =
     (let pk = cb_pubkey body; now = w_now w;
          handle = clean_handle cfg (cb_handle body) (Some (handle_cap cfg b (Some pk)));
          nonce = claim_nonce body
      in if handle_refused cfg b handle (Some pk) then (Inl HandleReserved, b)
         else case claim_signature cfg w body of
           Inl e \<Rightarrow> (Inl e, b)
         | Inr signed \<Rightarrow>
             (case claim_by_nonce cfg b pk nonce now of
                Some again \<Rightarrow> (Inr again, b)
              | None \<Rightarrow>
                  if CLAIM_OPEN_MAX cfg > 0 \<and> pk \<noteq> [] \<and> open_claims cfg b pk signed now \<ge> CLAIM_OPEN_MAX cfg
                  then (Inl (TooManyOpen (open_claims cfg b pk signed now)), b)
                  else case claim_height cfg w snap b pk signed of
                    None \<Rightarrow> (Inl NothingToClaim, b)
                  | Some h \<Rightarrow>
                      (Inr (int_str h),
                       note_client_version now pk (cb_version body)
                         (b\<lparr>ranges := put_row r_id (claim_row h pk handle now nonce signed) (ranges b),
                            contributors := ins_ignore c_pubkey (new_contributor pk (Some handle) now) (contributors b)\<rparr>))))"

section \<open>Beat\<close>

record beat_body =
  bb_range :: string
  bb_pubkey :: pubkey
  bb_sig :: string
  bb_ts :: json

datatype beat_error = FieldsRequired | InvalidRange | NotSigned | NotHex | TsNotNumber | TsNotWhole | BeatSkew
  | BadSignature | NotYourClaim | PastClaimMax

definition beat_ts :: "json \<Rightarrow> beat_error + int" where
  "beat_ts j = (case j of JInt i \<Rightarrow> Inr i
     | JFloat r \<Rightarrow> if r = of_int (py_trunc r) then Inr (py_trunc r) else Inl TsNotWhole
     | _ \<Rightarrow> Inl TsNotNumber)"

definition beat :: "config \<Rightarrow> world \<Rightarrow> beat_body \<Rightarrow> board \<Rightarrow> beat_error option \<times> board" where
  "beat cfg w body b =
     (let rid = bb_range body; pk = bb_pubkey body; now = w_now w in
      if rid = [] \<or> pk = [] then (Some FieldsRequired, b)
      else if parse_any_range (chain_tip cfg w) rid = None then (Some InvalidRange, b)
      else if bb_sig body = [] then (Some NotSigned, b)
      else if \<not> is_hex pk 32 \<or> \<not> is_hex (bb_sig body) 64 then (Some NotHex, b)
      else case beat_ts (bb_ts body) of
        Inl e \<Rightarrow> (Some e, b)
      | Inr ts \<Rightarrow>
          if abs (now - of_int ts) > BEAT_SKEW cfg then (Some BeatSkew, b)
          else if \<not> verify_sig cfg w pk (bb_sig body) (rid @ '':'' @ int_str ts) then (Some BadSignature, b)
          else case row_of r_id rid (ranges b) of
            None \<Rightarrow> (Some NotYourClaim, b)
          | Some r \<Rightarrow>
              if r_status r \<noteq> Claimed \<or> or_empty (r_assignee r) \<noteq> pk then (Some NotYourClaim, b)
              else if (case r_claimed_at r of None \<Rightarrow> now | Some t \<Rightarrow> if t = 0 then now else t) < now - CLAIM_MAX cfg
                then (Some PastClaimMax, b)
              else (None, b\<lparr>ranges := upd_where (\<lambda>x. r_id x = rid) (\<lambda>x. x\<lparr>r_last_beat := Some now\<rparr>) (ranges b)\<rparr>))"

text \<open>\<open>_beat_log_seen\<close>: one line per window for identical rejections; the result says whether a line is printed.\<close>

type_synonym beat_key = "string \<times> string \<times> string \<times> int \<times> string"

definition log_beat_rejection :: "time \<Rightarrow> time \<Rightarrow> beat_key \<Rightarrow> (beat_key \<times> time \<times> nat) list \<Rightarrow> bool \<times> (beat_key \<times> time \<times> nat) list" where
  "log_beat_rejection window now key seen =
     (case map_of seen key of
        Some (t, n) \<Rightarrow> if now - t < window then (False, AList.update key (t, n + 1) seen)
          else (True, (let s = AList.update key (now, 0) seen in
            if length s > 10000 then filter (\<lambda>(k, t, n). now - t < window) s else s))
      | None \<Rightarrow> (True, (let s = AList.update key (now, 0) seen in
            if length s > 10000 then filter (\<lambda>(k, t, n). now - t < window) s else s)))"

section \<open>Pick\<close>

text \<open>\<open>peers\<close> and \<open>busy\<close> are the heights other coordinators report as proven and as claimed.\<close>

definition pick :: "config \<Rightarrow> world \<Rightarrow> int \<Rightarrow> int set \<Rightarrow> int set \<Rightarrow> board \<Rightarrow> int option" where
  "pick cfg w fr peers busy b =
     (let (proven, held) = coverage_and_held cfg b (w_now w);
          start = max 1 (fr + 1);
          stop = min (provable_tip cfg w) (start + 2000000);
          ok = (\<lambda>avoid n. \<not> proven n \<and> \<not> held n \<and> n \<notin> peers \<and> \<not> (avoid \<and> n \<in> busy) \<and> witness_available w n)
      in case scan_up (ok True) start stop of
           Some n \<Rightarrow> Some n
         | None \<Rightarrow> if busy = {} then None else scan_up (ok False) start stop)"

section \<open>Lemmas\<close>

lemma witness_bundle: "witness_available w n \<longleftrightarrow> bundle_path w n \<noteq> None"
  by (auto simp: witness_available_def bundle_path_def Let_def)

lemma claim_height_Some:
  assumes "claim_height cfg w (taken_at, fr) b pk signed = Some h"
  shows "\<not> is_held cfg b (w_now w) h" and "\<not> own_lapsed cfg b pk signed (w_now w) h"
    and "witness_available w h" and "h < provable_tip cfg w"
    and "(h = f_hi fr + 1 \<and> is_proven b h \<and> cover_settled cfg b h taken_at)
       \<or> (1 \<le> h \<and> \<not> is_proven b h \<and> (\<forall>k. 1 \<le> k \<longrightarrow> k < h \<longrightarrow> is_proven b k \<or> is_held cfg b (w_now w) k
            \<or> own_lapsed cfg b pk signed (w_now w) k \<or> \<not> witness_available w k))"
  using assms
  by (auto simp: claim_height_def coverage_and_held_def Let_def split: if_splits dest: scan_up_Some)

lemma note_version_simps [simp]:
  "ranges (note_client_version now pk v b) = ranges b" "vranges (note_client_version now pk v b) = vranges b"
  "sponsorships (note_client_version now pk v b) = sponsorships b" "proofs (note_client_version now pk v b) = proofs b"
  "submissions (note_client_version now pk v b) = submissions b" "rotations (note_client_version now pk v b) = rotations b"
  "sponsor_keys (note_client_version now pk v b) = sponsor_keys b" "spine (note_client_version now pk v b) = spine b"
  by (auto simp: note_client_version_def split: option.split)

lemma claim_row_simps [simp]:
  "r_id (claim_row h pk nm now nonce signed) = int_str h" "r_lo (claim_row h pk nm now nonce signed) = h"
  "r_hi (claim_row h pk nm now nonce signed) = h" "r_status (claim_row h pk nm now nonce signed) = Claimed"
  "r_assignee (claim_row h pk nm now nonce signed) = Some pk" "r_claimed_at (claim_row h pk nm now nonce signed) = Some now"
  "r_last_beat (claim_row h pk nm now nonce signed) = None" "r_claim_nonce (claim_row h pk nm now nonce signed) = nonce"
  "r_claim_signed (claim_row h pk nm now nonce signed) = Some (if signed then 1 else 0)"
  "r_attempts (claim_row h pk nm now nonce signed) = Some 0"
  by (simp_all add: claim_row_def new_range_def)

text \<open>The ways a claim is answered with a block.\<close>

lemma claim_Inr:
  assumes "claim cfg w (taken_at, fr) body b = (Inr rid, b')"
  obtains (retry) "claim_by_nonce cfg b (cb_pubkey body) (claim_nonce body) (w_now w) = Some rid" "b' = b"
  | (fresh) h handle signed where "rid = int_str h"
      "claim_by_nonce cfg b (cb_pubkey body) (claim_nonce body) (w_now w) = None"
      "claim_signature cfg w body = Inr signed"
      "claim_height cfg w (taken_at, fr) b (cb_pubkey body) signed = Some h"
      "CLAIM_OPEN_MAX cfg = 0 \<or> cb_pubkey body = [] \<or>
        open_claims cfg b (cb_pubkey body) signed (w_now w) < CLAIM_OPEN_MAX cfg"
      "ranges b' = put_row r_id (claim_row h (cb_pubkey body) handle (w_now w) (claim_nonce body) signed) (ranges b)"
      "vranges b' = vranges b" "sponsorships b' = sponsorships b" "proofs b' = proofs b"
      "submissions b' = submissions b" "sponsor_keys b' = sponsor_keys b"
  using assms
  by (auto simp: claim_def Let_def split: if_splits sum.splits option.splits)

lemma claim_Inl: "claim cfg w snap body b = (Inl e, b') \<Longrightarrow> b' = b"
  by (auto simp: claim_def Let_def split: if_splits sum.splits option.splits)

text \<open>A new claim is live as long as its grace runs.\<close>

lemma claim_row_live:
  "t \<le> now \<Longrightarrow> now < t + CLAIM_GRACE cfg \<Longrightarrow> CLAIM_GRACE cfg \<le> CLAIM_TTL cfg \<Longrightarrow> CLAIM_GRACE cfg \<le> CLAIM_MAX cfg \<Longrightarrow>
   live_claim cfg now (claim_row h pk nm t nonce signed)"
  by (simp add: live_claim_def)

lemma live_held: "r \<in> set (ranges b) \<Longrightarrow> live_claim cfg now r \<Longrightarrow> is_held cfg b now (r_lo r)"
  by (auto simp: is_held_def list_ex_iff)

lemma retry_live_mono: "retry_live cfg now' r \<Longrightarrow> now \<le> now' \<Longrightarrow> retry_live cfg now r"
  by (cases "r_last_beat r"; cases "r_claimed_at r") (auto simp: retry_live_def)

lemma put_row_length:
  "length (filter P (put_row key r t)) \<le> length (filter P t) + (if P r then 1 else 0)"
proof -
  have "length (filter P (filter Q t)) \<le> length (filter P t)" for Q
    unfolding filter_filter by (rule length_filter_imp) simp
  then show ?thesis by (simp add: put_row_def)
qed

lemma beat_accepted:
  assumes "beat cfg w body b = (None, b')"
  shows "(\<exists>r ts. row_of r_id (bb_range body) (ranges b) = Some r \<and> r_status r = Claimed
      \<and> or_empty (r_assignee r) = bb_pubkey body \<and> bb_pubkey body \<noteq> []
      \<and> abs (w_now w - of_int ts) \<le> BEAT_SKEW cfg
      \<and> verify_sig cfg w (bb_pubkey body) (bb_sig body) (bb_range body @ '':'' @ int_str ts))
    \<and> b' = b\<lparr>ranges := upd_where (\<lambda>x. r_id x = bb_range body) (\<lambda>x. x\<lparr>r_last_beat := Some (w_now w)\<rparr>) (ranges b)\<rparr>"
  using assms by (auto simp: beat_def Let_def not_less split: if_splits sum.splits option.splits)

section \<open>Properties\<close>

text \<open>
  A fresh claim hands out a block the board can use: one that can be served, that no live
  claim, paid sponsorship or open invoice holds, and that is not proven, unless it is the block after the
  frontier and every proof covering it is older than the frontier's own view. The claim is recorded for the
  caller, and no proof and no other row is touched.
\<close>

theorem claim_grants_open_block:
  assumes "claim cfg w (taken_at, fr) body b = (Inr rid, b')"
    and "claim_by_nonce cfg b (cb_pubkey body) (claim_nonce body) (w_now w) = None"
  shows "\<exists>h. rid = int_str h \<and> h < provable_tip cfg w \<and> bundle_path w h \<noteq> None
    \<and> \<not> is_held cfg b (w_now w) h
    \<and> (is_proven b h \<longrightarrow> h = f_hi fr + 1 \<and> cover_settled cfg b h taken_at)
    \<and> (\<exists>r. row_of r_id rid (ranges b') = Some r \<and> r_status r = Claimed \<and> r_assignee r = Some (cb_pubkey body)
          \<and> r_claimed_at r = Some (w_now w) \<and> r_lo r = h \<and> r_hi r = h)
    \<and> (\<forall>k. k \<noteq> rid \<longrightarrow> row_of r_id k (ranges b') = row_of r_id k (ranges b))
    \<and> vranges b' = vranges b \<and> proofs b' = proofs b"
  using assms(1)
proof (cases rule: claim_Inr)
  case retry
  with assms(2) show ?thesis by simp
next
  case (fresh h handle signed)
  note h = claim_height_Some [OF fresh(4)]
  show ?thesis
    by (rule exI [of _ h]) (use fresh h in \<open>auto simp: range_table.get_put witness_bundle\<close>)
qed

text \<open>
  A retried claim is idempotent: the same request (same key, same nonce), sent again within
  the hour with a signature the coordinator still accepts, gets the block it was given and changes nothing.
\<close>

theorem claim_retry_idempotent:
  assumes "claim cfg w snap body b = (Inr rid, b1)"
    and "claim_by_nonce cfg b (cb_pubkey body) (claim_nonce body) (w_now w) = None"
    and "claim_nonce body \<noteq> None" and "cb_pubkey body \<noteq> []"
    and "w_now w \<le> w_now w2" and "w_now w2 < w_now w + CLAIM_TTL cfg" and "w_now w2 < w_now w + CLAIM_MAX cfg"
    and "claim_signature cfg w2 body = Inr signed2"
  shows "claim cfg w2 snap2 body b1 = (Inr rid, b1)"
proof -
  obtain t1 f1 where s1: "snap = (t1, f1)" by (cases snap)
  let ?pk = "cb_pubkey body" and ?n = "claim_nonce body"
  show ?thesis
    using assms(1) [unfolded s1]
  proof (cases rule: claim_Inr)
    case retry
    with assms(2) show ?thesis by simp
  next
    case (fresh h handle signed)
    let ?r = "claim_row h ?pk handle (w_now w) ?n signed"
    let ?P = "\<lambda>t r. retry_live cfg t r \<and> r_assignee r = Some ?pk \<and> r_claim_nonce r = ?n"
    have none: "\<not> ?P (w_now w) r" if "r \<in> set (ranges b)" for r
      using assms(2-4) that by (auto simp: claim_by_nonce_def find_None_iff)
    have "find (?P (w_now w2)) (filter (\<lambda>x. r_id x \<noteq> int_str h) (ranges b)) = None"
      using none retry_live_mono [OF _ assms(5)] by (auto simp: find_None_iff)
    moreover have "?P (w_now w2) ?r" using assms(6,7) by (simp add: retry_live_def)
    ultimately have "find (?P (w_now w2)) (ranges b1) = Some ?r"
      by (simp add: fresh(6) put_row_def find_append)
    then have nonce: "claim_by_nonce cfg b1 ?pk ?n (w_now w2) = Some rid"
      using assms(3,4) fresh(1) by (simp add: claim_by_nonce_def)
    have "\<not> handle_refused cfg b (clean_handle cfg (cb_handle body) (Some (handle_cap cfg b (Some ?pk)))) (Some ?pk)"
      using assms(1) by (auto simp: claim_def Let_def)
    moreover have reg: "sponsor_key_registered b1 = sponsor_key_registered b"
      by (simp add: fun_eq_iff sponsor_key_registered_def fresh split: option.split)
    then have "handle_cap cfg b1 = handle_cap cfg b" "handle_refused cfg b1 = handle_refused cfg b"
      by (simp_all add: fun_eq_iff handle_refused_def handle_cap_def)
    ultimately show ?thesis using nonce assms(8) by (simp add: claim_def Let_def)
  qed
qed

text \<open>
  A grant never takes a key past its cap: after a fresh claim the key holds at most
  \<open>CLAIM_OPEN_MAX\<close> live claims of that kind (signed or unsigned), the new one included.
\<close>

theorem claim_within_cap:
  assumes "claim cfg w snap body b = (Inr rid, b')"
    and "claim_by_nonce cfg b (cb_pubkey body) (claim_nonce body) (w_now w) = None"
    and "claim_signature cfg w body = Inr signed" and "CLAIM_OPEN_MAX cfg > 0" and "cb_pubkey body \<noteq> []"
  shows "open_claims cfg b' (cb_pubkey body) signed (w_now w) \<le> CLAIM_OPEN_MAX cfg"
proof -
  obtain t1 f1 where s1: "snap = (t1, f1)" by (cases snap)
  show ?thesis
    using assms(1) [unfolded s1]
  proof (cases rule: claim_Inr)
    case retry
    with assms(2) show ?thesis by simp
  next
    case (fresh h handle s)
    with assms(3) have "s = signed" by simp
    with fresh assms(4,5) have "open_claims cfg b (cb_pubkey body) signed (w_now w) < CLAIM_OPEN_MAX cfg" by simp
    moreover have "open_claims cfg b' (cb_pubkey body) signed (w_now w)
        \<le> open_claims cfg b (cb_pubkey body) signed (w_now w) + 1"
      unfolding open_claims_def fresh(6) by (rule order_trans [OF put_row_length]) simp
    ultimately show ?thesis by simp
  qed
qed

text \<open>
  A beat moves one time stamp: an accepted beat was signed by the claim's own key over this
  range and a fresh time, the claim is younger than \<open>CLAIM_MAX\<close>, and only its row's \<open>last_beat\<close> changes;
  a refused one changes nothing. However often it beats, a claim is dead \<open>CLAIM_MAX\<close> after it was taken.
\<close>

theorem beat_renews_own_claim:
  assumes "beat cfg w body b = (res, b')"
  shows "case res of
      Some e \<Rightarrow> b' = b
    | None \<Rightarrow> (\<exists>r ts. row_of r_id (bb_range body) (ranges b) = Some r \<and> r_status r = Claimed
        \<and> r_assignee r = Some (bb_pubkey body) \<and> abs (w_now w - of_int ts) \<le> BEAT_SKEW cfg
        \<and> verify_sig cfg w (bb_pubkey body) (bb_sig body) (bb_range body @ '':'' @ int_str ts)
        \<and> row_of r_id (bb_range body) (ranges b') = Some (r\<lparr>r_last_beat := Some (w_now w)\<rparr>)
        \<and> (\<forall>t. live_claim cfg t (r\<lparr>r_last_beat := Some (w_now w)\<rparr>) \<longrightarrow>
             (\<exists>c. r_claimed_at r = Some c \<and> t < c + CLAIM_MAX cfg)))
      \<and> (\<forall>k. k \<noteq> bb_range body \<longrightarrow> row_of r_id k (ranges b') = row_of r_id k (ranges b))
      \<and> map r_id (ranges b') = map r_id (ranges b) \<and> vranges b' = vranges b"
proof (cases res)
  case (Some e)
  with assms show ?thesis
    by (auto simp: beat_def Let_def split: if_splits sum.splits option.splits)
next
  case None
  let ?rid = "bb_range body"
  from beat_accepted [OF assms [unfolded None]]
  obtain r ts where r: "row_of r_id ?rid (ranges b) = Some r" "r_status r = Claimed"
      "or_empty (r_assignee r) = bb_pubkey body" "bb_pubkey body \<noteq> []"
      "abs (w_now w - of_int ts) \<le> BEAT_SKEW cfg"
      "verify_sig cfg w (bb_pubkey body) (bb_sig body) (?rid @ '':'' @ int_str ts)"
      and b': "b' = b\<lparr>ranges := upd_where (\<lambda>x. r_id x = ?rid) (\<lambda>x. x\<lparr>r_last_beat := Some (w_now w)\<rparr>) (ranges b)\<rparr>"
    by blast
  from r(3,4) have a: "r_assignee r = Some (bb_pubkey body)" by (auto simp: or_empty_def split: option.splits)
  have rows: "row_of r_id k (ranges b') = map_option (\<lambda>x. if r_id x = ?rid then x\<lparr>r_last_beat := Some (w_now w)\<rparr> else x)
      (row_of r_id k (ranges b))" for k
    by (simp add: b' row_of_upd)
  have "row_of r_id k (ranges b') = row_of r_id k (ranges b)" if "k \<noteq> ?rid" for k
    using that unfolding rows by (cases "row_of r_id k (ranges b)") (auto dest: row_of_Some)
  moreover have "row_of r_id ?rid (ranges b') = Some (r\<lparr>r_last_beat := Some (w_now w)\<rparr>)"
    unfolding rows using r(1) by (auto dest: row_of_Some)
  moreover have "\<exists>c. r_claimed_at r = Some c \<and> t < c + CLAIM_MAX cfg"
    if "live_claim cfg t (r\<lparr>r_last_beat := Some (w_now w)\<rparr>)" for t
    using that by (cases "r_claimed_at r") (auto simp: live_claim_def)
  ultimately show ?thesis using None r a by (auto simp: b')
qed

section \<open>Concrete runs\<close>

definition claim_of :: "string \<Rightarrow> string \<Rightarrow> claim_body" where
  "claim_of pk nonce = \<lparr> cb_pubkey = pk, cb_handle = ''ann'', cb_nonce = nonce, cb_sig = None, cb_ts = JNull,
     cb_version = None \<rparr>"

definition first_claim :: "(claim_error + range_id) \<times> board" where
  "first_claim = claim default_config example_world (0, genesis_frontier default_config) (claim_of ''aa'' ''n1'') empty_board"

lemma first_claim: "first_claim = (Inr ''5'', snd first_claim)"
  "claim_by_nonce default_config empty_board ''aa'' (Some ''n1'') 1000 = None"
  "claim_nonce (claim_of ''aa'' ''n1'') = Some ''n1''"
proof -
  have "fst first_claim = Inr ''5''" by code_simp
  then show "first_claim = (Inr ''5'', snd first_claim)" by (metis prod.collapse)
qed code_simp+

lemma first_run: "claim default_config example_world (0, genesis_frontier default_config) (claim_of ''aa'' ''n1'') empty_board
    = (Inr ''5'', snd first_claim)"
  by (subst first_claim_def [symmetric]) (rule first_claim(1))

lemma claim_of_simps [simp]: "cb_pubkey (claim_of pk n) = pk" "w_now example_world = 1000"
  by (simp_all add: claim_of_def example_world_def)

theorem claim_grants_open_block_witness:
  "\<exists>h. ''5'' = int_str h \<and> bundle_path example_world h \<noteq> None \<and> \<not> is_held default_config empty_board 1000 h"
  using claim_grants_open_block [OF first_run] first_claim(2,3) by auto

definition second_claim :: "(claim_error + range_id) \<times> board" where
  "second_claim = claim default_config (example_world\<lparr>w_now := 1500\<rparr>) (0, genesis_frontier default_config)
     (claim_of ''bb'' ''n1'') (snd first_claim)"

theorem claim_retry_idempotent_witness:
  "claim default_config (example_world\<lparr>w_now := 1700\<rparr>) (5, genesis_frontier default_config)
     (claim_of ''aa'' ''n1'') (snd first_claim) = (Inr ''5'', snd first_claim)"
proof -
  have "claim_signature default_config (example_world\<lparr>w_now := 1700\<rparr>) (claim_of ''aa'' ''n1'') = Inr False"
    by code_simp
  from claim_retry_idempotent [OF first_run _ _ _ _ _ _ this]
  show ?thesis using first_claim(2,3) by simp
qed

theorem claim_within_cap_witness:
  "open_claims default_config (snd first_claim) ''aa'' False 1000 \<le> 4"
proof -
  have "claim_signature default_config example_world (claim_of ''aa'' ''n1'') = Inr False" by code_simp
  from claim_within_cap [OF first_run _ this] show ?thesis
    using first_claim(2,3) by simp
qed

definition long_key :: pubkey where
  "long_key = replicate 64 CHR ''a''"

definition open_world :: world where
  "open_world = example_world\<lparr>w_ed25519 := (\<lambda>pk sig msg. True)\<rparr>"

definition beat_of :: "string \<Rightarrow> beat_body" where
  "beat_of rid = \<lparr> bb_range = rid, bb_pubkey = long_key, bb_sig = replicate 128 CHR ''b'', bb_ts = JInt 990 \<rparr>"

definition claimed_board :: "time \<Rightarrow> board" where
  "claimed_board t = empty_board\<lparr>ranges := [claim_row 5 long_key ''ann'' t None False]\<rparr>"

lemma beat_run:
  assumes "row_of r_id ''5'' (ranges b) = Some r" "r_status r = Claimed" "r_assignee r = Some long_key"
    and "r_claimed_at r = Some t" "t \<noteq> 0" "1000 - CLAIM_MAX cfg \<le> t" "BEAT_SKEW cfg = 120" "HAVE_ED cfg"
    and "5 < TIP_FLOOR cfg"
  shows "beat cfg open_world (beat_of ''5'') b =
    (None, b\<lparr>ranges := upd_where (\<lambda>x. r_id x = ''5'') (\<lambda>x. x\<lparr>r_last_beat := Some 1000\<rparr>) (ranges b)\<rparr>)"
proof -
  have hex: "hex_val CHR ''a'' = Some 10" "hex_val CHR ''b'' = Some 11" "\<not> ascii_space CHR ''a''" "\<not> ascii_space CHR ''b''"
    by (simp_all add: hex_val_def ascii_space_def)
  have h: "is_hex long_key 32" "is_hex (replicate 128 CHR ''b'') 64" "fromhex long_key \<noteq> None"
      "fromhex (replicate 128 CHR ''b'') \<noteq> None"
    using is_hex_replicate [OF hex(1,3), of 32] is_hex_replicate [OF hex(2,4), of 64]
    by (simp_all only: long_key_def) simp_all
  have five: "canonical_range_id 5 5 = ''5''" by code_simp
  have tip: "parse_any_range (chain_tip cfg open_world) ''5'' = Some (5, 5)"
    using parse_canonical [of 5 5 "chain_tip cfg open_world"] chain_tip_floor [of cfg open_world] assms(9)
    by (simp add: five)
  have v: "verify_sig cfg open_world long_key (replicate 128 CHR ''b'') msg" for msg
    using h(3,4) assms(8) by (auto simp: verify_sig_def open_world_def split: option.split)
  have "long_key \<noteq> []" by (simp add: long_key_def)
  then show ?thesis
    using assms h tip v by (simp add: beat_def beat_of_def beat_ts_def or_empty_def open_world_def)
qed

theorem beat_renews_own_claim_witness:
  "row_of r_id ''5'' (ranges (snd (beat default_config open_world (beat_of ''5'') (claimed_board 600))))
     = Some ((claim_row 5 long_key ''ann'' 600 None False)\<lparr>r_last_beat := Some 1000\<rparr>)"
proof -
  let ?r = "beat default_config open_world (beat_of ''5'') (claimed_board 600)"
  have row: "row_of r_id ''5'' (ranges (claimed_board 600)) = Some (claim_row 5 long_key ''ann'' 600 None False)" by code_simp
  have "?r = (None, (claimed_board 600)\<lparr>ranges := upd_where (\<lambda>x. r_id x = ''5'')
      (\<lambda>x. x\<lparr>r_last_beat := Some 1000\<rparr>) (ranges (claimed_board 600))\<rparr>)"
    by (rule beat_run [OF row, where t = 600]) simp_all
  then have "?r = (None, snd ?r)" by simp
  from beat_renews_own_claim [OF this] row show ?thesis
    by (auto simp: beat_of_def open_world_def)
qed

text \<open>
  The next two runs are about what the surrounding comments promise. A parked block is not kept out of
  the allocation: neither \<open>coverage_and_held\<close> nor the scan looks at \<open>failed\<close> rows, so the block is handed
  out again, and the replaced row forgets the attempts that parked it.
\<close>

theorem parked_block_offered_again:
  "let b = empty_board\<lparr>ranges := [(new_range ''5'' 5 5)\<lparr>r_status := Failed, r_attempts := Some 3\<rparr>]\<rparr>;
       (res, b') = claim default_config example_world (0, genesis_frontier default_config) (claim_of ''aa'' ''n1'') b
   in res = Inr ''5''
      \<and> map_option (\<lambda>r. (r_status r, r_attempts r)) (row_of r_id ''5'' (ranges b')) = Some (Claimed, Some 0)"
  by code_simp

text \<open>
  A claim that lapsed without a beat can still be revived by one, as long as nobody else took the block.
  So a key may hold more live claims than its cap: with a cap of one, a key whose claim of block 5 has
  lapsed is granted block 9, then beats block 5, and holds both.
\<close>

definition one_claim :: config where
  "one_claim = default_config\<lparr>CLAIM_OPEN_MAX := 1\<rparr>"

definition both_board :: board where
  "both_board = empty_board\<lparr>ranges := [claim_row 5 long_key ''ann'' 300 None False,
     claim_row 9 long_key ''ann'' 1000 (Some ''n2'') False]\<rparr>"

theorem beat_revives_past_cap:
  "\<not> list_ex (live_claim one_claim 1000) (ranges (claimed_board 300))
   \<and> fst (claim one_claim open_world (0, genesis_frontier one_claim) (claim_of long_key ''n2'') (claimed_board 300)) = Inr ''9''
   \<and> ranges (snd (claim one_claim open_world (0, genesis_frontier one_claim) (claim_of long_key ''n2'') (claimed_board 300)))
       = ranges both_board
   \<and> fst (beat one_claim open_world (beat_of ''5'') both_board) = None
   \<and> open_claims one_claim (snd (beat one_claim open_world (beat_of ''5'') both_board)) long_key False 1000 = 2"
proof -
  have row: "row_of r_id ''5'' (ranges both_board) = Some (claim_row 5 long_key ''ann'' 300 None False)" by code_simp
  have c: "CLAIM_MAX one_claim = 86400" "BEAT_SKEW one_claim = 120" "HAVE_ED one_claim" "TIP_FLOOR one_claim = 958301"
    by (simp_all add: one_claim_def)
  have five: "int_str 5 = ''5''" "int_str 9 \<noteq> ''5''" by code_simp+
  have b: "beat one_claim open_world (beat_of ''5'') both_board = (None, both_board\<lparr>ranges :=
      upd_where (\<lambda>x. r_id x = ''5'') (\<lambda>x. x\<lparr>r_last_beat := Some 1000\<rparr>) (ranges both_board)\<rparr>)"
    by (rule beat_run [OF row, where t = 300]) (simp_all add: c)
  have "open_claims one_claim (snd (beat one_claim open_world (beat_of ''5'') both_board)) long_key False 1000 = 2"
    unfolding b by (simp add: both_board_def open_claims_def upd_where_def five claimed_as_def live_claim_def one_claim_def)
  moreover have "fst (claim one_claim open_world (0, genesis_frontier one_claim) (claim_of long_key ''n2'') (claimed_board 300)) = Inr ''9''"
    by code_simp
  moreover have "ranges (snd (claim one_claim open_world (0, genesis_frontier one_claim) (claim_of long_key ''n2'') (claimed_board 300)))
       = ranges both_board"
    by code_simp
  moreover have "\<not> list_ex (live_claim one_claim 1000) (ranges (claimed_board 300))" by code_simp
  ultimately show ?thesis by (simp add: b)
qed

end
