(* ===== verification/Folding.thy ===== *)
theory Folding
  imports Claims
begin

text \<open>
  Folding (\<open>coordinator/server.py\<close>: \<open>_tree_node\<close>, \<open>foldable\<close>, \<open>_prune_fold_claims\<close>,
  \<open>live_fold_claims\<close>, \<open>release_fold_claim\<close>, \<open>key_has_proven_work\<close>, \<open>fold_claim\<close>). The nodes of the
  canonical fold tree are the aligned intervals whose width is a power of two. The lemmas show that two
  nodes are nested or disjoint, that every pair on offer is two siblings whose parent is a node, and how
  many fold claims a key can hold.
\<close>

section \<open>The tree\<close>

definition tree_node :: "int \<Rightarrow> int \<Rightarrow> bool" where
  "tree_node lo hi = (let w = hi - lo + 1 in w > 0 \<and> and w (w - 1) = 0 \<and> (lo - 1) mod w = 0)"

section \<open>Fold claims\<close>

record fold_claim =
  fc_pubkey :: pubkey
  fc_handle :: string
  fc_nonce :: string
  fc_lo :: int
  fc_hi :: int
  fc_at :: time

type_synonym fold_claims = "(range_id \<times> fold_claim) list"

definition prune_fold_claims :: "config \<Rightarrow> time \<Rightarrow> fold_claims \<Rightarrow> fold_claims" where
  "prune_fold_claims cfg now fcs = filter (\<lambda>(k, v). \<not> now - fc_at v \<ge> FOLD_CLAIM_TTL cfg) fcs"

definition live_fold_claims :: "config \<Rightarrow> time \<Rightarrow> fold_claims \<Rightarrow> fold_claims" where
  "live_fold_claims cfg now fcs = prune_fold_claims cfg now fcs"

definition release_fold_claim :: "range_id \<Rightarrow> fold_claims \<Rightarrow> fold_claims" where
  "release_fold_claim rid fcs = filter (\<lambda>(k, v). k \<noteq> rid) fcs"

section \<open>What is offered\<close>

record fold_offer =
  fo_left :: range_id
  fo_right :: range_id
  fo_lo :: int
  fo_hi :: int
  fo_result :: range_id

definition spine_floor :: "board \<Rightarrow> int" where
  "spine_floor b = (case spine b of None \<Rightarrow> 0 | Some m \<Rightarrow> m_hi m)"

text \<open>The offers that row \<open>r\<close> drives: the rows that start right after it, in order.\<close>

definition row_offers :: "int \<Rightarrow> range_id list \<Rightarrow> vrange_row list \<Rightarrow> vrange_row \<Rightarrow> fold_offer list" where
  "row_offers base claimed rows r =
     (let lo = v_lo r; hi = v_hi r; w = hi - lo + 1 in
      if lo \<le> base \<or> \<not> tree_node lo hi \<or> ((lo - 1) div w) mod 2 \<noteq> 0 then []
      else map (\<lambda>s. \<lparr> fo_left = v_id r, fo_right = v_id s, fo_lo = lo, fo_hi = v_hi s,
                      fo_result = canonical_range_id lo (v_hi s) \<rparr>)
        (filter (\<lambda>s. v_hi s - v_lo s + 1 = w \<and> (lo, v_hi s) \<notin> set (map (\<lambda>x. (v_lo x, v_hi x)) rows)
             \<and> canonical_range_id lo (v_hi s) \<notin> set claimed)
          (filter (\<lambda>s. v_lo s = hi + 1) rows)))"

definition foldable :: "config \<Rightarrow> time \<Rightarrow> fold_claims \<Rightarrow> nat \<Rightarrow> board \<Rightarrow> fold_offer list" where
  "foldable cfg now fcs limit b =
     (let rows = sort_key v_lo (vranges b);
          claimed = map fst (live_fold_claims cfg now fcs)
      in take (max 1 limit) (concat (map (row_offers (spine_floor b) claimed rows) rows)))"

section \<open>Claiming a fold\<close>

text \<open>\<open>_proven_keys\<close> caches the keys seen with verified work.\<close>

definition key_has_proven_work :: "board \<Rightarrow> pubkey list \<Rightarrow> pubkey \<Rightarrow> bool \<times> pubkey list" where
  "key_has_proven_work b cache pk =
     (if pk \<in> set cache then (True, cache)
      else if list_ex (\<lambda>s. s_pubkey s = pk \<and> s_verified s) (submissions b) then (True, pk # cache)
      else (False, cache))"

record fold_body =
  fb_pubkey :: pubkey
  fb_result :: range_id
  fb_handle :: string
  fb_nonce :: string
  fb_sig :: string
  fb_ts :: json

datatype fold_error = F_HandleReserved | F_PubkeyNotHex | F_NoNonce | F_TsNotInteger | F_Skew | F_NotSiblings
  | F_BadSignature | F_Unproven | F_AlreadyProven | F_Taken int | F_TooMany nat

definition fold_check :: "config \<Rightarrow> world \<Rightarrow> pubkey list \<Rightarrow> fold_body \<Rightarrow> board \<Rightarrow> fold_error + (int \<times> int)" where
  "fold_check cfg w cache body b =
     (let pk = fb_pubkey body; rid = fb_result body; nonce = take 64 (fb_nonce body);
          handle = clean_handle cfg (fb_handle body) (Some (handle_cap cfg b (Some pk))) in
      if handle_refused cfg b handle (Some pk) then Inl F_HandleReserved
      else if HAVE_ED cfg \<and> \<not> is_hex pk 32 then Inl F_PubkeyNotHex
      else if nonce = [] then Inl F_NoNonce
      else case json_int (fb_ts body) of None \<Rightarrow> Inl F_TsNotInteger | Some ts \<Rightarrow>
        if abs (w_now w - of_int ts) > BEAT_SKEW cfg then Inl F_Skew
        else case parse_any_range (chain_tip cfg w) rid of None \<Rightarrow> Inl F_NotSiblings | Some (lo, hi) \<Rightarrow>
          if hi \<le> lo \<or> \<not> tree_node lo hi then Inl F_NotSiblings
          else if \<not> verify_sig cfg w pk (fb_sig body)
              (''foldclaim:'' @ rid @ '':'' @ nonce @ '':'' @ int_str ts) then Inl F_BadSignature
          else if \<not> fst (key_has_proven_work b cache pk) then Inl F_Unproven
          else if map_option r_status (row_of r_id rid (ranges b)) = Some Verified then Inl F_AlreadyProven
          else Inr (lo, hi))"

definition expires_in :: "config \<Rightarrow> time \<Rightarrow> time \<Rightarrow> int" where
  "expires_in cfg now since = max 0 (py_trunc (FOLD_CLAIM_TTL cfg - (now - since)))"

definition held_folds :: "pubkey \<Rightarrow> fold_claims \<Rightarrow> nat" where
  "held_folds pk fcs = length (filter (\<lambda>(k, v). fc_pubkey v = pk) fcs)"

text \<open>The answer is the seconds left of the claim.\<close>

definition fold_claim_req :: "config \<Rightarrow> world \<Rightarrow> pubkey list \<Rightarrow> fold_body \<Rightarrow> board \<Rightarrow> fold_claims \<Rightarrow>
    (fold_error + int) \<times> fold_claims" where
  "fold_claim_req cfg w cache body b fcs0 =
     (let pk = fb_pubkey body; rid = fb_result body; now = w_now w in
      case fold_check cfg w cache body b of
        Inl e \<Rightarrow> (Inl e, fcs0)
      | Inr (lo, hi) \<Rightarrow>
          (let fcs = prune_fold_claims cfg now fcs0;
               fresh = \<lparr> fc_pubkey = pk, fc_handle = clean_handle cfg (fb_handle body) (Some (handle_cap cfg b (Some pk))),
                         fc_nonce = take 64 (fb_nonce body), fc_lo = lo, fc_hi = hi, fc_at = now \<rparr>
           in case map_of fcs rid of
                Some cur \<Rightarrow> if fc_pubkey cur = pk then (Inr (expires_in cfg now (fc_at cur)), fcs)
                            else (Inl (F_Taken (expires_in cfg now (fc_at cur))), fcs)
              | None \<Rightarrow>
                  if FOLD_CLAIM_CAP cfg > 0 \<and> held_folds pk fcs \<ge> FOLD_CLAIM_CAP cfg
                  then (Inl (F_TooMany (held_folds pk fcs)), fcs)
                  else (Inr (py_trunc (FOLD_CLAIM_TTL cfg)), AList.update rid fresh fcs)))"

section \<open>Lemmas\<close>

text \<open>A width with \<open>w AND (w - 1) = 0\<close> is a power of two, and conversely.\<close>

lemma and_pred_double: "and (2 * v) (2 * v - 1) = 2 * and v (v - 1)" for v :: int
proof -
  have "(2 * v - 1) div 2 = v - 1" by simp
  then show ?thesis by (simp add: and_rec [of "2 * v" "2 * v - 1"])
qed

lemma and_pred_odd: "odd w \<Longrightarrow> and w (w - 1) = w - 1" for w :: int
  by (elim oddE) (simp add: and_rec [of "2 * _ + 1" "2 * _"])

lemma and_pred_zero: "0 < w \<Longrightarrow> and w (w - 1) = (0 :: int) \<Longrightarrow> \<exists>k. w = 2 ^ k"
proof (induction "nat w" arbitrary: w rule: less_induct)
  case less
  show ?case
  proof (cases "w = 1")
    case True
    then show ?thesis by (intro exI [of _ 0]) simp
  next
    case False
    have "even w"
      using and_pred_odd [of w] less.prems False by auto
    then obtain v where v: "w = 2 * v" by (elim evenE)
    with less.prems have "0 < v" "and v (v - 1) = 0" by (simp_all add: and_pred_double)
    with less.hyps [of v] v obtain k where "v = 2 ^ k" by auto
    with v show ?thesis by (intro exI [of _ "Suc k"]) simp
  qed
qed

lemma and_pred_pow: "and (2 ^ k) (2 ^ k - 1) = (0 :: int)"
  using take_bit_eq_mask [of k "2 ^ k :: int"] by (simp add: mask_eq_exp_minus_1)

lemma tree_node_iff: "tree_node lo hi \<longleftrightarrow> (\<exists>k a. hi - lo + 1 = 2 ^ k \<and> lo - 1 = 2 ^ k * a)"
proof
  assume t: "tree_node lo hi"
  then obtain k where "hi - lo + 1 = 2 ^ k"
    using and_pred_zero [of "hi - lo + 1"] by (auto simp: tree_node_def Let_def)
  with t show "\<exists>k a. hi - lo + 1 = 2 ^ k \<and> lo - 1 = 2 ^ k * a"
    by (auto simp: tree_node_def Let_def mod_eq_0_iff_dvd dvd_def)
next
  assume "\<exists>k a. hi - lo + 1 = 2 ^ k \<and> lo - 1 = 2 ^ k * a"
  then obtain k a where k: "hi - lo + 1 = 2 ^ k" "lo - 1 = 2 ^ k * a" by blast
  show "tree_node lo hi"
    unfolding tree_node_def Let_def k by (simp add: and_pred_pow)
qed

lemma tree_parent:
  assumes "tree_node lo hi" "((lo - 1) div (hi - lo + 1)) mod 2 = 0" "hi' - (hi + 1) + 1 = hi - lo + 1"
  shows "tree_node (hi + 1) hi' \<and> tree_node lo hi'"
proof -
  from assms(1) obtain k a where k: "hi - lo + 1 = 2 ^ k" "lo - 1 = 2 ^ k * a" by (auto simp: tree_node_iff)
  with assms(2) have "even a" by (simp add: even_iff_mod_2_eq_zero)
  then obtain c where "a = 2 * c" by (elim evenE)
  with k assms(3) have "hi' - lo + 1 = 2 ^ Suc k \<and> lo - 1 = 2 ^ Suc k * c"
      "hi' - (hi + 1) + 1 = 2 ^ k \<and> hi + 1 - 1 = 2 ^ k * (a + 1)"
    by (auto simp: algebra_simps)
  then show ?thesis unfolding tree_node_iff by blast
qed

lemma prune_keys: "distinct (map fst fcs) \<Longrightarrow> distinct (map fst (prune_fold_claims cfg now fcs))"
  by (auto simp: prune_fold_claims_def distinct_map intro: inj_on_subset)

lemma held_prune: "held_folds pk (prune_fold_claims cfg now fcs) \<le> held_folds pk fcs"
  unfolding held_folds_def prune_fold_claims_def filter_filter by (rule length_filter_imp) auto

lemma held_new: "map_of fcs rid = None \<Longrightarrow>
    held_folds pk (AList.update rid f fcs) = held_folds pk fcs + (if fc_pubkey f = pk then 1 else 0)"
  by (induction fcs) (auto simp: held_folds_def split: if_splits)

lemma row_offers_mem:
  assumes "fo \<in> set (row_offers base claimed rows r)"
  shows "\<exists>s \<in> set rows. v_lo s = v_hi r + 1 \<and> v_hi s - v_lo s = v_hi r - v_lo r
    \<and> fo = \<lparr> fo_left = v_id r, fo_right = v_id s, fo_lo = v_lo r, fo_hi = v_hi s,
              fo_result = canonical_range_id (v_lo r) (v_hi s) \<rparr>
    \<and> (v_lo r, v_hi s) \<notin> (\<lambda>x. (v_lo x, v_hi x)) ` set rows
    \<and> canonical_range_id (v_lo r) (v_hi s) \<notin> set claimed"
proof -
  let ?off = "v_lo r \<le> base \<or> \<not> tree_node (v_lo r) (v_hi r) \<or> ((v_lo r - 1) div (v_hi r - v_lo r + 1)) mod 2 \<noteq> 0"
  have "\<not> ?off"
  proof
    assume ?off
    then have "row_offers base claimed rows r = []" unfolding row_offers_def Let_def by (simp only: if_True)
    with assms show False by simp
  qed
  with assms have "fo \<in> (\<lambda>s. \<lparr> fo_left = v_id r, fo_right = v_id s, fo_lo = v_lo r, fo_hi = v_hi s,
              fo_result = canonical_range_id (v_lo r) (v_hi s) \<rparr>)
     ` {s. (s \<in> set rows \<and> v_lo s = v_hi r + 1) \<and> v_hi s - v_lo s + 1 = v_hi r - v_lo r + 1
         \<and> (v_lo r, v_hi s) \<notin> (\<lambda>x. (v_lo x, v_hi x)) ` set rows \<and> canonical_range_id (v_lo r) (v_hi s) \<notin> set claimed}"
    unfolding row_offers_def Let_def by (simp only: if_False set_map set_filter mem_Collect_eq)
  then show ?thesis unfolding image_iff mem_Collect_eq by (elim bexE CollectE) (rule bexI, auto)
qed

section \<open>Properties\<close>

text \<open>
  Two nodes of the fold tree are nested or disjoint, so folding nodes into nodes converges: it
  can never produce two ranges that overlap in part.
\<close>

theorem tree_nodes_nested:
  assumes "tree_node lo hi" and "tree_node lo' hi'"
  shows "{lo..hi} \<subseteq> {lo'..hi'} \<or> {lo'..hi'} \<subseteq> {lo..hi} \<or> {lo..hi} \<inter> {lo'..hi'} = {}"
proof -
  from assms obtain k a j c where k: "hi - lo + 1 = 2 ^ k" "lo - 1 = 2 ^ k * a"
      and j: "hi' - lo' + 1 = 2 ^ j" "lo' - 1 = 2 ^ j * c"
    unfolding tree_node_iff by blast
  have e: "hi - 1 = 2 ^ k * a + 2 ^ k - 1" "hi' - 1 = 2 ^ j * c + 2 ^ j - 1"
    using k j by linarith+
  have "{lo - 1..hi - 1} \<subseteq> {lo' - 1..hi' - 1} \<or> {lo' - 1..hi' - 1} \<subseteq> {lo - 1..hi - 1}
      \<or> {lo - 1..hi - 1} \<inter> {lo' - 1..hi' - 1} = {}"
  proof (cases "k \<le> j")
    case True
    then have "(2 :: int) ^ k dvd 2 ^ j" by (rule le_imp_power_dvd)
    from aligned_nested [OF _ this, of a c] show ?thesis unfolding e k(2) j(2) by auto
  next
    case False
    then have "(2 :: int) ^ j dvd 2 ^ k" by (intro le_imp_power_dvd) simp
    from aligned_nested [OF _ this, of c a] show ?thesis unfolding e k(2) j(2) by auto
  qed
  then show ?thesis by auto
qed

theorem tree_nodes_nested_witness: "{5..8 :: int} \<subseteq> {1..8} \<or> {1..8} \<subseteq> {5..8 :: int} \<or> {5..8} \<inter> {1..8 :: int} = {}"
  by (rule tree_nodes_nested) (simp_all add: tree_node_def)

text \<open>
  Every fold on offer is one the tree wants: the two operands are verified, they are equal
  siblings, their union is again a node, the board has no range of exactly that span, the spine's
  head lies below it and no other worker holds the pair; and at most \<open>limit\<close> are offered.
\<close>

theorem foldable_offers_siblings:
  assumes "fo \<in> set (foldable cfg now fcs limit b)"
  shows "(\<exists>r \<in> set (vranges b). \<exists>s \<in> set (vranges b). fo_left fo = v_id r \<and> fo_right fo = v_id s
      \<and> fo_lo fo = v_lo r \<and> fo_hi fo = v_hi s \<and> v_lo s = v_hi r + 1 \<and> tree_node (v_lo r) (v_hi r)
      \<and> tree_node (v_lo s) (v_hi s) \<and> v_hi s - v_lo s = v_hi r - v_lo r)
    \<and> tree_node (fo_lo fo) (fo_hi fo) \<and> spine_floor b < fo_lo fo
    \<and> (\<nexists>x. x \<in> set (vranges b) \<and> v_lo x = fo_lo fo \<and> v_hi x = fo_hi fo)
    \<and> fo_result fo = canonical_range_id (fo_lo fo) (fo_hi fo)
    \<and> fo_result fo \<notin> fst ` set (live_fold_claims cfg now fcs)
    \<and> length (foldable cfg now fcs limit b) \<le> max 1 limit"
proof -
  let ?rows = "sort_key v_lo (vranges b)" and ?cl = "map fst (live_fold_claims cfg now fcs)"
  from assms obtain r where r: "r \<in> set (vranges b)" "fo \<in> set (row_offers (spine_floor b) ?cl ?rows r)"
    by (auto simp: foldable_def Let_def dest!: in_set_takeD)
  then have d: "spine_floor b < v_lo r" "tree_node (v_lo r) (v_hi r)"
      "((v_lo r - 1) div (v_hi r - v_lo r + 1)) mod 2 = 0"
    by (auto simp: row_offers_def Let_def split: if_splits)
  from row_offers_mem [OF r(2), unfolded set_sort] obtain s where s: "s \<in> set (vranges b)" "v_lo s = v_hi r + 1"
      "v_hi s - v_lo s = v_hi r - v_lo r"
      "fo = \<lparr> fo_left = v_id r, fo_right = v_id s, fo_lo = v_lo r, fo_hi = v_hi s,
              fo_result = canonical_range_id (v_lo r) (v_hi s) \<rparr>"
      "(v_lo r, v_hi s) \<notin> (\<lambda>x. (v_lo x, v_hi x)) ` set (vranges b)"
      "canonical_range_id (v_lo r) (v_hi s) \<notin> set ?cl"
    by blast
  then have free: "\<nexists>x. x \<in> set (vranges b) \<and> v_lo x = v_lo r \<and> v_hi x = v_hi s"
    using s(5) by (auto simp: image_iff)
  have "v_hi s - (v_hi r + 1) + 1 = v_hi r - v_lo r + 1" using s(2,3) by linarith
  from tree_parent [OF d(2,3) this] have "tree_node (v_lo s) (v_hi s)" "tree_node (v_lo r) (v_hi s)"
    by (simp_all add: s(2))
  moreover have "length (foldable cfg now fcs limit b) \<le> max 1 limit" by (simp add: foldable_def Let_def)
  ultimately show ?thesis using r(1) d s free by auto
qed

theorem foldable_offers_siblings_witness:
  "tree_node 1 2 \<and> (\<exists>fo. fo \<in> set (foldable default_config 0 [] 32 (empty_board\<lparr>vranges := [vr 2 2 1, vr 1 1 2]\<rparr>))
     \<and> tree_node (fo_lo fo) (fo_hi fo))"
proof -
  let ?b = "empty_board\<lparr>vranges := [vr 2 2 1, vr 1 1 2]\<rparr>"
  let ?fo = "\<lparr> fo_left = ''1'', fo_right = ''2'', fo_lo = 1, fo_hi = 2, fo_result = ''1-2'' \<rparr>"
  have "foldable default_config 0 [] 32 ?b = [?fo]" by code_simp
  then have m: "?fo \<in> set (foldable default_config 0 [] 32 ?b)" by simp
  from foldable_offers_siblings [OF m] m show ?thesis by auto
qed

text \<open>
  A fold claim hides a pair for a minute at most, from one key at a time, and a key never holds
  more than \<open>FOLD_CLAIM_CAP\<close>: the cap is kept by every request, a request is granted only to a signed
  key with verified work, and another key's live claim is never taken over.
\<close>

theorem fold_claims_capped:
  assumes "fold_claim_req cfg w cache body b fcs = (res, fcs')"
    and "0 < FOLD_CLAIM_CAP cfg" and "\<And>pk. held_folds pk fcs \<le> FOLD_CLAIM_CAP cfg"
    and "distinct (map fst fcs)"
  shows "held_folds pk fcs' \<le> FOLD_CLAIM_CAP cfg \<and> distinct (map fst fcs')
    \<and> (\<forall>k c. map_of (prune_fold_claims cfg (w_now w) fcs) k = Some c \<longrightarrow> map_of fcs' k = Some c)
    \<and> (\<not> isl res \<longrightarrow> fst (key_has_proven_work b cache (fb_pubkey body))
         \<and> (\<exists>c. map_of fcs' (fb_result body) = Some c \<and> fc_pubkey c = fb_pubkey body))"
proof -
  let ?p = "prune_fold_claims cfg (w_now w) fcs"
  have cap: "held_folds k ?p \<le> FOLD_CLAIM_CAP cfg" for k using held_prune assms(3) order_trans by blast
  have dp: "distinct (map fst ?p)" by (rule prune_keys [OF assms(4)])
  have mono: "map_of fcs k = Some c" if "map_of ?p k = Some c" for k c
    using that assms(4) by (auto simp: prune_fold_claims_def dest!: map_of_SomeD)
  show ?thesis
  proof (cases "fold_check cfg w cache body b")
    case (Inl e)
    with assms mono show ?thesis by (auto simp: fold_claim_req_def Let_def)
  next
    case (Inr p)
    then obtain lo hi where p: "fold_check cfg w cache body b = Inr (lo, hi)" by (cases p) auto
    then have work: "fst (key_has_proven_work b cache (fb_pubkey body))"
      by (auto simp: fold_check_def Let_def split: if_splits option.splits)
    show ?thesis
    proof (cases "map_of ?p (fb_result body)")
      case (Some c)
      with assms(1) p cap dp work show ?thesis
        by (auto simp: fold_claim_req_def Let_def split: if_splits)
    next
      case None
      note step = held_new [OF None]
      show ?thesis
        using assms(1,2) p cap [of pk] dp work None
        by (auto simp: fold_claim_req_def Let_def step AList.distinct_update AList.update_conv' split: if_splits)
    qed
  qed
qed

definition fold_of :: "range_id \<Rightarrow> fold_body" where
  "fold_of rid = \<lparr> fb_pubkey = ''ab'', fb_result = rid, fb_handle = ''ann'', fb_nonce = ''n'', fb_sig = [], fb_ts = JInt 1000 \<rparr>"

theorem fold_claims_capped_witness:
  "\<exists>c. map_of (snd (fold_claim_req rotate_config example_world [''ab''] (fold_of ''1-2'') empty_board [])) ''1-2'' = Some c
     \<and> fc_pubkey c = ''ab''"
proof -
  let ?r = "fold_claim_req rotate_config example_world [''ab''] (fold_of ''1-2'') empty_board []"
  have "fst ?r = Inr 60" by code_simp
  then have run: "?r = (Inr 60, snd ?r)" by (metis prod.collapse)
  have "0 < FOLD_CLAIM_CAP rotate_config" by (simp add: rotate_config_def)
  moreover have "held_folds pk [] \<le> FOLD_CLAIM_CAP rotate_config" for pk by (simp add: held_folds_def)
  ultimately have "\<exists>c. map_of (snd ?r) (fb_result (fold_of ''1-2'')) = Some c \<and> fc_pubkey c = fb_pubkey (fold_of ''1-2'')"
    using fold_claims_capped [OF run] by (metis distinct.simps(1) list.simps(8) sum.disc(2))
  then show ?thesis by (simp only: fold_of_def fold_body.simps)
qed

end
