(* ===== verification/Receipt.thy ===== *)
theory Receipt
  imports Folding
begin

text \<open>
  Checking what a worker uploads (\<open>coordinator/server.py\<close>: \<open>verify_receipt\<close>, \<open>verify_spine\<close>, the
  \<open>base64.b64decode\<close> of \<open>submit\<close>). The verifier binary is outside the repository's Python: a parameter
  gives what a run of it on the uploaded bytes returns, as decoded text (\<open>stdout\<close> and \<open>stderr\<close>) with the
  exit code, or the message of the exception \<open>subprocess.run\<close> raises (a timeout). Writing and removing the
  temporary file is left out, and the dash in two notes is written \<open>-\<close>. The lemmas show that an accepted
  receipt was accepted by the verifier for exactly the range named, how the verifier's line is read back,
  and that the upload's encoding loses nothing.
\<close>

section \<open>Text operations\<close>

text \<open>\<open>dict(t.split("=", 1) for t in text.split() if "=" in t)\<close> as the list of its pairs.\<close>

definition key_values :: "string \<Rightarrow> (string \<times> string) list" where
  "key_values s = map (\<lambda>t. (takeWhile (\<lambda>c. c \<noteq> CHR ''='') t, tl (dropWhile (\<lambda>c. c \<noteq> CHR ''='') t)))
     (filter (\<lambda>t. CHR ''='' \<in> set t) (py_words s))"

definition kv_get :: "string \<Rightarrow> (string \<times> string) list \<Rightarrow> string option" where
  "kv_get k kvs = map_of (rev kvs) k"

definition kv_default :: "string \<Rightarrow> string \<Rightarrow> (string \<times> string) list \<Rightarrow> string" where
  "kv_default k d kvs = (case kv_get k kvs of None \<Rightarrow> d | Some v \<Rightarrow> v)"

text \<open>The exceptions: \<open>str(e)\<close> of the \<open>KeyError\<close> of \<open>kv[k]\<close> and of the \<open>ValueError\<close> of \<open>int(v)\<close>.\<close>

definition hex_char :: "nat \<Rightarrow> char" where
  "hex_char d = char_of (if d < 10 then 48 + d else 87 + d)"

definition repr_char :: "char \<Rightarrow> char \<Rightarrow> string" where
  "repr_char q c = (let k = (of_char c :: nat) in
     if c = CHR 0x5C \<or> c = q then [CHR 0x5C, c]
     else if k = 9 then [CHR 0x5C, CHR ''t''] else if k = 10 then [CHR 0x5C, CHR ''n'']
     else if k = 13 then [CHR 0x5C, CHR ''r'']
     else if k < 32 \<or> (127 \<le> k \<and> k \<le> 160) \<or> k = 173 then [CHR 0x5C, CHR ''x'', hex_char (k div 16), hex_char (k mod 16)]
     else [c])"

definition py_repr :: "string \<Rightarrow> string" where
  "py_repr s = (let q = (if CHR 0x27 \<in> set s \<and> CHR 0x22 \<notin> set s then CHR 0x22 else CHR 0x27)
     in q # concat (map (repr_char q) s) @ [q])"

definition try_key :: "string \<Rightarrow> (string \<times> string) list \<Rightarrow> string + string" where
  "try_key k kvs = (case kv_get k kvs of None \<Rightarrow> Inl (py_repr k) | Some v \<Rightarrow> Inr v)"

definition try_int :: "string \<Rightarrow> string + int" where
  "try_int s = (case py_int s of None \<Rightarrow> Inl (''invalid literal for int() with base 10: '' @ py_repr s) | Some i \<Rightarrow> Inr i)"

definition and_then :: "'e + 'a \<Rightarrow> ('a \<Rightarrow> 'e + 'b) \<Rightarrow> 'e + 'b" where
  "and_then x f = (case x of Inl e \<Rightarrow> Inl e | Inr a \<Rightarrow> f a)"

section \<open>The verifier\<close>

datatype host_result = Raised string | Ran int string string

record receipt_meta =
  rm_lo :: "int option"
  rm_hi :: "int option"
  rm_in_tip :: string
  rm_out_tip :: string
  rm_out_leaves :: int
  rm_range_work :: string
  rm_in_bhash :: string
  rm_out_bhash :: string
  rm_anchored :: bool

type_synonym verdict = "bool \<times> string \<times> receipt_meta option"

definition last_chars :: "nat \<Rightarrow> string \<Rightarrow> string" where
  "last_chars n s = drop (length s - n) s"

definition range_ok_line :: "string \<Rightarrow> string option" where
  "range_ok_line out = find (prefixed ''RANGE-OK'') (py_splitlines out)"

definition span_text :: "int \<Rightarrow> int \<Rightarrow> string" where
  "span_text lo hi = ''['' @ int_str lo @ ''..'' @ int_str hi @ '']''"

text \<open>What is read from the line; \<open>Inl\<close> carries the text of the exception raised.\<close>

definition read_line :: "config \<Rightarrow> int \<times> int \<Rightarrow> string \<Rightarrow> string + verdict" where
  "read_line cfg rng line =
     (let kv = key_values (drop 8 line) in
      and_then (and_then (try_key ''lo'' kv) try_int) (\<lambda>lo.
      and_then (and_then (try_key ''hi'' kv) try_int) (\<lambda>hi.
        let genesis_seed = (fst rng = 0 \<and> lo = 1 \<and> hi = snd rng) in
        if \<not> genesis_seed \<and> (lo \<noteq> fst rng \<or> hi \<noteq> snd rng)
        then Inr (False, ''receipt proves '' @ span_text lo hi @ '', not the claimed '' @ span_text (fst rng) (snd rng), None)
        else and_then (try_key ''in_tip'' kv) (\<lambda>in_tip.
             and_then (try_key ''out_tip'' kv) (\<lambda>out_tip.
             and_then (try_int (kv_default ''out_leaves'' ''0'' kv)) (\<lambda>leaves.
               Inr (True, ''range '' @ span_text lo hi @ '' VERIFIED'',
                 Some \<lparr> rm_lo = Some lo, rm_hi = Some hi, rm_in_tip = in_tip, rm_out_tip = out_tip,
                        rm_out_leaves = leaves, rm_range_work = kv_default ''range_work'' ''0'' kv,
                        rm_in_bhash = kv_default ''in_bhash'' [] kv, rm_out_bhash = kv_default ''out_bhash'' [] kv,
                        rm_anchored = is_genesis_anchored (GENESIS_TIP cfg) (Some in_tip) lo \<rparr>)))))))"

definition mismatch_note :: string where
  "mismatch_note = ''receipt rejected: your prover's guest image id (METHOD_ID) does not match this ''
     @ ''coordinator's - you built a different guest. Use the prebuilt release binary, or ''
     @ ''the reproducible build (reproduce/Dockerfile); expected id is in reproduce/METHOD_ID.''"

definition verify_receipt :: "config \<Rightarrow> (string \<Rightarrow> host_result) \<Rightarrow> string \<Rightarrow> int \<times> int \<Rightarrow> verdict" where
  "verify_receipt cfg verify_any receipt rng =
     (if VERIFY_MOCK cfg then
        (if \<not> ALLOW_MOCK cfg
         then (False, ''mock verification is disabled; set COORD_ALLOW_MOCK=1 to allow (GPU-less testing only)'', None)
         else (True, ''mock-verified (VERIFY_MODE=mock)'',
           Some \<lparr> rm_lo = None, rm_hi = None, rm_in_tip = ''mock:'' @ int_str (fst rng),
                  rm_out_tip = ''mock:'' @ int_str (snd rng), rm_out_leaves = 0, rm_range_work = ''0'',
                  rm_in_bhash = ''0'', rm_out_bhash = ''0'', rm_anchored = False \<rparr>))
      else if \<not> HOST_BIN_OK cfg then (False, ''no HAZYNC_HOST binary configured for real verification'', None)
      else case verify_any receipt of
        Raised e \<Rightarrow> (False, ''verify error: '' @ e, None)
      | Ran code out err \<Rightarrow>
          (case (if code \<noteq> 0 then None else range_ok_line out) of
             Some line \<Rightarrow> (case read_line cfg rng line of Inl e \<Rightarrow> (False, ''verify error: '' @ e, None) | Inr v \<Rightarrow> v)
           | None \<Rightarrow>
               if infix_of ''MISMATCH'' (out @ err) then (False, mismatch_note, None)
               else (False, ''receipt rejected - not a valid proof (forged/tampered/corrupt): '' @ last_chars 160 (out @ err), None)))"

section \<open>The spine's two checks\<close>

definition read_spine_line :: "string \<Rightarrow> string + verdict" where
  "read_spine_line line =
     (let kv = key_values (drop 8 line) in
      and_then (and_then (try_key ''lo'' kv) try_int) (\<lambda>lo.
      and_then (and_then (try_key ''hi'' kv) try_int) (\<lambda>hi.
        if lo \<noteq> 1 then Inr (False, ''spine must start at block 1, got '' @ span_text lo hi, None)
        else and_then (try_int (kv_default ''out_leaves'' ''0'' kv)) (\<lambda>leaves.
               Inr (True, ''spine [1..'' @ int_str hi @ ''] VERIFIED genesis-anchored'',
                 Some \<lparr> rm_lo = Some lo, rm_hi = Some hi, rm_in_tip = kv_default ''in_tip'' [] kv,
                        rm_out_tip = kv_default ''out_tip'' [] kv, rm_out_leaves = leaves,
                        rm_range_work = kv_default ''range_work'' ''0'' kv, rm_in_bhash = [], rm_out_bhash = [],
                        rm_anchored = False \<rparr>)))))"

text \<open>The two runs: \<open>verify-range\<close> gates on its exit code, \<open>verify-any\<close> is read.\<close>

definition verify_spine ::
    "config \<Rightarrow> (string \<Rightarrow> host_result) \<Rightarrow> (string \<Rightarrow> host_result) \<Rightarrow> string \<Rightarrow> verdict" where
  "verify_spine cfg verify_range verify_any receipt =
     (if VERIFY_MOCK cfg then
        (if \<not> ALLOW_MOCK cfg
         then (False, ''mock verification is disabled; set COORD_ALLOW_MOCK=1 (GPU-less testing only)'', None)
         else (True, ''mock-verified (VERIFY_MODE=mock)'',
           Some \<lparr> rm_lo = Some 1, rm_hi = Some 0, rm_in_tip = GENESIS_TIP cfg, rm_out_tip = ''mock'', rm_out_leaves = 0,
                  rm_range_work = ''0'', rm_in_bhash = [], rm_out_bhash = [], rm_anchored = False \<rparr>))
      else if \<not> HOST_BIN_OK cfg then (False, ''no HAZYNC_HOST binary configured for real verification'', None)
      else case verify_range receipt of
        Raised e \<Rightarrow> (False, ''spine verify error: '' @ e, None)
      | Ran code out err \<Rightarrow>
          if code \<noteq> 0 then
            (if infix_of ''MISMATCH'' (out @ err)
             then (False, ''spine rejected: guest image id (METHOD_ID) does not match this coordinator's - ''
                     @ ''it was built against a different guest.'', None)
             else (False, ''spine rejected - not a genesis-anchored range proof: '' @ last_chars 200 (out @ err), None))
          else case verify_any receipt of
            Raised e \<Rightarrow> (False, ''spine verify error: '' @ e, None)
          | Ran code2 out2 err2 \<Rightarrow>
              (case (if code2 \<noteq> 0 then None else range_ok_line out2) of
                 None \<Rightarrow> (False, ''spine rejected - verify-any produced no RANGE-OK line'', None)
               | Some line \<Rightarrow> (case read_spine_line line of Inl e \<Rightarrow> (False, ''spine verify error: '' @ e, None) | Inr v \<Rightarrow> v)))"

section \<open>The upload's encoding\<close>

text \<open>
  \<open>base64.b64decode(text)\<close> in its lenient mode: characters outside the alphabet are skipped, and a pad that
  completes a group of four ends the input. The accumulator is the output so far, reversed.
\<close>

definition b64_val :: "char \<Rightarrow> nat option" where
  "b64_val c = (let k = (of_char c :: nat) in
     if 65 \<le> k \<and> k \<le> 90 then Some (k - 65) else if 97 \<le> k \<and> k \<le> 122 then Some (k - 71)
     else if 48 \<le> k \<and> k \<le> 57 then Some (k + 4) else if k = 43 then Some 62 else if k = 47 then Some 63 else None)"

fun b64_loop :: "nat \<Rightarrow> nat \<Rightarrow> nat \<Rightarrow> string \<Rightarrow> string \<Rightarrow> string option" where
  "b64_loop quad pads left acc [] = (if quad = 0 then Some (rev acc) else None)"
| "b64_loop quad pads left acc (c # s) =
     (if c = CHR ''='' then
        (if quad \<ge> 2 \<and> quad + (pads + 1) \<ge> 4 then Some (rev acc)
         else b64_loop quad (if quad \<ge> 2 then pads + 1 else pads) left acc s)
      else case b64_val c of None \<Rightarrow> b64_loop quad pads left acc s
      | Some v \<Rightarrow>
          if quad = 0 then b64_loop 1 0 v acc s
          else if quad = 1 then b64_loop 2 0 (v mod 16) (char_of (left * 4 + v div 16) # acc) s
          else if quad = 2 then b64_loop 3 0 (v mod 4) (char_of (left * 16 + v div 4) # acc) s
          else b64_loop 0 0 0 (char_of (left * 64 + v) # acc) s)"

definition b64decode :: "string \<Rightarrow> string option" where
  "b64decode s = (if list_all (\<lambda>c. (of_char c :: nat) < 128) s then b64_loop 0 0 0 [] s else None)"

section \<open>Lemmas\<close>

lemma and_then_Inr: "and_then x f = Inr b \<longleftrightarrow> (\<exists>a. x = Inr a \<and> f a = Inr b)"
  by (cases x) (auto simp: and_then_def)

lemma and_then_simps [simp]: "and_then (Inr a) f = f a" "and_then (Inl e) f = Inl e"
  by (simp_all add: and_then_def)

lemma try_key_Inr [simp]: "try_key k kvs = Inr v \<longleftrightarrow> kv_get k kvs = Some v"
  by (auto simp: try_key_def split: option.splits)

lemma try_int_Inr [simp]: "try_int s = Inr i \<longleftrightarrow> py_int s = Some i"
  by (auto simp: try_int_def split: option.splits)

text \<open>What the line must say for a receipt to pass.\<close>

definition line_says :: "config \<Rightarrow> string \<Rightarrow> receipt_meta \<Rightarrow> int \<Rightarrow> int \<Rightarrow> bool" where
  "line_says cfg line mt lo hi \<longleftrightarrow>
     (let kv = key_values (drop 8 line) in
      Option.bind (kv_get ''lo'' kv) py_int = Some lo \<and> Option.bind (kv_get ''hi'' kv) py_int = Some hi
      \<and> rm_lo mt = Some lo \<and> rm_hi mt = Some hi
      \<and> kv_get ''in_tip'' kv = Some (rm_in_tip mt) \<and> kv_get ''out_tip'' kv = Some (rm_out_tip mt)
      \<and> rm_in_bhash mt = kv_default ''in_bhash'' [] kv \<and> rm_out_bhash mt = kv_default ''out_bhash'' [] kv
      \<and> rm_range_work mt = kv_default ''range_work'' ''0'' kv)"

lemma read_line_accepts:
  assumes "read_line cfg rng line = Inr (True, note, m)"
  shows "\<exists>mt lo hi. m = Some mt \<and> line_says cfg line mt lo hi
    \<and> ((lo, hi) = rng \<or> fst rng = 0 \<and> lo = 1 \<and> hi = snd rng)
    \<and> (rm_anchored mt \<longleftrightarrow> rm_in_tip mt = GENESIS_TIP cfg \<and> lo = 1)"
  using assms
  by (auto simp: read_line_def line_says_def Let_def and_then_Inr is_genesis_anchored_def split: if_splits)

lemma read_spine_accepts:
  assumes "read_spine_line line = Inr (True, note, m)"
  shows "\<exists>mt hi. m = Some mt \<and> rm_lo mt = Some 1 \<and> rm_hi mt = Some hi
    \<and> Option.bind (kv_get ''lo'' (key_values (drop 8 line))) py_int = Some 1
    \<and> Option.bind (kv_get ''hi'' (key_values (drop 8 line))) py_int = Some hi"
  using assms by (auto simp: read_spine_line_def Let_def and_then_Inr split: if_splits)

text \<open>Splitting what was joined.\<close>

lemma words_from_word: "list_all (\<lambda>c. \<not> is_space c) u \<Longrightarrow> words_from acc (u @ s) = words_from (rev u @ acc) s"
  by (induction u arbitrary: acc) auto

lemma is_space_blank: "is_space CHR '' ''"
  by (simp add: is_space_def)

lemma words_join: "list_all (\<lambda>u. u \<noteq> [] \<and> list_all (\<lambda>c. \<not> is_space c) u) us \<Longrightarrow>
    py_words (concat (map ((#) CHR '' '') us)) = us"
proof (induction us)
  case Nil
  then show ?case by (simp add: py_words_def)
next
  case (Cons u us)
  have "words_from (rev u) (concat (map ((#) CHR '' '') us)) = u # us"
    using Cons by (cases us) (auto simp: py_words_def is_space_blank)
  with Cons.prems show ?case
    by (simp add: py_words_def is_space_blank words_from_word)
qed

lemma lines_first: "list_all (\<lambda>c. \<not> is_break c) l \<Longrightarrow> lines_from acc (l @ CHR 0x0A # s) = (rev acc @ l) # lines_from [] s"
  by (induction l arbitrary: acc) (auto simp: is_break_def)

lemma break_space: "is_break c \<Longrightarrow> is_space c"
  by (auto simp: is_break_def is_space_def Let_def)

text \<open>The encoder a worker uses, and that decoding undoes it.\<close>

definition b64_char :: "nat \<Rightarrow> char" where
  "b64_char v = char_of (if v < 26 then v + 65 else if v < 52 then v + 71 else if v < 62 then v - 4
     else if v = 62 then 43 else 47)"

definition byte :: "char \<Rightarrow> nat" where
  "byte c = of_char c"

fun b64encode :: "string \<Rightarrow> string" where
  "b64encode [] = []"
| "b64encode [a] = [b64_char (byte a div 4), b64_char (byte a mod 4 * 16), CHR ''='', CHR ''='']"
| "b64encode [a, b] = [b64_char (byte a div 4), b64_char (byte a mod 4 * 16 + byte b div 16),
     b64_char (byte b mod 16 * 4), CHR ''='']"
| "b64encode (a # b # c # s) = [b64_char (byte a div 4), b64_char (byte a mod 4 * 16 + byte b div 16),
     b64_char (byte b mod 16 * 4 + byte c div 64), b64_char (byte c mod 64)] @ b64encode s"

lemma byte_less [simp]: "byte c < 256"
  by (simp add: byte_def)

lemma byte_parts [simp]: "byte c div 4 < 64" "byte c div 16 < 16" "byte c div 64 < 4"
  using byte_less [of c] by linarith+

lemma char_byte [simp]: "char_of (byte c) = c"
  by (simp add: byte_def)

lemma b64_char_val: "v < 64 \<Longrightarrow> b64_val (b64_char v) = Some v \<and> b64_char v \<noteq> CHR ''='' \<and> (of_char (b64_char v) :: nat) < 128"
proof -
  assume v: "v < 64"
  define k where "k = (if v < 26 then v + 65 else if v < 52 then v + 71 else if v < 62 then v - 4
     else if v = 62 then 43 else (47 :: nat))"
  have k: "(of_char (b64_char v) :: nat) = k" "k < 128" "k \<noteq> 61"
    using v by (auto simp: b64_char_def k_def of_char_of)
  have "b64_val (b64_char v) = Some v"
    unfolding b64_val_def Let_def k(1) using v by (auto simp: k_def)
  moreover have "b64_char v \<noteq> CHR ''=''" using k by auto
  ultimately show ?thesis using k by simp
qed

lemma parts_join: "y < 16 \<Longrightarrow> (x mod 4 * 16 + y) div 16 = x mod 4" "y < 16 \<Longrightarrow> (x mod 4 * 16 + y) mod 16 = y"
  "z < 4 \<Longrightarrow> (x mod 16 * 4 + z) div 4 = x mod 16" "z < 4 \<Longrightarrow> (x mod 16 * 4 + z) mod 4 = z"
  for x y z :: nat
  by simp_all

lemma small_parts: "y < 16 \<Longrightarrow> x mod 4 * 16 + y < 64" "z < 4 \<Longrightarrow> x mod 16 * 4 + z < 64" for x y z :: nat
proof -
  show "y < 16 \<Longrightarrow> x mod 4 * 16 + y < 64" using mod_less_divisor [of 4 x] by linarith
  show "z < 4 \<Longrightarrow> x mod 16 * 4 + z < 64" using mod_less_divisor [of 16 x] by linarith
qed

lemma b64_loop_encode: "b64_loop 0 0 0 acc (b64encode s) = Some (rev acc @ s)"
proof (induction s arbitrary: acc rule: b64encode.induct)
  case (2 a)
  have "byte a mod 4 * 16 < 64" using small_parts(1) [of 0 "byte a"] by simp
  then show ?case
    by (simp add: b64_char_val mult.commute [of _ 4] del: mult_div_mod_eq)
next
  case (3 a b)
  then show ?case by (simp add: b64_char_val small_parts parts_join)
next
  case (4 a b c s)
  then show ?case by (simp add: b64_char_val small_parts parts_join)
qed simp

lemma b64encode_ascii: "list_all (\<lambda>c. (of_char c :: nat) < 128) (b64encode s)"
  by (induction s rule: b64encode.induct) (auto simp: b64_char_val small_parts small_parts(1) [of 0, simplified] small_parts(2) [of 0, simplified])

lemma b64_inverse: "b64decode (b64encode s) = Some s"
  using b64encode_ascii [of s] b64_loop_encode [of "[]" s] by (simp add: b64decode_def)

text \<open>The line the verifier prints on success (\<open>prover/host/src/main.rs\<close>), and that it is read back.\<close>

definition plain :: "string \<Rightarrow> bool" where
  "plain s = list_all (\<lambda>c. \<not> is_space c) s"

definition host_words :: "int \<Rightarrow> int \<Rightarrow> string \<Rightarrow> string \<Rightarrow> int \<Rightarrow> string \<Rightarrow> string \<Rightarrow> string \<Rightarrow> bool \<Rightarrow> string list" where
  "host_words lo hi it ot leaves wk ib ob anch =
     [''lo='' @ int_str lo, ''hi='' @ int_str hi, ''in_tip='' @ it, ''out_tip='' @ ot, ''out_leaves='' @ int_str leaves,
      ''range_work='' @ wk, ''in_bhash='' @ ib, ''out_bhash='' @ ob, ''anchored='' @ (if anch then ''yes'' else ''no'')]"

definition host_line :: "int \<Rightarrow> int \<Rightarrow> string \<Rightarrow> string \<Rightarrow> int \<Rightarrow> string \<Rightarrow> string \<Rightarrow> string \<Rightarrow> bool \<Rightarrow> string" where
  "host_line lo hi it ot leaves wk ib ob anch =
     ''RANGE-OK'' @ concat (map ((#) CHR '' '') (host_words lo hi it ot leaves wk ib ob anch))"

lemma plain_nat_str: "plain (nat_str n)"
  using nat_str_digits [of n] by (auto simp: plain_def list_all_iff all_digits_def digit_not_space)

lemma plain_int_str: "plain (int_str i)"
  using plain_nat_str by (simp add: int_str_def plain_def is_space_def)

lemma py_int_str [simp]: "0 \<le> i \<Longrightarrow> py_int (int_str i) = Some i"
  by (simp add: int_str_nonneg)

lemma plain_literals [simp]: "plain []" "plain (c # s) \<longleftrightarrow> \<not> is_space c \<and> plain s" "plain (s @ t) \<longleftrightarrow> plain s \<and> plain t"
  by (simp_all add: plain_def)

lemma host_words_plain:
  "plain it \<Longrightarrow> plain ot \<Longrightarrow> plain wk \<Longrightarrow> plain ib \<Longrightarrow> plain ob \<Longrightarrow>
   list_all (\<lambda>u. u \<noteq> [] \<and> plain u) (host_words lo hi it ot leaves wk ib ob anch)"
  by (simp add: host_words_def plain_int_str) (simp add: is_space_def)

lemma host_line_key_values:
  assumes "plain it" "plain ot" "plain wk" "plain ib" "plain ob"
  shows "key_values (drop 8 (host_line lo hi it ot leaves wk ib ob anch)) =
    [(''lo'', int_str lo), (''hi'', int_str hi), (''in_tip'', it), (''out_tip'', ot), (''out_leaves'', int_str leaves),
     (''range_work'', wk), (''in_bhash'', ib), (''out_bhash'', ob), (''anchored'', if anch then ''yes'' else ''no'')]"
proof -
  have "py_words (drop 8 (host_line lo hi it ot leaves wk ib ob anch)) = host_words lo hi it ot leaves wk ib ob anch"
    using words_join [of "host_words lo hi it ot leaves wk ib ob anch"] host_words_plain [OF assms, of lo hi leaves anch]
    by (simp add: host_line_def plain_def)
  then show ?thesis by (simp add: key_values_def host_words_def)
qed

lemma host_line_found:
  assumes "plain it" "plain ot" "plain wk" "plain ib" "plain ob"
  shows "range_ok_line (host_line lo hi it ot leaves wk ib ob anch @ CHR 0x0A # rest)
    = Some (host_line lo hi it ot leaves wk ib ob anch)"
proof -
  have sp: "list_all (\<lambda>c. \<not> is_break c) u" if "plain u" for u
    using that break_space by (auto simp: plain_def list_all_iff)
  have nb: "\<not> is_break CHR '' ''" by (simp add: is_break_def)
  have "list_all (\<lambda>c. \<not> is_break c) (concat (map ((#) CHR '' '') us))" if "list_all (\<lambda>u. u \<noteq> [] \<and> plain u) us" for us
    using that by (induction us) (auto simp: sp nb)
  from this [OF host_words_plain [OF assms]] have "list_all (\<lambda>c. \<not> is_break c) (host_line lo hi it ot leaves wk ib ob anch)"
    by (simp add: host_line_def) (simp add: is_break_def)
  from lines_first [OF this, of "[]" rest] show ?thesis
    by (simp add: range_ok_line_def py_splitlines_def) (simp add: host_line_def prefixed_def)
qed

text \<open>The bounds a verdict reports are the ones asked for, unless the claim starts at block 0.\<close>

lemma verdict_bounds:
  assumes "verify_receipt cfg verify_any receipt (lo, hi) = (True, nt, m)" and "1 \<le> lo"
  shows "\<exists>mt. m = Some mt \<and> (rm_lo mt = Some lo \<and> rm_hi mt = Some hi \<or> VERIFY_MOCK cfg \<and> rm_lo mt = None \<and> rm_hi mt = None)"
proof (cases "VERIFY_MOCK cfg")
  case True
  with assms show ?thesis by (auto simp: verify_receipt_def split: if_splits)
next
  case False
  with assms(1) obtain line where "read_line cfg (lo, hi) line = Inr (True, nt, m)"
    by (auto simp: verify_receipt_def split: if_splits host_result.splits option.splits sum.splits)
  from read_line_accepts [OF this] assms(2) show ?thesis by (auto simp: line_says_def Let_def)
qed

section \<open>Properties\<close>

text \<open>
  Claim C26. A receipt is accepted (outside mock mode) only when the verifier exited with 0 and printed a
  \<open>RANGE-OK\<close> line whose bounds are the ones claimed, or the proof of 1..hi for a claim of 0..hi; the
  boundaries recorded are the ones on that line, and the receipt is called anchored exactly when it starts
  at block 1 from the genesis tip.
\<close>

theorem verify_receipt_sound:
  assumes "verify_receipt cfg verify_any receipt rng = (True, note, m)" and "\<not> VERIFY_MOCK cfg"
  shows "\<exists>mt lo hi out err line. m = Some mt \<and> HOST_BIN_OK cfg \<and> verify_any receipt = Ran 0 out err
    \<and> line \<in> set (py_splitlines out) \<and> prefixed ''RANGE-OK'' line \<and> line_says cfg line mt lo hi
    \<and> ((lo, hi) = rng \<or> fst rng = 0 \<and> lo = 1 \<and> hi = snd rng)
    \<and> (rm_anchored mt \<longleftrightarrow> rm_in_tip mt = GENESIS_TIP cfg \<and> lo = 1)"
proof -
  from assms obtain code out err line where r: "HOST_BIN_OK cfg" "verify_any receipt = Ran code out err"
      "(if code \<noteq> 0 then None else range_ok_line out) = Some line" "read_line cfg rng line = Inr (True, note, m)"
    by (auto simp: verify_receipt_def split: if_splits host_result.splits option.splits sum.splits)
  then have c: "code = 0" "find (prefixed ''RANGE-OK'') (py_splitlines out) = Some line"
    by (auto simp: range_ok_line_def split: if_splits)
  then have "line \<in> set (py_splitlines out) \<and> prefixed ''RANGE-OK'' line" by (auto simp: find_Some_iff)
  with r c(1) read_line_accepts [OF r(4)] show ?thesis by blast
qed

definition good_host :: "string \<Rightarrow> host_result" where
  "good_host r = (if r = ''ok'' then Ran 0 (host_line 7 7 ''aa'' ''bb'' 3 ''9'' ''cc'' ''dd'' False @ [CHR 0x0A]) []
     else Ran 1 [] ''INVALID'')"

lemma good_run: "verify_receipt default_config good_host ''ok'' (7, 7) =
    (True, ''range [7..7] VERIFIED'', Some \<lparr> rm_lo = Some 7, rm_hi = Some 7, rm_in_tip = ''aa'', rm_out_tip = ''bb'',
       rm_out_leaves = 3, rm_range_work = ''9'', rm_in_bhash = ''cc'', rm_out_bhash = ''dd'', rm_anchored = False \<rparr>)"
  by code_simp

theorem verify_receipt_sound_witness:
  "\<exists>out err. good_host ''ok'' = Ran 0 out err \<and> (\<exists>line \<in> set (py_splitlines out). prefixed ''RANGE-OK'' line)"
  using verify_receipt_sound [OF good_run] by auto

text \<open>
  What the verifier prints is what the coordinator records: for the line it prints after a
  successful check, whatever follows on later lines, the receipt of \<open>lo..hi\<close> is accepted for that range
  with every printed field unchanged, and refused for any other range that is not its genesis form.
\<close>

theorem verdict_reads_line_back:
  assumes "verify_any receipt = Ran 0 (host_line lo hi it ot leaves wk ib ob anch @ CHR 0x0A # rest) err"
    and "plain it" and "plain ot" and "plain wk" and "plain ib" and "plain ob"
    and "0 \<le> lo" and "0 \<le> hi" and "0 \<le> leaves" and "\<not> VERIFY_MOCK cfg" and "HOST_BIN_OK cfg"
  shows "verify_receipt cfg verify_any receipt (lo, hi) = (True, ''range '' @ span_text lo hi @ '' VERIFIED'',
      Some \<lparr> rm_lo = Some lo, rm_hi = Some hi, rm_in_tip = it, rm_out_tip = ot, rm_out_leaves = leaves,
             rm_range_work = wk, rm_in_bhash = ib, rm_out_bhash = ob, rm_anchored = (it = GENESIS_TIP cfg \<and> lo = 1) \<rparr>)
    \<and> (\<forall>lo' hi'. (lo', hi') \<noteq> (lo, hi) \<longrightarrow> \<not> (lo' = 0 \<and> lo = 1 \<and> hi' = hi) \<longrightarrow>
        \<not> fst (verify_receipt cfg verify_any receipt (lo', hi')))"
proof -
  let ?line = "host_line lo hi it ot leaves wk ib ob anch"
  note kv = host_line_key_values [OF assms(2-6), of lo hi leaves anch]
  note found = host_line_found [OF assms(2-6), of lo hi leaves anch rest]
  have run: "verify_receipt cfg verify_any receipt rng =
      (case read_line cfg rng ?line of Inl e \<Rightarrow> (False, ''verify error: '' @ e, None) | Inr v \<Rightarrow> v)" for rng
    unfolding verify_receipt_def using assms(1,10,11) found by simp
  have get: "kv_get ''lo'' (key_values (drop 8 ?line)) = Some (int_str lo)"
      "kv_get ''hi'' (key_values (drop 8 ?line)) = Some (int_str hi)"
      "kv_get ''in_tip'' (key_values (drop 8 ?line)) = Some it" "kv_get ''out_tip'' (key_values (drop 8 ?line)) = Some ot"
      "kv_default ''out_leaves'' ''0'' (key_values (drop 8 ?line)) = int_str leaves"
      "kv_default ''range_work'' ''0'' (key_values (drop 8 ?line)) = wk"
      "kv_default ''in_bhash'' [] (key_values (drop 8 ?line)) = ib" "kv_default ''out_bhash'' [] (key_values (drop 8 ?line)) = ob"
    unfolding kv by (simp_all add: kv_get_def kv_default_def)
  note step = read_line_def Let_def get try_key_def try_int_def
  show ?thesis
    unfolding run using assms(7-9) by (auto simp: step is_genesis_anchored_def)
qed

theorem verdict_reads_line_back_witness:
  "\<not> fst (verify_receipt default_config good_host ''ok'' (8, 8)) \<and> fst (verify_receipt default_config good_host ''ok'' (7, 7))"
proof -
  have "plain ''aa'' \<and> plain ''bb'' \<and> plain ''9'' \<and> plain ''cc'' \<and> plain ''dd''" by code_simp
  then show ?thesis
    using verdict_reads_line_back [of good_host "''ok''" 7 7 "''aa''" "''bb''" 3 "''9''" "''cc''" "''dd''" False "[]" "[]" default_config]
    by (simp add: good_host_def)
qed

text \<open>
  A spine head is accepted only when both runs of the verifier succeed: \<open>verify-range\<close> exits with
  0, which pins the genesis in-boundary, and \<open>verify-any\<close> prints a \<open>RANGE-OK\<close> line that starts at block 1.
\<close>

theorem verify_spine_needs_both:
  assumes "verify_spine cfg verify_range verify_any receipt = (True, note, m)" and "\<not> VERIFY_MOCK cfg"
  shows "\<exists>mt hi out err out2 err2 line. m = Some mt \<and> rm_lo mt = Some 1 \<and> rm_hi mt = Some hi
    \<and> verify_range receipt = Ran 0 out err \<and> verify_any receipt = Ran 0 out2 err2
    \<and> line \<in> set (py_splitlines out2) \<and> prefixed ''RANGE-OK'' line
    \<and> Option.bind (kv_get ''lo'' (key_values (drop 8 line))) py_int = Some 1
    \<and> Option.bind (kv_get ''hi'' (key_values (drop 8 line))) py_int = Some hi"
proof -
  from assms obtain out err code2 out2 err2 line where r: "verify_range receipt = Ran 0 out err"
      "verify_any receipt = Ran code2 out2 err2" "(if code2 \<noteq> 0 then None else range_ok_line out2) = Some line"
      "read_spine_line line = Inr (True, note, m)"
    by (auto simp: verify_spine_def split: if_splits host_result.splits option.splits sum.splits)
  then have c: "code2 = 0" "find (prefixed ''RANGE-OK'') (py_splitlines out2) = Some line"
    by (auto simp: range_ok_line_def split: if_splits)
  then have "line \<in> set (py_splitlines out2) \<and> prefixed ''RANGE-OK'' line" by (auto simp: find_Some_iff)
  with r c(1) read_spine_accepts [OF r(4)] show ?thesis by blast
qed

theorem verify_spine_needs_both_witness:
  "\<exists>hi. hi = (9 :: int) \<and> \<not> VERIFY_MOCK default_config
    \<and> (\<exists>out err. (Ran 0 (host_line 1 9 ''aa'' ''bb'' 3 ''9'' ''cc'' ''dd'' True @ [CHR 0x0A]) []) = Ran 0 out err
       \<and> (\<exists>line \<in> set (py_splitlines out). Option.bind (kv_get ''lo'' (key_values (drop 8 line))) py_int = Some 1))"
proof -
  let ?any = "\<lambda>_ :: string. Ran 0 (host_line 1 9 ''aa'' ''bb'' 3 ''9'' ''cc'' ''dd'' True @ [CHR 0x0A]) []"
  have "fst (verify_spine default_config (\<lambda>_. Ran 0 [] []) ?any ''r'')" by code_simp
  then obtain nt m where "verify_spine default_config (\<lambda>_. Ran 0 [] []) ?any ''r'' = (True, nt, m)"
    by (metis prod.collapse)
  from verify_spine_needs_both [OF this] show ?thesis by auto
qed

end
