(* ===== verification/Submit.thy ===== *)
theory Submit
  imports Receipt
begin

text \<open>
  Accepting a proof (\<open>coordinator/server.py\<close>: \<open>already_proven_body\<close>, \<open>submit\<close>). The handler runs in three
  parts because the verification happens outside the lock: \<open>submit_admit\<close> (every refusal before it, and the
  row it may create), \<open>submit_verify\<close>, and \<open>submit_commit\<close> (the second check of the row and of the hold, and
  the writes). Each part reads the clock once. \<open>disk_ok\<close> says whether the proof file could be written; the
  code ignores a failure there.
\<close>

record submit_body =
  su_range :: range_id
  su_pubkey :: pubkey
  su_sig :: string
  su_receipt :: string
  su_handle :: string
  su_version :: "string option"

datatype submit_error = S_Fields | S_HandleReserved | S_InvalidRange | S_Genesis genesis_error | S_Spelling range_id
  | S_NotAFold "(int \<times> int) option" | S_PubkeyHex | S_SigHex | S_TooLarge | S_NotBase64
  | S_AlreadyProven string "string option" | S_Held "int \<times> int" | S_RaceLost

text \<open>The state a submission touches: the database, the cached frontier and the fold claims.\<close>

record server =
  sv_board :: board
  sv_cache :: "(time \<times> snapshot) option"
  sv_folds :: fold_claims

text \<open>The row read before the verification, the decoded receipt and the handle that will be stored.\<close>

record admitted =
  ad_row :: range_row
  ad_receipt :: string
  ad_handle :: string

record submit_reply =
  rp_ok :: bool
  rp_range :: range_id
  rp_sha :: string
  rp_sig_valid :: bool
  rp_note :: string
  rp_proof :: "(bool \<times> int \<times> int \<times> string \<times> string) option"

section \<open>Already proven\<close>

definition proven_by :: "string list \<Rightarrow> board \<Rightarrow> range_id \<Rightarrow> string option" where
  "proven_by blk b rid = (case row_of v_id rid (vranges b) of None \<Rightarrow> None
     | Some v \<Rightarrow> if lower (or_empty (v_pubkey v)) \<in> set blk then Some ''[removed]'' else v_handle v)"

definition already_proven_body :: "string list \<Rightarrow> board \<Rightarrow> range_row \<Rightarrow> submit_error" where
  "already_proven_body blk b r =
     (let rid = r_id r; who = proven_by blk b rid;
          what = (if r_lo r = r_hi r then ''block '' @ int_str (r_lo r) else span_text (r_lo r) (r_hi r));
          by_whom = (if or_empty who = [] then [] else '', by '' @ or_empty who)
      in S_AlreadyProven (''already proven: '' @ what @ '' has its own proof'' @ by_whom
           @ ''. Proving it again adds nothing -- anyone can check that proof in seconds: download /api/proof/''
           @ rid @ '' and verify it. `hazync run` with no argument picks a block nobody has proven.'') who)"

section \<open>Before the verification\<close>

text \<open>The refusal of a range wider than one block that is not a fold of verified ranges.\<close>

definition wide_refusal :: "board \<Rightarrow> int \<Rightarrow> int \<Rightarrow> submit_error option" where
  "wide_refusal b lo hi =
     (if hi > lo \<and> \<not> tiled_by_verified b lo hi
      then Some (S_NotAFold (case overlapping_vrange b lo hi of None \<Rightarrow> None
             | Some c \<Rightarrow> if v_lo c \<le> lo \<and> lo \<le> v_hi c then Some (v_lo c, v_hi c) else None))
      else None)"

definition submit_handle :: "config \<Rightarrow> submit_body \<Rightarrow> board \<Rightarrow> string" where
  "submit_handle cfg body b = clean_handle cfg (su_handle body) (Some (handle_cap cfg b (Some (su_pubkey body))))"

definition submit_check :: "config \<Rightarrow> world \<Rightarrow> submit_body \<Rightarrow> board \<Rightarrow> submit_error + (int \<times> int \<times> string)" where
  "submit_check cfg w body b =
     (let rid = su_range body; pk = su_pubkey body in
      if rid = [] \<or> pk = [] \<or> su_receipt body = [] then Inl S_Fields
      else if handle_refused cfg b (submit_handle cfg body b) (Some pk) then Inl S_HandleReserved
      else case parse_any_range (chain_tip cfg w) rid of None \<Rightarrow> Inl S_InvalidRange | Some (lo, hi) \<Rightarrow>
        (case genesis_refusal lo hi ''Submit'' of Some e \<Rightarrow> Inl (S_Genesis e) | None \<Rightarrow>
        (case range_id_refusal rid lo hi of Some canon \<Rightarrow> Inl (S_Spelling canon) | None \<Rightarrow>
        (case wide_refusal b lo hi of Some e \<Rightarrow> Inl e | None \<Rightarrow>
          if HAVE_ED cfg \<and> \<not> is_hex pk 32 then Inl S_PubkeyHex
          else if HAVE_ED cfg \<and> \<not> is_hex (su_sig body) 64 then Inl S_SigHex
          else if int (length (su_receipt body)) > MAX_BODY cfg then Inl S_TooLarge
          else case b64decode (su_receipt body) of None \<Rightarrow> Inl S_NotBase64 | Some receipt \<Rightarrow> Inr (lo, hi, receipt)))))"

definition submit_admit :: "config \<Rightarrow> world \<Rightarrow> string list \<Rightarrow> submit_body \<Rightarrow> board \<Rightarrow> (submit_error + admitted) \<times> board" where
  "submit_admit cfg w blk body b =
     (case submit_check cfg w body b of
        Inl e \<Rightarrow> (Inl e, b)
      | Inr (lo, hi, receipt) \<Rightarrow>
          (let rid = su_range body;
               b1 = (if row_of r_id rid (ranges b) = None
                     then b\<lparr>ranges := ins_ignore r_id (new_range rid lo hi) (ranges b)\<rparr> else b);
               r = the (row_of r_id rid (ranges b1))
           in if r_status r = Verified then (Inl (already_proven_body blk b1 r), b1)
              else case hold_refusal b1 (r_lo r) (r_hi r) (su_pubkey body) of
                Some held \<Rightarrow> (Inl (S_Held held), b1)
              | None \<Rightarrow> (Inr \<lparr> ad_row = r, ad_receipt = receipt, ad_handle = submit_handle cfg body b \<rparr>, b1)))"

section \<open>The verification\<close>

definition submit_verify :: "config \<Rightarrow> world \<Rightarrow> (string \<Rightarrow> host_result) \<Rightarrow> submit_body \<Rightarrow> admitted \<Rightarrow> bool \<times> verdict" where
  "submit_verify cfg w verify_any body adm =
     (let sig_ok = verify_sig cfg w (su_pubkey body) (su_sig body) (ad_receipt adm)
      in (sig_ok, if sig_ok then verify_receipt cfg verify_any (ad_receipt adm) (r_lo (ad_row adm), r_hi (ad_row adm))
                  else (False, ''signature invalid'', None)))"

section \<open>The commit\<close>

definition or_else :: "'a option \<Rightarrow> 'a \<Rightarrow> 'a" where
  "or_else x d = (case x of None \<Rightarrow> d | Some v \<Rightarrow> v)"

text \<open>The bounds recorded: those of the receipt, where the verdict has them.\<close>

definition proved_lo :: "range_row \<Rightarrow> receipt_meta \<Rightarrow> int" where
  "proved_lo r m = or_else (rm_lo m) (r_lo r)"

definition proved_hi :: "range_row \<Rightarrow> receipt_meta \<Rightarrow> int" where
  "proved_hi r m = or_else (rm_hi m) (r_hi r)"

definition vrange_of :: "time \<Rightarrow> submit_body \<Rightarrow> admitted \<Rightarrow> receipt_meta \<Rightarrow> vrange_row" where
  "vrange_of now body adm m = \<lparr> v_id = su_range body, v_lo = proved_lo (ad_row adm) m, v_hi = proved_hi (ad_row adm) m,
     v_in_tip = Some (rm_in_tip m), v_out_tip = Some (rm_out_tip m), v_pubkey = Some (su_pubkey body),
     v_handle = Some (ad_handle adm), v_ts = Some now, v_out_leaves = Some (rm_out_leaves m),
     v_range_work = Some (rm_range_work m), v_in_bhash = Some (rm_in_bhash m), v_out_bhash = Some (rm_out_bhash m) \<rparr>"

definition credit :: "time \<Rightarrow> submit_body \<Rightarrow> admitted \<Rightarrow> receipt_meta \<Rightarrow> contributor list \<Rightarrow> contributor list" where
  "credit now body adm m cs =
     upd_where (\<lambda>c. c_pubkey c = su_pubkey body)
       (\<lambda>c. c\<lparr>c_blocks := c_blocks c + (proved_hi (ad_row adm) m - proved_lo (ad_row adm) m + 1), c_handle := Some (ad_handle adm)\<rparr>)
       (ins_ignore c_pubkey (new_contributor (su_pubkey body) (Some (ad_handle adm)) now) cs)"

definition verified_row :: "string \<Rightarrow> time \<Rightarrow> range_row \<Rightarrow> range_row" where
  "verified_row sha now r = r\<lparr>r_status := Verified, r_receipt_sha := Some sha, r_verified_at := Some now\<rparr>"

text \<open>What a verified receipt writes, in the order of the statements.\<close>

definition accept_proof :: "time \<Rightarrow> bool \<Rightarrow> string \<Rightarrow> submit_body \<Rightarrow> admitted \<Rightarrow> receipt_meta \<Rightarrow> board \<Rightarrow> board" where
  "accept_proof now disk_ok sha body adm m b =
     (let rid = su_range body;
          b1 = b\<lparr>ranges := upd_where (\<lambda>r. r_id r = rid) (verified_row sha now) (ranges b)\<rparr>;
          b2 = b1\<lparr>vranges := put_row v_id (vrange_of now body adm m) (vranges b1)\<rparr>;
          b3 = b2\<lparr>contributors := credit now body adm m (contributors b2)\<rparr>;
          b4 = note_client_version now (su_pubkey body) (su_version body) b3;
          b5 = (if disk_ok then b4\<lparr>proofs := (proofs b4)(rid \<mapsto> ad_receipt adm)\<rparr> else b4)
      in snd (sponsor_mark_proven b5 (proved_lo (ad_row adm) m) (proved_hi (ad_row adm) m) now))"

definition submission_of :: "time \<Rightarrow> string \<Rightarrow> submit_body \<Rightarrow> admitted \<Rightarrow> bool \<Rightarrow> string \<Rightarrow> submission" where
  "submission_of now sha body adm ok nt = \<lparr> s_range_id = su_range body, s_pubkey = su_pubkey body,
     s_handle = ad_handle adm, s_receipt_sha = sha, s_sig = su_sig body, s_verified = ok, s_note = nt, s_ts = now \<rparr>"

definition reply_of :: "string \<Rightarrow> submit_body \<Rightarrow> admitted \<Rightarrow> bool \<times> verdict \<Rightarrow> submit_reply" where
  "reply_of sha body adm vd = (case vd of (sig_ok, rcpt_ok, nt, m) \<Rightarrow>
     \<lparr> rp_ok = (sig_ok \<and> rcpt_ok), rp_range = su_range body, rp_sha = sha, rp_sig_valid = sig_ok, rp_note = nt,
       rp_proof = (if sig_ok \<and> rcpt_ok then map_option (\<lambda>m. (rm_anchored m, proved_lo (ad_row adm) m, proved_hi (ad_row adm) m,
         rm_in_bhash m, rm_out_bhash m)) m else None) \<rparr>)"

definition submit_commit :: "config \<Rightarrow> world \<Rightarrow> bool \<Rightarrow> submit_body \<Rightarrow> admitted \<Rightarrow> bool \<times> verdict \<Rightarrow> server \<Rightarrow>
    (submit_error + submit_reply) \<times> server" where
  "submit_commit cfg w disk_ok body adm vd sv =
     (let b = sv_board sv; rid = su_range body; now = w_now w; r = ad_row adm;
          sha = w_sha256 w (ad_receipt adm);
          (sig_ok, rcpt_ok, nt, m) = vd; ok = (sig_ok \<and> rcpt_ok)
      in if map_option r_status (row_of r_id rid (ranges b)) = Some Verified then (Inl S_RaceLost, sv)
         else case hold_refusal b (r_lo r) (r_hi r) (su_pubkey body) of
           Some held \<Rightarrow> (Inl (S_Held held), sv)
         | None \<Rightarrow>
             (let b1 = b\<lparr>submissions := submissions b @ [submission_of now sha body adm ok nt]\<rparr>;
                  b2 = (if ok then accept_proof now disk_ok sha body adm (the m) b1
                        else b1\<lparr>ranges := snd (record_submission_failure cfg now rid nt (ranges b1))\<rparr>)
              in (Inr (reply_of sha body adm vd),
                  \<lparr> sv_board = b2, sv_cache = None,
                    sv_folds = (if ok then release_fold_claim rid (sv_folds sv) else sv_folds sv) \<rparr>)))"

text \<open>The whole handler, when nothing else runs between its parts.\<close>

definition submit :: "config \<Rightarrow> world \<Rightarrow> string list \<Rightarrow> (string \<Rightarrow> host_result) \<Rightarrow> bool \<Rightarrow> submit_body \<Rightarrow> server \<Rightarrow>
    (submit_error + submit_reply) \<times> server" where
  "submit cfg w blk verify_any disk_ok body sv =
     (case submit_admit cfg w blk body (sv_board sv) of
        (Inl e, b1) \<Rightarrow> (Inl e, sv\<lparr>sv_board := b1\<rparr>)
      | (Inr adm, b1) \<Rightarrow> submit_commit cfg w disk_ok body adm (submit_verify cfg w verify_any body adm) (sv\<lparr>sv_board := b1\<rparr>))"

section \<open>Lemmas\<close>

lemma or_else_simps [simp]: "or_else None d = d" "or_else (Some x) d = x"
  by (simp_all add: or_else_def)

lemma mark_proven_simps [simp]:
  "ranges (snd (sponsor_mark_proven b lo hi now)) = ranges b" "vranges (snd (sponsor_mark_proven b lo hi now)) = vranges b"
  "proofs (snd (sponsor_mark_proven b lo hi now)) = proofs b" "submissions (snd (sponsor_mark_proven b lo hi now)) = submissions b"
  "contributors (snd (sponsor_mark_proven b lo hi now)) = contributors b"
  "rotations (snd (sponsor_mark_proven b lo hi now)) = rotations b" "spine (snd (sponsor_mark_proven b lo hi now)) = spine b"
  "sponsor_keys (snd (sponsor_mark_proven b lo hi now)) = sponsor_keys b"
  by (simp_all add: sponsor_mark_proven_def Let_def)

lemma verified_row_simps [simp]:
  "r_id (verified_row sha now r) = r_id r" "r_lo (verified_row sha now r) = r_lo r" "r_hi (verified_row sha now r) = r_hi r"
  "r_status (verified_row sha now r) = Verified"
  by (simp_all add: verified_row_def)

lemma vrange_of_simps [simp]:
  "v_id (vrange_of now body adm m) = su_range body" "v_lo (vrange_of now body adm m) = proved_lo (ad_row adm) m"
  "v_hi (vrange_of now body adm m) = proved_hi (ad_row adm) m" "v_pubkey (vrange_of now body adm m) = Some (su_pubkey body)"
  by (simp_all add: vrange_of_def)

lemma new_range_simps [simp]:
  "r_id (new_range rid lo hi) = rid" "r_lo (new_range rid lo hi) = lo" "r_hi (new_range rid lo hi) = hi"
  "r_status (new_range rid lo hi) = Open"
  by (simp_all add: new_range_def)

text \<open>What an accepted proof leaves in the tables.\<close>

lemma accept_proof_tables:
  "ranges (accept_proof now d sha body adm m b) = upd_where (\<lambda>r. r_id r = su_range body) (verified_row sha now) (ranges b)"
  "vranges (accept_proof now d sha body adm m b) = put_row v_id (vrange_of now body adm m) (vranges b)"
  "submissions (accept_proof now d sha body adm m b) = submissions b"
  "proofs (accept_proof now d sha body adm m b) = (if d then (proofs b)(su_range body \<mapsto> ad_receipt adm) else proofs b)"
  "rotations (accept_proof now d sha body adm m b) = rotations b"
  by (simp_all add: accept_proof_def Let_def)

lemma wide_refusal_None: "wide_refusal b lo hi = None \<Longrightarrow> lo < hi \<Longrightarrow> {lo..hi} \<subseteq> covered b"
  by (auto simp: wide_refusal_def tiled_iff covered_def v_span_def split: if_splits)

lemma submit_check_Inr:
  assumes "submit_check cfg w body b = Inr (lo, hi, receipt)"
  shows "parse_any_range (chain_tip cfg w) (su_range body) = Some (lo, hi) \<and> 1 \<le> lo \<and> lo \<le> hi
    \<and> su_range body = canonical_range_id lo hi \<and> (lo < hi \<longrightarrow> {lo..hi} \<subseteq> covered b)
    \<and> b64decode (su_receipt body) = Some receipt \<and> (HAVE_ED cfg \<longrightarrow> is_hex (su_pubkey body) 32 \<and> is_hex (su_sig body) 64)
    \<and> su_range body \<noteq> [] \<and> su_pubkey body \<noteq> []
    \<and> \<not> handle_refused cfg b (submit_handle cfg body b) (Some (su_pubkey body))"
proof -
  from assms have c: "parse_any_range (chain_tip cfg w) (su_range body) = Some (lo, hi)" "genesis_refusal lo hi ''Submit'' = None"
      "range_id_refusal (su_range body) lo hi = None" "wide_refusal b lo hi = None"
      "b64decode (su_receipt body) = Some receipt" "HAVE_ED cfg \<longrightarrow> is_hex (su_pubkey body) 32 \<and> is_hex (su_sig body) 64"
      "su_range body \<noteq> []" "su_pubkey body \<noteq> []" "\<not> handle_refused cfg b (submit_handle cfg body b) (Some (su_pubkey body))"
    by (auto simp: submit_check_def Let_def split: if_splits option.splits)
  from c(2) parse_any_range_bounds [OF c(1)] have "1 \<le> lo \<and> lo \<le> hi" by (auto simp: genesis_refusal_def split: if_splits)
  with c wide_refusal_None [OF c(4)] show ?thesis by (simp add: refusal_None_iff)
qed

text \<open>The one write before the verification: a row for a range the board had none for.\<close>

definition opened :: "submit_body \<Rightarrow> int \<Rightarrow> int \<Rightarrow> board \<Rightarrow> board" where
  "opened body lo hi b = (if row_of r_id (su_range body) (ranges b) = None
     then b\<lparr>ranges := ranges b @ [new_range (su_range body) lo hi]\<rparr> else b)"

lemma opened_simps [simp]:
  "vranges (opened body lo hi b) = vranges b" "submissions (opened body lo hi b) = submissions b"
  "contributors (opened body lo hi b) = contributors b" "proofs (opened body lo hi b) = proofs b"
  "sponsorships (opened body lo hi b) = sponsorships b" "sponsor_keys (opened body lo hi b) = sponsor_keys b"
  "rotations (opened body lo hi b) = rotations b" "spine (opened body lo hi b) = spine b"
  by (simp_all add: opened_def)

lemma row_of_append: "row_of key k (t @ u) = (case row_of key k t of None \<Rightarrow> row_of key k u | Some r \<Rightarrow> Some r)"
  by (auto simp: row_of_def find_append split: option.split)

lemma row_of_single: "row_of key k [r] = (if key r = k then Some r else None)"
  by (simp add: row_of_def)

lemma row_of_opened: "row_of r_id (su_range body) (ranges (opened body lo hi b)) =
    Some (case row_of r_id (su_range body) (ranges b) of None \<Rightarrow> new_range (su_range body) lo hi | Some r \<Rightarrow> r)"
  by (simp add: opened_def row_of_append row_of_single split: option.split)

lemma submit_admit_eq:
  "submit_admit cfg w blk body b = (case submit_check cfg w body b of Inl e \<Rightarrow> (Inl e, b)
     | Inr (lo, hi, receipt) \<Rightarrow>
        (let b1 = opened body lo hi b;
             r = (case row_of r_id (su_range body) (ranges b) of None \<Rightarrow> new_range (su_range body) lo hi | Some r \<Rightarrow> r)
         in if r_status r = Verified then (Inl (already_proven_body blk b1 r), b1)
            else case hold_refusal b1 (r_lo r) (r_hi r) (su_pubkey body) of
              Some held \<Rightarrow> (Inl (S_Held held), b1)
            | None \<Rightarrow> (Inr \<lparr> ad_row = r, ad_receipt = receipt, ad_handle = submit_handle cfg body b \<rparr>, b1)))"
proof -
  have o: "(if row_of r_id (su_range body) (ranges b) = None
      then b\<lparr>ranges := ins_ignore r_id (new_range (su_range body) lo hi) (ranges b)\<rparr> else b) = opened body lo hi b" for lo hi
    using row_of_None [of r_id "su_range body" "ranges b"] by (auto simp: opened_def ins_ignore_def)
  show ?thesis
    unfolding submit_admit_def Let_def o row_of_opened option.sel ..
qed

lemma submit_admit_Inr:
  assumes "submit_admit cfg w blk body b = (Inr adm, b')"
  obtains lo hi where "submit_check cfg w body b = Inr (lo, hi, ad_receipt adm)" "b' = opened body lo hi b"
    "row_of r_id (su_range body) (ranges b') = Some (ad_row adm)" "r_status (ad_row adm) \<noteq> Verified"
    "hold_refusal b' (r_lo (ad_row adm)) (r_hi (ad_row adm)) (su_pubkey body) = None"
    "ad_handle adm = submit_handle cfg body b"
  using assms
  by (auto simp: submit_admit_eq row_of_opened Let_def split: sum.splits prod.splits if_splits option.splits)

text \<open>Every answer of the first part leaves the board as it was, up to a new open row.\<close>

lemma submit_admit_board:
  assumes "submit_admit cfg w blk body b = (res, b')"
  shows "b' = b \<or> (\<exists>lo hi receipt. submit_check cfg w body b = Inr (lo, hi, receipt) \<and> b' = opened body lo hi b)"
  using assms
  by (auto simp: submit_admit_eq Let_def split: sum.splits prod.splits if_splits option.splits)

text \<open>The ways the last part answers.\<close>

lemma submit_commit_Inl:
  assumes "submit_commit cfg w d body adm vd sv = (Inl e, sv')"
  shows "sv' = sv \<and> (e = S_RaceLost \<and> map_option r_status (row_of r_id (su_range body) (ranges (sv_board sv))) = Some Verified
    \<or> (\<exists>held. e = S_Held held \<and> hold_refusal (sv_board sv) (r_lo (ad_row adm)) (r_hi (ad_row adm)) (su_pubkey body) = Some held))"
  using assms by (cases vd) (auto simp: submit_commit_def Let_def split: if_splits option.splits)

lemma submit_commit_Inr:
  assumes "submit_commit cfg w d body adm (sig_ok, rcpt_ok, nt, m) sv = (Inr rep, sv')"
  shows "rep = reply_of (w_sha256 w (ad_receipt adm)) body adm (sig_ok, rcpt_ok, nt, m) \<and> sv_cache sv' = None
    \<and> rp_ok rep = (sig_ok \<and> rcpt_ok)
    \<and> map_option r_status (row_of r_id (su_range body) (ranges (sv_board sv))) \<noteq> Some Verified
    \<and> hold_refusal (sv_board sv) (r_lo (ad_row adm)) (r_hi (ad_row adm)) (su_pubkey body) = None
    \<and> sv_folds sv' = (if rp_ok rep then release_fold_claim (su_range body) (sv_folds sv) else sv_folds sv)"
  using assms by (auto simp: submit_commit_def reply_of_def Let_def split: if_splits option.splits)

definition blocks_of :: "board \<Rightarrow> pubkey \<Rightarrow> int" where
  "blocks_of b pk = (case row_of c_pubkey pk (contributors b) of None \<Rightarrow> 0 | Some c \<Rightarrow> c_blocks c)"

definition noted :: "world \<Rightarrow> submit_body \<Rightarrow> admitted \<Rightarrow> bool \<Rightarrow> string \<Rightarrow> board \<Rightarrow> board" where
  "noted w body adm ok nt b =
     b\<lparr>submissions := submissions b @ [submission_of (w_now w) (w_sha256 w (ad_receipt adm)) body adm ok nt]\<rparr>"

lemma noted_simps [simp]:
  "ranges (noted w body adm ok nt b) = ranges b" "vranges (noted w body adm ok nt b) = vranges b"
  "contributors (noted w body adm ok nt b) = contributors b" "proofs (noted w body adm ok nt b) = proofs b"
  "sponsorships (noted w body adm ok nt b) = sponsorships b" "blocks_of (noted w body adm ok nt b) = blocks_of b"
  "submissions (noted w body adm ok nt b)
     = submissions b @ [submission_of (w_now w) (w_sha256 w (ad_receipt adm)) body adm ok nt]"
  by (simp_all add: noted_def blocks_of_def fun_eq_iff)

lemma submit_commit_board:
  assumes "submit_commit cfg w d body adm (sig_ok, rcpt_ok, nt, m) sv = (Inr rep, sv')"
  shows "rp_ok rep \<Longrightarrow> sv_board sv' = accept_proof (w_now w) d (w_sha256 w (ad_receipt adm)) body adm (the m)
            (noted w body adm True nt (sv_board sv))"
    and "\<not> rp_ok rep \<Longrightarrow> sv_board sv' = (noted w body adm False nt (sv_board sv))\<lparr>ranges :=
            snd (record_submission_failure cfg (w_now w) (su_range body) nt (ranges (sv_board sv)))\<rparr>"
  using assms by (auto simp: submit_commit_def reply_of_def noted_def Let_def split: if_splits option.splits)

lemma row_of_ins_ignore: "row_of key (key r) (ins_ignore key r t) = Some (case row_of key (key r) t of None \<Rightarrow> r | Some x \<Rightarrow> x)"
  using row_of_None [of key "key r" t] by (auto simp: ins_ignore_def row_of_append row_of_single split: option.splits)

lemma ins_ignore_other: "k \<noteq> key r \<Longrightarrow> row_of key k (ins_ignore key r t) = row_of key k t"
  by (auto simp: ins_ignore_def row_of_append row_of_single split: option.splits)

lemma blocks_note [simp]: "blocks_of (note_client_version now pk v b) k = blocks_of b k"
  by (auto simp: blocks_of_def note_client_version_def row_of_upd split: option.splits)

lemma blocks_credit:
  "(case row_of c_pubkey k (credit now body adm m cs) of None \<Rightarrow> 0 | Some c \<Rightarrow> c_blocks c) =
   (case row_of c_pubkey k cs of None \<Rightarrow> 0 | Some c \<Rightarrow> c_blocks c)
   + (if k = su_pubkey body then proved_hi (ad_row adm) m - proved_lo (ad_row adm) m + 1 else 0)"
proof -
  let ?c = "new_contributor (su_pubkey body) (Some (ad_handle adm)) now"
  have c: "c_pubkey ?c = su_pubkey body" "c_blocks ?c = 0" by (simp_all add: new_contributor_def)
  show ?thesis
  proof (cases "k = su_pubkey body")
    case True
    then show ?thesis
      using row_of_ins_ignore [of c_pubkey ?c cs] c
      by (auto simp: credit_def row_of_upd dest: row_of_Some split: option.splits)
  next
    case False
    with c ins_ignore_other [of k c_pubkey ?c cs] show ?thesis
      by (cases "row_of c_pubkey k cs") (auto simp: credit_def row_of_upd dest: row_of_Some)
  qed
qed

lemma blocks_accept:
  "blocks_of (accept_proof now d sha body adm m b) k = blocks_of b k
     + (if k = su_pubkey body then proved_hi (ad_row adm) m - proved_lo (ad_row adm) m + 1 else 0)"
proof -
  let ?b = "b\<lparr>ranges := upd_where (\<lambda>r. r_id r = su_range body) (verified_row sha now) (ranges b)\<rparr>"
  let ?b2 = "?b\<lparr>vranges := put_row v_id (vrange_of now body adm m) (vranges ?b)\<rparr>"
  have "blocks_of (accept_proof now d sha body adm m b) k
      = blocks_of (?b2\<lparr>contributors := credit now body adm m (contributors ?b2)\<rparr>) k"
    unfolding accept_proof_def Let_def blocks_of_def mark_proven_simps
    using blocks_note [of now "su_pubkey body" "su_version body" "?b2\<lparr>contributors := credit now body adm m (contributors ?b2)\<rparr>" k]
    by (simp add: blocks_of_def)
  also have "\<dots> = blocks_of b k + (if k = su_pubkey body then proved_hi (ad_row adm) m - proved_lo (ad_row adm) m + 1 else 0)"
    using blocks_credit [of k now body adm m "contributors b"] by (simp add: blocks_of_def)
  finally show ?thesis .
qed

text \<open>A hold depends on the proofs and the sponsorship tables only.\<close>

lemma hold_refusal_cong:
  assumes "vranges b' = vranges b" "sponsorships b' = sponsorships b" "sponsor_keys b' = sponsor_keys b"
  shows "hold_refusal b' lo hi pk = hold_refusal b lo hi pk"
proof -
  have p: "is_proven b' = is_proven b" by (simp add: fun_eq_iff is_proven_def assms(1))
  have k: "key_of_sponsorship b' = key_of_sponsorship b" by (simp add: fun_eq_iff key_of_sponsorship_def assms(3))
  have "hold_loop b' lo hi pk ss = hold_loop b lo hi pk ss" for ss
    by (induction ss) (simp_all add: p k split: option.split)
  then show ?thesis by (simp add: hold_refusal_def sponsor_holds_def assms(2))
qed

lemma b64encode_ne: "s \<noteq> [] \<Longrightarrow> b64encode s \<noteq> []"
  by (cases s rule: b64encode.cases) auto

text \<open>A single block passes every check that comes before the signature.\<close>

lemma submit_check_single:
  assumes "su_range body = int_str n" "1 \<le> n" "n < chain_tip cfg w" "su_receipt body = b64encode receipt" "receipt \<noteq> []"
    and "su_pubkey body \<noteq> []" "\<not> handle_refused cfg b (submit_handle cfg body b) (Some (su_pubkey body))"
    and "HAVE_ED cfg \<longrightarrow> is_hex (su_pubkey body) 32 \<and> is_hex (su_sig body) 64"
    and "int (length (su_receipt body)) \<le> MAX_BODY cfg"
  shows "submit_check cfg w body b = Inr (n, n, receipt)"
proof -
  have c: "canonical_range_id n n = int_str n" by (simp add: canonical_range_id_def)
  have p: "parse_any_range (chain_tip cfg w) (int_str n) = Some (n, n)"
    using parse_canonical [of n n "chain_tip cfg w"] assms(2,3) by (simp add: c)
  have ne: "int_str n \<noteq> []" by (simp add: int_str_def)
  have "genesis_refusal n n ''Submit'' = None" using assms(2) by (simp add: genesis_refusal_def)
  moreover have "range_id_refusal (int_str n) n n = None" by (simp add: refusal_None_iff c)
  moreover have "wide_refusal b n n = None" by (simp add: wide_refusal_def)
  ultimately show ?thesis
    using assms(6-9) p ne b64encode_ne [OF assms(5)]
    by (auto simp: submit_check_def Let_def assms(1,4) b64_inverse)
qed

section \<open>Properties\<close>

text \<open>
  Claim C32. What a commit writes. The submission is always recorded and the cached frontier dropped. A
  verified receipt marks exactly its own row, stores exactly its own proof under the id, credits the key
  with the width proved and ends the fold claim on the id; a refused one changes no proof, no credit and
  no hold, and no row's status other than to \<open>failed\<close>.
\<close>

theorem submit_commit_exact:
  assumes "submit_commit cfg w d body adm (sig_ok, rcpt_ok, nt, m) sv = (Inr rep, sv')"
    and "row_of r_id (su_range body) (ranges (sv_board sv)) = Some r"
  shows "let b = sv_board sv; b' = sv_board sv'; rid = su_range body; sha = w_sha256 w (ad_receipt adm) in
    rp_ok rep = (sig_ok \<and> rcpt_ok) \<and> sv_cache sv' = None
    \<and> submissions b' = submissions b @ [submission_of (w_now w) sha body adm (rp_ok rep) nt]
    \<and> (if rp_ok rep then
         row_of r_id rid (ranges b') = Some (verified_row sha (w_now w) r)
         \<and> row_of v_id rid (vranges b') = Some (vrange_of (w_now w) body adm (the m))
         \<and> (d \<longrightarrow> proofs b' rid = Some (ad_receipt adm))
         \<and> (\<forall>k. k \<noteq> rid \<longrightarrow> row_of r_id k (ranges b') = row_of r_id k (ranges b)
              \<and> row_of v_id k (vranges b') = row_of v_id k (vranges b) \<and> proofs b' k = proofs b k)
         \<and> (\<forall>pk. blocks_of b' pk = blocks_of b pk + (if pk = su_pubkey body
              then proved_hi (ad_row adm) (the m) - proved_lo (ad_row adm) (the m) + 1 else 0))
         \<and> rid \<notin> fst ` set (sv_folds sv')
       else vranges b' = vranges b \<and> proofs b' = proofs b \<and> contributors b' = contributors b
         \<and> sponsorships b' = sponsorships b \<and> sv_folds sv' = sv_folds sv
         \<and> list_all2 (\<lambda>x y. r_id y = r_id x \<and> (r_status y = r_status x \<or> r_status x \<noteq> Verified \<and> r_status y = Failed))
             (ranges b) (ranges b'))"
proof -
  let ?b = "sv_board sv" and ?rid = "su_range body" and ?sha = "w_sha256 w (ad_receipt adm)"
  have rep: "rp_ok rep = (sig_ok \<and> rcpt_ok)" "sv_cache sv' = None"
      "sv_folds sv' = (if rp_ok rep then release_fold_claim ?rid (sv_folds sv) else sv_folds sv)"
    using submit_commit_Inr [OF assms(1)] by blast+
  show ?thesis
  proof (cases "rp_ok rep")
    case True
    note b' = submit_commit_board(1) [OF assms(1) True]
    have other: "row_of r_id k (upd_where (\<lambda>r. r_id r = ?rid) (verified_row ?sha (w_now w)) (ranges ?b)) = row_of r_id k (ranges ?b)"
      if "k \<noteq> ?rid" for k
      using that by (cases "row_of r_id k (ranges ?b)") (auto simp: row_of_upd dest: row_of_Some)
    have own: "row_of r_id ?rid (upd_where (\<lambda>r. r_id r = ?rid) (verified_row ?sha (w_now w)) (ranges ?b))
        = Some (verified_row ?sha (w_now w) r)"
      using assms(2) row_of_Some [OF assms(2)] by (simp add: row_of_upd)
    have bl: "blocks_of (sv_board sv') pk = blocks_of ?b pk + (if pk = su_pubkey body
              then proved_hi (ad_row adm) (the m) - proved_lo (ad_row adm) (the m) + 1 else 0)" for pk
      unfolding b' blocks_accept by simp
    have "?rid \<notin> fst ` set (sv_folds sv')" using rep(3) True by (auto simp: release_fold_claim_def)
    with True bl other own show ?thesis
      unfolding Let_def b' rep(1) [symmetric] rep(2) by (simp add: accept_proof_tables row_of_put)
  next
    case False
    note b' = submit_commit_board(2) [OF assms(1) False]
    obtain br rows where rf: "record_submission_failure cfg (w_now w) ?rid nt (ranges ?b) = (br, rows)" by fastforce
    from failure_keeps [OF rf] have "list_all2 (\<lambda>x y. r_id y = r_id x \<and> (r_status y = r_status x
        \<or> r_status x \<noteq> Verified \<and> r_status y = Failed)) (ranges ?b) rows"
      by (rule list_all2_mono) (auto simp: row_kept_def)
    moreover have "blocks_of (B\<lparr>ranges := rows\<rparr>) = blocks_of B" for B by (simp add: blocks_of_def fun_eq_iff)
    ultimately show ?thesis
      unfolding Let_def b' rep(1) [symmetric] rep(2,3) by (simp add: rf False)
  qed
qed

definition submit_of :: "range_id \<Rightarrow> string \<Rightarrow> submit_body" where
  "submit_of rid receipt = \<lparr> su_range = rid, su_pubkey = ''ab'', su_sig = ''cd'', su_receipt = b64encode receipt,
     su_handle = ''ann'', su_version = Some ''1'' \<rparr>"

definition fresh_server :: server where
  "fresh_server = \<lparr> sv_board = empty_board, sv_cache = None, sv_folds = [] \<rparr>"

definition row_seven :: admitted where
  "row_seven = \<lparr> ad_row = new_range ''7'' 7 7, ad_receipt = ''ok'', ad_handle = ''ann'' \<rparr>"

definition server_seven :: server where
  "server_seven = fresh_server\<lparr>sv_board := empty_board\<lparr>ranges := [new_range ''7'' 7 7]\<rparr>\<rparr>"

definition commit_seven :: "(submit_error + submit_reply) \<times> server" where
  "commit_seven = submit_commit rotate_config example_world True (submit_of ''7'' ''ok'') row_seven
     (True, verify_receipt rotate_config good_host ''ok'' (7, 7)) server_seven"

lemma commit_seven_ok: "\<exists>rep. fst commit_seven = Inr rep \<and> rp_ok rep"
proof -
  have "map_sum (\<lambda>_. ()) rp_ok (fst commit_seven) = Inr True" by code_simp
  then show ?thesis by (cases "fst commit_seven") auto
qed

theorem submit_commit_exact_witness:
  "blocks_of (sv_board (snd commit_seven)) ''ab'' = 1 \<and> proofs (sv_board (snd commit_seven)) ''7'' = Some ''ok''"
proof -
  obtain rep where r: "fst commit_seven = Inr rep" "rp_ok rep" using commit_seven_ok by blast
  obtain ok2 nt m where v: "verify_receipt rotate_config good_host ''ok'' (7, 7) = (ok2, nt, m)" by (metis prod.collapse)
  have mm: "map_option (\<lambda>m. (rm_lo m, rm_hi m)) (snd (snd (verify_receipt rotate_config good_host ''ok'' (7, 7)))) = Some (Some 7, Some 7)"
    by code_simp
  have run: "submit_commit rotate_config example_world True (submit_of ''7'' ''ok'') row_seven (True, ok2, nt, m) server_seven
      = (Inr rep, snd commit_seven)"
    using r(1) unfolding commit_seven_def v by (metis prod.collapse)
  have row: "row_of r_id (su_range (submit_of ''7'' ''ok'')) (ranges (sv_board server_seven)) = Some (new_range ''7'' 7 7)"
    by (simp add: server_seven_def submit_of_def row_of_single)
  from mm obtain mt where "m = Some mt" "rm_lo mt = Some 7" "rm_hi mt = Some 7" by (auto simp: v)
  with submit_commit_exact [OF run row] r(2) show ?thesis
    by (simp add: Let_def submit_of_def row_seven_def proved_lo_def proved_hi_def server_seven_def blocks_of_def row_of_def)
qed

text \<open>
  Two submissions of the same range are credited once. Once one of them is committed, a second one
  that was admitted before is refused when it commits and changes nothing, and a later one is refused before
  the verification and told who proved the range.
\<close>

theorem submit_credited_once:
  assumes "submit_commit cfg w d body adm vd sv = (Inr rep, sv1)" and "rp_ok rep"
    and "row_of r_id (su_range body) (ranges (sv_board sv)) = Some r"
    and "su_range late = su_range body"
  shows "submit_commit cfg w2 d2 late adm2 vd2 sv1 = (Inl S_RaceLost, sv1)
    \<and> (submit_check cfg w2 late (sv_board sv1) = Inr (lo, hi, receipt) \<longrightarrow>
        (\<exists>r1 nt. submit_admit cfg w2 blk late (sv_board sv1) = (Inl (already_proven_body blk (sv_board sv1) r1), sv_board sv1)
           \<and> already_proven_body blk (sv_board sv1) r1 = S_AlreadyProven nt
               (Some (if lower (su_pubkey body) \<in> set blk then ''[removed]'' else ad_handle adm))))"
proof -
  obtain sig_ok rcpt_ok nt m where vd: "vd = (sig_ok, rcpt_ok, nt, m)" by (cases vd) auto
  let ?sha = "w_sha256 w (ad_receipt adm)"
  note b1 = submit_commit_board(1) [OF assms(1) [unfolded vd] assms(2)]
  have row: "row_of r_id (su_range body) (ranges (sv_board sv1)) = Some (verified_row ?sha (w_now w) r)"
    using assms(3) row_of_Some [OF assms(3)] by (simp add: b1 accept_proof_tables row_of_upd)
  have v: "row_of v_id (su_range body) (vranges (sv_board sv1)) = Some (vrange_of (w_now w) body adm (the m))"
    by (simp add: b1 accept_proof_tables row_of_put)
  have rid: "r_id r = su_range body" using row_of_Some [OF assms(3)] by simp
  have who: "proven_by blk (sv_board sv1) (su_range body) =
      Some (if lower (su_pubkey body) \<in> set blk then ''[removed]'' else ad_handle adm)"
    unfolding proven_by_def v by (simp add: vrange_of_def or_empty_def)
  have "opened late lo hi (sv_board sv1) = sv_board sv1" by (simp add: opened_def assms(4) row)
  then have admit: "submit_admit cfg w2 blk late (sv_board sv1)
      = (Inl (already_proven_body blk (sv_board sv1) (verified_row ?sha (w_now w) r)), sv_board sv1)"
    if "submit_check cfg w2 late (sv_board sv1) = Inr (lo, hi, receipt)"
    unfolding submit_admit_eq that using assms(4) row by (simp add: Let_def)
  have race: "submit_commit cfg w2 d2 late adm2 vd2 sv1 = (Inl S_RaceLost, sv1)"
    using row assms(4) by (cases vd2) (simp add: submit_commit_def Let_def)
  obtain msg where "already_proven_body blk (sv_board sv1) (verified_row ?sha (w_now w) r)
      = S_AlreadyProven msg (Some (if lower (su_pubkey body) \<in> set blk then ''[removed]'' else ad_handle adm))"
    unfolding already_proven_body_def Let_def verified_row_simps rid who by blast
  with admit race show ?thesis by blast
qed

theorem submit_credited_once_witness:
  "fst (submit_commit rotate_config example_world True (submit_of ''7'' ''ok'') row_seven (True, True, [], None) (snd commit_seven))
     = Inl S_RaceLost"
proof -
  obtain rep where r: "fst commit_seven = Inr rep" "rp_ok rep" using commit_seven_ok by blast
  have run: "submit_commit rotate_config example_world True (submit_of ''7'' ''ok'') row_seven
      (True, verify_receipt rotate_config good_host ''ok'' (7, 7)) server_seven = (Inr rep, snd commit_seven)"
    using r(1) unfolding commit_seven_def by (metis prod.collapse)
  have row: "row_of r_id (su_range (submit_of ''7'' ''ok'')) (ranges (sv_board server_seven)) = Some (new_range ''7'' 7 7)"
    by (simp add: server_seven_def submit_of_def row_of_single)
  from submit_credited_once [OF run r(2) row, of "submit_of ''7'' ''ok''"] show ?thesis by simp
qed

text \<open>
  Claim C25. An honest proof gets in. When the verifier accepts the receipt for block \<open>n\<close>, the signature is
  good, the block lies in the served range, is not held for someone else and has no proof under its id yet,
  then the handler answers with success, the block is covered, its row is verified and its proof is stored.
\<close>

theorem submit_accepts_valid:
  assumes "su_range body = int_str n" and "1 \<le> n" and "n < chain_tip cfg w"
    and "su_receipt body = b64encode receipt" and "receipt \<noteq> []" and "su_pubkey body \<noteq> []"
    and "\<not> handle_refused cfg (sv_board sv) (submit_handle cfg body (sv_board sv)) (Some (su_pubkey body))"
    and "HAVE_ED cfg \<longrightarrow> is_hex (su_pubkey body) 32 \<and> is_hex (su_sig body) 64"
    and "int (length (su_receipt body)) \<le> MAX_BODY cfg"
    and "verify_sig cfg w (su_pubkey body) (su_sig body) receipt"
    and "verify_receipt cfg verify_any receipt (n, n) = (True, nt, Some m)"
    and "\<And>r. row_of r_id (int_str n) (ranges (sv_board sv)) = Some r \<Longrightarrow> r_status r \<noteq> Verified \<and> r_lo r = n \<and> r_hi r = n"
    and "hold_refusal (sv_board sv) n n (su_pubkey body) = None" and "\<not> VERIFY_MOCK cfg"
  shows "\<exists>rep sv'. submit cfg w blk verify_any True body sv = (Inr rep, sv') \<and> rp_ok rep \<and> n \<in> covered (sv_board sv')
    \<and> map_option r_status (row_of r_id (int_str n) (ranges (sv_board sv'))) = Some Verified
    \<and> proofs (sv_board sv') (int_str n) = Some receipt"
proof -
  let ?b = "sv_board sv"
  let ?b1 = "opened body n n ?b"
  let ?r = "case row_of r_id (int_str n) (ranges ?b) of None \<Rightarrow> new_range (int_str n) n n | Some r \<Rightarrow> r"
  let ?adm = "\<lparr> ad_row = ?r, ad_receipt = receipt, ad_handle = submit_handle cfg body ?b \<rparr>"
  have r: "r_status ?r \<noteq> Verified" "r_lo ?r = n" "r_hi ?r = n" using assms(12) by (auto split: option.split)
  have hold: "hold_refusal ?b1 n n (su_pubkey body) = None"
    using assms(13) by (subst hold_refusal_cong [of ?b1 ?b]) simp_all
  note check = submit_check_single [OF assms(1-9)]
  have admit: "submit_admit cfg w blk body ?b = (Inr ?adm, ?b1)"
    unfolding submit_admit_eq check assms(1) using r hold by (simp add: Let_def)
  have vd: "submit_verify cfg w verify_any body ?adm = (True, True, nt, Some m)"
    using assms(10,11) r by (simp add: submit_verify_def)
  have row: "row_of r_id (su_range body) (ranges ?b1) = Some ?r"
    using row_of_opened [of body n n ?b] by (simp only: assms(1))
  let ?sv1 = "sv\<lparr>sv_board := ?b1\<rparr>"
  obtain rep sv' where run: "submit_commit cfg w True body ?adm (True, True, nt, Some m) ?sv1 = (Inr rep, sv')"
    using row r hold by (simp add: submit_commit_def Let_def)
  from submit_commit_Inr [OF run] have ok: "rp_ok rep" by blast
  note b' = submit_commit_board(1) [OF run ok]
  have m: "rm_lo m = Some n" "rm_hi m = Some n" using verdict_bounds [OF assms(11,2)] assms(14) by auto
  have "submit cfg w blk verify_any True body sv = (Inr rep, sv')"
    unfolding submit_def admit using vd run by simp
  moreover have "n \<in> covered (sv_board sv')"
    using m by (auto simp: b' accept_proof_tables covered_def set_put_row v_span_def proved_lo_def proved_hi_def)
  moreover have "map_option r_status (row_of r_id (int_str n) (ranges (sv_board sv'))) = Some Verified"
    using row row_of_Some [OF row] by (simp add: b' accept_proof_tables row_of_upd assms(1))
  moreover have "proofs (sv_board sv') (int_str n) = Some receipt" by (simp add: b' accept_proof_tables assms(1))
  ultimately show ?thesis using ok by blast
qed

theorem submit_accepts_valid_witness:
  "\<exists>rep sv'. submit rotate_config example_world [] good_host True (submit_of ''7'' ''ok'') fresh_server = (Inr rep, sv')
     \<and> rp_ok rep \<and> (7 :: int) \<in> covered (sv_board sv')"
proof -
  have seven: "int_str 7 = ''7''" by code_simp
  have v: "verify_receipt rotate_config good_host ''ok'' (7, 7) =
    (True, ''range [7..7] VERIFIED'', Some \<lparr> rm_lo = Some 7, rm_hi = Some 7, rm_in_tip = ''aa'', rm_out_tip = ''bb'',
       rm_out_leaves = 3, rm_range_work = ''9'', rm_in_bhash = ''cc'', rm_out_bhash = ''dd'', rm_anchored = False \<rparr>)"
    by code_simp
  have h: "\<not> handle_refused rotate_config empty_board (submit_handle rotate_config (submit_of ''7'' ''ok'') empty_board) (Some ''ab'')"
    "hold_refusal empty_board 7 7 ''ab'' = None" by code_simp+
  have l: "length (b64encode ''ok'') = 4" by code_simp
  have c: "\<not> HAVE_ED rotate_config" "\<not> VERIFY_MOCK rotate_config" "MAX_BODY rotate_config = 8388608" "TIP_FLOOR rotate_config = 958301"
    "verify_sig rotate_config example_world pk sig msg" for pk sig msg
    by (simp_all add: rotate_config_def verify_sig_def)
  have tip: "7 < chain_tip rotate_config example_world" using chain_tip_floor [of rotate_config example_world] c(4) by simp
  show ?thesis
    using submit_accepts_valid [of "submit_of ''7'' ''ok''" 7 rotate_config example_world "''ok''" fresh_server good_host, OF _ _ tip _ _ _ _ _ _ _ v]
      h l c seven by (simp add: submit_of_def fresh_server_def row_of_def) blast
qed

text \<open>
  Claim C33. A refusal keeps the board. Whatever a submission is refused for, before or after the
  verification, no proof, credit, recorded submission, hold or fold claim changes; at most an open row
  for a well-formed range the board had none for is added.
\<close>

theorem submit_refusal_keeps:
  assumes "submit cfg w blk verify_any d body sv = (Inl e, sv')"
  shows "let b = sv_board sv; b' = sv_board sv' in
    vranges b' = vranges b \<and> proofs b' = proofs b \<and> contributors b' = contributors b \<and> submissions b' = submissions b
    \<and> sponsorships b' = sponsorships b \<and> sv_folds sv' = sv_folds sv \<and> sv_cache sv' = sv_cache sv
    \<and> (ranges b' = ranges b
       \<or> (\<exists>lo hi. parse_any_range (chain_tip cfg w) (su_range body) = Some (lo, hi) \<and> 1 \<le> lo
            \<and> su_range body = canonical_range_id lo hi \<and> row_of r_id (su_range body) (ranges b) = None
            \<and> ranges b' = ranges b @ [new_range (su_range body) lo hi]))"
proof -
  obtain res b1 where adm: "submit_admit cfg w blk body (sv_board sv) = (res, b1)" by fastforce
  have "sv' = sv\<lparr>sv_board := b1\<rparr>"
    using assms submit_commit_Inl unfolding submit_def adm by (cases res) auto
  then have sv': "sv_board sv' = b1" "sv_folds sv' = sv_folds sv" "sv_cache sv' = sv_cache sv" by simp_all
  from submit_admit_board [OF adm] consider (same) "b1 = sv_board sv"
    | (row) lo hi where "parse_any_range (chain_tip cfg w) (su_range body) = Some (lo, hi)" "1 \<le> lo"
        "su_range body = canonical_range_id lo hi" "b1 = opened body lo hi (sv_board sv)"
    using submit_check_Inr by metis
  then show ?thesis
  proof cases
    case same
    with sv' show ?thesis by (simp add: Let_def)
  next
    case row
    then have "ranges b1 = ranges (sv_board sv) \<or> row_of r_id (su_range body) (ranges (sv_board sv)) = None
        \<and> ranges b1 = ranges (sv_board sv) @ [new_range (su_range body) lo hi]"
      by (simp add: opened_def)
    with row(1-3) sv' show ?thesis unfolding Let_def row(4) by auto
  qed
qed

theorem submit_refusal_keeps_witness:
  "fst (submit rotate_config example_world [] good_host True (submit_of ''07'' ''ok'') fresh_server) = Inl (S_Spelling ''7'')
   \<and> proofs (sv_board (snd (submit rotate_config example_world [] good_host True (submit_of ''07'' ''ok'') fresh_server))) ''7'' = None"
proof -
  let ?r = "submit rotate_config example_world [] good_host True (submit_of ''07'' ''ok'') fresh_server"
  have e: "fst ?r = Inl (S_Spelling ''7'')" by code_simp
  then have "?r = (Inl (S_Spelling ''7''), snd ?r)" by (metis prod.collapse)
  from submit_refusal_keeps [OF this] e show ?thesis by (simp add: Let_def fresh_server_def)
qed

end
