(* ===== verification/Ledger.thy ===== *)
theory Ledger
  imports Submit
begin

text \<open>
  The coordinator as a transition system: any number of submissions may be in flight between their two
  locked parts, interleaved with claims, beats, rotations and fold claims (\<open>coordinator/server.py\<close>:
  \<open>submit\<close>, \<open>claim\<close>, \<open>beat\<close>, \<open>rotate\<close>, \<open>fold_claim\<close>). Every step may read its own clock, directories and
  moderation list. \<open>traffic\<close> is the part of these steps that leaves a block in the hands of the worker it was given to. The invariant says that ids and spans of rows agree, that every verified row is backed by
  a proof of its span, and that every covered block has a proof of its own, which is what the rule that only
  a single block may introduce coverage is for.
\<close>

section \<open>The system\<close>

record system =
  sy_server :: server
  sy_flight :: "(submit_body \<times> admitted) list"

definition with_board :: "server \<Rightarrow> board \<Rightarrow> server" where
  "with_board sv b = sv\<lparr>sv_board := b\<rparr>"

inductive sys_step :: "config \<Rightarrow> (string \<Rightarrow> host_result) \<Rightarrow> system \<Rightarrow> system \<Rightarrow> bool"
  for cfg :: config and verify_any :: "string \<Rightarrow> host_result" where
  admit: "submit_admit cfg w blk body (sv_board sv) = (res, b) \<Longrightarrow>
    sys_step cfg verify_any \<lparr> sy_server = sv, sy_flight = fl \<rparr>
      \<lparr> sy_server = with_board sv b, sy_flight = (case res of Inl e \<Rightarrow> fl | Inr adm \<Rightarrow> (body, adm) # fl) \<rparr>"
| commit: "(body, adm) \<in> set fl \<Longrightarrow> submit_commit cfg w d body adm (submit_verify cfg w' verify_any body adm) sv = (res, sv') \<Longrightarrow>
    sys_step cfg verify_any \<lparr> sy_server = sv, sy_flight = fl \<rparr> \<lparr> sy_server = sv', sy_flight = remove1 (body, adm) fl \<rparr>"
| claim: "claim cfg w snap cbody (sv_board sv) = (res, b) \<Longrightarrow>
    sys_step cfg verify_any \<lparr> sy_server = sv, sy_flight = fl \<rparr> \<lparr> sy_server = with_board sv b, sy_flight = fl \<rparr>"
| beat: "beat cfg w bbody (sv_board sv) = (res, b) \<Longrightarrow>
    sys_step cfg verify_any \<lparr> sy_server = sv, sy_flight = fl \<rparr> \<lparr> sy_server = with_board sv b, sy_flight = fl \<rparr>"
| rotate: "rotate cfg w blk rbody (sv_board sv) = (res, b) \<Longrightarrow>
    sys_step cfg verify_any \<lparr> sy_server = sv, sy_flight = fl \<rparr> \<lparr> sy_server = with_board sv b, sy_flight = fl \<rparr>"
| fold: "fold_claim_req cfg w cache fbody (sv_board sv) (sv_folds sv) = (res, fcs) \<Longrightarrow>
    sys_step cfg verify_any \<lparr> sy_server = sv, sy_flight = fl \<rparr> \<lparr> sy_server = sv\<lparr>sv_folds := fcs\<rparr>, sy_flight = fl \<rparr>"

text \<open>The start: the database \<open>init_db\<close> has just created, nothing cached and nothing in flight.\<close>

definition sys_init :: "config \<Rightarrow> system \<Rightarrow> bool" where
  "sys_init cfg s \<longleftrightarrow> 1 < RANGE_SIZE cfg \<and>
     s = \<lparr> sy_server = \<lparr> sv_board = init_db cfg empty_board, sv_cache = None, sv_folds = [] \<rparr>, sy_flight = [] \<rparr>"

section \<open>The invariant\<close>

definition rows_sound :: "board \<Rightarrow> bool" where
  "rows_sound b \<longleftrightarrow> distinct (map r_id (ranges b)) \<and>
     (\<forall>r \<in> set (ranges b). 0 \<le> r_lo r \<and> r_lo r \<le> r_hi r \<and> r_id r = canonical_range_id (r_lo r) (r_hi r))"

definition proofs_sound :: "board \<Rightarrow> bool" where
  "proofs_sound b \<longleftrightarrow> distinct (map v_id (vranges b)) \<and>
     (\<forall>v \<in> set (vranges b). 1 \<le> v_lo v \<and> v_lo v \<le> v_hi v \<and> v_id v = canonical_range_id (v_lo v) (v_hi v))"

definition own_proofs :: "board \<Rightarrow> bool" where
  "own_proofs b \<longleftrightarrow> (\<forall>n \<in> covered b. \<exists>u \<in> set (vranges b). v_lo u = n \<and> v_hi u = n)"

definition verified_backed :: "board \<Rightarrow> bool" where
  "verified_backed b \<longleftrightarrow> (\<forall>r \<in> set (ranges b). r_status r = Verified \<longrightarrow>
     (\<exists>v \<in> set (vranges b). v_lo v = r_lo r \<and> v_hi v = r_hi r))"

definition board_sound :: "board \<Rightarrow> bool" where
  "board_sound b \<longleftrightarrow> rows_sound b \<and> proofs_sound b \<and> own_proofs b \<and> verified_backed b"

definition flight_ok :: "board \<Rightarrow> submit_body \<times> admitted \<Rightarrow> bool" where
  "flight_ok b p \<longleftrightarrow> (let (body, adm) = p; r = ad_row adm in
     su_range body = canonical_range_id (r_lo r) (r_hi r) \<and> 1 \<le> r_lo r \<and> r_lo r \<le> r_hi r
     \<and> (r_lo r < r_hi r \<longrightarrow> {r_lo r..r_hi r} \<subseteq> covered b))"

definition sys_sound :: "system \<Rightarrow> bool" where
  "sys_sound s \<longleftrightarrow> board_sound (sv_board (sy_server s))
     \<and> (\<forall>p \<in> set (sy_flight s). flight_ok (sv_board (sy_server s)) p)"

section \<open>Lemmas\<close>

lemma board_sound_cong:
  "ranges b' = ranges b \<Longrightarrow> vranges b' = vranges b \<Longrightarrow> board_sound b' = board_sound b"
  by (simp add: board_sound_def rows_sound_def proofs_sound_def own_proofs_def verified_backed_def covered_def)

lemma covered_cong: "vranges b' = vranges b \<Longrightarrow> covered b' = covered b"
  by (simp add: covered_def)

lemma flight_mono: "flight_ok b p \<Longrightarrow> covered b \<subseteq> covered b' \<Longrightarrow> flight_ok b' p"
  by (auto simp: flight_ok_def Let_def split: prod.splits)

text \<open>The rows may change as long as ids and spans stay and no row turns verified.\<close>

lemma sound_rows_kept:
  assumes "board_sound b" "vranges b' = vranges b"
    and "list_all2 (\<lambda>x y. r_id y = r_id x \<and> r_lo y = r_lo x \<and> r_hi y = r_hi x \<and> (r_status y = Verified \<longrightarrow> r_status x = Verified))
      (ranges b) (ranges b')"
  shows "board_sound b'"
proof -
  have ids: "map r_id (ranges b') = map r_id (ranges b)"
    using assms(3) by (auto simp: list_all2_conv_all_nth intro: nth_equalityI)
  have k: "\<exists>x \<in> set (ranges b). r_id y = r_id x \<and> r_lo y = r_lo x \<and> r_hi y = r_hi x \<and> (r_status y = Verified \<longrightarrow> r_status x = Verified)"
    if "y \<in> set (ranges b')" for y
  proof -
    from that obtain i where i: "i < length (ranges b')" "y = ranges b' ! i" by (auto simp: in_set_conv_nth)
    with assms(3) show ?thesis by (intro bexI [of _ "ranges b ! i"]) (auto simp: list_all2_conv_all_nth)
  qed
  have "rows_sound b'"
    using assms(1) k unfolding board_sound_def rows_sound_def ids by metis
  moreover have "verified_backed b'"
    using assms(1) k unfolding board_sound_def verified_backed_def assms(2) by metis
  ultimately show ?thesis
    using assms(1) by (simp add: board_sound_def proofs_sound_def own_proofs_def covered_def assms(2))
qed

lemma put_row_append: "row_of key (key r) t = None \<Longrightarrow> put_row key r t = t @ [r]"
proof -
  assume "row_of key (key r) t = None"
  then have "\<forall>x \<in> set t. key x \<noteq> key r" by (metis row_of_None imageI)
  then show ?thesis unfolding put_row_def by (simp only: filter_True)
qed

lemma sound_put_row:
  assumes "board_sound b" "0 \<le> r_lo r" "r_lo r \<le> r_hi r" "r_id r = canonical_range_id (r_lo r) (r_hi r)" "r_status r \<noteq> Verified"
    and "ranges b' = put_row r_id r (ranges b)" "vranges b' = vranges b"
  shows "board_sound b'"
  using assms distinct_put_row [of r_id "ranges b" r]
  by (auto simp: board_sound_def rows_sound_def proofs_sound_def own_proofs_def verified_backed_def covered_def set_put_row)

text \<open>Two sound proofs with one id are proofs of one span.\<close>

lemma same_id_same_span:
  assumes "proofs_sound b" "u \<in> set (vranges b)" "v_id u = canonical_range_id lo hi" "1 \<le> lo" "lo \<le> hi"
  shows "v_lo u = lo \<and> v_hi u = hi"
proof -
  from assms(1,2) have u: "1 \<le> v_lo u" "v_lo u \<le> v_hi u" "v_id u = canonical_range_id (v_lo u) (v_hi u)"
    by (auto simp: proofs_sound_def)
  show ?thesis by (rule canonical_inj) (use u assms(3-5) in auto)
qed

lemma sound_accept:
  assumes b: "board_sound b" and v: "1 \<le> v_lo v" "v_lo v \<le> v_hi v" "v_id v = canonical_range_id (v_lo v) (v_hi v)"
    and fold: "v_lo v < v_hi v \<Longrightarrow> v_span v \<subseteq> covered b"
    and b': "ranges b' = upd_where (\<lambda>r. r_id r = v_id v) (verified_row sha now) (ranges b)"
      "vranges b' = put_row v_id v (vranges b)"
  shows "board_sound b' \<and> covered b' = covered b \<union> v_span v"
proof -
  from b have ps: "proofs_sound b" "distinct (map v_id (vranges b))" and rs: "rows_sound b" and own: "own_proofs b"
      and vb: "verified_backed b"
    by (auto simp: board_sound_def proofs_sound_def)
  have same: "v_lo x = v_lo v \<and> v_hi x = v_hi v" if "x \<in> set (vranges b)" "v_id x = v_id v" for x
    using same_id_same_span [OF ps(1) that(1)] that(2) v by simp
  have set': "set (vranges b') = insert v {x \<in> set (vranges b). v_id x \<noteq> v_id v}" by (simp add: b'(2) set_put_row)
  have cov: "covered b' = covered b \<union> v_span v"
    unfolding covered_def b'(2) by (rule vrange_table.cover_put [OF ps(2)]) (simp add: v_span_def same)
  have keep: "\<exists>u \<in> set (vranges b'). v_lo u = v_lo x \<and> v_hi u = v_hi x" if "x \<in> set (vranges b)" for x
    using that same [OF that] set' by (cases "v_id x = v_id v") auto
  have "rows_sound b'"
  proof -
    have "map r_id (ranges b') = map r_id (ranges b)" unfolding b'(1) by (rule map_key_upd) simp
    moreover have "\<exists>x \<in> set (ranges b). r_lo r = r_lo x \<and> r_hi r = r_hi x \<and> r_id r = r_id x" if "r \<in> set (ranges b')" for r
      using that by (auto simp: b'(1) upd_where_def split: if_splits)
    ultimately show ?thesis using rs unfolding rows_sound_def by metis
  qed
  moreover have "proofs_sound b'"
    using ps v distinct_put_row [OF ps(2), of v] unfolding proofs_sound_def set' by (auto simp: b'(2))
  moreover have "own_proofs b'"
    unfolding own_proofs_def cov
  proof
    fix n assume n: "n \<in> covered b \<union> v_span v"
    show "\<exists>u \<in> set (vranges b'). v_lo u = n \<and> v_hi u = n"
    proof (cases "n \<in> covered b")
      case True
      with own obtain x where "x \<in> set (vranges b)" "v_lo x = n" "v_hi x = n" by (auto simp: own_proofs_def)
      with keep show ?thesis by metis
    next
      case False
      with n fold have "v_lo v = n \<and> v_hi v = n" using v(2) by (cases "v_lo v < v_hi v") (auto simp: v_span_def)
      then show ?thesis by (auto simp: set')
    qed
  qed
  moreover have "verified_backed b'"
    unfolding verified_backed_def
  proof (intro ballI impI)
    fix r assume r: "r \<in> set (ranges b')" "r_status r = Verified"
    then obtain x where x: "x \<in> set (ranges b)" "r = (if r_id x = v_id v then verified_row sha now x else x)"
      by (auto simp: b'(1) upd_where_def)
    then have xs: "0 \<le> r_lo x" "r_lo x \<le> r_hi x" "r_id x = canonical_range_id (r_lo x) (r_hi x)"
      using rs by (auto simp: rows_sound_def)
    show "\<exists>u \<in> set (vranges b'). v_lo u = r_lo r \<and> v_hi u = r_hi r"
    proof (cases "r_id x = v_id v")
      case True
      have "r_lo x = v_lo v \<and> r_hi x = v_hi v"
        by (rule canonical_inj) (use xs v True in auto)
      with True x(2) show ?thesis by (auto simp: set')
    next
      case False
      with r x vb obtain y where "y \<in> set (vranges b)" "v_lo y = r_lo r" "v_hi y = r_hi r" by (auto simp: verified_backed_def)
      with keep show ?thesis by metis
    qed
  qed
  ultimately show ?thesis using cov by (simp add: board_sound_def)
qed

text \<open>Each handler keeps the invariant.\<close>

lemma admit_sound:
  assumes "submit_admit cfg w blk body b = (res, b')" "board_sound b"
  shows "board_sound b' \<and> vranges b' = vranges b \<and> (\<forall>adm. res = Inr adm \<longrightarrow> flight_ok b' (body, adm))"
proof -
  have op: "board_sound (opened body lo hi b)" if "submit_check cfg w body b = Inr (lo, hi, receipt)" for lo hi receipt
  proof (cases "row_of r_id (su_range body) (ranges b) = None")
    case True
    then have "ranges (opened body lo hi b) = put_row r_id (new_range (su_range body) lo hi) (ranges b)"
      using put_row_append [of r_id "new_range (su_range body) lo hi" "ranges b"] by (simp add: opened_def)
    from sound_put_row [OF assms(2) _ _ _ _ this] submit_check_Inr [OF that] show ?thesis by simp
  next
    case False
    with assms(2) show ?thesis unfolding opened_def by (simp only: if_False)
  qed
  from submit_admit_board [OF assms(1)] have b': "board_sound b' \<and> vranges b' = vranges b"
    using op assms(2) by auto
  moreover have "flight_ok b' (body, adm)" if inr: "res = Inr adm" for adm
  proof -
    from assms(1) obtain lo hi where c: "submit_check cfg w body b = Inr (lo, hi, ad_receipt adm)"
        "row_of r_id (su_range body) (ranges b') = Some (ad_row adm)"
      using submit_admit_Inr [OF assms(1) [unfolded inr]] by blast
    from row_of_Some [OF c(2)] b' have r: "r_id (ad_row adm) = su_range body" "0 \<le> r_lo (ad_row adm)" "r_lo (ad_row adm) \<le> r_hi (ad_row adm)"
        "r_id (ad_row adm) = canonical_range_id (r_lo (ad_row adm)) (r_hi (ad_row adm))"
      by (auto simp: board_sound_def rows_sound_def)
    note ck = submit_check_Inr [OF c(1)]
    have "r_lo (ad_row adm) = lo \<and> r_hi (ad_row adm) = hi"
      by (rule canonical_inj) (use r ck in auto)
    with ck b' show ?thesis by (simp add: flight_ok_def covered_cong [of b' b])
  qed
  ultimately show ?thesis by blast
qed

lemma commit_sound:
  assumes "submit_commit cfg w d body adm (submit_verify cfg w' va body adm) sv = (res, sv')"
    and "board_sound (sv_board sv)" "flight_ok (sv_board sv) (body, adm)"
  shows "board_sound (sv_board sv') \<and> covered (sv_board sv) \<subseteq> covered (sv_board sv')"
proof (cases res)
  case (Inl e)
  with submit_commit_Inl [of cfg w d body adm "submit_verify cfg w' va body adm" sv] assms show ?thesis by auto
next
  case (Inr rep)
  obtain so ro nt m where vd: "submit_verify cfg w' va body adm = (so, ro, nt, m)" by (metis prod.collapse)
  note run = assms(1) [unfolded vd Inr]
  from assms(3) have fl: "su_range body = canonical_range_id (r_lo (ad_row adm)) (r_hi (ad_row adm))"
      "1 \<le> r_lo (ad_row adm)" "r_lo (ad_row adm) \<le> r_hi (ad_row adm)"
      "r_lo (ad_row adm) < r_hi (ad_row adm) \<longrightarrow> {r_lo (ad_row adm)..r_hi (ad_row adm)} \<subseteq> covered (sv_board sv)"
    by (auto simp: flight_ok_def Let_def)
  show ?thesis
  proof (cases "rp_ok rep")
    case True
    with submit_commit_Inr [OF run] have "so" "ro" by auto
    with vd have "verify_receipt cfg va (ad_receipt adm) (r_lo (ad_row adm), r_hi (ad_row adm)) = (True, nt, m)"
      by (auto simp: submit_verify_def Let_def split: if_splits)
    from verdict_bounds [OF this fl(2)] have p: "proved_lo (ad_row adm) (the m) = r_lo (ad_row adm)"
        "proved_hi (ad_row adm) (the m) = r_hi (ad_row adm)"
      by (auto simp: proved_lo_def proved_hi_def)
    note b' = submit_commit_board(1) [OF run True]
    let ?v = "vrange_of (w_now w) body adm (the m)"
    have "board_sound (sv_board sv') \<and> covered (sv_board sv') = covered (sv_board sv) \<union> v_span ?v"
      by (rule sound_accept [OF assms(2), where sha = "w_sha256 w (ad_receipt adm)" and now = "w_now w"])
        (use fl in \<open>auto simp: b' accept_proof_tables p v_span_def\<close>)
    then show ?thesis by blast
  next
    case False
    note b' = submit_commit_board(2) [OF run False]
    obtain br rows where rf: "record_submission_failure cfg (w_now w) (su_range body) nt (ranges (sv_board sv)) = (br, rows)"
      by fastforce
    have "board_sound (sv_board sv')"
    proof (rule sound_rows_kept [OF assms(2)])
      show "list_all2 (\<lambda>x y. r_id y = r_id x \<and> r_lo y = r_lo x \<and> r_hi y = r_hi x \<and> (r_status y = Verified \<longrightarrow> r_status x = Verified))
          (ranges (sv_board sv)) (ranges (sv_board sv'))"
        using failure_keeps [OF rf] unfolding b' rf by (auto simp: row_kept_def elim!: list_all2_mono)
    qed (simp add: b')
    moreover have "covered (sv_board sv') = covered (sv_board sv)" by (rule covered_cong) (simp add: b')
    ultimately show ?thesis by simp
  qed
qed

lemma claim_sound:
  assumes "claim cfg w snap cbody b = (res, b')" "board_sound b"
  shows "board_sound b' \<and> vranges b' = vranges b"
proof (cases res)
  case (Inl e)
  with claim_Inl [of cfg w snap cbody b] assms show ?thesis by auto
next
  case (Inr rid)
  obtain taken_at fr where snap: "snap = (taken_at, fr)" by fastforce
  from assms(1) [unfolded Inr snap] show ?thesis
  proof (cases rule: claim_Inr)
    case retry
    with assms(2) show ?thesis by simp
  next
    case (fresh h handle signed)
    have "1 \<le> h"
      using claim_height_Some(5) [OF fresh(4)] assms(2)
      by (fastforce simp: is_proven_iff covered_def v_span_def board_sound_def proofs_sound_def)
    then show ?thesis
      using sound_put_row [OF assms(2) _ _ _ _ fresh(6,7)] fresh(7) by (simp add: canonical_range_id_def)
  qed
qed

lemma beat_sound:
  assumes "beat cfg w bbody b = (res, b')" "board_sound b"
  shows "board_sound b' \<and> vranges b' = vranges b"
proof -
  from assms(1) consider "b' = b"
    | "b' = b\<lparr>ranges := upd_where (\<lambda>x. r_id x = bb_range bbody) (\<lambda>x. x\<lparr>r_last_beat := Some (w_now w)\<rparr>) (ranges b)\<rparr>"
    by (auto simp: beat_def Let_def split: if_splits sum.splits option.splits)
  then show ?thesis
  proof cases
    case 1
    with assms(2) show ?thesis by simp
  next
    case 2
    have "board_sound b'"
      by (rule sound_rows_kept [OF assms(2)]) (auto simp: 2 upd_where_def list_all2_map2 list_all2_same)
    with 2 show ?thesis by simp
  qed
qed

lemma rotate_tables: "rotate cfg w blk rbody b = (res, b') \<Longrightarrow> ranges b' = ranges b \<and> vranges b' = vranges b"
  by (auto simp: rotate_def Let_def split: if_splits sum.splits option.splits)

lemma with_board_simps [simp]: "sv_board (with_board sv b) = b"
  by (simp add: with_board_def)

lemma sys_step_sound:
  assumes "sys_step cfg va s t" "sys_sound s"
  shows "sys_sound t \<and> covered (sv_board (sy_server s)) \<subseteq> covered (sv_board (sy_server t))"
  using assms
proof (cases rule: sys_step.cases)
  case (admit w blk body sv res b fl)
  with assms(2) admit_sound [OF admit(3)] flight_mono [of "sv_board sv" _ b] covered_cong [of b "sv_board sv"] show ?thesis
    by (auto simp: sys_sound_def split: sum.split)
next
  case (commit body adm fl w d w' sv res sv')
  with assms(2) commit_sound [OF commit(4)] flight_mono [of "sv_board sv" _ "sv_board sv'"] show ?thesis
    by (auto simp: sys_sound_def dest: notin_set_remove1)
next
  case (claim w snap cbody sv res b fl)
  with assms(2) claim_sound [OF claim(3)] flight_mono [of "sv_board sv" _ b] covered_cong [of b "sv_board sv"] show ?thesis
    by (auto simp: sys_sound_def)
next
  case (beat w bbody sv res b fl)
  with assms(2) beat_sound [OF beat(3)] flight_mono [of "sv_board sv" _ b] covered_cong [of b "sv_board sv"] show ?thesis
    by (auto simp: sys_sound_def)
next
  case (rotate w blk rbody sv res b fl)
  with assms(2) rotate_tables [OF rotate(3)] flight_mono [of "sv_board sv" _ b] covered_cong [of b "sv_board sv"]
      board_sound_cong [of b "sv_board sv"] show ?thesis
    by (auto simp: sys_sound_def)
next
  case (fold w cache fbody sv res fcs fl)
  with assms(2) show ?thesis by (auto simp: sys_sound_def)
qed

lemma init_sound: "sys_init cfg s \<Longrightarrow> sys_sound s"
proof -
  assume i: "sys_init cfg s"
  let ?R = "RANGE_SIZE cfg"
  let ?row = "\<lambda>i. new_range (int_str (int i * ?R) @ CHR ''-'' # int_str (int i * ?R + ?R - 1)) (int i * ?R) (int i * ?R + ?R - 1)"
  have R: "1 < ?R" using i by (simp add: sys_init_def)
  have seed: "ranges (init_db cfg empty_board) = map ?row [0..<SEED cfg]" by (simp add: init_db_def seed_rows_def Let_def)
  have can: "canonical_range_id (int i * ?R) (int i * ?R + ?R - 1) = r_id (?row i)" for i
    using R by (simp add: canonical_range_id_def)
  have "i = j" if "r_id (?row i) = r_id (?row j)" for i j
  proof -
    have "int i * ?R = int j * ?R \<and> int i * ?R + ?R - 1 = int j * ?R + ?R - 1"
      by (rule canonical_inj) (use R that can in auto)
    with R show ?thesis by auto
  qed
  then have "distinct (map r_id (map ?row [0..<SEED cfg]))"
    by (auto simp: distinct_map inj_on_def simp del: new_range_simps)
  moreover have "\<forall>r \<in> set (map ?row [0..<SEED cfg]). 0 \<le> r_lo r \<and> r_lo r \<le> r_hi r \<and> r_id r = canonical_range_id (r_lo r) (r_hi r)
      \<and> r_status r \<noteq> Verified"
    using R can by auto
  moreover have "vranges (init_db cfg empty_board) = []" by (simp add: init_db_def)
  ultimately have "board_sound (init_db cfg empty_board)"
    unfolding board_sound_def rows_sound_def proofs_sound_def own_proofs_def verified_backed_def covered_def seed by auto
  with i show ?thesis by (auto simp: sys_init_def sys_sound_def)
qed

text \<open>The coordinator keeps the contract of a growing system: what is covered stays covered.\<close>

interpretation ledger: growing_system "sys_init cfg" "sys_step cfg va" sys_sound "\<lambda>s. covered (sv_board (sy_server s))"
  for cfg va
  by unfold_locales (auto dest: sys_step_sound init_sound)

section \<open>Properties\<close>

text \<open>
  Claim C9. Covered means proved, one block at a time. However submissions, claims, beats, rotations and
  fold claims interleave from the fresh database on, every covered block has a verified proof of exactly
  that block, no two proofs or rows share an id, every id spells its span, no proof takes in block 0, and
  every verified row is backed by a proof of its span.
\<close>

theorem covered_block_has_own_proof:
  assumes "sys_init cfg s0" and "(sys_step cfg va)\<^sup>*\<^sup>* s0 s"
  shows "let b = sv_board (sy_server s) in
    (\<forall>n \<in> covered b. \<exists>u \<in> set (vranges b). v_lo u = n \<and> v_hi u = n)
    \<and> distinct (map v_id (vranges b)) \<and> distinct (map r_id (ranges b))
    \<and> (\<forall>v \<in> set (vranges b). 1 \<le> v_lo v \<and> v_id v = canonical_range_id (v_lo v) (v_hi v))
    \<and> (\<forall>r \<in> set (ranges b). r_id r = canonical_range_id (r_lo r) (r_hi r)
        \<and> (r_status r = Verified \<longrightarrow> (\<exists>v \<in> set (vranges b). v_lo v = r_lo r \<and> v_hi v = r_hi r)))"
  using ledger.inv_reachable [OF assms]
  by (simp add: Let_def sys_sound_def board_sound_def rows_sound_def proofs_sound_def own_proofs_def verified_backed_def)

definition small_config :: config where
  "small_config = rotate_config\<lparr>SEED := 0\<rparr>"

definition start_seven :: system where
  "start_seven = \<lparr> sy_server = \<lparr> sv_board = init_db small_config empty_board, sv_cache = None, sv_folds = [] \<rparr>, sy_flight = [] \<rparr>"

text \<open>One submission of block 7, admitted and committed.\<close>

lemma run_seven:
  "\<exists>s. (sys_step small_config good_host)\<^sup>*\<^sup>* start_seven s \<and> 7 \<in> covered (sv_board (sy_server s))"
proof -
  let ?sv = "sy_server start_seven" and ?body = "submit_of ''7'' ''ok''"
  let ?r = "submit_admit small_config example_world [] ?body (sv_board ?sv)"
  have "map_sum (\<lambda>_. ()) (\<lambda>a. (r_lo (ad_row a), r_hi (ad_row a), ad_receipt a)) (fst ?r) = Inr (7, 7, ''ok'')" by code_simp
  then obtain adm where a: "fst ?r = Inr adm" "r_lo (ad_row adm) = 7" "r_hi (ad_row adm) = 7" "ad_receipt adm = ''ok''"
    by (cases "fst ?r") auto
  then have adm: "?r = (Inr adm, snd ?r)" by (metis prod.collapse)
  let ?sv1 = "with_board ?sv (snd ?r)"
  have s1: "sys_step small_config good_host start_seven \<lparr> sy_server = ?sv1, sy_flight = [(?body, adm)] \<rparr>"
    using sys_step.admit [OF adm, of good_host "[]"] by (simp add: start_seven_def)
  let ?vd = "submit_verify small_config example_world good_host ?body adm"
  let ?c = "submit_commit small_config example_world True ?body adm ?vd ?sv1"
  have s2: "sys_step small_config good_host \<lparr> sy_server = ?sv1, sy_flight = [(?body, adm)] \<rparr>
      \<lparr> sy_server = snd ?c, sy_flight = remove1 (?body, adm) [(?body, adm)] \<rparr>"
    by (rule sys_step.commit [where res = "fst ?c"]) simp_all
  have v: "verify_receipt small_config good_host ''ok'' (7, 7) =
    (True, ''range [7..7] VERIFIED'', Some \<lparr> rm_lo = Some 7, rm_hi = Some 7, rm_in_tip = ''aa'', rm_out_tip = ''bb'',
       rm_out_leaves = 3, rm_range_work = ''9'', rm_in_bhash = ''cc'', rm_out_bhash = ''dd'', rm_anchored = False \<rparr>)"
    by code_simp
  have vd: "\<exists>nt m. ?vd = (True, True, nt, Some m) \<and> rm_lo m = Some 7 \<and> rm_hi m = Some 7"
    using a v by (simp add: submit_verify_def verify_sig_def small_config_def rotate_config_def)
  then obtain nt m where m: "?vd = (True, True, nt, Some m)" "rm_lo m = Some 7" "rm_hi m = Some 7" by blast
  from submit_admit_Inr [OF adm] have adm': "row_of r_id (su_range ?body) (ranges (snd ?r)) = Some (ad_row adm)"
      "r_status (ad_row adm) \<noteq> Verified" "hold_refusal (snd ?r) (r_lo (ad_row adm)) (r_hi (ad_row adm)) (su_pubkey ?body) = None"
    by blast+
  have "fst ?c = Inr (reply_of (w_sha256 example_world (ad_receipt adm)) ?body adm ?vd)"
    using adm' by (simp add: submit_commit_def m Let_def with_board_def)
  then obtain rep where "?c = (Inr rep, snd ?c)" "rep = reply_of (w_sha256 example_world (ad_receipt adm)) ?body adm ?vd"
    by (metis prod.collapse)
  then have rep: "submit_commit small_config example_world True ?body adm (True, True, nt, Some m) ?sv1 = (Inr rep, snd ?c)" "rp_ok rep"
    by (simp_all add: m reply_of_def)
  have "7 \<in> covered (sv_board (snd ?c))"
    unfolding submit_commit_board(1) [OF rep] using m(2,3)
    by (auto simp: accept_proof_tables covered_def set_put_row v_span_def proved_lo_def proved_hi_def)
  with s1 s2 show ?thesis
    by (intro exI [of _ "\<lparr> sy_server = snd ?c, sy_flight = remove1 (?body, adm) [(?body, adm)] \<rparr>"])
      (auto intro: converse_rtranclp_into_rtranclp)
qed

lemma start_seven_init: "sys_init small_config start_seven"
  by (simp add: sys_init_def start_seven_def small_config_def rotate_config_def)

theorem covered_block_has_own_proof_witness:
  "\<exists>s. (sys_step small_config good_host)\<^sup>*\<^sup>* start_seven s
     \<and> (\<exists>u \<in> set (vranges (sv_board (sy_server s))). v_lo u = 7 \<and> v_hi u = 7)"
proof -
  obtain s where s: "(sys_step small_config good_host)\<^sup>*\<^sup>* start_seven s" "7 \<in> covered (sv_board (sy_server s))"
    using run_seven by blast
  from covered_block_has_own_proof [OF start_seven_init s(1)] s show ?thesis by (auto simp: Let_def)
qed

text \<open>
  Progress is never undone. From any reachable state, whatever steps follow, a covered block stays
  covered.
\<close>

theorem coverage_only_grows:
  assumes "sys_init cfg s0" and "(sys_step cfg va)\<^sup>*\<^sup>* s0 s" and "(sys_step cfg va)\<^sup>*\<^sup>* s t"
  shows "covered (sv_board (sy_server s)) \<subseteq> covered (sv_board (sy_server t))"
  by (rule ledger.reached_steps [OF assms(3) ledger.inv_reachable [OF assms(1,2)]])

theorem coverage_only_grows_witness:
  "\<exists>s. (sys_step small_config good_host)\<^sup>*\<^sup>* start_seven s
     \<and> covered (sv_board (sy_server start_seven)) \<subseteq> covered (sv_board (sy_server s))"
proof -
  obtain s where "(sys_step small_config good_host)\<^sup>*\<^sup>* start_seven s" using run_seven by blast
  with coverage_only_grows [OF start_seven_init rtranclp.rtrancl_refl this] show ?thesis by blast
qed

text \<open>
  Claim C5. The tables and the submissions in flight stay well formed. From any well-formed state, reachable or
  not, each step of the coordinator leaves ids distinct and spelling spans with 1 or more blocks, verified rows
  backed, and every submission still in flight naming the span of the row it was admitted against.
\<close>

theorem steps_keep_well_formed:
  assumes "sys_step cfg va s t" and "sys_sound s"
  shows "(let b = sv_board (sy_server t) in distinct (map r_id (ranges b)) \<and> distinct (map v_id (vranges b))
    \<and> (\<forall>r \<in> set (ranges b). 0 \<le> r_lo r \<and> r_lo r \<le> r_hi r \<and> parse_any_range (r_hi r + 1) (r_id r) = Some (r_lo r, r_hi r)
         \<and> (r_status r = Verified \<longrightarrow> (\<exists>v \<in> set (vranges b). v_lo v = r_lo r \<and> v_hi v = r_hi r)))
    \<and> (\<forall>v \<in> set (vranges b). 1 \<le> v_lo v \<and> v_lo v \<le> v_hi v \<and> parse_any_range (v_hi v + 1) (v_id v) = Some (v_lo v, v_hi v))
    \<and> (\<forall>(body, adm) \<in> set (sy_flight t). su_range body = canonical_range_id (r_lo (ad_row adm)) (r_hi (ad_row adm))
         \<and> 1 \<le> r_lo (ad_row adm) \<and> r_lo (ad_row adm) \<le> r_hi (ad_row adm)
         \<and> (r_lo (ad_row adm) < r_hi (ad_row adm) \<longrightarrow> {r_lo (ad_row adm)..r_hi (ad_row adm)} \<subseteq> covered b)))
    \<and> sys_sound t"
proof -
  from sys_step_sound [OF assms] have t: "sys_sound t" ..
  then show ?thesis
    by (auto simp: sys_sound_def board_sound_def rows_sound_def proofs_sound_def verified_backed_def flight_ok_def Let_def parse_canonical)
qed

theorem steps_keep_well_formed_witness:
  "\<exists>t. sys_step small_config good_host start_seven t \<and> length (sy_flight t) = 1 \<and> sys_sound t"
proof -
  let ?body = "submit_of ''7'' ''ok''"
  let ?r = "submit_admit small_config example_world [] ?body (sv_board (sy_server start_seven))"
  have "map_sum (\<lambda>_. ()) (\<lambda>_. ()) (fst ?r) = Inr ()" by code_simp
  then obtain adm where "fst ?r = Inr adm" by (cases "fst ?r") auto
  then have "?r = (Inr adm, snd ?r)" by (metis prod.collapse)
  from sys_step.admit [OF this, of good_host "[]"]
  have 1: "sys_step small_config good_host start_seven \<lparr> sy_server = with_board (sy_server start_seven) (snd ?r), sy_flight = [(?body, adm)] \<rparr>"
    by (simp add: start_seven_def)
  from steps_keep_well_formed [OF 1 init_sound [OF start_seven_init]]
  have "sys_sound \<lparr> sy_server = with_board (sy_server start_seven) (snd ?r), sy_flight = [(?body, adm)] \<rparr>" by (rule conjunct2)
  with 1 show ?thesis by (intro exI conjI) (assumption, simp)
qed

section \<open>A block in hand\<close>

text \<open>
  Everything that may happen between two claims while the grace of the first runs, except that a submission of that
  very block is decided: a failed one may park its row and so give the block back.
\<close>

inductive traffic :: "config \<Rightarrow> (string \<Rightarrow> host_result) \<Rightarrow> range_id \<Rightarrow> time \<Rightarrow> time \<Rightarrow> system \<Rightarrow> system \<Rightarrow> bool"
  for cfg :: config and verify_any :: "string \<Rightarrow> host_result" and rid :: range_id and t0 :: time and t1 :: time where
  admit: "submit_admit cfg w blk body (sv_board sv) = (res, b) \<Longrightarrow>
    traffic cfg verify_any rid t0 t1 \<lparr> sy_server = sv, sy_flight = fl \<rparr>
      \<lparr> sy_server = with_board sv b, sy_flight = (case res of Inl e \<Rightarrow> fl | Inr adm \<Rightarrow> (body, adm) # fl) \<rparr>"
| commit: "(body, adm) \<in> set fl \<Longrightarrow> su_range body \<noteq> rid \<Longrightarrow>
    submit_commit cfg w d body adm (submit_verify cfg w' verify_any body adm) sv = (res, sv') \<Longrightarrow>
    traffic cfg verify_any rid t0 t1 \<lparr> sy_server = sv, sy_flight = fl \<rparr> \<lparr> sy_server = sv', sy_flight = remove1 (body, adm) fl \<rparr>"
| claim: "w_now w < t1 \<Longrightarrow> claim cfg w snap cbody (sv_board sv) = (res, b) \<Longrightarrow>
    traffic cfg verify_any rid t0 t1 \<lparr> sy_server = sv, sy_flight = fl \<rparr> \<lparr> sy_server = with_board sv b, sy_flight = fl \<rparr>"
| beat: "t0 \<le> w_now w \<Longrightarrow> beat cfg w bbody (sv_board sv) = (res, b) \<Longrightarrow>
    traffic cfg verify_any rid t0 t1 \<lparr> sy_server = sv, sy_flight = fl \<rparr> \<lparr> sy_server = with_board sv b, sy_flight = fl \<rparr>"
| rotate: "rotate cfg w blk rbody (sv_board sv) = (res, b) \<Longrightarrow>
    traffic cfg verify_any rid t0 t1 \<lparr> sy_server = sv, sy_flight = fl \<rparr> \<lparr> sy_server = with_board sv b, sy_flight = fl \<rparr>"
| fold: "fold_claim_req cfg w cache fbody (sv_board sv) (sv_folds sv) = (res, fcs) \<Longrightarrow>
    traffic cfg verify_any rid t0 t1 \<lparr> sy_server = sv, sy_flight = fl \<rparr> \<lparr> sy_server = sv\<lparr>sv_folds := fcs\<rparr>, sy_flight = fl \<rparr>"

lemma traffic_step: "traffic cfg va rid t0 t1 s s' \<Longrightarrow> sys_step cfg va s s'"
  by (induction rule: traffic.induct) (auto intro: sys_step.intros)

text \<open>A row as the claim left it, but for its beats.\<close>

definition in_hand :: "int \<Rightarrow> time \<Rightarrow> pubkey \<Rightarrow> string option \<Rightarrow> range_row \<Rightarrow> bool" where
  "in_hand h t0 pk nonce r \<longleftrightarrow> r_status r = Claimed \<and> r_lo r = h \<and> r_assignee r = Some pk \<and> r_claim_nonce r = nonce
     \<and> r_claimed_at r = Some t0 \<and> (\<forall>tb. r_last_beat r = Some tb \<longrightarrow> t0 \<le> tb)"

definition handed :: "int \<Rightarrow> time \<Rightarrow> pubkey \<Rightarrow> string option \<Rightarrow> board \<Rightarrow> bool" where
  "handed h t0 pk nonce b \<longleftrightarrow> (\<exists>r \<in> set (ranges b). r_id r = int_str h) \<and> (\<forall>r \<in> set (ranges b). r_id r = int_str h \<longrightarrow> in_hand h t0 pk nonce r)"

lemma handed_cong:
  "{r \<in> set (ranges b'). r_id r = int_str h} = {r \<in> set (ranges b). r_id r = int_str h} \<Longrightarrow> handed h t0 pk nonce b' = handed h t0 pk nonce b"
  unfolding handed_def by blast

lemma handed_upd:
  assumes "handed h t0 pk nonce b" "\<And>r. in_hand h t0 pk nonce r \<Longrightarrow> in_hand h t0 pk nonce (f r)" "\<And>r. r_id (f r) = r_id r"
    and "ranges b' = upd_where P f (ranges b)"
  shows "handed h t0 pk nonce b'"
proof -
  define g where "g r = (if P r then f r else r)" for r
  have g: "r_id (g r) = r_id r" "in_hand h t0 pk nonce r \<Longrightarrow> in_hand h t0 pk nonce (g r)" for r
    using assms(2,3) by (simp_all add: g_def)
  have "set (ranges b') = g ` set (ranges b)" by (simp add: assms(4) upd_where_def g_def)
  with assms(1) g show ?thesis unfolding handed_def by (simp only: ball_simps bex_simps) metis
qed

lemma in_hand_live:
  "in_hand h t0 pk nonce r \<Longrightarrow> now < t0 + CLAIM_GRACE cfg \<Longrightarrow> CLAIM_GRACE cfg \<le> CLAIM_TTL cfg \<Longrightarrow> CLAIM_GRACE cfg \<le> CLAIM_MAX cfg
   \<Longrightarrow> live_claim cfg now r"
  by (cases "r_last_beat r") (auto simp: in_hand_def live_claim_def)

text \<open>A claim is answered with the block only when it is the same request again.\<close>

lemma handed_claim:
  assumes "claim cfg w snap body b = (Inr rid, b')" "handed h t0 pk nonce b" "w_now w < t0 + CLAIM_GRACE cfg"
    and "CLAIM_GRACE cfg \<le> CLAIM_TTL cfg" "CLAIM_GRACE cfg \<le> CLAIM_MAX cfg"
  shows "handed h t0 pk nonce b' \<and> (rid = int_str h \<longrightarrow> cb_pubkey body = pk \<and> claim_nonce body = nonce)"
proof -
  obtain taken_at fr where snap: "snap = (taken_at, fr)" by fastforce
  obtain r where r: "r \<in> set (ranges b)" "in_hand h t0 pk nonce r" using assms(2) by (auto simp: handed_def)
  have held: "is_held cfg b (w_now w) h"
    using live_held [OF r(1) in_hand_live [OF r(2) assms(3-5)]] r(2) by (simp add: in_hand_def)
  show ?thesis
    using assms(1) [unfolded snap]
  proof (cases rule: claim_Inr)
    case retry
    then obtain x where x: "x \<in> set (ranges b)" "r_id x = rid" "r_assignee x = Some (cb_pubkey body)" "r_claim_nonce x = claim_nonce body"
      by (auto simp: claim_by_nonce_def find_Some_iff in_set_conv_nth split: if_splits)
    with assms(2) retry(2) show ?thesis by (auto simp: handed_def in_hand_def)
  next
    case (fresh h2 handle signed)
    from claim_height_Some(1) [OF fresh(4)] held have "h2 \<noteq> h" by auto
    then have "{x \<in> set (ranges b'). r_id x = int_str h} = {x \<in> set (ranges b). r_id x = int_str h}"
      by (auto simp: fresh(6) set_put_row)
    from handed_cong [OF this] assms(2) have "handed h t0 pk nonce b'" by simp
    with \<open>h2 \<noteq> h\<close> fresh(1) show ?thesis by simp
  qed
qed

lemma upd_where_others: "(\<And>r. P r \<Longrightarrow> r_id r \<noteq> k) \<Longrightarrow> (\<And>r. r_id (f r) = r_id r) \<Longrightarrow>
   {r \<in> set (upd_where P f rows). r_id r = k} = {r \<in> set rows. r_id r = k}"
  by (auto simp: upd_where_def) force+

lemma failure_others:
  assumes "k \<noteq> rid"
  shows "{r \<in> set (snd (record_submission_failure cfg now rid nt rows)). r_id r = k} = {r \<in> set rows. r_id r = k}"
proof -
  have "{r \<in> set (count_env now rid err xs). r_id r = k} = {r \<in> set xs. r_id r = k}"
    "{r \<in> set (count_attempt now rid err xs). r_id r = k} = {r \<in> set xs. r_id r = k}"
    "{r \<in> set (park rid xs). r_id r = k} = {r \<in> set xs. r_id r = k}" for err xs
    unfolding count_env_def count_attempt_def park_def by (rule upd_where_others; use assms in auto)+
  then show ?thesis by (simp add: record_submission_failure_def Let_def split: option.split)
qed

lemma commit_others:
  assumes "submit_commit cfg w d body adm vd sv = (res, sv')" "su_range body \<noteq> k"
  shows "{r \<in> set (ranges (sv_board sv')). r_id r = k} = {r \<in> set (ranges (sv_board sv)). r_id r = k}"
proof (cases res)
  case (Inl e)
  with submit_commit_Inl [of cfg w d body adm vd sv] assms show ?thesis by auto
next
  case (Inr rep)
  obtain so ro nt m where vd: "vd = (so, ro, nt, m)" by (metis prod.collapse)
  note run = assms(1) [unfolded vd Inr]
  show ?thesis
  proof (cases "rp_ok rep")
    case True
    show ?thesis unfolding submit_commit_board(1) [OF run True] accept_proof_tables noted_simps
      by (rule upd_where_others) (use assms(2) in auto)
  next
    case False
    show ?thesis unfolding submit_commit_board(2) [OF run False] using failure_others [of k "su_range body"] assms(2) by simp
  qed
qed

lemma traffic_handed:
  assumes "traffic cfg va (int_str h) t0 (t0 + CLAIM_GRACE cfg) s s'" "handed h t0 pk nonce (sv_board (sy_server s))"
    and g: "CLAIM_GRACE cfg \<le> CLAIM_TTL cfg" "CLAIM_GRACE cfg \<le> CLAIM_MAX cfg"
  shows "handed h t0 pk nonce (sv_board (sy_server s'))"
  using assms(1,2)
proof (cases rule: traffic.cases)
  case (admit w blk body sv res b fl)
  have "handed h t0 pk nonce (opened body lo hi (sv_board sv))" if "handed h t0 pk nonce (sv_board sv)" for lo hi
  proof (cases "row_of r_id (su_range body) (ranges (sv_board sv)) = None")
    case True
    then have "su_range body \<noteq> int_str h" using that unfolding handed_def by (metis row_of_None imageI)
    then have "{r \<in> set (ranges (opened body lo hi (sv_board sv))). r_id r = int_str h} = {r \<in> set (ranges (sv_board sv)). r_id r = int_str h}"
      using True by (auto simp: opened_def)
    from handed_cong [OF this] that show ?thesis by simp
  next
    case False
    with that show ?thesis unfolding opened_def by (simp only: if_False)
  qed
  with submit_admit_board [OF admit(3)] admit assms(2) show ?thesis by auto
next
  case (commit body adm fl w d w' sv res sv')
  from handed_cong [OF commit_others [OF commit(5,4)]] commit assms(2) show ?thesis by simp
next
  case (claim w snap cbody sv res b fl)
  show ?thesis
  proof (cases res)
    case (Inl e)
    with claim_Inl [of cfg w snap cbody "sv_board sv"] claim assms(2) show ?thesis by auto
  next
    case (Inr k)
    from handed_claim [OF claim(4) [unfolded Inr] _ claim(3) g] claim assms(2) show ?thesis by simp
  qed
next
  case (beat w bbody sv res b fl)
  consider "b = sv_board sv"
    | "b = (sv_board sv)\<lparr>ranges := upd_where (\<lambda>x. r_id x = bb_range bbody) (\<lambda>x. x\<lparr>r_last_beat := Some (w_now w)\<rparr>) (ranges (sv_board sv))\<rparr>"
    using beat(4) by (auto simp: beat_def Let_def split: if_splits sum.splits option.splits)
  then show ?thesis
  proof cases
    case 1
    with beat assms(2) show ?thesis by simp
  next
    case 2
    from beat(1) assms(2) have old: "handed h t0 pk nonce (sv_board sv)" by simp
    have "in_hand h t0 pk nonce (r\<lparr>r_last_beat := Some (w_now w)\<rparr>)" if "in_hand h t0 pk nonce r" for r
      using that beat(3) by (simp add: in_hand_def)
    then have "handed h t0 pk nonce b"
      by (intro handed_upd [OF old, of "\<lambda>r. r\<lparr>r_last_beat := Some (w_now w)\<rparr>" _ "\<lambda>x. r_id x = bb_range bbody"]) (simp_all add: 2)
    with beat(2) show ?thesis by simp
  qed
next
  case (rotate w blk rbody sv res b fl)
  with rotate_tables [OF rotate(3)] assms(2) show ?thesis by (simp add: handed_def)
next
  case (fold w cache fbody sv res fcs fl)
  with assms(2) show ?thesis by simp
qed

lemma traffic_run_handed:
  assumes "(traffic cfg va (int_str h) t0 (t0 + CLAIM_GRACE cfg))\<^sup>*\<^sup>* s s'" "handed h t0 pk nonce (sv_board (sy_server s))"
    and "CLAIM_GRACE cfg \<le> CLAIM_TTL cfg" "CLAIM_GRACE cfg \<le> CLAIM_MAX cfg"
  shows "handed h t0 pk nonce (sv_board (sy_server s'))"
  using assms(1,2) by (induction rule: rtranclp_induct) (auto intro: traffic_handed assms(3,4))

text \<open>
  Claim C28. No two workers are handed the same block: after a fresh claim, and whatever admissions, decisions on
  submissions of other blocks, claims, beats, key rotations and fold claims happen in any order while its grace runs, a claim that
  is answered with that block within the grace is the same request again, with the same key and nonce. Left out is
  the decision on a submission of that very block: a failed one may park the row, and the block is then free.
\<close>

theorem claim_not_handed_twice:
  assumes "claim cfg w snap body (sv_board sv) = (Inr rid, b1)"
    and "claim_by_nonce cfg (sv_board sv) (cb_pubkey body) (claim_nonce body) (w_now w) = None"
    and "(traffic cfg va rid (w_now w) (w_now w + CLAIM_GRACE cfg))\<^sup>*\<^sup>* \<lparr> sy_server = with_board sv b1, sy_flight = fl \<rparr> s"
    and "claim cfg w2 snap2 body2 (sv_board (sy_server s)) = (Inr rid2, b2)"
    and "w_now w2 < w_now w + CLAIM_GRACE cfg"
    and "CLAIM_GRACE cfg \<le> CLAIM_TTL cfg" and "CLAIM_GRACE cfg \<le> CLAIM_MAX cfg"
  shows "rid2 = rid \<longrightarrow> cb_pubkey body2 = cb_pubkey body \<and> claim_nonce body2 = claim_nonce body"
proof -
  obtain taken_at fr where snap: "snap = (taken_at, fr)" by fastforce
  show ?thesis
    using assms(1) [unfolded snap]
  proof (cases rule: claim_Inr)
    case retry
    with assms(2) show ?thesis by simp
  next
    case (fresh h handle signed)
    have "handed h (w_now w) (cb_pubkey body) (claim_nonce body) b1"
      by (auto simp: handed_def in_hand_def fresh(6) set_put_row)
    then have "handed h (w_now w) (cb_pubkey body) (claim_nonce body) (sv_board (sy_server s))"
      by (intro traffic_run_handed [OF assms(3) [unfolded fresh(1)] _ assms(6,7)]) simp
    from handed_claim [OF assms(4) this assms(5-7)] show ?thesis by (simp add: fresh(1))
  qed
qed

definition empty_server :: server where
  "empty_server = \<lparr> sv_board = empty_board, sv_cache = None, sv_folds = [] \<rparr>"

definition third_claim :: "(claim_error + range_id) \<times> board" where
  "third_claim = claim default_config (example_world\<lparr>w_now := 1550\<rparr>) (0, genesis_frontier default_config)
     (claim_of ''cc'' ''n1'') (snd second_claim)"

text \<open>Block 5 is handed out, another worker gets block 9, and the next one asks.\<close>

theorem claim_not_handed_twice_witness:
  "\<exists>rid. fst third_claim = Inr rid \<and> rid \<noteq> ''5''"
proof -
  have e: "fst second_claim = Inr ''9''" "(case fst third_claim of Inl _ \<Rightarrow> False | Inr _ \<Rightarrow> True)" by code_simp+
  then obtain rid where t: "third_claim = (Inr rid, snd third_claim)" by (cases "fst third_claim") (auto simp: prod_eq_iff)
  from e(1) have "second_claim = (Inr ''9'', snd second_claim)" by (metis prod.collapse)
  then have two: "claim default_config (example_world\<lparr>w_now := 1500\<rparr>) (0, genesis_frontier default_config)
     (claim_of ''bb'' ''n1'') (sv_board (with_board empty_server (snd first_claim))) = (Inr ''9'', snd second_claim)"
    by (subst with_board_simps, subst second_claim_def [symmetric])
  let ?s = "\<lambda>b. \<lparr> sy_server = with_board empty_server b, sy_flight = [] \<rparr>"
  have g: "CLAIM_GRACE default_config \<le> CLAIM_TTL default_config" "CLAIM_GRACE default_config \<le> CLAIM_MAX default_config"
    "1500 < 1000 + CLAIM_GRACE default_config" "1550 < 1000 + CLAIM_GRACE default_config"
    by (simp_all add: default_config_def)
  have "traffic default_config good_host ''5'' 1000 (1000 + CLAIM_GRACE default_config) (?s (snd first_claim))
      \<lparr> sy_server = with_board (with_board empty_server (snd first_claim)) (snd second_claim), sy_flight = [] \<rparr>"
    by (rule traffic.claim [OF _ two]) (use g in simp)
  then have run: "(traffic default_config good_host ''5'' 1000 (1000 + CLAIM_GRACE default_config))\<^sup>*\<^sup>* (?s (snd first_claim)) (?s (snd second_claim))"
    by (simp add: with_board_def)
  have one: "claim default_config example_world (0, genesis_frontier default_config) (claim_of ''aa'' ''n1'') (sv_board empty_server)
      = (Inr ''5'', snd first_claim)"
    using first_run by (simp add: empty_server_def)
  have three: "claim default_config (example_world\<lparr>w_now := 1550\<rparr>) (0, genesis_frontier default_config)
     (claim_of ''cc'' ''n1'') (sv_board (sy_server (?s (snd second_claim)))) = (Inr rid, snd third_claim)"
    using t by (simp add: third_claim_def [symmetric])
  from claim_not_handed_twice [OF one _ _ three, of good_host "[]"] run first_claim(2,3) g
  have "rid = ''5'' \<longrightarrow> cb_pubkey (claim_of ''cc'' ''n1'') = ''aa''" by (simp add: empty_server_def)
  with t show ?thesis by (auto simp: prod_eq_iff)
qed

end
