(* ===== verification/Spine.thy ===== *)
theory Spine
  imports Ledger
begin

text \<open>
  The spine (\<open>coordinator/server.py\<close>: \<open>submit_spine\<close>, \<open>spine_absorption\<close>, \<open>spine_segments\<close>): the single
  proof from block 1 to its head. The writes of an accepted head are modelled as the list of states a crash
  can leave, because the order of the two files matters. The lemmas show that the head never moves back, that
  the advertised head is always backed by the stored bytes, and that the recorded advances split the blocks
  up to the head into runs, one owner per block.
\<close>

section \<open>Submitting a head\<close>

record spine_body =
  sb_pubkey :: pubkey
  sb_sig :: string
  sb_receipt :: string
  sb_handle :: string

datatype spine_error = SP_NoReceipt | SP_HandleReserved | SP_PubkeyHex | SP_SigHex | SP_TooLarge | SP_NotBase64
  | SP_BadSignature | SP_Rejected string | SP_NotAdvancing int int

definition spine_handle :: "config \<Rightarrow> spine_body \<Rightarrow> board \<Rightarrow> string" where
  "spine_handle cfg body b = clean_handle cfg (sb_handle body) (Some (handle_cap cfg b (Some (sb_pubkey body))))"

text \<open>The checks before the lock, and the verification.\<close>

definition spine_check :: "config \<Rightarrow> world \<Rightarrow> (string \<Rightarrow> host_result) \<Rightarrow> (string \<Rightarrow> host_result) \<Rightarrow> spine_body \<Rightarrow> board \<Rightarrow>
    spine_error + (string \<times> string \<times> receipt_meta)" where
  "spine_check cfg w verify_range verify_any body b =
     (let pk = sb_pubkey body in
      if sb_receipt body = [] then Inl SP_NoReceipt
      else if handle_refused cfg b (spine_handle cfg body b) (Some pk) then Inl SP_HandleReserved
      else if HAVE_ED cfg \<and> \<not> is_hex pk 32 then Inl SP_PubkeyHex
      else if HAVE_ED cfg \<and> \<not> is_hex (sb_sig body) 64 then Inl SP_SigHex
      else if int (length (sb_receipt body)) > MAX_BODY cfg then Inl SP_TooLarge
      else case b64decode (sb_receipt body) of None \<Rightarrow> Inl SP_NotBase64 | Some receipt \<Rightarrow>
        if \<not> verify_sig cfg w pk (sb_sig body) receipt then Inl SP_BadSignature
        else (case verify_spine cfg verify_range verify_any receipt of
            (ok, nt, m) \<Rightarrow> if \<not> ok then Inl (SP_Rejected nt) else Inr (receipt, nt, the m)))"

definition new_head :: "world \<Rightarrow> string \<Rightarrow> spine_body \<Rightarrow> string \<Rightarrow> receipt_meta \<Rightarrow> spine_meta" where
  "new_head w handle body receipt m = \<lparr> m_lo = 1, m_hi = the (rm_hi m), m_out_tip = rm_out_tip m,
     m_out_leaves = rm_out_leaves m, m_range_work = rm_range_work m, m_sha256 = w_sha256 w receipt,
     m_bytes = int (length receipt), m_handle = handle, m_pubkey = sb_pubkey body, m_ts = w_now w \<rparr>"

definition spine_row :: "spine_body \<Rightarrow> spine_meta \<Rightarrow> submission" where
  "spine_row body head = \<lparr> s_range_id = ''spine:1-'' @ int_str (m_hi head), s_pubkey = sb_pubkey body,
     s_handle = m_handle head, s_receipt_sha = m_sha256 head, s_sig = sb_sig body, s_verified = True,
     s_note = ''spine advanced to [1..'' @ int_str (m_hi head) @ ''] ('' @ int_str (m_bytes head) @ '' bytes)'', s_ts = m_ts head \<rparr>"

text \<open>
  The boards the writes go through: the receipt replaced, then the head that advertises it, then the row of
  the feed, whose failure is caught.
\<close>

definition spine_writes :: "bool \<Rightarrow> spine_body \<Rightarrow> string \<Rightarrow> spine_meta \<Rightarrow> board \<Rightarrow> board list" where
  "spine_writes log_ok body receipt head b =
     (let b1 = b\<lparr>spine_bin := Some receipt\<rparr>;
          b2 = b1\<lparr>spine := Some head\<rparr>;
          b3 = (if log_ok then b2\<lparr>submissions := submissions b2 @ [spine_row body head]\<rparr> else b2)
      in [b1, b2, b3])"

definition submit_spine :: "config \<Rightarrow> world \<Rightarrow> (string \<Rightarrow> host_result) \<Rightarrow> (string \<Rightarrow> host_result) \<Rightarrow> bool \<Rightarrow> spine_body \<Rightarrow> board \<Rightarrow>
    (spine_error + spine_meta) \<times> board list" where
  "submit_spine cfg w verify_range verify_any log_ok body b =
     (case spine_check cfg w verify_range verify_any body b of
        Inl e \<Rightarrow> (Inl e, [])
      | Inr (receipt, nt, m) \<Rightarrow>
          (case spine b of
             Some cur \<Rightarrow>
               if the (rm_hi m) \<le> m_hi cur then (Inl (SP_NotAdvancing (m_hi cur) (the (rm_hi m))), [])
               else (let head = new_head w (spine_handle cfg body b) body receipt m
                     in (Inr head, spine_writes log_ok body receipt head b))
           | None \<Rightarrow> (let head = new_head w (spine_handle cfg body b) body receipt m
                     in (Inr head, spine_writes log_ok body receipt head b))))"

section \<open>Who absorbed which block\<close>

text \<open>The recorded heads: \<open>int(range_id.split("-", 1)[1])\<close> of the rows in order; an unreadable one is skipped.\<close>

definition head_of :: "submission \<Rightarrow> int option" where
  "head_of s = py_int (tl (dropWhile (\<lambda>c. c \<noteq> CHR ''-'') (s_range_id s)))"

definition spine_rows :: "board \<Rightarrow> submission list" where
  "spine_rows b = sort_key s_ts (filter is_spine_row (submissions b))"

record absorption =
  a_lo :: int
  a_hi :: int
  a_handle :: string

fun absorb_loop :: "int \<Rightarrow> int \<Rightarrow> submission list \<Rightarrow> absorption option" where
  "absorb_loop n prev_hi [] = None"
| "absorb_loop n prev_hi (s # ss) =
     (case head_of s of None \<Rightarrow> absorb_loop n prev_hi ss
      | Some hi \<Rightarrow>
          if hi \<le> prev_hi then absorb_loop n prev_hi ss
          else if prev_hi < n \<and> n \<le> hi then Some \<lparr> a_lo = prev_hi + 1, a_hi = hi, a_handle = s_handle s \<rparr>
          else absorb_loop n hi ss)"

definition spine_absorption :: "board \<Rightarrow> int \<Rightarrow> absorption option" where
  "spine_absorption b n = absorb_loop n 0 (spine_rows b)"

text \<open>The runs, latest first, with the previous head, the previous key and the first recorded head.\<close>

record seg_state =
  g_segs :: "absorption list"
  g_hi :: int
  g_pk :: pubkey
  g_first :: "int option"

definition shown :: "string list \<Rightarrow> submission \<Rightarrow> string" where
  "shown blk s = (if lower (s_pubkey s) \<in> set blk then ''[removed]'' else s_handle s)"

definition seg_step :: "string list \<Rightarrow> submission \<Rightarrow> seg_state \<Rightarrow> seg_state" where
  "seg_step blk s g =
     (case head_of s of None \<Rightarrow> g
      | Some hi \<Rightarrow>
          if hi \<le> g_hi g then g
          else (let pk = lower (s_pubkey s);
                    fresh = \<lparr> a_lo = g_hi g + 1, a_hi = hi, a_handle = shown blk s \<rparr>
                in \<lparr> g_segs = (case g_segs g of
                        [] \<Rightarrow> [fresh]
                      | l # ls \<Rightarrow> if pk = g_pk g then l\<lparr>a_hi := hi, a_handle := shown blk s\<rparr> # ls else fresh # l # ls),
                     g_hi = hi, g_pk = pk,
                     g_first = (if g_first g = None then Some hi else g_first g) \<rparr>))"

definition spine_segments :: "string list \<Rightarrow> board \<Rightarrow> absorption list \<times> int option" where
  "spine_segments blk b =
     (let g = fold (seg_step blk) (spine_rows b) \<lparr> g_segs = [], g_hi = 0, g_pk = [], g_first = None \<rparr>
      in (rev (g_segs g), g_first g))"

section \<open>Lemmas\<close>

lemma submit_spine_Inr:
  assumes "submit_spine cfg w vrg vra log_ok body b = (Inr head, bs)"
  shows "\<exists>receipt nt m. spine_check cfg w vrg vra body b = Inr (receipt, nt, m)
    \<and> head = new_head w (spine_handle cfg body b) body receipt m \<and> bs = spine_writes log_ok body receipt head b
    \<and> (\<forall>cur. spine b = Some cur \<longrightarrow> m_hi cur < the (rm_hi m))"
  using assms by (auto simp: submit_spine_def Let_def split: sum.splits option.splits if_splits)

lemma spine_check_Inr:
  assumes "spine_check cfg w vrg vra body b = Inr (receipt, nt, m)"
  shows "b64decode (sb_receipt body) = Some receipt \<and> verify_sig cfg w (sb_pubkey body) (sb_sig body) receipt
    \<and> (\<exists>mo. verify_spine cfg vrg vra receipt = (True, nt, mo) \<and> m = the mo)"
  using assms by (auto simp: spine_check_def Let_def split: if_splits option.splits prod.splits)

text \<open>The runs so far split the blocks up to the last head, and every advance lies in one of them.\<close>

fun runs_down :: "absorption list \<Rightarrow> int \<Rightarrow> bool" where
  "runs_down [] h = (h = 0)"
| "runs_down (a # as) h = (a_hi a = h \<and> 1 \<le> a_lo a \<and> a_lo a \<le> a_hi a \<and> runs_down as (a_lo a - 1))"

lemma runs_down_step:
  assumes "runs_down (g_segs g) (g_hi g)" "0 \<le> g_hi g"
  shows "runs_down (g_segs (seg_step blk s g)) (g_hi (seg_step blk s g)) \<and> g_hi g \<le> g_hi (seg_step blk s g)"
  using assms by (cases "g_segs g") (auto simp: seg_step_def Let_def split: option.splits)

lemma runs_down_fold:
  "runs_down (g_segs g) (g_hi g) \<Longrightarrow> 0 \<le> g_hi g \<Longrightarrow>
   runs_down (g_segs (fold (seg_step blk) ss g)) (g_hi (fold (seg_step blk) ss g)) \<and> 0 \<le> g_hi (fold (seg_step blk) ss g)"
proof (induction ss arbitrary: g)
  case (Cons s ss)
  from runs_down_step [OF Cons.prems, of blk s] Cons.IH [of "seg_step blk s g"] Cons.prems show ?case by auto
qed simp

lemma runs_down_cover: "runs_down as h \<Longrightarrow> 0 \<le> h \<Longrightarrow> (\<Union>a \<in> set as. {a_lo a..a_hi a}) = {1..h}"
proof (induction as arbitrary: h)
  case (Cons a as)
  then have "(\<Union>x \<in> set as. {a_lo x..a_hi x}) = {1..a_lo a - 1}" by simp
  with Cons.prems show ?case by auto
qed auto

lemma runs_down_disjoint:
  "runs_down as h \<Longrightarrow> i < j \<Longrightarrow> j < length as \<Longrightarrow> a_hi (as ! j) < a_lo (as ! i)"
proof (induction as arbitrary: h i j)
  case (Cons a as)
  have le: "a_hi x \<le> k" if "runs_down xs k" "x \<in> set xs" for xs k x
    using that by (induction xs arbitrary: k) fastforce+
  show ?case
  proof (cases i)
    case 0
    with Cons.prems have "as ! (j - 1) \<in> set as" by (cases j) auto
    with le [of as "a_lo a - 1"] Cons.prems 0 show ?thesis by (cases j) auto
  next
    case (Suc i')
    with Cons.prems Cons.IH [of "a_lo a - 1" i' "j - 1"] show ?thesis by (cases j) auto
  qed
qed simp

text \<open>The last head is the greatest one recorded, and the loop that looks for a block stops where it is covered.\<close>

lemma seg_hi_max: "g_hi (fold (seg_step blk) ss g) = fold max (List.map_filter head_of ss) (g_hi g)"
proof (induction ss arbitrary: g)
  case (Cons s ss)
  have "g_hi (seg_step blk s g) = (case head_of s of None \<Rightarrow> g_hi g | Some hi \<Rightarrow> max hi (g_hi g))"
    by (auto simp: seg_step_def Let_def split: option.splits)
  with Cons.IH [of "seg_step blk s g"] show ?case by (simp add: List.map_filter_simps split: option.split)
qed (simp add: List.map_filter_simps)

lemma fold_max_le: "k \<le> fold max xs k" for k :: int
  by (induction xs arbitrary: k) (auto intro: order_trans [OF max.cobounded2])

lemma absorb_loop_None: "absorb_loop n p ss = None \<longleftrightarrow> n \<le> p \<or> fold max (List.map_filter head_of ss) p < n"
proof (induction n p ss rule: absorb_loop.induct)
  case (2 n p s ss)
  show ?case
  proof (cases "head_of s")
    case None
    with 2 show ?thesis by (simp add: List.map_filter_simps)
  next
    case (Some hi)
    consider "hi \<le> p" | "p < n" "n \<le> hi" | "p < hi" "n \<le> p \<or> hi < n" by linarith
    then show ?thesis
    proof cases
      case 1
      with 2 Some show ?thesis by (simp add: List.map_filter_simps max.absorb2)
    next
      case 2
      then have "max hi p = hi" by simp
      with 2 Some fold_max_le [of hi "List.map_filter head_of ss"] show ?thesis by (simp add: List.map_filter_simps)
    next
      case 3
      then have "max hi p = hi" by simp
      with 2 3 Some fold_max_le [of hi "List.map_filter head_of ss"] show ?thesis
        by (auto simp: List.map_filter_simps)
    qed
  qed
qed (auto simp: List.map_filter_simps)

lemma absorb_loop_Some: "absorb_loop n p ss = Some a \<Longrightarrow> a_lo a \<le> n \<and> n \<le> a_hi a \<and> p < a_lo a"
  by (induction n p ss rule: absorb_loop.induct) (auto split: option.splits if_splits)

definition inside_run :: "absorption \<Rightarrow> absorption list \<Rightarrow> bool" where
  "inside_run a segs \<longleftrightarrow> (\<exists>x \<in> set segs. a_lo x \<le> a_lo a \<and> a_hi a \<le> a_hi x)"

lemma within_step:
  assumes "inside_run a (g_segs g)" "runs_down (g_segs g) (g_hi g)"
  shows "inside_run a (g_segs (seg_step blk s g))"
  using assms by (cases "g_segs g") (auto simp: inside_run_def seg_step_def Let_def split: option.splits)

lemma within_fold:
  "inside_run a (g_segs g) \<Longrightarrow> runs_down (g_segs g) (g_hi g) \<Longrightarrow> 0 \<le> g_hi g \<Longrightarrow> inside_run a (g_segs (fold (seg_step blk) ss g))"
proof (induction ss arbitrary: g)
  case (Cons s ss)
  from runs_down_step [OF Cons.prems(2,3), of blk s] within_step [OF Cons.prems(1,2), of blk s]
  show ?case using Cons.IH [of "seg_step blk s g"] Cons.prems(3) by simp
qed simp

text \<open>An advance is inside the run that was open or opened when it was recorded.\<close>

lemma advance_within:
  assumes "head_of s = Some hi" "g_hi g < hi" "runs_down (g_segs g) (g_hi g)"
  shows "inside_run \<lparr> a_lo = g_hi g + 1, a_hi = hi, a_handle = nm \<rparr> (g_segs (seg_step blk s g))"
  using assms by (cases "g_segs g") (auto simp: inside_run_def seg_step_def Let_def)

lemma absorbed_within:
  "absorb_loop n (g_hi g) ss = Some a \<Longrightarrow> runs_down (g_segs g) (g_hi g) \<Longrightarrow> 0 \<le> g_hi g \<Longrightarrow>
   inside_run a (g_segs (fold (seg_step blk) ss g))"
proof (induction ss arbitrary: g)
  case (Cons s ss)
  note step = runs_down_step [OF Cons.prems(2,3), of blk s]
  show ?case
  proof (cases "head_of s")
    case None
    with Cons show ?thesis by (simp add: seg_step_def)
  next
    case (Some hi)
    show ?thesis
    proof (cases "hi \<le> g_hi g")
      case True
      with Cons Some show ?thesis by (simp add: seg_step_def)
    next
      case False
      then have h: "g_hi (seg_step blk s g) = hi" using Some by (simp add: seg_step_def Let_def)
      show ?thesis
      proof (cases "g_hi g < n \<and> n \<le> hi")
        case True
        with Cons.prems(1) Some False have a: "a = \<lparr> a_lo = g_hi g + 1, a_hi = hi, a_handle = s_handle s \<rparr>" by simp
        have "inside_run a (g_segs (seg_step blk s g))" unfolding a by (rule advance_within) (use Some False Cons.prems(2) in auto)
        with step Cons.prems(3) within_fold show ?thesis by simp
      next
        case False
        with Cons.prems(1) Some \<open>\<not> hi \<le> g_hi g\<close> have "absorb_loop n (g_hi (seg_step blk s g)) ss = Some a"
          by (auto simp: h split: if_splits)
        from Cons.IH [OF this] step Cons.prems(3) show ?thesis by simp
      qed
    qed
  qed
qed simp

lemma spine_verdict_Some:
  "verify_spine cfg vrg vra receipt = (True, nt, mo) \<Longrightarrow> \<exists>m hi. mo = Some m \<and> rm_hi m = Some hi"
  by (auto simp: verify_spine_def split: if_splits host_result.splits option.splits sum.splits dest!: read_spine_accepts)

section \<open>Properties\<close>

text \<open>The advertised head never promises more than the stored bytes prove.\<close>

definition spine_backed :: "config \<Rightarrow> (string \<Rightarrow> host_result) \<Rightarrow> (string \<Rightarrow> host_result) \<Rightarrow> board \<Rightarrow> bool" where
  "spine_backed cfg vrg vra b \<longleftrightarrow> (\<forall>head. spine b = Some head \<longrightarrow>
     (\<exists>r nt m. spine_bin b = Some r \<and> verify_spine cfg vrg vra r = (True, nt, Some m) \<and> m_hi head \<le> the (rm_hi m)))"

text \<open>
  Claim C12. The spine only moves forward and survives a crash: an accepted head is higher than the one
  before it, and in each of the states the writes go through the advertised head is backed by the bytes on
  disk, which prove at least as many blocks, and is not lower than before. No coverage, row or credit
  changes.
\<close>

theorem spine_advances_crash_safe:
  assumes "submit_spine cfg w vrg vra log_ok body b = (Inr head, bs)" and "spine_backed cfg vrg vra b"
    and "b' \<in> set bs"
  shows "spine_backed cfg vrg vra b'
    \<and> (\<forall>cur. spine b = Some cur \<longrightarrow> m_hi cur < m_hi head \<and> (\<exists>h. spine b' = Some h \<and> m_hi cur \<le> m_hi h))
    \<and> spine (last bs) = Some head \<and> map_option (w_sha256 w) (spine_bin (last bs)) = Some (m_sha256 head)
    \<and> vranges b' = vranges b \<and> ranges b' = ranges b \<and> contributors b' = contributors b \<and> proofs b' = proofs b"
proof -
  from submit_spine_Inr [OF assms(1)] obtain receipt nt m where s: "spine_check cfg w vrg vra body b = Inr (receipt, nt, m)"
      "head = new_head w (spine_handle cfg body b) body receipt m" "bs = spine_writes log_ok body receipt head b"
      "\<forall>cur. spine b = Some cur \<longrightarrow> m_hi cur < the (rm_hi m)"
    by blast
  from spine_check_Inr [OF s(1)] spine_verdict_Some obtain hi where
      v: "verify_spine cfg vrg vra receipt = (True, nt, Some m)" "rm_hi m = Some hi"
    by (metis option.sel)
  have h: "m_hi head = hi" "m_sha256 head = w_sha256 w receipt" by (simp_all add: s(2) new_head_def v(2))
  from assms(3) have b': "spine_bin b' = Some receipt" "spine b' = spine b \<or> spine b' = Some head"
      "vranges b' = vranges b" "ranges b' = ranges b" "contributors b' = contributors b" "proofs b' = proofs b"
    by (cases log_ok; fastforce simp: s(3) spine_writes_def Let_def)+
  have "spine_backed cfg vrg vra b'"
    unfolding spine_backed_def using b'(1,2) v h(1) s(4) by fastforce
  moreover have "spine (last bs) = Some head" "spine_bin (last bs) = Some receipt"
    by (simp_all add: s(3) spine_writes_def Let_def)
  ultimately show ?thesis using b' h s(4) v(2) by (auto simp: less_imp_le)
qed

definition any_host :: "string \<Rightarrow> host_result" where
  "any_host r = Ran 0 (host_line 1 9 ''aa'' ''bb'' 3 ''9'' ''cc'' ''dd'' True @ [CHR 0x0A]) []"

definition spine_of :: spine_body where
  "spine_of = \<lparr> sb_pubkey = ''ab'', sb_sig = [], sb_receipt = b64encode ''ok'', sb_handle = ''ann'' \<rparr>"

theorem spine_advances_crash_safe_witness:
  "\<exists>head bs. submit_spine rotate_config example_world any_host any_host True spine_of empty_board = (Inr head, bs)
     \<and> m_hi head = 9 \<and> spine (last bs) = Some head"
proof -
  let ?r = "submit_spine rotate_config example_world any_host any_host True spine_of empty_board"
  have c: "map_sum (\<lambda>_. ()) m_hi (fst ?r) = Inr 9" "length (snd ?r) = 3" by code_simp+
  then have "snd ?r \<noteq> []" by (metis list.size(3) zero_neq_numeral)
  with c(1) obtain head where h: "fst ?r = Inr head" "m_hi head = 9" "snd ?r \<noteq> []" by (cases "fst ?r") auto
  define bs where "bs = snd ?r"
  have r: "?r = (Inr head, bs)" "m_hi head = 9" "bs \<noteq> []" using h by (simp_all add: bs_def prod_eq_iff)
  have "spine_backed rotate_config any_host any_host empty_board" by (simp add: spine_backed_def)
  from spine_advances_crash_safe [OF r(1) this, of "hd bs"] r show ?thesis by auto
qed

text \<open>
  Every block of the spine has one owner. The runs published split the blocks up to the greatest
  recorded head, without gap or overlap, in order; a block has an advance on record exactly when it is one
  of these blocks, and the advance contains it and lies inside one run.
\<close>

theorem spine_segments_partition:
  "let segs = fst (spine_segments blk b); head = fold max (List.map_filter head_of (spine_rows b)) 0 in
    (\<Union>a \<in> set segs. {a_lo a..a_hi a}) = {1..head}
    \<and> (\<forall>i j. i < j \<longrightarrow> j < length segs \<longrightarrow> a_hi (segs ! i) < a_lo (segs ! j))
    \<and> (\<forall>n. case spine_absorption b n of None \<Rightarrow> n < 1 \<or> head < n
         | Some a \<Rightarrow> 1 \<le> n \<and> n \<le> head \<and> a_lo a \<le> n \<and> n \<le> a_hi a \<and> inside_run a segs)"
proof -
  let ?start = "\<lparr> g_segs = [], g_hi = 0, g_pk = [], g_first = None \<rparr>"
  let ?g = "fold (seg_step blk) (spine_rows b) ?start"
  let ?head = "fold max (List.map_filter head_of (spine_rows b)) 0"
  have run: "runs_down (g_segs ?g) (g_hi ?g)" "0 \<le> g_hi ?g"
    using runs_down_fold [of ?start blk "spine_rows b"] by simp_all
  have head: "g_hi ?g = ?head" by (simp add: seg_hi_max)
  have segs: "fst (spine_segments blk b) = rev (g_segs ?g)" by (simp add: spine_segments_def Let_def)
  have cover: "(\<Union>a \<in> set (rev (g_segs ?g)). {a_lo a..a_hi a}) = {1..?head}"
    using runs_down_cover [OF run] head by simp
  have disj: "a_hi (rev (g_segs ?g) ! i) < a_lo (rev (g_segs ?g) ! j)" if "i < j" "j < length (rev (g_segs ?g))" for i j
    using runs_down_disjoint [OF run(1), of "length (g_segs ?g) - Suc j" "length (g_segs ?g) - Suc i"] that
    by (simp add: rev_nth)
  have absorb: "case spine_absorption b n of None \<Rightarrow> n < 1 \<or> ?head < n
      | Some a \<Rightarrow> 1 \<le> n \<and> n \<le> ?head \<and> a_lo a \<le> n \<and> n \<le> a_hi a \<and> inside_run a (rev (g_segs ?g))" for n
  proof (cases "spine_absorption b n")
    case None
    with absorb_loop_None [of n 0 "spine_rows b"] show ?thesis by (auto simp: spine_absorption_def)
  next
    case (Some a)
    then have a: "absorb_loop n (g_hi ?start) (spine_rows b) = Some a" by (simp add: spine_absorption_def)
    from absorbed_within [OF a, of blk] have "inside_run a (g_segs ?g)" by simp
    then have "inside_run a (rev (g_segs ?g))" by (simp add: inside_run_def)
    moreover from a absorb_loop_None [of n 0 "spine_rows b"] have "1 \<le> n \<and> n \<le> ?head" by auto
    ultimately show ?thesis using Some absorb_loop_Some [OF a] by simp
  qed
  show ?thesis unfolding Let_def segs using cover disj absorb by blast
qed

definition advance :: "string \<Rightarrow> string \<Rightarrow> time \<Rightarrow> submission" where
  "advance rid pk t = \<lparr> s_range_id = rid, s_pubkey = pk, s_handle = pk, s_receipt_sha = [], s_sig = [], s_verified = True,
     s_note = [], s_ts = t \<rparr>"

definition three_advances :: board where
  "three_advances = empty_board\<lparr>submissions := [advance ''spine:1-9'' ''bb'' 4, advance ''spine:1-3'' ''aa'' 1,
     advance ''5-5'' ''cc'' 3, advance ''spine:1-5'' ''aa'' 2]\<rparr>"

theorem spine_segments_partition_witness:
  "(\<Union>a \<in> set (fst (spine_segments [] three_advances)). {a_lo a..a_hi a}) = {1..9}
   \<and> a_hi (fst (spine_segments [] three_advances) ! 0) < a_lo (fst (spine_segments [] three_advances) ! 1)"
proof -
  have h: "fold max (List.map_filter head_of (spine_rows three_advances)) 0 = 9" by code_simp
  have l: "length (fst (spine_segments [] three_advances)) = 2" by code_simp
  from spine_segments_partition [of "[]" three_advances] l show ?thesis unfolding h Let_def by simp
qed

end
