(* ===== verification/Decimal_Text.thy ===== *)
theory Decimal_Text
  imports Prelude
begin

text \<open>
  Numbers in text: \<open>Decimal(text)\<close> of a payment answer, and \<open>float(text)\<close> of a field a card or a log line
  reports. A decimal stands for the rational it spells; the rounding of either type is left out.
\<close>

section \<open>Plain decimals\<close>

text \<open>A plain decimal with an optional exponent, as a rational; other spellings (\<open>nan\<close>, \<open>inf\<close>) are None.\<close>

definition split_at :: "(char \<Rightarrow> bool) \<Rightarrow> string \<Rightarrow> string \<times> string option" where
  "split_at p s = (case dropWhile (\<lambda>c. \<not> p c) s of [] \<Rightarrow> (s, None) | _ # t \<Rightarrow> (takeWhile (\<lambda>c. \<not> p c) s, Some t))"

fun digits_value :: "int \<Rightarrow> string \<Rightarrow> int option" where
  "digits_value a [] = Some a"
| "digits_value a (c # s) = (case digit_val c of None \<Rightarrow> None | Some d \<Rightarrow> digits_value (10 * a + int d) s)"

definition py_sign :: "string \<Rightarrow> bool \<times> string" where
  "py_sign s = (case s of c # t \<Rightarrow> if c = CHR ''-'' then (True, t) else if c = CHR ''+'' then (False, t) else (False, s) | [] \<Rightarrow> (False, []))"

definition dec_exp :: "string option \<Rightarrow> int option" where
  "dec_exp e = (case e of None \<Rightarrow> Some 0 | Some s \<Rightarrow>
     (let (neg, d) = py_sign s in if d = [] then None else map_option (\<lambda>n. if neg then - n else n) (digits_value 0 d)))"

definition pow10 :: "int \<Rightarrow> rat" where
  "pow10 e = (if e \<ge> 0 then 10 ^ nat e else 1 / 10 ^ nat (- e))"

definition decimal :: "string \<Rightarrow> rat option" where
  "decimal txt =
     (let (neg, s) = py_sign (filter (\<lambda>c. c \<noteq> CHR ''_'') (py_strip txt));
          (mant, e) = split_at (\<lambda>c. c = CHR ''e'' \<or> c = CHR ''E'') s;
          (ip, fo) = split_at (\<lambda>c. c = CHR ''.'') mant; fp = or_empty fo
      in if ip @ fp = [] then None
         else case (digits_value 0 (ip @ fp), dec_exp e) of
           (Some n, Some k) \<Rightarrow> Some ((if neg then -1 else 1) * of_int n * pow10 (k - int (length fp)))
         | _ \<Rightarrow> None)"

section \<open>\<open>float(text)\<close>\<close>

text \<open>
  What \<open>float\<close> makes of a text: surrounding blanks and single underscores between two digits are allowed,
  \<open>nan\<close> and the infinities are values of their own. None where it raises \<open>ValueError\<close>.
\<close>

datatype py_num = Fin rat | PInf | NInf | NaN

fun underscores_ok :: "bool \<Rightarrow> string \<Rightarrow> bool" where
  "underscores_ok p [] = True"
| "underscores_ok p (c # cs) =
     (if c = CHR ''_'' then p \<and> (case cs of [] \<Rightarrow> False | d # _ \<Rightarrow> digit_val d \<noteq> None) \<and> underscores_ok False cs
      else underscores_ok (digit_val c \<noteq> None) cs)"

definition py_float :: "string \<Rightarrow> py_num option" where
  "py_float txt =
     (let s = py_strip txt; (neg, t) = py_sign s; w = lower t
      in if w = ''inf'' \<or> w = ''infinity'' then Some (if neg then NInf else PInf)
         else if w = ''nan'' then Some NaN
         else if underscores_ok False s then map_option Fin (decimal s) else None)"

text \<open>Comparisons: every comparison with NaN is false.\<close>

fun num_less :: "py_num \<Rightarrow> py_num \<Rightarrow> bool" where
  "num_less NaN _ = False"
| "num_less _ NaN = False"
| "num_less PInf _ = False"
| "num_less _ NInf = False"
| "num_less NInf _ = True"
| "num_less _ PInf = True"
| "num_less (Fin x) (Fin y) = (x < y)"

definition num_eq :: "py_num \<Rightarrow> py_num \<Rightarrow> bool" where
  "num_eq x y \<longleftrightarrow> x = y \<and> x \<noteq> NaN"

lemma num_less_fin [simp]: "num_less (Fin x) (Fin y) \<longleftrightarrow> x < y"
  by simp

lemma num_eq_fin [simp]: "num_eq (Fin x) (Fin y) \<longleftrightarrow> x = y"
  by (simp add: num_eq_def)

end
