(* ===== verification/Payments.thy ===== *)
theory Payments
  imports Spine Decimal_Text
begin

text \<open>
  Sponsoring a span and paying for it (\<open>coordinator/server.py\<close>: \<open>_clean_sponsor_name\<close>, \<open>_sponsor_span\<close>,
  \<open>sponsor_quote\<close>, \<open>sponsor_request\<close>, \<open>_sponsor_request_invoice\<close>, \<open>_sats\<close>, \<open>sponsor_payments_poll\<close>,
  \<open>sponsor_btc_usd\<close>, \<open>_parse_btc_usd\<close>). The payment server is outside the repository: what it answers to a
  call is a parameter, None where the call fails. The random token is a parameter too. The lemmas show what
  an accepted request guarantees about its span, exactly what a poll does to a sponsorship, and that a
  sponsorship counts as paid only when settled payments cover its minimum.
\<close>

section \<open>Settings\<close>

record sponsor_config =
  SP_OPEN :: bool
  SP_MAX_BLOCKS :: int
  SP_BANDS :: "(int \<times> int \<times> int) list option"
  SP_PAYMENTS :: bool
  SP_BTC_USD :: "rat option"
  SP_INVOICE_MINUTES :: int
  SP_INVOICE_WATCH :: rat
  SP_CONFIRMING_HOLD :: rat
  SP_UNPAID_HOLD_MAX :: int
  SP_OPEN_PER_IP :: nat
  SP_RATE_TTL :: rat
  SP_RATE_STALE :: rat

definition default_sponsor_config :: sponsor_config where
  "default_sponsor_config = \<lparr> SP_OPEN = False, SP_MAX_BLOCKS = 1000, SP_BANDS = Some SPONSOR_PRICE_BANDS_DEFAULT,
     SP_PAYMENTS = False, SP_BTC_USD = None, SP_INVOICE_MINUTES = 30, SP_INVOICE_WATCH = 259200,
     SP_CONFIRMING_HOLD = 7200, SP_UNPAID_HOLD_MAX = 5000, SP_OPEN_PER_IP = 3, SP_RATE_TTL = 60, SP_RATE_STALE = 600 \<rparr>"

section \<open>Amounts\<close>

text \<open>\<open>_sats\<close>: an amount in BTC as whole sats, rounded toward zero; 0 where it cannot be read.\<close>

definition sats :: "json \<Rightarrow> int" where
  "sats v = (case v of JInt i \<Rightarrow> i * 100000000 | JFloat r \<Rightarrow> py_trunc (r * 100000000)
     | JStr s \<Rightarrow> (case decimal s of None \<Rightarrow> 0 | Some r \<Rightarrow> py_trunc (r * 100000000)) | _ \<Rightarrow> 0)"

definition parse_btc_usd :: "json \<Rightarrow> rat option" where
  "parse_btc_usd raw = (case (case raw of JInt i \<Rightarrow> Some (of_int i) | JBool t \<Rightarrow> Some (if t then 1 else 0) | JFloat r \<Rightarrow> Some r
       | JStr s \<Rightarrow> decimal s | _ \<Rightarrow> None) of None \<Rightarrow> None | Some v \<Rightarrow> if v \<le> 0 then None else Some v)"

text \<open>The cached store rate: the answer of \<open>GET /rates\<close> is the list of rows, None where the call fails.\<close>

record rate_cache =
  rc_at :: time
  rc_ok_at :: time
  rc_rate :: "rat option"

definition sponsor_btc_usd :: "sponsor_config \<Rightarrow> time \<Rightarrow> json list option \<Rightarrow> rate_cache \<Rightarrow> rat option \<times> rate_cache" where
  "sponsor_btc_usd sc now answer rc =
     (if \<not> SP_PAYMENTS sc then (SP_BTC_USD sc, rc)
      else (let rc1 =
         (if now - rc_at rc \<ge> SP_RATE_TTL sc then
            (case answer of None \<Rightarrow> rc\<lparr>rc_at := now\<rparr>
             | Some rows \<Rightarrow>
                 (case Option.bind (find (\<lambda>r. jget ''currencyPair'' r = JStr ''BTC_USD'') rows) (\<lambda>r. parse_btc_usd (jget ''rate'' r)) of
                    None \<Rightarrow> rc\<lparr>rc_at := now\<rparr>
                  | Some v \<Rightarrow> \<lparr> rc_at = now, rc_ok_at = now, rc_rate = Some v \<rparr>))
          else rc)
        in if rc_rate rc1 \<noteq> None \<and> now - rc_ok_at rc1 \<le> SP_RATE_STALE sc then (rc_rate rc1, rc1) else (None, rc1)))"

section \<open>The span and the quote\<close>

definition hidden_char :: "char \<Rightarrow> bool" where
  "hidden_char c = (let k = (of_char c :: nat) in k < 32 \<or> (127 \<le> k \<and> k \<le> 159) \<or> k = 173)"

fun join_words :: "string list \<Rightarrow> string" where
  "join_words [] = []"
| "join_words [u] = u"
| "join_words (u # us) = u @ CHR '' '' # join_words us"

definition clean_sponsor_name :: "config \<Rightarrow> json \<Rightarrow> string option" where
  "clean_sponsor_name cfg v = (case v of
     JStr s \<Rightarrow> (let t = join_words (py_words s) in
        if \<not> (1 \<le> length t \<and> length t \<le> SPONSOR_NAME_MAX cfg) \<or> list_ex hidden_char t then None else Some t)
   | _ \<Rightarrow> None)"

datatype span_error = SE_NotHeights | SE_Genesis genesis_error | SE_Bounds int | SE_TooMany int | SE_Anchored | SE_Proven int
  | SE_Claimed int | SE_Sponsored int | SE_Pending int

definition first_by :: "('a \<Rightarrow> int) \<Rightarrow> 'a list \<Rightarrow> 'a option" where
  "first_by f xs = (case sort_key f xs of [] \<Rightarrow> None | x # _ \<Rightarrow> Some x)"

definition sponsor_span :: "config \<Rightarrow> sponsor_config \<Rightarrow> world \<Rightarrow> board \<Rightarrow> json \<Rightarrow> json \<Rightarrow> span_error + (int \<times> int)" where
  "sponsor_span cfg sc w b jlo jhi =
     (case json_int jlo of None \<Rightarrow> Inl SE_NotHeights | Some lo \<Rightarrow>
      case (if jhi = JNull then Some lo else json_int jhi) of None \<Rightarrow> Inl SE_NotHeights | Some hi \<Rightarrow>
      case genesis_refusal lo hi ''Sponsor'' of Some e \<Rightarrow> Inl (SE_Genesis e) | None \<Rightarrow>
        (let tip = chain_tip cfg w; now = w_now w in
         if lo < 1 \<or> hi < lo \<or> hi > tip then Inl (SE_Bounds tip)
         else if hi - lo + 1 > SP_MAX_BLOCKS sc then Inl (SE_TooMany (SP_MAX_BLOCKS sc))
         else if hi \<le> spine_floor b then Inl SE_Anchored
         else case first_by v_lo (filter (\<lambda>r. v_lo r \<le> hi \<and> v_hi r \<ge> lo) (vranges b)) of Some r \<Rightarrow> Inl (SE_Proven (max (v_lo r) lo))
         | None \<Rightarrow>
         case first_by r_lo (filter (\<lambda>r. r_lo r \<le> hi \<and> r_hi r \<ge> lo \<and> live_claim cfg now r) (ranges b)) of Some r \<Rightarrow> Inl (SE_Claimed (r_lo r))
         | None \<Rightarrow>
         case sponsor_holds b (Some (lo, hi)) of s # _ \<Rightarrow> Inl (SE_Sponsored (max (sp_lo s) lo))
         | [] \<Rightarrow>
         case sponsor_pending b now (Some (lo, hi)) of s # _ \<Rightarrow> Inl (SE_Pending (max (sp_lo s) lo))
         | [] \<Rightarrow> Inr (lo, hi)))"

record quote =
  q_lo :: int
  q_hi :: int
  q_min_usd :: "int option"
  q_min_sats :: "int option"
  q_rate :: "rat option"
  q_waiting :: nat

definition sponsor_quote :: "config \<Rightarrow> sponsor_config \<Rightarrow> world \<Rightarrow> rat option \<Rightarrow> board \<Rightarrow> json \<Rightarrow> json \<Rightarrow> span_error + quote" where
  "sponsor_quote cfg sc w rate b jlo jhi =
     (case sponsor_span cfg sc w b jlo jhi of Inl e \<Rightarrow> Inl e
      | Inr (lo, hi) \<Rightarrow>
          (let usd = sponsor_min_usd (SP_BANDS sc) lo hi
           in Inr \<lparr> q_lo = lo, q_hi = hi, q_min_usd = usd, q_min_sats = sponsor_min_sats usd rate, q_rate = rate,
                    q_waiting = length (filter (\<lambda>h. bundle_path w h = None) [lo..hi]) \<rparr>))"

section \<open>A request\<close>

text \<open>The database, the last id the table has given out, and \<open>_open_invoices_by_ip\<close>.\<close>

record pay_state =
  ps_board :: board
  ps_seq :: int
  ps_ips :: "(string \<times> (int \<times> time) list) list"

record request_body =
  q_jlo :: json
  q_jhi :: json
  q_name :: json
  q_amount :: json
  q_ip :: string

datatype request_error = RE_Closed | RE_Span span_error | RE_Name | RE_NoMinimum | RE_NoPrice | RE_NotWhole int int | RE_BelowMinimum int int
  | RE_InvoicesOpen | RE_TooManyUnpaid | RE_PaymentsDown

definition new_sponsorship :: "int \<Rightarrow> int \<Rightarrow> int \<Rightarrow> string \<Rightarrow> time \<Rightarrow> int \<Rightarrow> int \<Rightarrow> int \<Rightarrow> string \<Rightarrow> sponsorship" where
  "new_sponsorship sid lo hi name now usd ms pledged th = \<lparr> sp_id = sid, sp_lo = lo, sp_hi = hi, sp_name = name,
     sp_status = Requested, sp_created_at = now, sp_min_usd = Some usd, sp_min_sats = Some ms, sp_pledged_sats = Some pledged,
     sp_paid_sats = None, sp_invoice_id = None, sp_paid_at = None, sp_proven_at = None, sp_token_hash = Some th, sp_note = None,
     sp_checkout_url = None, sp_invoice_expires_at = None, sp_hold_until = None, sp_watch_until = None, sp_invoice_status = None \<rparr>"

definition insert_sponsorship :: "(int \<Rightarrow> sponsorship) \<Rightarrow> pay_state \<Rightarrow> int \<times> pay_state" where
  "insert_sponsorship mk ps = (let sid = ps_seq ps + 1; b = ps_board ps in
     (sid, ps\<lparr>ps_seq := sid, ps_board := b\<lparr>sponsorships := sponsorships b @ [mk sid]\<rparr>\<rparr>))"

definition invoiced :: "string \<Rightarrow> string \<Rightarrow> time \<Rightarrow> time \<Rightarrow> sponsorship \<Rightarrow> sponsorship" where
  "invoiced ivid link expires watch s = s\<lparr>sp_status := Invoiced, sp_invoice_id := Some ivid, sp_checkout_url := Some link,
     sp_invoice_expires_at := Some expires, sp_hold_until := Some expires, sp_watch_until := Some (expires + watch),
     sp_invoice_status := Some ''New''\<rparr>"

text \<open>
  The payments half: \<open>open_invoice\<close> is the answer to \<open>POST /invoices\<close> for the amount and the order id (its
  id, its checkout link and the expiry time when given).
\<close>

definition sponsor_request_invoice :: "config \<Rightarrow> sponsor_config \<Rightarrow> world \<Rightarrow> (int \<Rightarrow> string \<Rightarrow> (string \<times> string \<times> time option) option) \<Rightarrow>
    string \<Rightarrow> int \<Rightarrow> int \<Rightarrow> string \<Rightarrow> int \<Rightarrow> int \<Rightarrow> int \<Rightarrow> string \<Rightarrow> pay_state \<Rightarrow> (request_error + int) \<times> pay_state" where
  "sponsor_request_invoice cfg sc w open_invoice ip lo hi name usd ms amount th ps =
     (let now = w_now w in
      case sponsor_span cfg sc w (ps_board ps) (JInt lo) (JInt hi) of Inl e \<Rightarrow> (Inl (RE_Span e), ps)
      | Inr _ \<Rightarrow>
          (let ips = filter (\<lambda>(k, v). \<not> list_all (\<lambda>(_, t). t \<le> now) v) (ps_ips ps);
               mine = filter (\<lambda>(_, t). t > now) (case map_of ips ip of None \<Rightarrow> [] | Some v \<Rightarrow> v);
               ps1 = ps\<lparr>ps_ips := ips\<rparr>
           in if ip \<noteq> [] \<and> SP_OPEN_PER_IP sc > 0 \<and> length mine \<ge> SP_OPEN_PER_IP sc then (Inl RE_InvoicesOpen, ps1)
              else if sum_list (map (\<lambda>s. sp_hi s - sp_lo s + 1) (sponsor_pending (ps_board ps) now None)) + (hi - lo + 1)
                   > SP_UNPAID_HOLD_MAX sc then (Inl RE_TooManyUnpaid, ps1)
              else (let (sid, ps2) = insert_sponsorship (\<lambda>i. new_sponsorship i lo hi name now usd ms amount th) ps1; b = ps_board ps2 in
                case open_invoice amount (''hazync-sponsorship-'' @ int_str sid) of
                  None \<Rightarrow> (Inl RE_PaymentsDown,
                     ps2\<lparr>ps_board := b\<lparr>sponsorships := filter (\<lambda>s. \<not> (sp_id s = sid \<and> sp_status s = Requested)) (sponsorships b)\<rparr>\<rparr>)
                | Some (ivid, link, tm) \<Rightarrow>
                    (let expires = (case tm of None \<Rightarrow> now + of_int (SP_INVOICE_MINUTES sc * 60) | Some t \<Rightarrow>
                               if t = 0 then now + of_int (SP_INVOICE_MINUTES sc * 60) else t)
                     in (Inr sid, ps2\<lparr>ps_board := b\<lparr>sponsorships := upd_where (\<lambda>s. sp_id s = sid)
                              (invoiced ivid link expires (SP_INVOICE_WATCH sc)) (sponsorships b)\<rparr>,
                            ps_ips := (if ip \<noteq> [] then AList.update ip (mine @ [(sid, expires)]) ips else ips)\<rparr>)))))"

definition sponsor_request :: "config \<Rightarrow> sponsor_config \<Rightarrow> world \<Rightarrow> rat option \<Rightarrow> (int \<Rightarrow> string \<Rightarrow> (string \<times> string \<times> time option) option) \<Rightarrow>
    string \<Rightarrow> request_body \<Rightarrow> pay_state \<Rightarrow> (request_error + int) \<times> pay_state" where
  "sponsor_request cfg sc w rate open_invoice token body ps =
     (if \<not> SP_OPEN sc then (Inl RE_Closed, ps)
      else case sponsor_span cfg sc w (ps_board ps) (q_jlo body) (q_jhi body) of Inl e \<Rightarrow> (Inl (RE_Span e), ps)
      | Inr (lo, hi) \<Rightarrow>
      case clean_sponsor_name cfg (q_name body) of None \<Rightarrow> (Inl RE_Name, ps) | Some name \<Rightarrow>
      case sponsor_min_usd (SP_BANDS sc) lo hi of None \<Rightarrow> (Inl RE_NoMinimum, ps) | Some usd \<Rightarrow>
      case sponsor_min_sats (Some usd) rate of None \<Rightarrow> (Inl RE_NoPrice, ps) | Some ms \<Rightarrow>
      (case q_amount body of
         JInt amount \<Rightarrow>
           if amount < 1 then (Inl (RE_NotWhole ms usd), ps)
           else if amount < ms then (Inl (RE_BelowMinimum ms usd), ps)
           else (let th = w_sha256 w token in
             if SP_PAYMENTS sc then sponsor_request_invoice cfg sc w open_invoice (q_ip body) lo hi name usd ms amount th ps
             else (let (sid, ps1) = insert_sponsorship (\<lambda>i. new_sponsorship i lo hi name (w_now w) usd ms amount th) ps in (Inr sid, ps1)))
       | _ \<Rightarrow> (Inl (RE_NotWhole ms usd), ps)))"

section \<open>The poll\<close>

record payment =
  pm_id :: string
  pm_method :: string
  pm_value :: json
  pm_status :: string
  pm_received :: "time option"

text \<open>What the payment server says of one invoice; None where either of the two calls fails.\<close>

record invoice_answer =
  ia_status :: string
  ia_additional :: string
  ia_payments :: "payment list"

definition settled_sats :: "payment list \<Rightarrow> int" where
  "settled_sats ps = sum_list (map (\<lambda>p. sats (pm_value p)) (filter (\<lambda>p. pm_status p = ''Settled'') ps))"

text \<open>The new status and hold of a sponsorship.\<close>

definition poll_verdict :: "sponsor_config \<Rightarrow> time \<Rightarrow> invoice_answer \<Rightarrow> sponsorship \<Rightarrow> sp_status \<times> time option" where
  "poll_verdict sc now a r =
     (let settled = settled_sats (ia_payments a);
          confirming = list_ex (\<lambda>p. pm_status p = ''Processing'') (ia_payments a)
      in if settled \<ge> the (coalesce (sp_min_sats r) (Some 0)) \<and> settled > 0 then (Paid, sp_hold_until r)
         else if confirming \<or> ia_status a = ''Processing'' then
           (sp_status r, if sp_status r = Invoiced
              then Some (max (the (coalesce (sp_hold_until r) (Some 0))) (now + SP_CONFIRMING_HOLD sc)) else sp_hold_until r)
         else if ia_status a \<in> {''Expired'', ''Invalid'', ''Settled''} then
           (if settled > 0 then Underpaid else if sp_status r = Invoiced then Expired else sp_status r, sp_hold_until r)
         else (sp_status r, sp_hold_until r))"

definition record_payment :: "int \<Rightarrow> time \<Rightarrow> payment \<Rightarrow> sponsor_payment list \<Rightarrow> sponsor_payment list" where
  "record_payment sid now p t =
     (if list_ex (\<lambda>x. p_sponsorship x = sid \<and> p_id x = pm_id p) t
      then upd_where (\<lambda>x. p_sponsorship x = sid \<and> p_id x = pm_id p)
             (\<lambda>x. x\<lparr>p_sats := Some (sats (pm_value p)), p_status := pm_status p, p_seen_at := now\<rparr>) t
      else t @ [\<lparr> p_sponsorship = sid, p_id = pm_id p, p_method = Some (pm_method p), p_sats = Some (sats (pm_value p)),
                  p_status = pm_status p, p_received_at = pm_received p, p_seen_at = now \<rparr>])"

definition some_sats :: "int \<Rightarrow> int option" where
  "some_sats n = (if n = 0 then None else Some n)"

definition at_status :: "sponsorship \<Rightarrow> sponsorship \<Rightarrow> bool" where
  "at_status r s \<longleftrightarrow> sp_id s = sp_id r \<and> sp_status s = sp_status r"

definition poll_row :: "sponsor_config \<Rightarrow> time \<Rightarrow> (string \<Rightarrow> invoice_answer option) \<Rightarrow> sponsorship \<Rightarrow> (int \<times> sp_status) list \<times> board \<Rightarrow>
    (int \<times> sp_status) list \<times> board" where
  "poll_row sc now ask r acc =
     (let (moved, b) = acc in
      case Option.bind (sp_invoice_id r) ask of None \<Rightarrow> (moved, b)
      | Some a \<Rightarrow>
          if ia_additional a = ''Marked'' then (moved, b)
          else (let (new, hold) = poll_verdict sc now a r; settled = settled_sats (ia_payments a);
                    b1 = b\<lparr>sponsor_payments := fold (record_payment (sp_id r) now) (ia_payments a) (sponsor_payments b)\<rparr>
                in if new = Paid then
                     (let b2 = b1\<lparr>sponsorships := upd_where (at_status r)
                            (\<lambda>s. s\<lparr>sp_status := Paid, sp_paid_sats := Some settled, sp_paid_at := Some now,
                                   sp_invoice_status := Some (ia_status a)\<rparr>) (sponsorships b1)\<rparr>
                      in if list_ex (at_status r) (sponsorships b)
                         then (moved @ [(sp_id r, Paid)], snd (sponsor_mark_proven b2 (sp_lo r) (sp_hi r) now)) else (moved, b2))
                   else if new \<noteq> sp_status r then
                     (if list_ex (at_status r) (sponsorships b) then moved @ [(sp_id r, new)] else moved,
                      b1\<lparr>sponsorships := upd_where (at_status r)
                            (\<lambda>s. s\<lparr>sp_status := new, sp_paid_sats := some_sats settled, sp_invoice_status := Some (ia_status a)\<rparr>)
                            (sponsorships b1)\<rparr>)
                   else (moved, b1\<lparr>sponsorships := upd_where (at_status r)
                            (\<lambda>s. s\<lparr>sp_hold_until := hold, sp_invoice_status := Some (ia_status a), sp_paid_sats := some_sats settled\<rparr>)
                            (sponsorships b1)\<rparr>)))"

definition polled :: "time \<Rightarrow> sponsorship \<Rightarrow> bool" where
  "polled now s \<longleftrightarrow> sp_status s \<in> {Invoiced, Expired, Underpaid} \<and> sp_invoice_id s \<noteq> None
     \<and> the (coalesce (sp_watch_until s) (Some 0)) > now"

definition sponsor_payments_poll :: "sponsor_config \<Rightarrow> time \<Rightarrow> (string \<Rightarrow> invoice_answer option) \<Rightarrow> board \<Rightarrow> (int \<times> sp_status) list \<times> board" where
  "sponsor_payments_poll sc now ask b =
     (if \<not> SP_PAYMENTS sc then ([], b) else fold (poll_row sc now ask) (filter (polled now) (sponsorships b)) ([], b))"

section \<open>Lemmas\<close>

lemma first_by_None [simp]: "first_by f xs = None \<longleftrightarrow> xs = []"
  by (auto simp: first_by_def split: list.splits dest: arg_cong [of _ "[]" length])

text \<open>A span that passes is free: no proof, live claim, hold or open invoice meets it.\<close>

lemma sponsor_span_Inr:
  assumes "sponsor_span cfg sc w b jlo jhi = Inr (lo, hi)"
  shows "1 \<le> lo \<and> lo \<le> hi \<and> hi \<le> chain_tip cfg w \<and> hi - lo + 1 \<le> SP_MAX_BLOCKS sc \<and> spine_floor b < hi
    \<and> {lo..hi} \<inter> covered b = {}
    \<and> (\<forall>r \<in> set (ranges b). live_claim cfg (w_now w) r \<longrightarrow> \<not> (r_lo r \<le> hi \<and> lo \<le> r_hi r))
    \<and> (\<forall>s \<in> set (sponsorships b). is_hold s \<or> is_pending (w_now w) s \<longrightarrow> \<not> sp_meets lo hi s)"
proof -
  from assms have c: "1 \<le> lo" "lo \<le> hi" "hi \<le> chain_tip cfg w" "hi - lo + 1 \<le> SP_MAX_BLOCKS sc" "spine_floor b < hi"
      "filter (\<lambda>r. v_lo r \<le> hi \<and> v_hi r \<ge> lo) (vranges b) = []"
      "filter (\<lambda>r. r_lo r \<le> hi \<and> r_hi r \<ge> lo \<and> live_claim cfg (w_now w) r) (ranges b) = []"
      "sponsor_holds b (Some (lo, hi)) = []" "sponsor_pending b (w_now w) (Some (lo, hi)) = []"
    by (auto simp: sponsor_span_def Let_def split: option.splits if_splits list.splits)
  have "{lo..hi} \<inter> covered b = {}"
  proof (rule equals0I)
    fix n assume "n \<in> {lo..hi} \<inter> covered b"
    then obtain v where "v \<in> set (vranges b)" "v_lo v \<le> n" "n \<le> v_hi v" "lo \<le> n" "n \<le> hi" by (auto simp: covered_def v_span_def)
    with c(6) show False by (auto simp: filter_empty_conv)
  qed
  moreover have "\<forall>s \<in> set (sponsorships b). is_hold s \<or> is_pending (w_now w) s \<longrightarrow> \<not> sp_meets lo hi s"
  proof -
    have "set (sponsor_holds b (Some (lo, hi))) = {}" "set (sponsor_pending b (w_now w) (Some (lo, hi))) = {}"
      using c(8,9) by simp_all
    then show ?thesis by (auto simp: sponsor_holds_def sponsor_pending_def)
  qed
  ultimately show ?thesis using c by (auto simp: filter_empty_conv)
qed

definition ids_below :: "pay_state \<Rightarrow> bool" where
  "ids_below ps \<longleftrightarrow> distinct (map sp_id (sponsorships (ps_board ps))) \<and> (\<forall>s \<in> set (sponsorships (ps_board ps)). sp_id s \<le> ps_seq ps)"

lemma fresh_id: "ids_below ps \<Longrightarrow> row_of sp_id (ps_seq ps + 1) (sponsorships (ps_board ps)) = None"
  by (force simp: ids_below_def row_of_None)

lemma upd_fresh:
  assumes "\<And>s. sp_id (f s) = sp_id s" "row_of sp_id sid t = None" "sp_id new = sid"
  shows "upd_where (\<lambda>s. sp_id s = sid) f (t @ [new]) = t @ [f new]"
  using assms(2,3) by (auto simp: upd_where_def row_of_None image_iff intro!: map_idI)

text \<open>What a granted request leaves: one new row, and the map of open invoices.\<close>

definition granted_row :: "int \<Rightarrow> int \<Rightarrow> string \<Rightarrow> time \<Rightarrow> int \<Rightarrow> int \<Rightarrow> int \<Rightarrow> string \<Rightarrow> int \<Rightarrow> sponsorship \<Rightarrow> bool" where
  "granted_row lo hi name now usd ms amount th sid s \<longleftrightarrow>
     s = new_sponsorship sid lo hi name now usd ms amount th
     \<or> (\<exists>ivid link expires watch. s = invoiced ivid link expires watch (new_sponsorship sid lo hi name now usd ms amount th))"

lemma invoice_Inr:
  assumes "sponsor_request_invoice cfg sc w open_invoice ip lo hi name usd ms amount th ps = (Inr sid, ps')" "ids_below ps"
  shows "\<exists>s. sid = ps_seq ps + 1 \<and> ps_seq ps' = sid \<and> granted_row lo hi name (w_now w) usd ms amount th sid s
    \<and> ps_board ps' = (ps_board ps)\<lparr>sponsorships := sponsorships (ps_board ps) @ [s]\<rparr> \<and> sp_status s = Invoiced
    \<and> (\<exists>r. sponsor_span cfg sc w (ps_board ps) (JInt lo) (JInt hi) = Inr r)"
proof -
  from assms(1) obtain ivid link expires ips where i: "sid = ps_seq ps + 1"
      "ps_board ps' = (ps_board ps)\<lparr>sponsorships := upd_where (\<lambda>s. sp_id s = sid) (invoiced ivid link expires (SP_INVOICE_WATCH sc))
         (sponsorships (ps_board ps) @ [new_sponsorship sid lo hi name (w_now w) usd ms amount th])\<rparr>" "ps_seq ps' = sid"
      "\<exists>r. sponsor_span cfg sc w (ps_board ps) (JInt lo) (JInt hi) = Inr r"
    by (auto simp: sponsor_request_invoice_def insert_sponsorship_def Let_def split: sum.splits if_splits option.splits prod.splits)
  from i(1) fresh_id [OF assms(2)] have "row_of sp_id sid (sponsorships (ps_board ps)) = None" by simp
  from upd_fresh [OF _ this] have "upd_where (\<lambda>s. sp_id s = sid) (invoiced ivid link expires (SP_INVOICE_WATCH sc))
         (sponsorships (ps_board ps) @ [new_sponsorship sid lo hi name (w_now w) usd ms amount th])
       = sponsorships (ps_board ps) @ [invoiced ivid link expires (SP_INVOICE_WATCH sc) (new_sponsorship sid lo hi name (w_now w) usd ms amount th)]"
    by (simp add: invoiced_def new_sponsorship_def)
  with i show ?thesis
    by (intro exI [of _ "invoiced ivid link expires (SP_INVOICE_WATCH sc) (new_sponsorship sid lo hi name (w_now w) usd ms amount th)"])
      (auto simp: granted_row_def invoiced_def)
qed

lemma request_Inr:
  assumes "sponsor_request cfg sc w rate open_invoice token body ps = (Inr sid, ps')" "ids_below ps"
  shows "\<exists>s lo hi name usd ms amount. sid = ps_seq ps + 1 \<and> ps_seq ps' = sid
    \<and> granted_row lo hi name (w_now w) usd ms amount (w_sha256 w token) sid s
    \<and> ps_board ps' = (ps_board ps)\<lparr>sponsorships := sponsorships (ps_board ps) @ [s]\<rparr>
    \<and> (SP_PAYMENTS sc \<longleftrightarrow> sp_status s = Invoiced)
    \<and> sponsor_span cfg sc w (ps_board ps) (q_jlo body) (q_jhi body) = Inr (lo, hi)
    \<and> clean_sponsor_name cfg (q_name body) = Some name \<and> sponsor_min_usd (SP_BANDS sc) lo hi = Some usd
    \<and> sponsor_min_sats (Some usd) rate = Some ms \<and> q_amount body = JInt amount \<and> 1 \<le> amount \<and> ms \<le> amount \<and> SP_OPEN sc"
proof -
  from assms(1) obtain lo hi name usd ms amount where c: "SP_OPEN sc"
      "sponsor_span cfg sc w (ps_board ps) (q_jlo body) (q_jhi body) = Inr (lo, hi)"
      "clean_sponsor_name cfg (q_name body) = Some name" "sponsor_min_usd (SP_BANDS sc) lo hi = Some usd"
      "sponsor_min_sats (Some usd) rate = Some ms" "q_amount body = JInt amount" "1 \<le> amount" "ms \<le> amount"
      "(if SP_PAYMENTS sc then sponsor_request_invoice cfg sc w open_invoice (q_ip body) lo hi name usd ms amount (w_sha256 w token) ps
        else (Inr (fst (insert_sponsorship (\<lambda>i. new_sponsorship i lo hi name (w_now w) usd ms amount (w_sha256 w token)) ps)),
              snd (insert_sponsorship (\<lambda>i. new_sponsorship i lo hi name (w_now w) usd ms amount (w_sha256 w token)) ps))) = (Inr sid, ps')"
    by (auto simp: sponsor_request_def Let_def split: if_splits sum.splits option.splits json.splits prod.splits)
  show ?thesis
  proof (cases "SP_PAYMENTS sc")
    case True
    with c(9) have "sponsor_request_invoice cfg sc w open_invoice (q_ip body) lo hi name usd ms amount (w_sha256 w token) ps = (Inr sid, ps')"
      by simp
    from invoice_Inr [OF this assms(2)] c True show ?thesis by blast
  next
    case False
    with c(9) have "sid = ps_seq ps + 1" "ps_seq ps' = sid" "ps_board ps' = (ps_board ps)\<lparr>sponsorships := sponsorships (ps_board ps)
        @ [new_sponsorship sid lo hi name (w_now w) usd ms amount (w_sha256 w token)]\<rparr>"
      by (auto simp: insert_sponsorship_def Let_def)
    moreover have "sp_status (new_sponsorship sid lo hi name (w_now w) usd ms amount (w_sha256 w token)) \<noteq> Invoiced"
      by (simp add: new_sponsorship_def)
    ultimately show ?thesis using c(1-8) False unfolding granted_row_def by blast
  qed
qed

section \<open>Lemmas on the poll\<close>

text \<open>What a poll never changes about a sponsorship.\<close>

definition terms :: "sponsorship \<Rightarrow> int \<times> int \<times> int \<times> int option \<times> int option \<times> string" where
  "terms s = (sp_id s, sp_lo s, sp_hi s, sp_min_sats s, sp_pledged_sats s, sp_name s)"

text \<open>The statuses in the order a sponsorship passes through them; the two an operator sets by hand come last.\<close>

fun sp_rank :: "sp_status \<Rightarrow> nat" where
  "sp_rank Requested = 0" | "sp_rank Invoiced = 1" | "sp_rank Expired = 2" | "sp_rank Underpaid = 3" | "sp_rank Paid = 4"
| "sp_rank Proving = 5" | "sp_rank Proven = 6" | "sp_rank Cancelled = 7" | "sp_rank Refunded = 8"

instantiation sp_status :: linorder
begin

definition less_eq_sp_status :: "sp_status \<Rightarrow> sp_status \<Rightarrow> bool" where
  "less_eq_sp_status a b = (sp_rank a \<le> sp_rank b)"

definition less_sp_status :: "sp_status \<Rightarrow> sp_status \<Rightarrow> bool" where
  "less_sp_status a b = (sp_rank a < sp_rank b)"

instance
proof
  fix a b c :: sp_status
  show "a < b \<longleftrightarrow> a \<le> b \<and> \<not> b \<le> a" by (auto simp: less_eq_sp_status_def less_sp_status_def)
  show "a \<le> a" by (simp add: less_eq_sp_status_def)
  show "a \<le> b \<Longrightarrow> b \<le> c \<Longrightarrow> a \<le> c" by (simp add: less_eq_sp_status_def)
  show "a \<le> b \<Longrightarrow> b \<le> a \<Longrightarrow> a = b" by (cases a; cases b) (simp_all add: less_eq_sp_status_def)
  show "a \<le> b \<or> b \<le> a" by (auto simp: less_eq_sp_status_def)
qed

end

lemma sp_order [simp]:
  "Requested \<le> s" "s \<le> Requested \<longleftrightarrow> s = Requested" "Paid \<le> Proving" "Paid \<le> Proven" "Proving \<le> Proven"
  "Invoiced \<le> Expired" "Invoiced \<le> Underpaid" "Invoiced \<le> Paid" "Expired \<le> Underpaid" "Expired \<le> Paid" "Underpaid \<le> Paid"
  "s \<le> Proven \<longleftrightarrow> s \<noteq> Cancelled \<and> s \<noteq> Refunded"
  by (cases s; simp add: less_eq_sp_status_def)+

text \<open>Paying in full is the only way to a status that counts.\<close>

definition paid_in_full :: "sponsorship \<Rightarrow> bool" where
  "paid_in_full s \<longleftrightarrow> sp_min_sats s \<noteq> None \<and> (sp_status s \<in> {Paid, Proving, Proven} \<longrightarrow> paid_enough s)"

definition sp_move :: "sponsorship \<Rightarrow> sponsorship \<Rightarrow> bool" where
  "sp_move x y \<longleftrightarrow> terms y = terms x \<and> sp_status x \<le> sp_status y \<and> (sp_status x \<le> Proven \<longrightarrow> sp_status y \<le> Proven)
     \<and> (paid_in_full x \<longrightarrow> paid_in_full y)"

lemma sp_move_refl [simp]: "sp_move x x"
  by (simp add: sp_move_def)

lemma sp_move_trans: "sp_move x y \<Longrightarrow> sp_move y z \<Longrightarrow> sp_move x z"
  by (auto simp: sp_move_def)

lemma moves_trans: "list_all2 sp_move xs ys \<Longrightarrow> list_all2 sp_move ys zs \<Longrightarrow> list_all2 sp_move xs zs"
  by (rule list_all2_trans [OF sp_move_trans])

lemma moves_refl [simp]: "list_all2 sp_move xs xs"
  by (simp add: list_all2_same)

lemma terms_eq: "terms y = terms x \<longleftrightarrow> sp_id y = sp_id x \<and> sp_lo y = sp_lo x \<and> sp_hi y = sp_hi x \<and> sp_min_sats y = sp_min_sats x
    \<and> sp_pledged_sats y = sp_pledged_sats x \<and> sp_name y = sp_name x"
  by (auto simp: terms_def)

lemma moves_upd: "(\<And>s. s \<in> set ss \<Longrightarrow> P s \<Longrightarrow> sp_move s (f s)) \<Longrightarrow> list_all2 sp_move ss (upd_where P f ss)"
  by (simp add: upd_where_def list_all2_map2 list_all2_same)

lemma mark_moves: "list_all2 sp_move ss (fold (set_proven now) ids ss)"
proof (induction ids arbitrary: ss)
  case (Cons i ids)
  have "list_all2 sp_move ss (set_proven now i ss)"
    unfolding set_proven_def
    by (rule moves_upd) (auto simp: sp_move_def terms_eq paid_in_full_def paid_enough_def)
  from moves_trans [OF this Cons.IH] show ?case by simp
qed simp

lemma mark_proven_moves: "list_all2 sp_move (sponsorships b) (sponsorships (snd (sponsor_mark_proven b lo hi now)))"
  by (simp add: sponsor_mark_proven_def Let_def mark_moves)

lemma poll_verdict_cases:
  assumes "poll_verdict sc now a r = (new, hold)" "sp_status r \<in> {Invoiced, Expired, Underpaid}"
  shows "sp_status r \<le> new" "new \<in> {Invoiced, Expired, Underpaid, Paid}"
    and "new = Paid \<longleftrightarrow> settled_sats (ia_payments a) \<ge> the (coalesce (sp_min_sats r) (Some 0)) \<and> settled_sats (ia_payments a) > 0"
  using assms by (auto simp: poll_verdict_def Let_def split: if_splits)

text \<open>One row of a poll, on any board whose row of that id has the same minimum.\<close>

lemma poll_row_moves:
  assumes "polled now r" "\<And>s. s \<in> set (sponsorships b) \<Longrightarrow> sp_id s = sp_id r \<Longrightarrow> sp_min_sats s = sp_min_sats r"
  shows "list_all2 sp_move (sponsorships b) (sponsorships (snd (poll_row sc now ask r (moved, b))))"
proof (cases "Option.bind (sp_invoice_id r) ask")
  case None
  then show ?thesis by (simp add: poll_row_def)
next
  case (Some a)
  show ?thesis
  proof (cases "ia_additional a = ''Marked''")
    case True
    with Some show ?thesis by (simp add: poll_row_def)
  next
    case False
    obtain new hold where v: "poll_verdict sc now a r = (new, hold)" by fastforce
    from assms(1) have st: "sp_status r \<in> {Invoiced, Expired, Underpaid}" by (simp add: polled_def)
    note c = poll_verdict_cases [OF v st]
    let ?settled = "settled_sats (ia_payments a)"
    let ?pay = "\<lambda>s. s\<lparr>sp_status := Paid, sp_paid_sats := Some ?settled, sp_paid_at := Some now, sp_invoice_status := Some (ia_status a)\<rparr>"
    have pay: "list_all2 sp_move (sponsorships b) (upd_where (at_status r) ?pay (sponsorships b))" if "new = Paid"
    proof (rule moves_upd)
      fix s assume s: "s \<in> set (sponsorships b)" "at_status r s"
      then have "sp_min_sats s = sp_min_sats r" using assms(2) by (auto simp: at_status_def)
      with that c(3) s st show "sp_move s (?pay s)"
        by (auto simp: sp_move_def terms_eq at_status_def paid_in_full_def paid_enough_def split: option.splits)
    qed
    have other: "list_all2 sp_move (sponsorships b) (upd_where (at_status r)
        (\<lambda>s. s\<lparr>sp_status := new, sp_paid_sats := ps, sp_invoice_status := is\<rparr>) (sponsorships b))" if "new \<noteq> Paid" for ps "is"
      using c(1,2) that by (intro moves_upd) (auto simp: sp_move_def terms_eq at_status_def paid_in_full_def)
    have hold: "list_all2 sp_move (sponsorships b) (upd_where (at_status r)
        (\<lambda>s. s\<lparr>sp_hold_until := hu, sp_invoice_status := is, sp_paid_sats := ps\<rparr>) (sponsorships b))" for ps "is" hu
      using st by (intro moves_upd) (auto simp: sp_move_def terms_eq at_status_def paid_in_full_def)
    show ?thesis
    proof (cases "new = Paid")
      case True
      with Some False v moves_trans [OF pay [OF True] mark_proven_moves [of "b\<lparr>sponsor_payments := py, sponsorships := upd_where (at_status r) ?pay (sponsorships b)\<rparr>" for py, simplified]] pay [OF True]
      show ?thesis by (auto simp: poll_row_def Let_def)
    next
      case npaid: False
      with Some False v other [OF npaid] hold show ?thesis by (auto simp: poll_row_def Let_def)
    qed
  qed
qed

lemma moves_terms: "list_all2 sp_move xs ys \<Longrightarrow> map terms ys = map terms xs"
  by (induction rule: list_all2_induct) (simp_all add: sp_move_def)

lemma map_terms_min:
  assumes "map terms ys = map terms xs" "distinct (map sp_id xs)" "r \<in> set xs" "s \<in> set ys" "sp_id s = sp_id r"
  shows "sp_min_sats s = sp_min_sats r"
proof -
  from assms(4) have "terms s \<in> set (map terms ys)" by simp
  then have "terms s \<in> set (map terms xs)" by (simp only: assms(1))
  then obtain x where x: "x \<in> set xs" "terms x = terms s" by auto
  with assms(5) have "sp_id x = sp_id r" by (simp add: terms_eq)
  with assms(2,3) x(1) have "x = r" by (auto simp: distinct_map dest: inj_onD)
  with x(2) show ?thesis by (simp add: terms_eq)
qed

lemma poll_moves:
  assumes "distinct (map sp_id (sponsorships b))"
  shows "list_all2 sp_move (sponsorships b) (sponsorships (snd (sponsor_payments_poll sc now ask b)))"
proof -
  have "list_all2 sp_move (sponsorships b) (sponsorships (snd (fold (poll_row sc now ask) rs (moved, c))))"
    if "set rs \<subseteq> {r \<in> set (sponsorships b). polled now r}" "list_all2 sp_move (sponsorships b) (sponsorships c)" for rs moved c
    using that
  proof (induction rs arbitrary: moved c)
    case (Cons r rs)
    note same = map_terms_min [OF moves_terms [OF Cons.prems(2)] assms]
    have "list_all2 sp_move (sponsorships c) (sponsorships (snd (poll_row sc now ask r (moved, c))))"
      by (rule poll_row_moves) (use Cons.prems(1) same in auto)
    from Cons.IH [of "snd (poll_row sc now ask r (moved, c))" "fst (poll_row sc now ask r (moved, c))"]
      moves_trans [OF Cons.prems(2) this] Cons.prems(1) show ?case by simp
  qed simp
  then show ?thesis by (simp add: sponsor_payments_poll_def)
qed

lemma upd_row_other: "(\<And>s. sp_id (f s) = sp_id s) \<Longrightarrow> (\<And>s. P s \<Longrightarrow> sp_id s = sid) \<Longrightarrow> k \<noteq> sid \<Longrightarrow>
    row_of sp_id k (upd_where P f t) = row_of sp_id k t"
  by (cases "row_of sp_id k t") (auto simp: row_of_upd dest: row_of_Some)

text \<open>What marking does to one row.\<close>

lemma mark_row:
  "row_of sp_id k (sponsorships (snd (sponsor_mark_proven b lo hi now))) = map_option (\<lambda>s.
     if k \<in> set (fst (sponsor_mark_proven b lo hi now)) \<and> sp_status s \<in> {Paid, Proving}
     then s\<lparr>sp_status := Proven, sp_proven_at := Some now\<rparr> else s) (row_of sp_id k (sponsorships b))"
  by (simp add: sponsor_mark_proven_def Let_def fold_set_proven)

lemma marked_ids:
  assumes "distinct (map sp_id (sponsorships b))" "row_of sp_id k (sponsorships b) = Some s"
  shows "k \<in> set (fst (sponsor_mark_proven b lo hi now)) \<longleftrightarrow> is_hold s \<and> sp_meets lo hi s \<and> {sp_lo s..sp_hi s} \<subseteq> covered b"
proof -
  have k: "s \<in> set (sponsorships b)" "sp_id s = k" using row_of_Some [OF assms(2)] by auto
  have uniq: "x = s" if "x \<in> set (sponsorships b)" "sp_id x = k" for x
    using row_of_in [OF assms(1) that(1)] that(2) assms(2) by simp
  have "k \<in> set (fst (sponsor_mark_proven b lo hi now))
      \<longleftrightarrow> (\<exists>x \<in> set (sponsor_holds b (Some (lo, hi))). sp_id x = k \<and> span_proven b (sp_lo x) (sp_hi x))"
    by (auto simp: sponsor_mark_proven_def Let_def)
  then show ?thesis unfolding span_proven_iff using k by (metis holds_mem uniq)
qed

section \<open>Properties\<close>

text \<open>
  Claim C14. A sponsorship request is granted only for open blocks: none of the span is proven, being proved
  under a live claim, held for a paid sponsorship or waiting for another sponsor's open invoice; the span
  is within the limits, the name is clean and the pledge covers the minimum. It appends one unpaid row under
  a fresh id and touches nothing else of the board.
\<close>

theorem sponsor_request_safe:
  assumes "sponsor_request cfg sc w rate open_invoice token body ps = (Inr sid, ps')" and "ids_below ps"
  shows "\<exists>s ms. ps_board ps' = (ps_board ps)\<lparr>sponsorships := sponsorships (ps_board ps) @ [s]\<rparr> \<and> sp_id s = sid
    \<and> sid \<notin> sp_id ` set (sponsorships (ps_board ps)) \<and> ids_below ps'
    \<and> sp_status s = (if SP_PAYMENTS sc then Invoiced else Requested) \<and> \<not> is_public_sponsorship s \<and> \<not> is_hold s
    \<and> 1 \<le> sp_lo s \<and> sp_lo s \<le> sp_hi s \<and> sp_hi s \<le> chain_tip cfg w \<and> sp_hi s - sp_lo s + 1 \<le> SP_MAX_BLOCKS sc
    \<and> {sp_lo s..sp_hi s} \<inter> covered (ps_board ps) = {}
    \<and> (\<forall>r \<in> set (ranges (ps_board ps)). live_claim cfg (w_now w) r \<longrightarrow> \<not> (r_lo r \<le> sp_hi s \<and> sp_lo s \<le> r_hi r))
    \<and> (\<forall>x \<in> set (sponsorships (ps_board ps)). is_hold x \<or> is_pending (w_now w) x \<longrightarrow> \<not> sp_meets (sp_lo s) (sp_hi s) x)
    \<and> sponsor_min_sats (sponsor_min_usd (SP_BANDS sc) (sp_lo s) (sp_hi s)) rate = Some ms \<and> sp_min_sats s = Some ms
    \<and> (\<exists>p. sp_pledged_sats s = Some p \<and> ms \<le> p)"
proof -
  from request_Inr [OF assms] obtain s lo hi name usd ms amount where r: "sid = ps_seq ps + 1" "ps_seq ps' = sid"
      "granted_row lo hi name (w_now w) usd ms amount (w_sha256 w token) sid s"
      "ps_board ps' = (ps_board ps)\<lparr>sponsorships := sponsorships (ps_board ps) @ [s]\<rparr>"
      "SP_PAYMENTS sc \<longleftrightarrow> sp_status s = Invoiced"
      "sponsor_span cfg sc w (ps_board ps) (q_jlo body) (q_jhi body) = Inr (lo, hi)"
      "sponsor_min_usd (SP_BANDS sc) lo hi = Some usd" "sponsor_min_sats (Some usd) rate = Some ms" "ms \<le> amount"
    by blast
  have row: "sp_id s = sid" "sp_lo s = lo" "sp_hi s = hi" "sp_status s \<in> {Requested, Invoiced}" "sp_min_sats s = Some ms"
      "sp_pledged_sats s = Some amount" "sp_paid_sats s = None"
    using r(3) by (auto simp: granted_row_def new_sponsorship_def invoiced_def)
  have st: "sp_status s = (if SP_PAYMENTS sc then Invoiced else Requested)" using r(5) row(4) by auto
  have fresh: "sid \<notin> sp_id ` set (sponsorships (ps_board ps))"
    using fresh_id [OF assms(2)] r(1) by (simp add: row_of_None)
  moreover have "ids_below ps'"
    using assms(2) fresh row(1) r(1,2) by (auto simp: ids_below_def r(4))
  moreover have "\<not> is_public_sponsorship s" "\<not> is_hold s"
    using row(4) by (auto simp: is_public_sponsorship_def is_hold_def)
  ultimately show ?thesis
    using sponsor_span_Inr [OF r(6)] r(4,7,8,9) row st by (intro exI [of _ s] exI [of _ ms]) auto
qed

definition open_sponsors :: sponsor_config where
  "open_sponsors = default_sponsor_config\<lparr>SP_OPEN := True, SP_PAYMENTS := True\<rparr>"

definition ask_for :: request_body where
  "ask_for = \<lparr> q_jlo = JInt 5, q_jhi = JInt 6, q_name = JStr '' Ann  B '', q_amount = JInt 9000, q_ip = ''1'' \<rparr>"

definition no_sponsors :: pay_state where
  "no_sponsors = \<lparr> ps_board = empty_board, ps_seq = 0, ps_ips = [] \<rparr>"

theorem sponsor_request_safe_witness:
  "\<exists>ps'. sponsor_request default_config open_sponsors example_world (Some 50000) (\<lambda>_ _. Some (''i1'', ''link'', None)) ''tok'' ask_for no_sponsors
     = (Inr 1, ps') \<and> (\<exists>s. sponsorships (ps_board ps') = [s] \<and> sp_status s = Invoiced \<and> sp_min_sats s = Some 4000)"
proof -
  let ?r = "sponsor_request default_config open_sponsors example_world (Some 50000) (\<lambda>_ _. Some (''i1'', ''link'', None)) ''tok'' ask_for no_sponsors"
  have "fst ?r = Inr 1" by code_simp
  then have run: "?r = (Inr 1, snd ?r)" by (metis prod.collapse)
  have ids: "ids_below no_sponsors" by (simp add: ids_below_def no_sponsors_def)
  have ms: "map sp_min_sats (sponsorships (ps_board (snd ?r))) = [Some 4000]" by code_simp
  have e: "SP_PAYMENTS open_sponsors" "sponsorships (ps_board no_sponsors) = []" by (simp_all add: open_sponsors_def no_sponsors_def)
  from sponsor_request_safe [OF run ids] e ms run show ?thesis by auto
qed

text \<open>
  Claim C15. What a poll does to a sponsorship it asks about. Unless an operator marked the invoice by hand, it
  becomes paid exactly when the payments reported as settled reach its minimum (and are not nothing),
  however late, and proven at once when its span is covered by then; otherwise it is underpaid when
  something settled on a closed invoice, expired when nothing did, and else keeps its status. While a payment is seen but not yet
  settled, the hold of an open invoice is pushed out to \<open>SPONSOR_CONFIRMING_HOLD\<close> from now, and never pulled in. The sum
  settled and the invoice's status are recorded, the rest of the row stays. Another
  sponsorship can only turn from paid to proven, when its own span is covered.
\<close>

theorem poll_row_exact:
  assumes "polled now r" and "distinct (map sp_id (sponsorships b))" and "row_of sp_id (sp_id r) (sponsorships b) = Some r"
    and "Option.bind (sp_invoice_id r) ask = Some a" and "ia_additional a \<noteq> ''Marked''" and "sp_min_sats r = Some ms"
    and "sp_lo r \<le> sp_hi r" and "poll_row sc now ask r (moved, b) = (moved', b')"
  shows "(\<exists>r'. row_of sp_id (sp_id r) (sponsorships b') = Some r'
      \<and> (let settled = settled_sats (ia_payments a); enough = (settled \<ge> ms \<and> settled > 0);
             seen = list_ex (\<lambda>p. pm_status p = ''Processing'') (ia_payments a);
             closed = (ia_status a \<in> {''Expired'', ''Invalid'', ''Settled''} \<and> \<not> seen);
             there = {sp_lo r..sp_hi r} \<subseteq> covered b
         in sp_status r' = (if enough then (if there then Proven else Paid)
                else if closed \<and> settled > 0 then Underpaid else if closed \<and> sp_status r = Invoiced then Expired else sp_status r)
          \<and> sp_hold_until r' = (if \<not> enough \<and> (seen \<or> ia_status a = ''Processing'') \<and> sp_status r = Invoiced
                then Some (max (case sp_hold_until r of None \<Rightarrow> 0 | Some t \<Rightarrow> t) (now + SP_CONFIRMING_HOLD sc)) else sp_hold_until r)
          \<and> sp_paid_sats r' = (if settled = 0 then None else Some settled)
          \<and> sp_paid_at r' = (if enough then Some now else sp_paid_at r)
          \<and> sp_proven_at r' = (if enough \<and> there then Some now else sp_proven_at r)
          \<and> sp_invoice_status r' = Some (ia_status a)
          \<and> r'\<lparr>sp_status := sp_status r, sp_hold_until := sp_hold_until r, sp_paid_sats := sp_paid_sats r, sp_paid_at := sp_paid_at r,
               sp_proven_at := sp_proven_at r, sp_invoice_status := sp_invoice_status r\<rparr> = r))
    \<and> (\<forall>k s. k \<noteq> sp_id r \<longrightarrow> row_of sp_id k (sponsorships b) = Some s \<longrightarrow>
         (\<exists>s'. row_of sp_id k (sponsorships b') = Some s' \<and> (s' = s \<or> is_hold s \<and> {sp_lo s..sp_hi s} \<subseteq> covered b
            \<and> s' = s\<lparr>sp_status := Proven, sp_proven_at := Some now\<rparr>)))"
  (is "(\<exists>r'. _ \<and> ?spec r') \<and> _")
proof -
  let ?settled = "settled_sats (ia_payments a)"
  obtain new hold where v: "poll_verdict sc now a r = (new, hold)" by fastforce
  from assms(1) have st: "sp_status r \<in> {Invoiced, Expired, Underpaid}" by (simp add: polled_def)
  have paid: "new = Paid \<longleftrightarrow> ?settled \<ge> ms \<and> ?settled > 0"
    using poll_verdict_cases(3) [OF v st] assms(6) by simp
  have row: "row_of sp_id (sp_id r) (upd_where (at_status r) f (sponsorships b)) = Some (f r)" if "\<And>s. sp_id (f s) = sp_id s" for f
    using assms(3) that by (simp add: row_of_upd at_status_def)
  have other: "row_of sp_id k (upd_where (at_status r) f (sponsorships b)) = row_of sp_id k (sponsorships b)"
    if "\<And>s. sp_id (f s) = sp_id s" "k \<noteq> sp_id r" for f k
    by (rule upd_row_other) (use that in \<open>auto simp: at_status_def\<close>)
  show ?thesis
  proof (cases "new = Paid")
    case False
    let ?f = "\<lambda>s. if new \<noteq> sp_status r
        then s\<lparr>sp_status := new, sp_paid_sats := some_sats ?settled, sp_invoice_status := Some (ia_status a)\<rparr>
        else s\<lparr>sp_hold_until := hold, sp_invoice_status := Some (ia_status a), sp_paid_sats := some_sats ?settled\<rparr>"
    have f: "sp_id (?f s) = sp_id s" for s by simp
    have b': "sponsorships b' = upd_where (at_status r) ?f (sponsorships b)"
      using assms(8) False v by (cases "new = sp_status r") (auto simp: poll_row_def assms(4,5) Let_def split: if_splits)
    have n: "new = (if ia_status a \<in> {''Expired'', ''Invalid'', ''Settled''}
          \<and> \<not> list_ex (\<lambda>p. pm_status p = ''Processing'') (ia_payments a) \<and> ?settled > 0 then Underpaid
        else if ia_status a \<in> {''Expired'', ''Invalid'', ''Settled''}
          \<and> \<not> list_ex (\<lambda>p. pm_status p = ''Processing'') (ia_payments a) \<and> sp_status r = Invoiced then Expired else sp_status r)"
      using v False paid assms(6) by (auto simp: poll_verdict_def Let_def split: if_splits)
    have h: "hold = (if (list_ex (\<lambda>p. pm_status p = ''Processing'') (ia_payments a) \<or> ia_status a = ''Processing'') \<and> sp_status r = Invoiced
        then Some (max (case sp_hold_until r of None \<Rightarrow> 0 | Some t \<Rightarrow> t) (now + SP_CONFIRMING_HOLD sc)) else sp_hold_until r)"
      using v False paid assms(6) by (auto simp: poll_verdict_def Let_def split: if_splits option.split)
    have moved: "hold = sp_hold_until r" if "new \<noteq> sp_status r" using that n h by (auto split: if_splits)
    have own: "?f r = r\<lparr>sp_status := new, sp_hold_until := hold, sp_paid_sats := some_sats ?settled, sp_invoice_status := Some (ia_status a)\<rparr>"
      using moved by simp
    have lost: "\<not> (?settled \<ge> ms \<and> ?settled > 0)" using False paid by blast
    show ?thesis
    proof (rule conjI)
      show "\<exists>r'. row_of sp_id (sp_id r) (sponsorships b') = Some r' \<and> ?spec r'"
        unfolding b' row [of ?f, OF f] own Let_def
        by (rule exI [of _ "r\<lparr>sp_status := new, sp_hold_until := hold, sp_paid_sats := some_sats ?settled, sp_invoice_status := Some (ia_status a)\<rparr>"])
          (simp add: lost n h some_sats_def)
    qed (use other [of ?f, OF f] in \<open>auto simp: b'\<close>)
  next
    case True
    let ?f = "\<lambda>s. s\<lparr>sp_status := Paid, sp_paid_sats := Some ?settled, sp_paid_at := Some now, sp_invoice_status := Some (ia_status a)\<rparr>"
    let ?b1 = "b\<lparr>sponsor_payments := fold (record_payment (sp_id r) now) (ia_payments a) (sponsor_payments b)\<rparr>"
    let ?b2 = "?b1\<lparr>sponsorships := upd_where (at_status r) ?f (sponsorships ?b1)\<rparr>"
    have f: "sp_id (?f s) = sp_id s" for s by simp
    have "list_ex (at_status r) (sponsorships b)"
      using row_of_Some [OF assms(3)] by (auto simp: list_ex_iff at_status_def)
    then have b': "b' = snd (sponsor_mark_proven ?b2 (sp_lo r) (sp_hi r) now)"
      using assms(8) True v by (auto simp: poll_row_def assms(4,5) Let_def)
    have d2: "distinct (map sp_id (sponsorships ?b2))"
      using assms(2) map_key_upd [of sp_id ?f "at_status r" "sponsorships b", OF f] by simp
    have cov: "covered ?b2 = covered b" by (rule covered_cong) simp
    have r2: "row_of sp_id (sp_id r) (sponsorships ?b2) = Some (?f r)" using row [of ?f, OF f] by simp
    have "is_hold (?f r)" "sp_meets (sp_lo r) (sp_hi r) (?f r)"
      using True paid assms(6,7) by (auto simp: is_hold_def paid_enough_def sp_meets_def)
    then have m: "sp_id r \<in> set (fst (sponsor_mark_proven ?b2 (sp_lo r) (sp_hi r) now)) \<longleftrightarrow> {sp_lo r..sp_hi r} \<subseteq> covered b"
      using marked_ids [OF d2 r2, of "sp_lo r" "sp_hi r" now] unfolding cov by simp
    have own: "row_of sp_id (sp_id r) (sponsorships b')
        = Some (if {sp_lo r..sp_hi r} \<subseteq> covered b then (?f r)\<lparr>sp_status := Proven, sp_proven_at := Some now\<rparr> else ?f r)"
      unfolding b' mark_row r2 m by simp
    have oth: "\<exists>s'. row_of sp_id k (sponsorships b') = Some s' \<and> (s' = s \<or> is_hold s \<and> {sp_lo s..sp_hi s} \<subseteq> covered b
            \<and> s' = s\<lparr>sp_status := Proven, sp_proven_at := Some now\<rparr>)"
      if "k \<noteq> sp_id r" "row_of sp_id k (sponsorships b) = Some s" for k s
    proof -
      have s2: "row_of sp_id k (sponsorships ?b2) = Some s" using other [of ?f, OF f that(1)] that(2) by simp
      from marked_ids [OF d2 s2, of "sp_lo r" "sp_hi r" now] show ?thesis
        unfolding b' mark_row s2 cov by auto
    qed
    have c: "?settled \<ge> ms \<and> ?settled > 0" using True paid by blast
    have "hold = sp_hold_until r" using v True by (auto simp: poll_verdict_def Let_def split: if_splits)
    show ?thesis
    proof (rule conjI)
      show "\<exists>r'. row_of sp_id (sp_id r) (sponsorships b') = Some r' \<and> ?spec r'"
        unfolding own Let_def by (rule exI, rule conjI, rule refl) (use c in simp)
    qed (intro allI impI, rule oth)
  qed
qed

definition late_row :: sponsorship where
  "late_row = (new_sponsorship 1 5 6 ''Ann'' 10 2 4000 9000 ''h'')\<lparr>sp_status := Expired, sp_invoice_id := Some ''i1'', sp_watch_until := Some 5000\<rparr>"

definition late_answer :: invoice_answer where
  "late_answer = \<lparr> ia_status = ''Expired'', ia_additional = ''PaidLate'',
     ia_payments = [\<lparr> pm_id = ''p'', pm_method = ''BTC'', pm_value = JStr ''0.00004000'', pm_status = ''Settled'', pm_received = Some 90 \<rparr>] \<rparr>"

theorem poll_row_exact_witness:
  "settled_sats (ia_payments late_answer) = 4000
   \<and> (\<exists>r'. row_of sp_id 1 (sponsorships (snd (poll_row open_sponsors 100 (\<lambda>_. Some late_answer) late_row
        ([], empty_board\<lparr>sponsorships := [late_row]\<rparr>)))) = Some r' \<and> sp_status r' = Paid)"
proof -
  let ?r = "poll_row open_sponsors 100 (\<lambda>_. Some late_answer) late_row ([], empty_board\<lparr>sponsorships := [late_row]\<rparr>)"
  have s: "settled_sats (ia_payments late_answer) = 4000" by code_simp
  have p: "polled 100 late_row" "sp_id late_row = 1" "sp_min_sats late_row = Some 4000" "sp_lo late_row = 5" "sp_hi late_row = 6"
      "sp_invoice_id late_row = Some ''i1''"
    by (simp_all add: late_row_def polled_def new_sponsorship_def)
  have run: "?r = (fst ?r, snd ?r)" by simp
  have "ia_additional late_answer \<noteq> ''Marked''" by (simp add: late_answer_def)
  from poll_row_exact [OF p(1) _ _ _ this p(3) _ run] s p show ?thesis
    by (auto simp: row_of_single covered_def Let_def)
qed

end
