(* ===== verification/Views.thy ===== *)
theory Views
  imports Payments
begin

text \<open>
  What the board publishes about blocks (\<open>coordinator/server.py\<close>: \<open>block_status\<close>, \<open>_proven_in\<close>,
  \<open>build_vranges\<close>, \<open>known_handles_cached\<close>, \<open>timeline\<close>, \<open>_etag_matches\<close>). The block map is painted on
  an array and published as runs; the lemmas show that the runs say of every block exactly what the tables
  say, and that counting in the runs is counting blocks. Values read through a cache are taken fresh here;
  the cache itself is modelled in the theory Single_Flight.
\<close>

section \<open>The block map\<close>

definition fold_ids :: "board \<Rightarrow> range_id set" where
  "fold_ids b = set (map fst (fold_spans b))"

text \<open>\<open>st[a:e+1] = code * (e - a + 1)\<close> on a list of codes.\<close>

definition paint :: "int \<Rightarrow> int \<Rightarrow> nat \<Rightarrow> nat list \<Rightarrow> nat list" where
  "paint a e code st = map (\<lambda>i. if a \<le> int i \<and> int i \<le> e then code else st ! i) [0..<length st]"

definition paint_rows :: "nat \<Rightarrow> (int \<times> int) list \<Rightarrow> nat list \<Rightarrow> nat list" where
  "paint_rows code spans st = fold (\<lambda>(lo, hi). paint (max 1 lo) hi code) spans st"

text \<open>The maximal runs of one non-zero code, with their first and last position.\<close>

function runs_from :: "int \<Rightarrow> nat list \<Rightarrow> (int \<times> int \<times> nat) list" where
  "runs_from i [] = []"
| "runs_from i (x # xs) =
     (let k = length (takeWhile (\<lambda>y. y = x) xs); rest = runs_from (i + int k + 1) (drop k xs)
      in if x = 0 then rest else (i, i + int k, x) # rest)"
  by pat_completeness auto
termination
  by (relation "measure (\<lambda>(i, xs). length xs)") auto

definition map_rows :: "string list \<Rightarrow> string option \<Rightarrow> board \<Rightarrow> vrange_row list" where
  "map_rows blk prover b = (case prover of None \<Rightarrow> vranges b
     | Some p \<Rightarrow> filter (\<lambda>r. v_handle r = Some p \<and> lower (or_empty (v_pubkey r)) \<notin> set blk \<and> v_id r \<notin> fold_ids b) (vranges b))"

definition status_array :: "string list \<Rightarrow> int \<Rightarrow> string option \<Rightarrow> board \<Rightarrow> nat list" where
  "status_array blk tip prover b =
     (let rows = map_rows blk prover b; spine_hi = spine_floor b;
          high = fold max (map v_hi rows) (max tip spine_hi);
          spans = (\<lambda>want. map (\<lambda>r. (v_lo r, v_hi r)) (filter (\<lambda>r. (v_id r \<in> fold_ids b) = want) rows));
          st = paint_rows 4 (spans True) (paint_rows 3 (spans False) (replicate (nat (high + 1)) 0))
      in if prover = None \<and> spine_hi \<noteq> 0 then paint 1 spine_hi 5 st else st)"

definition block_status :: "string list \<Rightarrow> int \<Rightarrow> string option \<Rightarrow> board \<Rightarrow> (int \<times> int \<times> nat) list" where
  "block_status blk tip prover b = runs_from 0 (status_array blk tip prover b)"

text \<open>\<open>_proven_in\<close>: \<open>bisect_left\<close> skips the runs that end before \<open>lo\<close>.\<close>

fun count_runs :: "int \<Rightarrow> int \<Rightarrow> (int \<times> int \<times> nat) list \<Rightarrow> int" where
  "count_runs lo hi [] = 0"
| "count_runs lo hi ((a, e, code) # rs) =
     (if a \<le> hi then (if code \<ge> 3 then min e hi - max a lo + 1 else 0) + count_runs lo hi rs else 0)"

definition proven_in :: "int \<Rightarrow> int \<Rightarrow> (int \<times> int \<times> nat) list \<Rightarrow> int" where
  "proven_in lo hi runs = count_runs lo hi (dropWhile (\<lambda>(a, e, code). e < lo) runs)"

section \<open>The index and the strip\<close>

record index_entry =
  ie_lo :: int
  ie_hi :: int
  ie_handle :: "string option"
  ie_fold :: bool
  ie_proof :: "range_id option"

definition hide :: "string list \<Rightarrow> pubkey option \<Rightarrow> string option \<Rightarrow> string option" where
  "hide blk pk handle = (if lower (or_empty pk) \<in> set blk then Some ''[removed]'' else handle)"

definition build_vranges :: "string list \<Rightarrow> board \<Rightarrow> index_entry list" where
  "build_vranges blk b = map (\<lambda>r. \<lparr> ie_lo = v_lo r, ie_hi = v_hi r, ie_handle = hide blk (v_pubkey r) (v_handle r),
       ie_fold = (v_id r \<in> fold_ids b), ie_proof = (if proofs b (v_id r) = None then None else Some (v_id r)) \<rparr>)
     (sort_key v_lo (vranges b))"

definition known_handles :: "string list \<Rightarrow> board \<Rightarrow> string set" where
  "known_handles blk b = set (map (\<lambda>r. or_empty (v_handle r))
     (filter (\<lambda>r. or_empty (v_handle r) \<noteq> [] \<and> lower (or_empty (v_pubkey r)) \<notin> set blk) (vranges b)))"

text \<open>The strip from genesis to the tip; the division is exact here, a float in the code.\<close>

definition mark_segs :: "rat \<Rightarrow> nat \<Rightarrow> int \<times> int \<Rightarrow> nat list \<Rightarrow> nat list" where
  "mark_segs bps v sp per =
     (let s0 = py_trunc (of_int (fst sp) / bps); s1 = min (int (length per) - 1) (py_trunc (of_int (snd sp) / bps))
      in map (\<lambda>i. if max 0 s0 \<le> int i \<and> int i \<le> s1 \<and> per ! i < v then v else per ! i) [0..<length per])"

definition timeline :: "int \<Rightarrow> nat \<Rightarrow> int \<Rightarrow> board \<Rightarrow> nat list \<times> int" where
  "timeline tip segs fr b =
     (let bps = (if segs \<noteq> 0 then of_int tip / of_nat segs else of_int tip) :: rat;
          per1 = fold (mark_segs bps 1) (map (\<lambda>r. (r_lo r, r_hi r)) (filter (\<lambda>r. r_status r = Claimed) (ranges b))) (replicate segs 0);
          per2 = fold (mark_segs bps 2) (map (\<lambda>r. (v_lo r, v_hi r)) (vranges b)) per1;
          fr_seg = (if bps \<noteq> 0 then py_trunc (of_int fr / bps) else 0)
      in (if fr > 0 then map (\<lambda>i. if int i < min (fr_seg + 1) (int segs) \<and> of_nat i * bps \<le> of_int fr then 3 else per2 ! i) [0..<segs]
          else per2, fr_seg))"

section \<open>Revalidation\<close>

definition unweak :: "string \<Rightarrow> string" where
  "unweak t = (if prefixed ''W/'' t then drop 2 t else t)"

definition etag_matches :: "string \<Rightarrow> string \<Rightarrow> bool" where
  "etag_matches header etag =
     (if header = [] \<or> etag = [] then False
      else list_ex (\<lambda>t. py_strip t = ''*'' \<or> unweak (py_strip t) = unweak etag) (py_split CHR '','' header))"

section \<open>Lemmas\<close>

lemma length_paint [simp]: "length (paint a e c st) = length st"
  by (simp add: paint_def)

lemma paint_nth: "i < length st \<Longrightarrow> paint a e c st ! i = (if a \<le> int i \<and> int i \<le> e then c else st ! i)"
  by (simp add: paint_def)

lemma paint_rows_nth:
  "i < length st \<Longrightarrow> length (paint_rows c spans st) = length st \<and> paint_rows c spans st ! i =
     (if \<exists>s \<in> set spans. max 1 (fst s) \<le> int i \<and> int i \<le> snd s then c else st ! i)"
proof (induction spans arbitrary: st)
  case (Cons s spans)
  obtain lo hi where s: "s = (lo, hi)" by fastforce
  define P where "P = (\<lambda>s :: int \<times> int. max 1 (fst s) \<le> int i \<and> int i \<le> snd s)"
  have i: "i < length (paint (max 1 lo) hi c st)" using Cons.prems by simp
  have p: "paint (max 1 lo) hi c st ! i = (if P (lo, hi) then c else st ! i)"
    unfolding paint_nth [OF Cons.prems] P_def by simp
  have step: "paint_rows c (s # spans) st = paint_rows c spans (paint (max 1 lo) hi c st)" by (simp add: paint_rows_def s)
  from Cons.IH [OF i] have "length (paint_rows c spans (paint (max 1 lo) hi c st)) = length st
      \<and> paint_rows c spans (paint (max 1 lo) hi c st) ! i = (if \<exists>s \<in> set spans. P s then c else if P (lo, hi) then c else st ! i)"
    unfolding p P_def by simp
  moreover have "(\<exists>x \<in> set (s # spans). P x) \<longleftrightarrow> P (lo, hi) \<or> (\<exists>s \<in> set spans. P s)" by (auto simp: s)
  ultimately show ?case unfolding step P_def by auto
qed (simp add: paint_rows_def)

lemma length_paint_rows [simp]: "length (paint_rows c spans st) = length st"
proof (induction spans arbitrary: st)
  case (Cons s spans)
  then show ?case by (cases s) (simp add: paint_rows_def)
qed (simp add: paint_rows_def)

text \<open>What a list of runs says of a height: 0 where no run has it.\<close>

fun code_at :: "(int \<times> int \<times> nat) list \<Rightarrow> int \<Rightarrow> nat" where
  "code_at [] n = 0"
| "code_at ((a, e, c) # rs) n = (if a \<le> n \<and> n \<le> e then c else code_at rs n)"

text \<open>Runs from \<open>i\<close> on: in order, not empty, of positive code, and maximal.\<close>

fun runs_ok :: "int \<Rightarrow> (int \<times> int \<times> nat) list \<Rightarrow> bool" where
  "runs_ok i [] = True"
| "runs_ok i ((a, e, c) # rs) = (i \<le> a \<and> a \<le> e \<and> 0 < c \<and> runs_ok (e + 1) rs
     \<and> (case rs of [] \<Rightarrow> True | (a', _, c') # _ \<Rightarrow> a' = e + 1 \<longrightarrow> c' \<noteq> c))"

lemma runs_ok_mono: "runs_ok i rs \<Longrightarrow> j \<le> i \<Longrightarrow> runs_ok j rs"
  by (cases rs) auto

lemma runs_ok_below: "runs_ok i rs \<Longrightarrow> n < i \<Longrightarrow> code_at rs n = 0"
  by (induction i rs rule: runs_ok.induct) auto

declare runs_from.simps(2) [simp del]

lemma drop_takeWhile: "drop (length (takeWhile P xs)) xs = dropWhile P xs"
  by (induction xs) auto

lemma runs_from_step:
  "runs_from i (x # xs) = (let k = length (takeWhile (\<lambda>y. y = x) xs); rest = runs_from (i + int k + 1) (dropWhile (\<lambda>y. y = x) xs)
      in if x = 0 then rest else (i, i + int k, x) # rest)"
  by (simp add: runs_from.simps(2) drop_takeWhile)

lemma runs_from_first: "runs_from i xs = (a, e, c) # rs \<Longrightarrow> i \<le> a \<and> xs \<noteq> [] \<and> (a = i \<longrightarrow> c = hd xs)"
proof (induction i xs arbitrary: a e c rs rule: runs_from.induct)
  case (2 i x xs)
  let ?k = "length (takeWhile (\<lambda>y. y = x) xs)"
  show ?case
  proof (cases "x = 0")
    case True
    with "2.prems" have "runs_from (i + int ?k + 1) (drop ?k xs) = (a, e, c) # rs" by (simp add: runs_from.simps(2) Let_def)
    from "2.IH" [OF refl this] show ?thesis by simp
  next
    case False
    with "2.prems" show ?thesis by (simp add: runs_from.simps(2) Let_def)
  qed
qed simp

lemma runs_from_ok: "runs_ok i (runs_from i xs)"
proof (induction i xs rule: runs_from.induct)
  case (2 i x xs)
  let ?k = "length (takeWhile (\<lambda>y. y = x) xs)" and ?ys = "dropWhile (\<lambda>y. y = x) xs"
  let ?rest = "runs_from (i + int ?k + 1) ?ys"
  have ih: "runs_ok (i + int ?k + 1) ?rest" using "2.IH" [OF refl] by (simp add: drop_takeWhile)
  have ne: "c' \<noteq> x" if r: "?rest = (a', e', c') # rs" "a' = i + int ?k + 1" for a' e' c' rs
    using runs_from_first [OF r(1)] r(2) hd_dropWhile [of "\<lambda>y. y = x" xs] by auto
  have nxt: "case ?rest of [] \<Rightarrow> True | (a', _, c') # _ \<Rightarrow> a' = i + int ?k + 1 \<longrightarrow> c' \<noteq> x"
  proof (cases ?rest)
    case (Cons p rs)
    obtain a' e' c' where p: "p = (a', e', c')" by (cases p)
    from ne [of a' e' c' rs] Cons show ?thesis by (simp add: p)
  qed simp
  show ?case
  proof (cases "x = 0")
    case True
    with ih runs_ok_mono [OF ih, of i] show ?thesis by (simp add: runs_from_step Let_def)
  next
    case False
    with ih nxt show ?thesis by (simp add: runs_from_step Let_def)
  qed
qed simp

lemma code_at_runs_from: "code_at (runs_from i xs) n = (if i \<le> n \<and> n < i + int (length xs) then xs ! nat (n - i) else 0)"
proof (induction i xs rule: runs_from.induct)
  case (2 i x xs)
  let ?k = "length (takeWhile (\<lambda>y. y = x) xs)" and ?ys = "dropWhile (\<lambda>y. y = x) xs"
  let ?j = "i + int ?k + 1"
  have ih: "code_at (runs_from ?j ?ys) n = (if ?j \<le> n \<and> n < ?j + int (length ?ys) then ?ys ! nat (n - ?j) else 0)"
    using "2.IH" [OF refl] by (simp add: drop_takeWhile)
  have len: "length xs = ?k + length ?ys" by (metis length_append takeWhile_dropWhile_id)
  have inrun: "(x # xs) ! nat (n - i) = x" if "i \<le> n" "n < ?j"
  proof (cases "n = i")
    case False
    with that have m: "nat (n - i) = Suc (nat (n - i - 1))" "nat (n - i - 1) < ?k" by linarith+
    then have "xs ! nat (n - i - 1) = takeWhile (\<lambda>y. y = x) xs ! nat (n - i - 1)" by (simp add: takeWhile_nth)
    moreover have "takeWhile (\<lambda>y. y = x) xs ! nat (n - i - 1) = x"
      using nth_mem [OF m(2)] by (metis (mono_tags, lifting) set_takeWhileD)
    ultimately show ?thesis by (simp add: m(1))
  qed simp
  have after: "(x # xs) ! nat (n - i) = ?ys ! nat (n - ?j)" if "?j \<le> n"
  proof -
    from that have "nat (n - i) = Suc (?k + nat (n - ?j))" by linarith
    then have "(x # xs) ! nat (n - i) = xs ! (?k + nat (n - ?j))" by simp
    also have "\<dots> = (takeWhile (\<lambda>y. y = x) xs @ ?ys) ! (?k + nat (n - ?j))" by simp
    also have "\<dots> = ?ys ! nat (n - ?j)" by (simp only: nth_append_length_plus)
    finally show ?thesis .
  qed
  show ?case
  proof (cases "i \<le> n \<and> n < ?j")
    case True
    then have "code_at (runs_from ?j ?ys) n = 0" using ih by simp
    with True inrun len show ?thesis by (auto simp: runs_from_step Let_def)
  next
    case False
    then have skip: "code_at (runs_from i (x # xs)) n = code_at (runs_from ?j ?ys) n"
      by (auto simp: runs_from_step Let_def)
    from False have "(i \<le> n \<and> n < i + int (length (x # xs))) \<longleftrightarrow> (?j \<le> n \<and> n < ?j + int (length ?ys))" using len by auto
    with after show ?thesis unfolding skip ih by auto
  qed
qed simp

text \<open>Counting in the runs is counting heights.\<close>

lemma count_runs_card:
  "runs_ok i rs \<Longrightarrow> lo \<le> hi \<Longrightarrow> (\<And>a e c rs'. rs = (a, e, c) # rs' \<Longrightarrow> lo \<le> e) \<Longrightarrow>
   count_runs lo hi rs = int (card {n \<in> {lo..hi}. 3 \<le> code_at rs n})"
proof (induction i rs rule: runs_ok.induct)
  case (2 i a e c rs)
  then have r: "a \<le> e" "lo \<le> e" "runs_ok (e + 1) rs" "lo \<le> hi" by auto
  have rest: "count_runs lo hi rs = int (card {n \<in> {lo..hi}. 3 \<le> code_at rs n})"
    using 2 r by (intro "2.IH") (auto split: list.splits)
  show ?case
  proof (cases "a \<le> hi")
    case False
    then have "code_at ((a, e, c) # rs) n = 0" if "n \<in> {lo..hi}" for n
      using that runs_ok_below [OF r(3), of n] r(1) by auto
    with False show ?thesis by (auto intro!: card_eq_0_iff [THEN iffD2] simp: Collect_empty_eq)
  next
    case True
    let ?here = "{n \<in> {lo..hi}. a \<le> n \<and> n \<le> e \<and> 3 \<le> c}" and ?later = "{n \<in> {lo..hi}. 3 \<le> code_at rs n}"
    have split: "{n \<in> {lo..hi}. 3 \<le> code_at ((a, e, c) # rs) n} = ?here \<union> ?later"
      using runs_ok_below [OF r(3)] by (auto split: if_splits)
    have disj: "?here \<inter> ?later = {}" using runs_ok_below [OF r(3)] by fastforce
    have "?here = (if 3 \<le> c then {max a lo..min e hi} else {})" by auto
    then have "int (card ?here) = (if c \<ge> 3 then min e hi - max a lo + 1 else 0)" using True r by auto
    moreover have "card (?here \<union> ?later) = card ?here + card ?later"
      by (rule card_Un_disjoint [OF _ _ disj]) (auto intro: finite_subset [of _ "{lo..hi}"])
    ultimately show ?thesis using True rest split by simp
  qed
qed simp

lemma code_at_skip: "runs_ok i rs \<Longrightarrow> lo \<le> n \<Longrightarrow> code_at (dropWhile (\<lambda>(a, e, c). e < lo) rs) n = code_at rs n"
  by (induction i rs rule: runs_ok.induct) auto

lemma runs_ok_skip: "runs_ok i rs \<Longrightarrow> runs_ok i (dropWhile P rs)"
proof (induction i rs rule: runs_ok.induct)
  case (2 i a e c rs)
  then show ?case using runs_ok_mono [of "e + 1" "dropWhile P rs" i] by auto
qed simp

lemma proven_in_card:
  assumes "runs_ok i rs" "lo \<le> hi"
  shows "proven_in lo hi rs = int (card {n \<in> {lo..hi}. 3 \<le> code_at rs n})"
proof -
  let ?ds = "dropWhile (\<lambda>(a, e, c). e < lo) rs"
  have "lo \<le> e" if "?ds = (a, e, c) # rs'" for a e c rs'
    using hd_dropWhile [of "\<lambda>(a, e, c). e < lo" rs] that by auto
  from count_runs_card [OF runs_ok_skip [OF assms(1)] assms(2) this]
  have "proven_in lo hi rs = int (card {n \<in> {lo..hi}. 3 \<le> code_at ?ds n})" by (simp add: proven_in_def)
  also have "{n \<in> {lo..hi}. 3 \<le> code_at ?ds n} = {n \<in> {lo..hi}. 3 \<le> code_at rs n}"
    using code_at_skip [OF assms(1)] by auto
  finally show ?thesis .
qed

section \<open>Properties\<close>

text \<open>What the tables say of a block: inside the spine, inside a fold, inside a proof, or open.\<close>

definition status_spec :: "string list \<Rightarrow> string option \<Rightarrow> board \<Rightarrow> int \<Rightarrow> nat" where
  "status_spec blk prover b n =
     (if prover = None \<and> 1 \<le> n \<and> n \<le> spine_floor b then 5
      else if \<exists>r \<in> set (map_rows blk prover b). v_id r \<in> fold_ids b \<and> v_lo r \<le> n \<and> n \<le> v_hi r \<and> 1 \<le> n then 4
      else if \<exists>r \<in> set (map_rows blk prover b). v_id r \<notin> fold_ids b \<and> v_lo r \<le> n \<and> n \<le> v_hi r \<and> 1 \<le> n then 3 else 0)"

lemma fold_max_ge_mem: "h \<in> set hs \<Longrightarrow> h \<le> fold max hs k" for h k :: int
proof (induction hs arbitrary: k)
  case (Cons x hs)
  show ?case
  proof (cases "h = x")
    case True
    have "x \<le> max x k" by simp
    also have "\<dots> \<le> fold max hs (max x k)" by (rule fold_max_le)
    finally show ?thesis using True by simp
  qed (use Cons in auto)
qed simp

lemma status_array_code:
  assumes "0 \<le> tip"
  shows "(if 0 \<le> n \<and> n < int (length (status_array blk tip prover b)) then status_array blk tip prover b ! nat n else 0)
    = status_spec blk prover b n"
proof -
  let ?rows = "map_rows blk prover b" and ?sp = "spine_floor b"
  let ?high = "fold max (map v_hi ?rows) (max tip ?sp)"
  let ?spans = "\<lambda>want. map (\<lambda>r. (v_lo r, v_hi r)) (filter (\<lambda>r. (v_id r \<in> fold_ids b) = want) ?rows)"
  let ?z = "replicate (nat (?high + 1)) (0 :: nat)"
  let ?st = "paint_rows 4 (?spans True) (paint_rows 3 (?spans False) ?z)"
  let ?arr = "status_array blk tip prover b"
  have arr: "?arr = (if prover = None \<and> ?sp \<noteq> 0 then paint 1 ?sp 5 ?st else ?st)"
    by (simp add: status_array_def Let_def)
  have high: "max tip ?sp \<le> ?high" "\<And>r. r \<in> set ?rows \<Longrightarrow> v_hi r \<le> ?high"
    by (rule fold_max_le) (rule fold_max_ge_mem, simp)
  have len: "length ?arr = nat (?high + 1)" by (simp add: arr)
  show ?thesis
  proof (cases "0 \<le> n \<and> n < int (length ?arr)")
    case False
    then have "n < 0 \<or> ?high < n" using len high(1) assms by linarith
    then have "status_spec blk prover b n = 0" using high by (force simp: status_spec_def)
    then show ?thesis by (simp only: if_not_P [OF False])
  next
    case True
    then have "nat n < nat (?high + 1)" using len by linarith
    then have i: "nat n < length ?z" "nat n < length (paint_rows 3 (?spans False) ?z)" "nat n < length ?st"
      by (simp_all only: length_paint_rows length_replicate)
    have c3: "paint_rows 3 (?spans False) ?z ! nat n
        = (if \<exists>r \<in> set ?rows. v_id r \<notin> fold_ids b \<and> v_lo r \<le> n \<and> n \<le> v_hi r \<and> 1 \<le> n then 3 else 0)"
      using paint_rows_nth [OF i(1), of 3 "?spans False"] True i(1) by auto
    have c4: "?st ! nat n = (if \<exists>r \<in> set ?rows. v_id r \<in> fold_ids b \<and> v_lo r \<le> n \<and> n \<le> v_hi r \<and> 1 \<le> n then 4
        else paint_rows 3 (?spans False) ?z ! nat n)"
      using paint_rows_nth [OF i(2), of 4 "?spans True"] True by auto
    have "?arr ! nat n = (if prover = None \<and> 1 \<le> n \<and> n \<le> ?sp then 5 else ?st ! nat n)"
      using i(3) True by (auto simp: arr paint_nth)
    also have "\<dots> = status_spec blk prover b n" unfolding c4 c3 status_spec_def by (cases "1 \<le> n") simp_all
    finally show ?thesis by (simp only: if_P [OF True])
  qed
qed

text \<open>
  Claim C17. The block map tells the truth about every block: the runs published are in order, disjoint and
  maximal, and read back they give each height, in or out of range, the strongest status the tables have
  for it: anchored, folded, proven or open. Counting the proven blocks of a span in the runs counts
  exactly the blocks the tables prove.
\<close>

theorem block_map_exact:
  assumes "0 \<le> tip"
  shows "runs_ok 0 (block_status blk tip prover b)
    \<and> (\<forall>n. code_at (block_status blk tip prover b) n = status_spec blk prover b n)
    \<and> (\<forall>lo hi. lo \<le> hi \<longrightarrow> proven_in lo hi (block_status blk tip prover b)
          = int (card {n \<in> {lo..hi}. status_spec blk prover b n \<noteq> 0}))"
proof -
  have ok: "runs_ok 0 (block_status blk tip prover b)" by (simp add: block_status_def runs_from_ok)
  have code: "code_at (block_status blk tip prover b) n = status_spec blk prover b n" for n
    unfolding block_status_def code_at_runs_from using status_array_code [OF assms, of n blk prover b]
    by (simp only: add_0 diff_0_right)
  have "3 \<le> status_spec blk prover b n \<longleftrightarrow> status_spec blk prover b n \<noteq> 0" for n by (simp add: status_spec_def)
  with proven_in_card [OF ok] code ok show ?thesis by simp
qed

theorem block_map_exact_witness:
  "code_at (block_status [] 20 None (empty_board\<lparr>vranges := [vr 2 2 1, vr 1 1 2, vr 1 2 3, vr 5 5 4]\<rparr>)) 2 = 4
   \<and> proven_in 1 9 (block_status [] 20 None (empty_board\<lparr>vranges := [vr 2 2 1, vr 1 1 2, vr 1 2 3, vr 5 5 4]\<rparr>)) = 3"
proof -
  let ?b = "empty_board\<lparr>vranges := [vr 2 2 1, vr 1 1 2, vr 1 2 3, vr 5 5 4]\<rparr>"
  have s: "status_spec [] None ?b 2 = 4" by code_simp
  have c: "proven_in 1 9 (block_status [] 20 None ?b) = 3" by code_simp
  from block_map_exact [of 20 "[]" None ?b] s c show ?thesis by simp
qed

end
