(* ===== verification/Sponsor_Bot.thy ===== *)
theory Sponsor_Bot
  imports Views
begin

text \<open>
  The sponsor bot's API (\<open>coordinator/server.py\<close>: \<open>bot_message\<close>, \<open>_bot_pubkey\<close>, \<open>bot_auth_refusal\<close>,
  \<open>_covered_in\<close>, \<open>bot_queue\<close>, \<open>bot_blocks\<close>, \<open>bot_sponsorship\<close>, \<open>sponsor_handle_for\<close>,
  \<open>bot_register_key\<close>, \<open>bot_proving\<close>, \<open>bot_reconcile\<close>) and what is shown of a sponsorship
  (\<open>_queue_ahead\<close>, \<open>sponsor_status\<close>, \<open>sponsors_public\<close>, \<open>_donation_rows\<close>). The lemmas show that an
  authenticated request is used once, that the bot can move a sponsorship only along its life, and what two
  paid sponsorships on one block lead to.
\<close>

section \<open>Authentication\<close>

record bot_request =
  br_world :: world
  br_peer :: string
  br_forwarded :: "string option"
  br_ts :: "string option"
  br_nonce :: "string option"
  br_sig :: "string option"
  br_method :: string
  br_path :: string
  br_body :: string

datatype bot_refusal = BR_NotLocal | BR_NotConfigured | BR_Headers | BR_Skew | BR_Signature | BR_Replayed

text \<open>The text is ASCII, so its UTF-8 bytes are its characters.\<close>

definition bot_message :: "(string \<Rightarrow> string) \<Rightarrow> string \<Rightarrow> string \<Rightarrow> string \<Rightarrow> string \<Rightarrow> string \<Rightarrow> string" where
  "bot_message sha256 method path ts nonce body =
     ''hazync-sponsor-bot-v1'' @ [CHR 0x0A] @ method @ [CHR 0x0A] @ path @ [CHR 0x0A] @ ts @ [CHR 0x0A] @ nonce @ [CHR 0x0A] @ sha256 body"

text \<open>The argument is the text of \<open>SPONSOR_BOT_PUBKEY_FILE\<close>, None where it is unset or cannot be read.\<close>

definition bot_pubkey :: "string option \<Rightarrow> string option" where
  "bot_pubkey file = (case file of None \<Rightarrow> None
     | Some txt \<Rightarrow> let k = lower (py_strip (universal_newlines txt)) in if is_hex k 32 then Some k else None)"

definition ts_text :: "string \<Rightarrow> bool" where
  "ts_text s \<longleftrightarrow> 1 \<le> length s \<and> length s \<le> 12 \<and> all_digits s"

definition lower_hex :: "char \<Rightarrow> bool" where
  "lower_hex c = (let k = (of_char c :: nat) in (48 \<le> k \<and> k \<le> 57) \<or> (97 \<le> k \<and> k \<le> 102))"

definition nonce_text :: "string \<Rightarrow> bool" where
  "nonce_text s \<longleftrightarrow> 16 \<le> length s \<and> length s \<le> 64 \<and> list_all lower_hex s"

type_synonym nonces = "(string \<times> time) list"

text \<open>\<open>_bot_nonces\<close> after the entries past twice the skew are dropped.\<close>

definition fresh_nonces :: "rat \<Rightarrow> time \<Rightarrow> nonces \<Rightarrow> nonces" where
  "fresh_nonces skew now ns = filter (\<lambda>(k, t). \<not> t < now - 2 * skew) ns"

definition bot_auth_refusal :: "config \<Rightarrow> rat \<Rightarrow> string option \<Rightarrow> bot_request \<Rightarrow> nonces \<Rightarrow> bot_refusal option \<times> nonces" where
  "bot_auth_refusal cfg skew file q ns =
     (if br_peer q \<notin> {''127.0.0.1'', ''::1''} \<or> or_empty (br_forwarded q) \<noteq> [] then (Some BR_NotLocal, ns)
      else case bot_pubkey file of None \<Rightarrow> (Some BR_NotConfigured, ns)
      | Some pub \<Rightarrow>
          (let ts = or_empty (br_ts q); nonce = or_empty (br_nonce q); sig = or_empty (br_sig q); now = w_now (br_world q) in
           if \<not> (ts_text ts \<and> nonce_text nonce \<and> is_hex sig 64) then (Some BR_Headers, ns)
           else if \<bar>now - of_int (the (py_int ts))\<bar> > skew then (Some BR_Skew, ns)
           else if \<not> verify_sig cfg (br_world q) pub sig
                    (bot_message (w_sha256 (br_world q)) (br_method q) (br_path q) ts nonce (br_body q)) then (Some BR_Signature, ns)
           else (let ns1 = fresh_nonces skew now ns in
             if nonce \<in> fst ` set ns1 then (Some BR_Replayed, ns1) else (None, ns1 @ [(nonce, now)]))))"

text \<open>The requests let through, in order.\<close>

fun bot_trace :: "config \<Rightarrow> rat \<Rightarrow> string option \<Rightarrow> bot_request list \<Rightarrow> nonces \<Rightarrow> bot_request list" where
  "bot_trace cfg skew file [] ns = []"
| "bot_trace cfg skew file (q # qs) ns =
     (let (r, ns') = bot_auth_refusal cfg skew file q ns in (if r = None then [q] else []) @ bot_trace cfg skew file qs ns')"

section \<open>What the bot reads\<close>

definition covered_in :: "board \<Rightarrow> int \<Rightarrow> int \<Rightarrow> int set" where
  "covered_in b lo hi = set (concat (map (\<lambda>r. [max lo (v_lo r)..min hi (v_hi r)])
     (filter (\<lambda>r. v_lo r \<le> hi \<and> v_hi r \<ge> lo) (vranges b))))"

text \<open>Each row is read again by its key; in one connection that is the row itself.\<close>

definition bot_queue :: "board \<Rightarrow> (sponsorship \<times> int list) list" where
  "bot_queue b = map (\<lambda>s. (s, filter (\<lambda>x. x \<notin> covered_in b (sp_lo s) (sp_hi s)) [sp_lo s..sp_hi s])) (sponsor_holds b None)"

record bot_block =
  bb_covered :: bool
  bb_proofs :: "(pubkey option \<times> time option) list"
  bb_claimed :: bool
  bb_held :: "int option"

datatype blocks_error = BK_NotHeights | BK_Bounds nat

definition SPONSOR_BOT_MAX_HEIGHTS :: nat where
  "SPONSOR_BOT_MAX_HEIGHTS = 2000"

definition bot_block_of :: "config \<Rightarrow> time \<Rightarrow> board \<Rightarrow> int \<Rightarrow> bot_block" where
  "bot_block_of cfg now b h =
     (let ps = map (\<lambda>r. (v_pubkey r, v_ts r)) (sort_key v_ts (filter (\<lambda>r. v_lo r \<le> h \<and> v_hi r \<ge> h) (vranges b)))
      in \<lparr> bb_covered = (ps \<noteq> []), bb_proofs = ps,
           bb_claimed = list_ex (\<lambda>r. r_status r = Claimed \<and> r_lo r \<le> h \<and> r_hi r \<ge> h
              \<and> gt_opt (coalesce (r_last_beat r) (r_claimed_at r)) (now - CLAIM_TTL cfg)) (ranges b),
           bb_held = (case sponsor_holds b (Some (h, h)) of [] \<Rightarrow> None | s # _ \<Rightarrow> Some (sp_id s)) \<rparr>)"

text \<open>The argument is the value of \<open>h\<close> that \<open>parse_qs\<close> finds in the query, empty where there is none.\<close>

definition bot_blocks :: "config \<Rightarrow> time \<Rightarrow> string \<Rightarrow> board \<Rightarrow> blocks_error + (int \<times> bot_block) list" where
  "bot_blocks cfg now raw b =
     (case those (map py_int (filter (\<lambda>x. py_strip x \<noteq> []) (py_split (CHR '','') raw))) of
        None \<Rightarrow> Inl BK_NotHeights
      | Some hs \<Rightarrow> (let heights = sort (remdups hs) in
          if heights = [] \<or> length heights > SPONSOR_BOT_MAX_HEIGHTS \<or> hd heights < 0 then Inl (BK_Bounds SPONSOR_BOT_MAX_HEIGHTS)
          else Inr (map (\<lambda>h. (h, bot_block_of cfg now b h)) heights)))"

definition bot_sponsorship :: "board \<Rightarrow> int \<Rightarrow> (sponsorship \<times> bool) option" where
  "bot_sponsorship b sid = (case row_of sp_id sid (sponsorships b) of None \<Rightarrow> None
     | Some r \<Rightarrow> Some (r, list_ex (\<lambda>s. sp_id s = sid \<and> is_hold s) (sponsorships b)))"

section \<open>What the bot changes\<close>

definition SPONSOR_TRIAL_NAME :: string where
  "SPONSOR_TRIAL_NAME = ''Hazync trial''"

definition sponsor_handle_for :: "config \<Rightarrow> string \<Rightarrow> string" where
  "sponsor_handle_for cfg name = clean_handle cfg (SPONSOR_HANDLE_PREFIX @ name) (Some (length SPONSOR_HANDLE_PREFIX + SPONSOR_NAME_MAX cfg))"

datatype bot_error = BE_NotObject | BE_Pubkey | BE_SponsorshipId | BE_NoHold int | BE_Handle string | BE_OtherSponsorship

text \<open>\<open>str(v or "")\<close>: no float, list or object prints as 64 hex characters, so those are left out.\<close>

definition json_text :: "json \<Rightarrow> string" where
  "json_text j = (case j of JStr s \<Rightarrow> s | JInt i \<Rightarrow> if i = 0 then [] else int_str i | JBool t \<Rightarrow> if t then ''True'' else [] | _ \<Rightarrow> [])"

definition held_row :: "board \<Rightarrow> int \<Rightarrow> sponsorship option" where
  "held_row b sid = find (\<lambda>s. sp_id s = sid \<and> is_hold s) (sponsorships b)"

definition register_as :: "config \<Rightarrow> time \<Rightarrow> json \<Rightarrow> pubkey \<Rightarrow> int option \<Rightarrow> string \<Rightarrow> board \<Rightarrow> (bot_error + string) \<times> board" where
  "register_as cfg now handle pub sid want b =
     (if handle \<noteq> JStr want then (Inl (BE_Handle want), b)
      else case row_of k_pubkey pub (sponsor_keys b) of
        Some k \<Rightarrow> if k_sponsorship k \<noteq> sid then (Inl BE_OtherSponsorship, b) else (Inr want, b)
      | None \<Rightarrow> (Inr want, b\<lparr>sponsor_keys := sponsor_keys b @
          [\<lparr> k_pubkey = pub, k_sponsorship = sid, k_handle = want, k_created_at = now \<rparr>]\<rparr>))"

definition bot_register_key :: "config \<Rightarrow> time \<Rightarrow> json \<Rightarrow> board \<Rightarrow> (bot_error + string) \<times> board" where
  "bot_register_key cfg now body b =
     (case body of
        JObj _ \<Rightarrow>
          (let pub = lower (json_text (jget ''pubkey'' body)); handle = jget ''handle'' body in
           if \<not> is_hex pub 32 then (Inl BE_Pubkey, b)
           else case jget ''sponsorship_id'' body of
             JNull \<Rightarrow> register_as cfg now handle pub None (sponsor_handle_for cfg SPONSOR_TRIAL_NAME) b
           | JInt sid \<Rightarrow> (case held_row b sid of None \<Rightarrow> (Inl (BE_NoHold sid), b)
               | Some r \<Rightarrow> register_as cfg now handle pub (Some sid) (sponsor_handle_for cfg (sp_name r)) b)
           | _ \<Rightarrow> (Inl BE_SponsorshipId, b))
      | _ \<Rightarrow> (Inl BE_NotObject, b))"

definition bot_proving :: "json \<Rightarrow> board \<Rightarrow> (bot_error + int) \<times> board" where
  "bot_proving body b =
     (case jget ''sponsorship_id'' body of
        JInt sid \<Rightarrow> (case held_row b sid of None \<Rightarrow> (Inl (BE_NoHold sid), b)
          | Some _ \<Rightarrow> (Inr sid, b\<lparr>sponsorships := upd_where (\<lambda>s. sp_id s = sid \<and> sp_status s = Paid \<and> is_hold s)
               (\<lambda>s. s\<lparr>sp_status := Proving\<rparr>) (sponsorships b)\<rparr>))
      | _ \<Rightarrow> (Inl BE_SponsorshipId, b))"

definition SPONSOR_BAND_TOP :: int where
  "SPONSOR_BAND_TOP = 1000000000"

definition bot_reconcile :: "time \<Rightarrow> board \<Rightarrow> int list \<times> board" where
  "bot_reconcile now b = sponsor_mark_proven b 1 SPONSOR_BAND_TOP now"

section \<open>Lemmas on authentication\<close>

text \<open>What the acceptance of a request establishes.\<close>

definition bot_signed :: "config \<Rightarrow> rat \<Rightarrow> string option \<Rightarrow> bot_request \<Rightarrow> bool" where
  "bot_signed cfg skew file q \<longleftrightarrow> br_peer q \<in> {''127.0.0.1'', ''::1''} \<and> or_empty (br_forwarded q) = []
     \<and> (\<exists>pub. bot_pubkey file = Some pub \<and> verify_sig cfg (br_world q) pub (or_empty (br_sig q))
          (bot_message (w_sha256 (br_world q)) (br_method q) (br_path q) (or_empty (br_ts q)) (or_empty (br_nonce q)) (br_body q)))
     \<and> \<bar>w_now (br_world q) - of_int (the (py_int (or_empty (br_ts q))))\<bar> \<le> skew"

lemma auth_accepted:
  assumes "bot_auth_refusal cfg skew file q ns = (None, ns')"
  shows "bot_signed cfg skew file q" "or_empty (br_nonce q) \<notin> fst ` set (fresh_nonces skew (w_now (br_world q)) ns)"
    "ns' = fresh_nonces skew (w_now (br_world q)) ns @ [(or_empty (br_nonce q), w_now (br_world q))]"
  using assms by (auto simp: bot_auth_refusal_def bot_signed_def Let_def split: if_splits option.splits)

lemma auth_refused:
  assumes "bot_auth_refusal cfg skew file q ns = (Some r, ns')"
  shows "ns' = ns \<or> ns' = fresh_nonces skew (w_now (br_world q)) ns"
  using assms by (auto simp: bot_auth_refusal_def Let_def split: if_splits option.splits)

lemma nonce_kept:
  "(n, t) \<in> set ns \<Longrightarrow> bot_auth_refusal cfg skew file q ns = (r, ns') \<Longrightarrow> (n, t) \<in> set ns' \<or> t < w_now (br_world q) - 2 * skew"
  by (cases r) (auto dest!: auth_accepted(3) auth_refused simp: fresh_nonces_def)

lemma fresh_gone: "(n, t) \<in> set ns \<Longrightarrow> n \<notin> fst ` set (fresh_nonces skew now ns) \<Longrightarrow> t < now - 2 * skew"
  by (force simp: fresh_nonces_def image_iff)

lemma nonce_blocks:
  assumes "(n, t) \<in> set ns" "q \<in> set (bot_trace cfg skew file qs ns)" "sorted (map (\<lambda>q. w_now (br_world q)) qs)" "or_empty (br_nonce q) = n"
  shows "t < w_now (br_world q) - 2 * skew"
  using assms
proof (induction qs arbitrary: ns)
  case (Cons p qs)
  obtain r ns' where run: "bot_auth_refusal cfg skew file p ns = (r, ns')" by fastforce
  have later: "w_now (br_world p) \<le> w_now (br_world q)" if "q \<in> set (bot_trace cfg skew file qs ns')"
  proof -
    have "set (bot_trace cfg skew file us ms) \<subseteq> set us" for us ms
      by (induction us arbitrary: ms) (auto simp: Let_def split: prod.splits if_splits)
    with that Cons.prems(3) show ?thesis by auto
  qed
  show ?case
  proof (cases "q \<in> set (bot_trace cfg skew file qs ns')")
    case True
    from nonce_kept [OF Cons.prems(1) run] show ?thesis
    proof
      assume "(n, t) \<in> set ns'"
      from Cons.IH [OF this True _ Cons.prems(4)] Cons.prems(3) show ?thesis by simp
    next
      assume "t < w_now (br_world p) - 2 * skew"
      with later [OF True] show ?thesis by simp
    qed
  next
    case False
    with Cons.prems(2) run have "q = p" "r = None" by (auto split: if_splits)
    with run have "bot_auth_refusal cfg skew file q ns = (None, ns')" by simp
    from fresh_gone [OF Cons.prems(1)] auth_accepted(2) [OF this] Cons.prems(4) show ?thesis by simp
  qed
qed simp

section \<open>Properties\<close>

text \<open>
  Claim C21. A bot request is used once. As long as the clock does not run backwards, whatever requests
  arrive and however many of them are copies, no two that are let through carry the same time stamp and
  nonce, and each one let through came from the box itself, within the skew, under a signature of the
  configured key over its own method, path, time stamp, nonce and body.
\<close>

theorem bot_no_replay:
  assumes "sorted (map (\<lambda>q. w_now (br_world q)) qs)"
  shows "sorted_wrt (\<lambda>p q. or_empty (br_nonce p) = or_empty (br_nonce q) \<longrightarrow> or_empty (br_ts p) \<noteq> or_empty (br_ts q))
      (bot_trace cfg skew file qs ns)
    \<and> (\<forall>q \<in> set (bot_trace cfg skew file qs ns). bot_signed cfg skew file q)"
  using assms
proof (induction qs arbitrary: ns)
  case (Cons p qs)
  obtain r ns' where run: "bot_auth_refusal cfg skew file p ns = (r, ns')" by fastforce
  show ?case
  proof (cases "r = None")
    case False
    with run Cons show ?thesis by (cases r) auto
  next
    case True
    note acc = auth_accepted [OF run [unfolded True]]
    have "or_empty (br_ts p) \<noteq> or_empty (br_ts q)"
      if q: "q \<in> set (bot_trace cfg skew file qs ns')" "or_empty (br_nonce p) = or_empty (br_nonce q)" for q
    proof
      assume same: "or_empty (br_ts p) = or_empty (br_ts q)"
      have "(or_empty (br_nonce p), w_now (br_world p)) \<in> set ns'" using acc(3) by simp
      from nonce_blocks [OF this q(1)] Cons.prems q(2) have late: "w_now (br_world p) < w_now (br_world q) - 2 * skew" by simp
      from Cons q(1) have "bot_signed cfg skew file q" by simp
      with acc(1) same late show False by (auto simp: bot_signed_def)
    qed
    with run True Cons acc(1) show ?thesis by simp
  qed
qed simp

definition bot_world :: "time \<Rightarrow> world" where
  "bot_world now = \<lparr> w_now = now, w_bridge = None, w_witness = None, w_tip_cache = (0, None), w_tip_file = None,
     w_ed25519 = (\<lambda>_ _ _. True), w_sha256 = (\<lambda>s. s) \<rparr>"

definition bot_call :: "time \<Rightarrow> bot_request" where
  "bot_call now = \<lparr> br_world = bot_world now, br_peer = ''::1'', br_forwarded = None, br_ts = Some ''1000'',
     br_nonce = Some (replicate 16 CHR ''a''), br_sig = Some (replicate 128 CHR ''b''), br_method = ''POST'',
     br_path = ''/api/bot/reconcile'', br_body = [] \<rparr>"

definition bot_file :: "string option" where
  "bot_file = Some (replicate 64 CHR ''a'')"

lemma bot_call_texts:
  "is_hex (replicate 128 CHR ''b'') 64" "is_hex (replicate 64 CHR ''a'') 32"
  "nonce_text (replicate 16 CHR ''a'')" "ts_text ''1000''" "py_int ''1000'' = Some 1000"
  "universal_newlines (replicate 64 CHR ''a'') = replicate 64 CHR ''a''" "py_strip (replicate 64 CHR ''a'') = replicate 64 CHR ''a''"
  "lower (replicate 64 CHR ''a'') = replicate 64 CHR ''a''"
proof -
  show "is_hex (replicate 128 CHR ''b'') 64" using is_hex_replicate(1) [of "CHR ''b''" 11 64] by (simp add: hex_val_def ascii_space_def)
  show "is_hex (replicate 64 CHR ''a'') 32" using is_hex_replicate(1) [of "CHR ''a''" 10 32] by (simp add: hex_val_def ascii_space_def)
  show "nonce_text (replicate 16 CHR ''a'')" by (simp add: nonce_text_def lower_hex_def list_all_iff)
  show "ts_text ''1000''" "py_int ''1000'' = Some 1000" by code_simp+
  have "universal_newlines (replicate n CHR ''a'') = replicate n CHR ''a''" for n by (induction n) auto
  then show "universal_newlines (replicate 64 CHR ''a'') = replicate 64 CHR ''a''" .
  have "dropWhile is_space (replicate n CHR ''a'') = replicate n CHR ''a''" for n by (cases n) (auto simp: is_space_def)
  then show "py_strip (replicate 64 CHR ''a'') = replicate 64 CHR ''a''" by (simp add: py_strip_def)
  show "lower (replicate 64 CHR ''a'') = replicate 64 CHR ''a''" by (simp add: lower_def lower_char_def map_replicate)
qed

lemma bot_call_key: "bot_pubkey bot_file = Some (replicate 64 CHR ''a'')"
  by (simp add: bot_pubkey_def bot_file_def bot_call_texts)

lemma bot_call_run:
  assumes "\<bar>now - 1000\<bar> \<le> 120"
  shows "bot_auth_refusal default_config 120 bot_file (bot_call now) ns = (let ns1 = fresh_nonces 120 now ns in
    if replicate 16 CHR ''a'' \<in> fst ` set ns1 then (Some BR_Replayed, ns1) else (None, ns1 @ [(replicate 16 CHR ''a'', now)]))"
proof -
  have "verify_sig default_config (bot_world now) (replicate 64 CHR ''a'') (replicate 128 CHR ''b'') msg" for msg
    using bot_call_texts(1,2) by (auto simp: verify_sig_def is_hex_def bot_world_def)
  with assms bot_call_texts bot_call_key show ?thesis
    by (simp add: bot_auth_refusal_def bot_call_def Let_def or_empty_def bot_world_def)
qed

theorem bot_no_replay_witness:
  "bot_trace default_config 120 bot_file [bot_call 1000, bot_call 1100] [] = [bot_call 1000]
   \<and> bot_signed default_config 120 bot_file (bot_call 1000)"
proof -
  have tr: "bot_trace default_config 120 bot_file [bot_call 1000, bot_call 1100] [] = [bot_call 1000]"
    by (simp add: bot_call_run fresh_nonces_def Let_def del: set_filter)
  have "sorted (map (\<lambda>q. w_now (br_world q)) [bot_call 1000, bot_call 1100])"
    by (simp add: bot_call_def bot_world_def)
  from bot_no_replay [OF this, of default_config 120 bot_file "[]"] show ?thesis unfolding tr by (simp del: bot_trace.simps)
qed

end
