(* ===== verification/Sponsor_Life.thy ===== *)
theory Sponsor_Life
  imports Sponsor_Bot
begin

text \<open>
  The life of a sponsorship across the operations that touch it: requests, the payment poll, the bot's
  calls, and submissions (\<open>coordinator/server.py\<close>: \<open>sponsor_request\<close>, \<open>sponsor_payments_poll\<close>,
  \<open>bot_register_key\<close>, \<open>bot_proving\<close>, \<open>bot_reconcile\<close>, \<open>submit\<close>), in any order, and what the public pages
  show of it (\<open>_queue_ahead\<close>, \<open>sponsor_status\<close>, \<open>sponsors_public\<close>, \<open>_donation_rows\<close>). The invariant
  says that nothing counts as sponsored that was not paid in full, and that every key the bot may prove
  under belongs to such a sponsorship. The last part shows what a late payment can lead to.
\<close>

section \<open>What is shown\<close>

definition queue_ahead :: "board \<Rightarrow> sponsorship \<Rightarrow> nat option" where
  "queue_ahead b r = (case sp_paid_at r of None \<Rightarrow> None
     | Some t \<Rightarrow> if sp_status r \<noteq> Paid then None
         else Some (length (filter (\<lambda>s. sp_status s = Paid \<and> is_public_sponsorship s
                \<and> (case sp_paid_at s of None \<Rightarrow> False | Some u \<Rightarrow> u < t \<or> u = t \<and> sp_id s < sp_id r)) (sponsorships b))))"

record sponsor_view =
  sv_id :: int
  sv_name :: string
  sv_lo :: int
  sv_hi :: int
  sv_blocks :: int
  sv_status :: sp_status
  sv_min_usd :: "int option"
  sv_min_sats :: "int option"
  sv_paid_sats :: "int option"
  sv_paid_at :: "time option"
  sv_proven_at :: "time option"
  sv_proven_blocks :: int
  sv_queue_ahead :: "nat option"

definition view_of :: "(int \<times> int \<times> nat) list \<Rightarrow> board \<Rightarrow> sponsorship \<Rightarrow> sponsor_view" where
  "view_of runs b r = \<lparr> sv_id = sp_id r, sv_name = sp_name r, sv_lo = sp_lo r, sv_hi = sp_hi r, sv_blocks = sp_hi r - sp_lo r + 1,
     sv_status = sp_status r, sv_min_usd = sp_min_usd r, sv_min_sats = sp_min_sats r, sv_paid_sats = sp_paid_sats r,
     sv_paid_at = sp_paid_at r, sv_proven_at = sp_proven_at r, sv_proven_blocks = proven_in (sp_lo r) (sp_hi r) runs,
     sv_queue_ahead = queue_ahead b r \<rparr>"

text \<open>What the private link adds to the public view.\<close>

record private_view = sponsor_view +
  sv_pledged_sats :: "int option"
  sv_created_at :: time
  sv_public :: bool
  sv_checkout :: "(string option \<times> time option) option"

definition link_char :: "char \<Rightarrow> bool" where
  "link_char c = (let k = (of_char c :: nat) in (65 \<le> k \<and> k \<le> 90) \<or> (97 \<le> k \<and> k \<le> 122) \<or> (48 \<le> k \<and> k \<le> 57) \<or> k = 95 \<or> k = 45)"

definition sponsor_status :: "(string \<Rightarrow> string) \<Rightarrow> (int \<times> int \<times> nat) list \<Rightarrow> string \<Rightarrow> board \<Rightarrow> private_view option" where
  "sponsor_status sha256 runs token b =
     (if \<not> (16 \<le> length token \<and> length token \<le> 128 \<and> list_all link_char token) then None
      else case find (\<lambda>s. sp_token_hash s = Some (sha256 token)) (sponsorships b) of None \<Rightarrow> None
      | Some r \<Rightarrow> Some (sponsor_view.extend (view_of runs b r)
          \<lparr> sv_pledged_sats = sp_pledged_sats r, sv_created_at = sp_created_at r, sv_public = is_public_sponsorship r,
            sv_checkout = (if sp_status r = Invoiced then Some (sp_checkout_url r, sp_invoice_expires_at r) else None) \<rparr>))"

text \<open>\<open>ORDER BY paid_at DESC, id DESC\<close>, NULL last.\<close>

definition sponsors_public :: "(int \<times> int \<times> nat) list \<Rightarrow> board \<Rightarrow> sponsor_view list" where
  "sponsors_public runs b = map (view_of runs b)
     (rev (sort_key (\<lambda>s. (sp_paid_at s, sp_id s)) (filter is_public_sponsorship (sponsorships b))))"

section \<open>Donations\<close>

text \<open>\<open>float(v)\<close> of a decoded value; None where it raises.\<close>

definition json_float :: "json \<Rightarrow> rat option" where
  "json_float j = (case j of JInt i \<Rightarrow> Some (of_int i) | JBool t \<Rightarrow> Some (if t then 1 else 0) | JFloat r \<Rightarrow> Some r
     | JStr s \<Rightarrow> decimal s | _ \<Rightarrow> None)"

record donation =
  do_ts :: int
  do_amount :: rat
  do_currency :: json

definition settled_statuses :: "string list" where
  "settled_statuses = [''settled'', ''complete'', ''confirmed'']"

text \<open>
  One invoice of the list; None where it is passed over. \<open>status\<close> and \<open>orderId\<close> are read as text. The
  amount received counts, else the price asked. The time is kept in seconds.
\<close>

definition donation_of :: "json \<Rightarrow> donation option" where
  "donation_of i =
     (if \<not> (case i of JObj _ \<Rightarrow> True | _ \<Rightarrow> False) \<or> lower (json_text (jget ''status'' i)) \<notin> set settled_statuses then None
      else if prefixed ''hazync-sponsorship-'' (json_text (jget ''orderId'' (jget ''metadata'' i))) then None
      else case json_int (j_or (jget ''createdTime'' i) (JInt 0)) of None \<Rightarrow> None | Some ts \<Rightarrow>
        if ts \<le> 0 then None
        else (let got = (case json_float (j_or (jget ''paidAmount'' i) (JInt 0)) of None \<Rightarrow> 0 | Some p \<Rightarrow> p) in
          case (if got \<le> 0 then json_float (j_or (jget ''amount'' i) (JInt 0)) else Some got) of None \<Rightarrow> None | Some paid \<Rightarrow>
            if paid \<le> 0 then None
            else Some \<lparr> do_ts = ts, do_amount = py_round 2 paid, do_currency = j_or (jget ''currency'' i) (JStr ''GBP'') \<rparr>))"

text \<open>The argument is the answer of the payment server, None where the call fails; so is the result.\<close>

definition donation_rows :: "json option \<Rightarrow> donation list option" where
  "donation_rows answer = (case answer of
     Some (JArr is) \<Rightarrow> Some (sort_key (\<lambda>d. - do_ts d) (List.map_filter donation_of is))
   | _ \<Rightarrow> None)"

section \<open>The steps\<close>

text \<open>
  Every operation that writes a sponsorship or a sponsor key, with whatever the outside answers; \<open>other\<close> is
  any operation that writes neither (claims, beats, rotations, admissions).
\<close>

inductive sp_step :: "config \<Rightarrow> sponsor_config \<Rightarrow> pay_state \<Rightarrow> pay_state \<Rightarrow> bool" for cfg :: config and sc :: sponsor_config where
  request: "sponsor_request cfg sc w rate open_invoice token body ps = (res, ps') \<Longrightarrow> sp_step cfg sc ps ps'"
| poll: "sponsor_payments_poll sc now ask (ps_board ps) = (moved, b) \<Longrightarrow> sp_step cfg sc ps (ps\<lparr>ps_board := b\<rparr>)"
| register: "bot_register_key cfg now jbody (ps_board ps) = (res', b) \<Longrightarrow> sp_step cfg sc ps (ps\<lparr>ps_board := b\<rparr>)"
| proving: "bot_proving jbody (ps_board ps) = (res'', b) \<Longrightarrow> sp_step cfg sc ps (ps\<lparr>ps_board := b\<rparr>)"
| reconcile: "bot_reconcile now (ps_board ps) = (ids, b) \<Longrightarrow> sp_step cfg sc ps (ps\<lparr>ps_board := b\<rparr>)"
| submit: "submit_commit cfg w d sbody adm vd sv = (rep, sv') \<Longrightarrow> sv_board sv = ps_board ps \<Longrightarrow>
    sp_step cfg sc ps (ps\<lparr>ps_board := sv_board sv'\<rparr>)"
| other: "sponsorships b = sponsorships (ps_board ps) \<Longrightarrow> sponsor_keys b = sponsor_keys (ps_board ps) \<Longrightarrow>
    sp_step cfg sc ps (ps\<lparr>ps_board := b\<rparr>)"

definition life_init :: "pay_state \<Rightarrow> bool" where
  "life_init ps \<longleftrightarrow> sponsorships (ps_board ps) = [] \<and> sponsor_keys (ps_board ps) = [] \<and> ps_seq ps = 0"

definition key_ok :: "config \<Rightarrow> sponsorship list \<Rightarrow> sponsor_key \<Rightarrow> bool" where
  "key_ok cfg ss k \<longleftrightarrow> (case k_sponsorship k of None \<Rightarrow> k_handle k = sponsor_handle_for cfg SPONSOR_TRIAL_NAME
     | Some sid \<Rightarrow> \<exists>s \<in> set ss. sp_id s = sid \<and> is_public_sponsorship s \<and> k_handle k = sponsor_handle_for cfg (sp_name s))"

definition row_ok :: "sponsorship \<Rightarrow> bool" where
  "row_ok s \<longleftrightarrow> paid_in_full s \<and> sp_status s \<le> Proven"

definition life_ok :: "config \<Rightarrow> pay_state \<Rightarrow> bool" where
  "life_ok cfg ps \<longleftrightarrow> ids_below ps \<and> (\<forall>s \<in> set (sponsorships (ps_board ps)). row_ok s)
     \<and> distinct (map k_pubkey (sponsor_keys (ps_board ps))) \<and> (\<forall>k \<in> set (sponsor_keys (ps_board ps)). key_ok cfg (sponsorships (ps_board ps)) k)"

text \<open>Rows moved along and rows appended.\<close>

definition grown :: "sponsorship list \<Rightarrow> sponsorship list \<Rightarrow> bool" where
  "grown xs ys \<longleftrightarrow> (\<exists>us vs. ys = us @ vs \<and> list_all2 sp_move xs us)"

section \<open>Lemmas\<close>

lemma grown_moves: "list_all2 sp_move xs ys \<Longrightarrow> grown xs ys"
  by (auto simp: grown_def)

lemma grown_refl [simp]: "grown xs xs"
  by (simp add: grown_moves)

lemma grown_append [simp]: "grown xs (xs @ ys)"
  unfolding grown_def using moves_refl by blast

lemma moves_row: "list_all2 sp_move xs ys \<Longrightarrow> s \<in> set xs \<Longrightarrow> \<exists>t \<in> set ys. sp_move s t"
  by (induction rule: list_all2_induct) auto

lemma grown_row: "grown xs ys \<Longrightarrow> s \<in> set xs \<Longrightarrow> \<exists>t \<in> set ys. sp_move s t"
  unfolding grown_def using moves_row by fastforce

lemma public_status: "is_public_sponsorship s \<longleftrightarrow> Paid \<le> sp_status s \<and> sp_status s \<le> Proven \<and> paid_enough s"
  by (cases "sp_status s") (simp_all add: is_public_sponsorship_def less_eq_sp_status_def)

lemma paid_enough_iff: "paid_enough s \<longleftrightarrow> (\<exists>p m. sp_paid_sats s = Some p \<and> sp_min_sats s = Some m \<and> m \<le> p)"
  by (auto simp: paid_enough_def split: option.splits)

lemma public_moves: "sp_move s t \<Longrightarrow> row_ok s \<Longrightarrow> is_public_sponsorship s \<Longrightarrow> is_public_sponsorship t"
proof -
  assume m: "sp_move s t" "row_ok s" "is_public_sponsorship s"
  then have st: "Paid \<le> sp_status t" "sp_status t \<le> Proven" by (auto simp: sp_move_def row_ok_def public_status)
  moreover from m have "paid_in_full t" by (auto simp: sp_move_def row_ok_def)
  moreover from st have "sp_status t \<in> {Paid, Proving, Proven}" by (cases "sp_status t") (simp_all add: less_eq_sp_status_def)
  ultimately show ?thesis by (auto simp: public_status paid_in_full_def)
qed

lemma key_ok_grown: "key_ok cfg xs k \<Longrightarrow> grown xs ys \<Longrightarrow> \<forall>s \<in> set xs. row_ok s \<Longrightarrow> key_ok cfg ys k"
proof (cases "k_sponsorship k")
  case (Some sid)
  assume k: "key_ok cfg xs k" "grown xs ys" "\<forall>s \<in> set xs. row_ok s"
  with Some obtain s where s: "s \<in> set xs" "sp_id s = sid" "is_public_sponsorship s" "k_handle k = sponsor_handle_for cfg (sp_name s)"
    by (auto simp: key_ok_def)
  from grown_row [OF k(2) s(1)] obtain t where "t \<in> set ys" "sp_move s t" ..
  with s k(3) public_moves [of s t] Some show ?thesis by (auto simp: key_ok_def sp_move_def terms_eq)
qed (simp add: key_ok_def)

text \<open>The operations that only move rows along.\<close>

lemma poll_row_keys [simp]: "sponsor_keys (snd (poll_row sc now ask r acc)) = sponsor_keys (snd acc)"
  by (cases acc) (auto simp: poll_row_def Let_def split: option.split prod.split)

lemma poll_keys [simp]: "sponsor_keys (snd (sponsor_payments_poll sc now ask b)) = sponsor_keys b"
proof -
  have "sponsor_keys (snd (fold (poll_row sc now ask) rs acc)) = sponsor_keys (snd acc)" for rs acc
    by (induction rs arbitrary: acc) simp_all
  then show ?thesis by (simp add: sponsor_payments_poll_def)
qed

lemma marked_from: "sponsorships b = ss \<Longrightarrow> list_all2 sp_move ss (sponsorships (snd (sponsor_mark_proven b lo hi now)))"
  using mark_proven_moves by auto

lemma proving_moves: "list_all2 sp_move (sponsorships b) (sponsorships (snd (bot_proving jbody b)))"
proof -
  have "list_all2 sp_move ss (upd_where (\<lambda>s. sp_id s = sid \<and> sp_status s = Paid \<and> is_hold s) (\<lambda>s. s\<lparr>sp_status := Proving\<rparr>) ss)" for ss sid
    by (rule moves_upd) (auto simp: sp_move_def terms_eq paid_in_full_def paid_enough_def)
  then show ?thesis by (auto simp: bot_proving_def split: json.split option.split)
qed

lemma proving_keys [simp]: "sponsor_keys (snd (bot_proving jbody b)) = sponsor_keys b"
  by (auto simp: bot_proving_def split: json.split option.split)

lemma reconcile_moves: "list_all2 sp_move (sponsorships b) (sponsorships (snd (bot_reconcile now b)))"
  by (simp add: bot_reconcile_def mark_proven_moves)

lemma reconcile_keys [simp]: "sponsor_keys (snd (bot_reconcile now b)) = sponsor_keys b"
  by (simp add: bot_reconcile_def)

lemma commit_moves:
  "list_all2 sp_move (sponsorships (sv_board sv)) (sponsorships (sv_board (snd (submit_commit cfg w d sbody adm vd sv))))
   \<and> sponsor_keys (sv_board (snd (submit_commit cfg w d sbody adm vd sv))) = sponsor_keys (sv_board sv)"
proof -
  have acc: "list_all2 sp_move ss (sponsorships (accept_proof now d sha sbody adm m b))" if "sponsorships b = ss" for b now sha m ss
    using that unfolding accept_proof_def Let_def by (intro marked_from) (auto simp: note_client_version_def split: option.split)
  have keys: "sponsor_keys (accept_proof now d sha sbody adm m b) = sponsor_keys b" for b now sha m
    by (auto simp: accept_proof_def Let_def note_client_version_def split: option.split)
  show ?thesis
    by (auto simp: submit_commit_def Let_def keys split: option.split prod.split if_splits intro!: acc)
qed

text \<open>A refused request leaves no row.\<close>

lemma request_Inl:
  assumes "sponsor_request cfg sc w rate open_invoice token body ps = (Inl e, ps')" "ids_below ps"
  shows "sponsorships (ps_board ps') = sponsorships (ps_board ps) \<and> sponsor_keys (ps_board ps') = sponsor_keys (ps_board ps)
    \<and> ps_seq ps \<le> ps_seq ps'"
proof -
  have inv: "sponsorships (ps_board qs) = sponsorships (ps_board ps) \<and> sponsor_keys (ps_board qs) = sponsor_keys (ps_board ps)
      \<and> ps_seq ps \<le> ps_seq qs"
    if "sponsor_request_invoice cfg sc w open_invoice ip lo hi name usd ms amount th ps = (Inl e, qs)" for ip lo hi name usd ms amount th qs
  proof -
    let ?new = "new_sponsorship (ps_seq ps + 1) lo hi name (w_now w) usd ms amount th"
    have "sp_id s \<noteq> ps_seq ps + 1" if "s \<in> set (sponsorships (ps_board ps))" for s
      using that assms(2) by (force simp: ids_below_def)
    then have "filter (\<lambda>s. \<not> (sp_id s = ps_seq ps + 1 \<and> sp_status s = Requested)) (sponsorships (ps_board ps)) = sponsorships (ps_board ps)"
      by (simp add: filter_id_conv)
    moreover have "sp_id ?new = ps_seq ps + 1" "sp_status ?new = Requested" by (simp_all add: new_sponsorship_def)
    ultimately show ?thesis
      using that by (auto simp: sponsor_request_invoice_def insert_sponsorship_def Let_def split: sum.splits if_splits option.splits)
  qed
  show ?thesis
    using assms(1) by (auto simp: sponsor_request_def insert_sponsorship_def Let_def
        split: if_splits sum.splits option.splits json.splits dest: inv)
qed

lemma granted_ok: "granted_row lo hi name now usd ms amount th sid s \<Longrightarrow> row_ok s \<and> sp_id s = sid"
  by (auto simp: granted_row_def new_sponsorship_def invoiced_def row_ok_def paid_in_full_def)

lemma request_grown:
  assumes "sponsor_request cfg sc w rate open_invoice token body ps = (res, ps')" "ids_below ps"
    "\<forall>s \<in> set (sponsorships (ps_board ps)). row_ok s"
  shows "grown (sponsorships (ps_board ps)) (sponsorships (ps_board ps')) \<and> sponsor_keys (ps_board ps') = sponsor_keys (ps_board ps)
    \<and> ids_below ps' \<and> (\<forall>s \<in> set (sponsorships (ps_board ps')). row_ok s)"
proof (cases res)
  case (Inl e)
  from request_Inl [OF assms(1) [unfolded Inl] assms(2)] assms(2,3) show ?thesis by (force simp: ids_below_def)
next
  case (Inr sid)
  from request_Inr [OF assms(1) [unfolded Inr] assms(2)] obtain s lo hi name usd ms amount where s: "sid = ps_seq ps + 1" "ps_seq ps' = sid"
      "granted_row lo hi name (w_now w) usd ms amount (w_sha256 w token) sid s"
      "ps_board ps' = (ps_board ps)\<lparr>sponsorships := sponsorships (ps_board ps) @ [s]\<rparr>"
    by blast
  from granted_ok [OF s(3)] fresh_id [OF assms(2)] s assms(2,3) show ?thesis
    by (force simp: ids_below_def row_of_None)
qed

lemma register_grown:
  assumes "bot_register_key cfg now jbody b = (res, b')" "distinct (map k_pubkey (sponsor_keys b))"
    "\<forall>k \<in> set (sponsor_keys b). key_ok cfg (sponsorships b) k"
  shows "sponsorships b' = sponsorships b \<and> distinct (map k_pubkey (sponsor_keys b')) \<and> (\<forall>k \<in> set (sponsor_keys b'). key_ok cfg (sponsorships b) k)"
proof -
  have as: "sponsorships c = sponsorships b \<and> distinct (map k_pubkey (sponsor_keys c)) \<and> (\<forall>k \<in> set (sponsor_keys c). key_ok cfg (sponsorships b) k)"
    if "register_as cfg now handle pub sid want b = (r, c)"
      "key_ok cfg (sponsorships b) \<lparr> k_pubkey = pub, k_sponsorship = sid, k_handle = want, k_created_at = now \<rparr>" for handle pub sid want r c
    using that assms(2,3) by (auto simp: register_as_def row_of_None split: if_splits option.splits)
  have held: "s \<in> set (sponsorships b) \<and> sp_id s = sid \<and> is_public_sponsorship s" if "held_row b sid = Some s" for sid s
    using that by (auto simp: held_row_def find_Some_iff is_hold_def is_public_sponsorship_def)
  show ?thesis
    using assms by (auto simp: bot_register_key_def Let_def key_ok_def split: json.splits if_splits option.splits
        dest!: held as)
qed

lemma move_row_ok: "sp_move x y \<Longrightarrow> row_ok x \<Longrightarrow> row_ok y"
  unfolding row_ok_def sp_move_def by blast

lemma moved_ok:
  assumes "life_ok cfg ps" "list_all2 sp_move (sponsorships (ps_board ps)) (sponsorships b)" "sponsor_keys b = sponsor_keys (ps_board ps)"
  shows "life_ok cfg (ps\<lparr>ps_board := b\<rparr>)"
proof -
  have ids: "map sp_id (sponsorships b) = map sp_id (sponsorships (ps_board ps))"
    using assms(2) by (induction rule: list_all2_induct) (auto simp: sp_move_def terms_eq)
  have below: "sp_id s \<le> ps_seq ps" if "s \<in> set (sponsorships b)" for s
  proof -
    from that have "sp_id s \<in> set (map sp_id (sponsorships b))" by simp
    then have "sp_id s \<in> set (map sp_id (sponsorships (ps_board ps)))" by (simp only: ids)
    with assms(1) show ?thesis by (auto simp: life_ok_def ids_below_def)
  qed
  have rows: "\<forall>s \<in> set (sponsorships b). row_ok s"
  proof -
    have "\<forall>s \<in> set ys. row_ok s" if "list_all2 sp_move xs ys" "\<forall>s \<in> set xs. row_ok s" for xs ys
      using that by (induction rule: list_all2_induct) (simp_all add: move_row_ok)
    from this [OF assms(2)] assms(1) show ?thesis by (simp add: life_ok_def)
  qed
  have keys: "\<forall>k \<in> set (sponsor_keys b). key_ok cfg (sponsorships b) k"
    using assms(1,3) key_ok_grown [OF _ grown_moves [OF assms(2)]] by (simp add: life_ok_def)
  have "distinct (map sp_id (sponsorships b))" unfolding ids using assms(1) by (simp add: life_ok_def ids_below_def)
  with below have "ids_below (ps\<lparr>ps_board := b\<rparr>)" by (simp add: ids_below_def)
  with rows keys assms(1,3) show ?thesis by (simp add: life_ok_def)
qed

lemma sp_step_ok:
  "sp_step cfg sc ps ps' \<Longrightarrow> life_ok cfg ps \<Longrightarrow>
   life_ok cfg ps' \<and> grown (sponsorships (ps_board ps)) (sponsorships (ps_board ps'))"
proof (induction rule: sp_step.induct)
  case (request w rate open_invoice token body ps res ps')
  then have ok: "ids_below ps" "\<forall>s \<in> set (sponsorships (ps_board ps)). row_ok s" by (auto simp: life_ok_def)
  from request_grown [OF request(1) ok] request(2) key_ok_grown [OF _ _ ok(2)] show ?case by (auto simp: life_ok_def)
next
  case (poll now ask ps moved b)
  have "list_all2 sp_move (sponsorships (ps_board ps)) (sponsorships b)"
    using poll poll_moves [of "ps_board ps" sc now ask] by (simp add: life_ok_def ids_below_def)
  moreover have "sponsor_keys b = sponsor_keys (ps_board ps)" using poll_keys [of sc now ask "ps_board ps"] poll(1) by simp
  ultimately show ?case using moved_ok [OF poll(2)] by (simp add: grown_moves)
next
  case (register now jbody ps res' b)
  from register(2) have ok: "distinct (map k_pubkey (sponsor_keys (ps_board ps)))"
      "\<forall>k \<in> set (sponsor_keys (ps_board ps)). key_ok cfg (sponsorships (ps_board ps)) k"
    by (auto simp: life_ok_def)
  from register_grown [OF register(1) ok] register(2) show ?case by (auto simp: life_ok_def ids_below_def)
next
  case (proving jbody ps res'' b)
  with proving_moves [of "ps_board ps" jbody] proving_keys [of jbody "ps_board ps"] show ?case
    by (simp add: moved_ok grown_moves)
next
  case (reconcile now ps ids b)
  with reconcile_moves [of "ps_board ps" now] reconcile_keys [of now "ps_board ps"] show ?case
    by (simp add: moved_ok grown_moves)
next
  case (submit w d sbody adm vd sv rep sv' ps)
  with commit_moves [of sv cfg w d sbody adm vd] show ?case by (simp add: moved_ok grown_moves)
next
  case (other b ps)
  then show ?case by (simp add: moved_ok)
qed

text \<open>What a sponsorship has bought: its public rows, by the terms they were sold on.\<close>

definition sponsored :: "pay_state \<Rightarrow> (int \<times> int \<times> int \<times> int option \<times> int option \<times> string) set" where
  "sponsored ps = terms ` {s \<in> set (sponsorships (ps_board ps)). is_public_sponsorship s}"

lemma grown_sponsored:
  assumes "grown (sponsorships (ps_board ps)) (sponsorships (ps_board ps'))" "life_ok cfg ps"
  shows "sponsored ps \<subseteq> sponsored ps'"
proof
  fix x assume "x \<in> sponsored ps"
  then obtain s where s: "s \<in> set (sponsorships (ps_board ps))" "is_public_sponsorship s" "x = terms s" by (auto simp: sponsored_def)
  from grown_row [OF assms(1) s(1)] obtain t where t: "t \<in> set (sponsorships (ps_board ps'))" "sp_move s t" ..
  from s assms(2) have "is_public_sponsorship t" by (auto simp: life_ok_def intro: public_moves [OF t(2)])
  moreover from t(2) s(3) have "x = terms t" by (simp add: sp_move_def)
  ultimately show "x \<in> sponsored ps'" using t(1) by (auto simp: sponsored_def)
qed

interpretation life: growing_system life_init "sp_step cfg sc" "life_ok cfg" sponsored
proof
  show "life_ok cfg s" if "life_init s" for s using that by (simp add: life_init_def life_ok_def ids_below_def)
  show "life_ok cfg t" if "sp_step cfg sc s t" "life_ok cfg s" for s t using sp_step_ok [OF that] ..
  show "sponsored s \<subseteq> sponsored t" if "sp_step cfg sc s t" "life_ok cfg s" for s t
    using sp_step_ok [OF that] grown_sponsored [OF _ that(2)] by blast
qed

section \<open>Properties\<close>

text \<open>
  Claim C19. Nothing is sponsored that was not paid for. In any order of requests, polls, bot calls and
  submissions, a sponsorship that counts as paid has received at least its minimum in settled sats, and
  every key the bot may prove under was registered for such a sponsorship, with the handle its name gives;
  once bought, a sponsorship stays bought, on the same blocks, price and name.
\<close>

theorem sponsored_means_paid:
  assumes "life_init ps0" "(sp_step cfg sc)\<^sup>*\<^sup>* ps0 ps" "(sp_step cfg sc)\<^sup>*\<^sup>* ps ps'"
  shows "(\<forall>s \<in> set (sponsorships (ps_board ps)). sp_status s \<in> {Paid, Proving, Proven} \<longrightarrow>
       (\<exists>p m. sp_paid_sats s = Some p \<and> sp_min_sats s = Some m \<and> m \<le> p))
    \<and> (\<forall>k \<in> set (sponsor_keys (ps_board ps)). \<forall>sid. k_sponsorship k = Some sid \<longrightarrow>
       (\<exists>s \<in> set (sponsorships (ps_board ps)). sp_id s = sid \<and> is_public_sponsorship s \<and> k_handle k = sponsor_handle_for cfg (sp_name s)))
    \<and> sponsored ps \<subseteq> sponsored ps'"
proof -
  have ok: "life_ok cfg ps" using life.inv_reachable [OF assms(1,2)] .
  have "\<forall>k \<in> set (sponsor_keys (ps_board ps)). \<forall>sid. k_sponsorship k = Some sid \<longrightarrow>
       (\<exists>s \<in> set (sponsorships (ps_board ps)). sp_id s = sid \<and> is_public_sponsorship s \<and> k_handle k = sponsor_handle_for cfg (sp_name s))"
    using ok by (auto simp: life_ok_def key_ok_def)
  moreover have "\<forall>s \<in> set (sponsorships (ps_board ps)). sp_status s \<in> {Paid, Proving, Proven} \<longrightarrow>
       (\<exists>p m. sp_paid_sats s = Some p \<and> sp_min_sats s = Some m \<and> m \<le> p)"
    using ok unfolding life_ok_def row_ok_def paid_in_full_def paid_enough_iff by blast
  ultimately show ?thesis using life.reached_steps [OF assms(3) ok] by blast
qed

definition order_answer :: "int \<Rightarrow> string \<Rightarrow> (string \<times> string \<times> time option) option" where
  "order_answer amount order = Some (order, ''l'', None)"

definition requested :: "time \<Rightarrow> pay_state \<Rightarrow> pay_state" where
  "requested now ps = snd (sponsor_request default_config open_sponsors (example_world\<lparr>w_now := now\<rparr>) (Some 60000) order_answer ''t'' ask_for ps)"

definition poll_with :: "time \<Rightarrow> (string \<Rightarrow> invoice_answer option) \<Rightarrow> pay_state \<Rightarrow> pay_state" where
  "poll_with now ask ps = ps\<lparr>ps_board := snd (sponsor_payments_poll open_sponsors now ask (ps_board ps))\<rparr>"

definition unpaid_answer :: invoice_answer where
  "unpaid_answer = \<lparr> ia_status = ''Expired'', ia_additional = ''None'', ia_payments = [] \<rparr>"

definition paid_answer :: invoice_answer where
  "paid_answer = unpaid_answer\<lparr>ia_payments := [\<lparr> pm_id = ''p'', pm_method = ''BTC'', pm_value = JStr ''0.00009000'',
     pm_status = ''Settled'', pm_received = None \<rparr>]\<rparr>"

lemma requested_step: "sp_step default_config open_sponsors ps (requested now ps)"
  unfolding requested_def by (rule sp_step.request) (rule prod.collapse [symmetric])

lemma poll_with_step: "sp_step default_config open_sponsors ps (poll_with now ask ps)"
  unfolding poll_with_def by (rule sp_step.poll) (rule prod.collapse [symmetric])

lemma reach_request: "(sp_step default_config open_sponsors)\<^sup>*\<^sup>* a ps \<Longrightarrow> (sp_step default_config open_sponsors)\<^sup>*\<^sup>* a (requested now ps)"
  by (erule rtranclp.rtrancl_into_rtrancl) (rule requested_step)

lemma reach_poll: "(sp_step default_config open_sponsors)\<^sup>*\<^sup>* a ps \<Longrightarrow> (sp_step default_config open_sponsors)\<^sup>*\<^sup>* a (poll_with now ask ps)"
  by (erule rtranclp.rtrancl_into_rtrancl) (rule poll_with_step)

definition one_paid :: pay_state where
  "one_paid = poll_with 1100 (\<lambda>_. Some paid_answer) (requested 1000 no_sponsors)"

lemma one_paid_reached: "(sp_step default_config open_sponsors)\<^sup>*\<^sup>* no_sponsors one_paid"
  unfolding one_paid_def by (intro reach_poll reach_request rtranclp.rtrancl_refl)

lemma no_sponsors_init: "life_init no_sponsors"
  by (simp add: life_init_def no_sponsors_def)

theorem sponsored_means_paid_witness:
  "\<exists>s \<in> set (sponsorships (ps_board one_paid)). sp_status s = Paid \<and> (\<exists>p m. sp_paid_sats s = Some p \<and> sp_min_sats s = Some m \<and> m \<le> p)"
proof -
  have row: "map sp_status (sponsorships (ps_board one_paid)) = [Paid]" by code_simp
  from sponsored_means_paid [OF no_sponsors_init one_paid_reached rtranclp.rtrancl_refl] row show ?thesis
    by (auto simp: map_eq_Cons_conv)
qed

section \<open>Two payments for one block\<close>

text \<open>
  A key is registered for one sponsorship only, so a block that two paid sponsorships hold can be submitted
  under no key at all.
\<close>

lemma two_holds_refuse_all:
  assumes "s \<in> set (sponsorships b)" "t \<in> set (sponsorships b)" "is_hold s" "is_hold t" "sp_id s \<noteq> sp_id t"
    "sp_lo s \<le> h" "h \<le> sp_hi s" "sp_lo t \<le> h" "h \<le> sp_hi t" "h \<notin> covered b" "distinct (map k_pubkey (sponsor_keys b))"
  shows "hold_refusal b h h pk \<noteq> None"
proof
  assume "hold_refusal b h h pk = None"
  then have all: "key_of_sponsorship b pk (sp_id x) \<or> {max h (sp_lo x)..min h (sp_hi x)} \<subseteq> covered b"
    if "x \<in> set (sponsorships b)" "is_hold x" "sp_meets h h x" for x
    using that by (simp add: hold_refusal_def hold_loop_None holds_mem)
  have own: "key_of_sponsorship b pk (sp_id x)" if "x \<in> set (sponsorships b)" "is_hold x" "sp_lo x \<le> h" "h \<le> sp_hi x" for x
    using all [OF that(1,2)] that(3,4) assms(10) by (auto simp: sp_meets_def)
  from own [of s] own [of t] assms obtain j k where k: "j \<in> set (sponsor_keys b)" "k \<in> set (sponsor_keys b)" "k_pubkey j = k_pubkey k"
      "k_sponsorship j = Some (sp_id s)" "k_sponsorship k = Some (sp_id t)"
    by (auto simp: key_of_sponsorship_def list_ex_iff)
  from assms(11) k(1-3) have "j = k" by (auto simp: distinct_map dest: inj_onD)
  with k(4,5) assms(5) show False by simp
qed

text \<open>The first sponsor's invoice expires, the second pays for the same span, and then the first payment arrives.\<close>

definition both_answers :: "string \<Rightarrow> invoice_answer option" where
  "both_answers iv = Some paid_answer"

definition two_paid :: pay_state where
  "two_paid = poll_with 3100 both_answers (requested 3000 (poll_with 2900 (\<lambda>_. Some unpaid_answer) (requested 1000 no_sponsors)))"

lemma two_paid_reached: "(sp_step default_config open_sponsors)\<^sup>*\<^sup>* no_sponsors two_paid"
  unfolding two_paid_def by (intro reach_poll reach_request rtranclp.rtrancl_refl)

lemma two_paid_rows:
  "map (\<lambda>s. (sp_id s, sp_lo s, sp_hi s, is_hold s)) (sponsorships (ps_board two_paid)) = [(1, 5, 6, True), (2, 5, 6, True)]"
  "vranges (ps_board two_paid) = []"
  by code_simp+

text \<open>
  Claim C24. A late payment can lock a block. From an empty table, two polls and two requests that the
  coordinator grants one after the other lead to two paid sponsorships of one span, and from then on, as
  long as no operator steps in, its open blocks are refused to every key whatever keys are registered.
\<close>

theorem late_payment_locks_block:
  "(sp_step default_config open_sponsors)\<^sup>*\<^sup>* no_sponsors two_paid
   \<and> 5 \<notin> covered (ps_board two_paid)
   \<and> (\<forall>pk keys. distinct (map k_pubkey keys) \<longrightarrow> hold_refusal (ps_board two_paid\<lparr>sponsor_keys := keys\<rparr>) 5 5 pk \<noteq> None)"
proof -
  obtain s t where st: "sponsorships (ps_board two_paid) = [s, t]" "sp_id s = 1" "sp_id t = 2" "is_hold s" "is_hold t"
      "sp_lo s = 5" "sp_hi s = 6" "sp_lo t = 5" "sp_hi t = 6"
    using two_paid_rows(1) by (auto simp: map_eq_Cons_conv)
  have open5: "5 \<notin> covered (ps_board two_paid)" by (simp add: covered_def two_paid_rows(2))
  have "hold_refusal (ps_board two_paid\<lparr>sponsor_keys := keys\<rparr>) 5 5 pk \<noteq> None" if "distinct (map k_pubkey keys)" for pk keys
    by (rule two_holds_refuse_all [of s _ t]) (use st open5 that in \<open>auto simp: covered_def\<close>)
  with two_paid_reached open5 show ?thesis by blast
qed

theorem late_payment_locks_block_witness:
  "hold_refusal (ps_board two_paid\<lparr>sponsor_keys := []\<rparr>) 5 5 ''aa'' \<noteq> None"
  using late_payment_locks_block by simp

end
