(* ===== verification/Federation.thy ===== *)
theory Federation
  imports Sponsor_Life
begin

text \<open>
  Peer coordinators (\<open>coordinator/server.py\<close>: \<open>peer_proven_heights\<close>, \<open>peer_busy_heights\<close>,
  \<open>sync_from_peers\<close>). What a peer answers is a parameter: its decoded index, None where the fetch or the
  decoding fails, and its proof files. The lemmas show that a pass of the sync adds only ranges whose
  receipt our own verifier accepts and removes none, whatever the peers send, and that the heights peers can
  keep us from are bounded; the last section shows what a peer can still do.
\<close>

section \<open>Reading a peer's document\<close>

text \<open>\<open>str(v)\<close>; the rendering of a float, a list or an object is the argument.\<close>

definition py_str :: "(json \<Rightarrow> string) \<Rightarrow> json \<Rightarrow> string" where
  "py_str rp j = (case j of JStr s \<Rightarrow> s | JInt i \<Rightarrow> int_str i | JNull \<Rightarrow> ''None'' | JBool t \<Rightarrow> if t then ''True'' else ''False'' | _ \<Rightarrow> rp j)"

text \<open>\<open>==\<close> on scalars.\<close>

definition json_eq :: "json \<Rightarrow> json \<Rightarrow> bool" where
  "json_eq a b = (case json_num a of None \<Rightarrow> json_num b = None \<and> a = b | Some x \<Rightarrow> json_num b = Some x)"

text \<open>\<open>int(v["lo"]), int(v["hi"])\<close>; None where either raises.\<close>

definition entry_span :: "json \<Rightarrow> (int \<times> int) option" where
  "entry_span v = (case (json_int (jget ''lo'' v), json_int (jget ''hi'' v)) of (Some lo, Some hi) \<Rightarrow> Some (lo, hi) | _ \<Rightarrow> None)"

definition elements :: "json \<Rightarrow> json list" where
  "elements j = (case j of JArr xs \<Rightarrow> xs | _ \<Rightarrow> [])"

section \<open>Heights peers have proven\<close>

text \<open>An exception leaves what was gathered before it.\<close>

fun proven_entries :: "json list \<Rightarrow> int set \<Rightarrow> int set" where
  "proven_entries [] got = got"
| "proven_entries (v # vs) got =
     (if \<not> is_object v then got
      else case entry_span v of None \<Rightarrow> got
      | Some (lo, hi) \<Rightarrow> proven_entries vs (if 0 \<le> lo \<and> lo \<le> hi \<and> hi - lo < 1000000 then got \<union> {lo..hi} else got))"

definition proven_of_peer :: "json option \<Rightarrow> int set \<Rightarrow> int set" where
  "proven_of_peer doc got = (case doc of None \<Rightarrow> got | Some d \<Rightarrow> proven_entries (elements (jget ''vranges'' d)) got)"

record heights_cache =
  hc_t :: time
  hc_heights :: "int set"

definition peer_proven_heights :: "time \<Rightarrow> time \<Rightarrow> json option list \<Rightarrow> heights_cache \<Rightarrow> int set \<times> heights_cache" where
  "peer_proven_heights ttl now docs hc =
     (if docs = [] then ({}, hc)
      else if now - hc_t hc < ttl then (hc_heights hc, hc)
      else (let got = fold proven_of_peer docs {} in (got, \<lparr> hc_t = now, hc_heights = got \<rparr>)))"

section \<open>Heights peers are busy with\<close>

record busy_caps =
  PEER_BUSY_MAX_WIDTH :: int
  PEER_BUSY_MAX_TOTAL :: int

definition default_caps :: busy_caps where
  "default_caps = \<lparr> PEER_BUSY_MAX_WIDTH = 10000, PEER_BUSY_MAX_TOTAL = 200000 \<rparr>"

fun busy_entries :: "busy_caps \<Rightarrow> json list \<Rightarrow> int set \<Rightarrow> int set" where
  "busy_entries caps [] got = got"
| "busy_entries caps (b # bs) got =
     (if \<not> is_object b then got
      else if jget ''status'' b \<noteq> JStr ''claimed'' \<or> \<not> falsy (jget ''stale'' b) then busy_entries caps bs got
      else case entry_span b of None \<Rightarrow> got
      | Some (lo, hi) \<Rightarrow>
          (let got' = (if 0 \<le> lo \<and> lo \<le> hi \<and> hi - lo < PEER_BUSY_MAX_WIDTH caps then got \<union> {lo..hi} else got)
           in if int (card got') > PEER_BUSY_MAX_TOTAL caps then {} else busy_entries caps bs got'))"

definition busy_of_peer :: "busy_caps \<Rightarrow> json option \<Rightarrow> int set \<Rightarrow> int set" where
  "busy_of_peer caps doc got = (case doc of None \<Rightarrow> got | Some d \<Rightarrow> busy_entries caps (elements (jget ''board'' d)) got)"

definition peer_busy_heights :: "busy_caps \<Rightarrow> time \<Rightarrow> time \<Rightarrow> json option list \<Rightarrow> heights_cache \<Rightarrow> int set \<times> heights_cache" where
  "peer_busy_heights caps ttl now docs hc =
     (if docs = [] then ({}, hc)
      else if now - hc_t hc < ttl then (hc_heights hc, hc)
      else (let got = fold (busy_of_peer caps) docs {} in (got, \<lparr> hc_t = now, hc_heights = got \<rparr>)))"

section \<open>The sync\<close>

record peer =
  pr_index :: "json option"
  pr_proof :: "range_id \<Rightarrow> string option"

record sync_acc =
  sa_board :: board
  sa_have :: "range_id set"
  sa_adopted :: nat
  sa_rejected :: nat

definition has_key :: "string \<Rightarrow> json \<Rightarrow> bool" where
  "has_key k j = (case j of JObj kvs \<Rightarrow> list_ex (\<lambda>kv. fst kv = k) kvs | _ \<Rightarrow> False)"

text \<open>The id of an entry; None where \<open>v["lo"]\<close> or \<open>v["hi"]\<close> raises.\<close>

definition sync_id :: "(json \<Rightarrow> string) \<Rightarrow> json \<Rightarrow> string option" where
  "sync_id rp v = (if \<not> json_eq (jget ''lo'' v) (jget ''hi'' v) then
       (if \<not> falsy (jget ''id'' v) then Some (py_str rp (jget ''id'' v))
        else if has_key ''lo'' v \<and> has_key ''hi'' v then Some (py_str rp (jget ''lo'' v) @ CHR ''-'' # py_str rp (jget ''hi'' v))
        else None)
     else Some (py_str rp (jget ''lo'' v)))"

definition sync_handle :: "config \<Rightarrow> (json \<Rightarrow> string) \<Rightarrow> json \<Rightarrow> string" where
  "sync_handle cfg rp v = clean_handle cfg (py_str rp (j_or (jget ''handle'' v) (JStr ''peer''))) None"

definition synced_vrange :: "time \<Rightarrow> range_id \<Rightarrow> int \<Rightarrow> int \<Rightarrow> string \<Rightarrow> receipt_meta \<Rightarrow> vrange_row" where
  "synced_vrange now rid lo hi handle m = \<lparr> v_id = rid, v_lo = lo, v_hi = hi, v_in_tip = Some (rm_in_tip m),
     v_out_tip = Some (rm_out_tip m), v_pubkey = Some [], v_handle = Some handle, v_ts = Some now,
     v_out_leaves = Some (rm_out_leaves m), v_range_work = Some (rm_range_work m), v_in_bhash = Some (rm_in_bhash m),
     v_out_bhash = Some (rm_out_bhash m) \<rparr>"

definition adopt :: "time \<Rightarrow> bool \<Rightarrow> range_id \<Rightarrow> int \<times> int \<Rightarrow> int \<Rightarrow> int \<Rightarrow> string \<Rightarrow> receipt_meta \<Rightarrow> string \<Rightarrow> sync_acc \<Rightarrow> sync_acc" where
  "adopt now disk_ok rid rng lo hi handle m receipt acc =
     (let b = sa_board acc;
          b1 = b\<lparr>ranges := put_row r_id ((new_range rid (fst rng) (snd rng))\<lparr>r_status := Verified\<rparr>) (ranges b),
                 vranges := put_row v_id (synced_vrange now rid lo hi handle m) (vranges b)\<rparr>;
          b2 = (if disk_ok then b1\<lparr>proofs := (proofs b1)(rid \<mapsto> receipt)\<rparr> else b1)
      in acc\<lparr>sa_board := b2, sa_have := insert rid (sa_have acc), sa_adopted := sa_adopted acc + 1\<rparr>)"

definition reject :: "sync_acc \<Rightarrow> sync_acc" where
  "reject acc = acc\<lparr>sa_rejected := sa_rejected acc + 1\<rparr>"

definition read_up_to :: "int \<Rightarrow> string \<Rightarrow> string" where
  "read_up_to n s = (if int (length s) \<le> n then s else take (nat n) s)"

text \<open>
  One entry of an index, in one world for the whole pass. The flag says that an exception ends the pass; the
  peer's proof is read up to \<open>MAX_BODY\<close> characters.
\<close>

definition sync_entry :: "config \<Rightarrow> world \<Rightarrow> (string \<Rightarrow> host_result) \<Rightarrow> bool \<Rightarrow> (json \<Rightarrow> string) \<Rightarrow> peer \<Rightarrow> json \<Rightarrow> sync_acc \<Rightarrow> bool \<times> sync_acc" where
  "sync_entry cfg w verify_any disk_ok rp p v acc =
     (if \<not> is_object v then (True, acc)
      else case sync_id rp v of None \<Rightarrow> (True, acc)
      | Some rid \<Rightarrow>
        (if parse_any_range (chain_tip cfg w) rid = None then (False, reject acc)
        else if rid \<in> sa_have acc then (False, acc)
        else case pr_proof p rid of None \<Rightarrow> (False, acc)
        | Some body \<Rightarrow>
            (let receipt = read_up_to (MAX_BODY cfg) body in
             case entry_span v of None \<Rightarrow> (True, acc)
             | Some rng \<Rightarrow>
                (case verify_receipt cfg verify_any receipt rng of
                   (True, _, Some m) \<Rightarrow>
                     (case (rm_lo m, rm_hi m) of
                        (Some lo, Some hi) \<Rightarrow> (False, adopt (w_now w) disk_ok rid rng lo hi (sync_handle cfg rp v) m receipt acc)
                      | _ \<Rightarrow> (True, acc))
                 | _ \<Rightarrow> (False, reject acc)))))"

fun sync_entries :: "config \<Rightarrow> world \<Rightarrow> (string \<Rightarrow> host_result) \<Rightarrow> bool \<Rightarrow> (json \<Rightarrow> string) \<Rightarrow> nat \<Rightarrow> peer \<Rightarrow> json list \<Rightarrow> sync_acc \<Rightarrow> bool \<times> sync_acc" where
  "sync_entries cfg w va d rp limit p [] acc = (False, acc)"
| "sync_entries cfg w va d rp limit p (v # vs) acc =
     (if sa_adopted acc + sa_rejected acc \<ge> limit then (False, acc)
      else case sync_entry cfg w va d rp p v acc of
        (True, acc') \<Rightarrow> (True, acc')
      | (False, acc') \<Rightarrow> sync_entries cfg w va d rp limit p vs acc')"

text \<open>An index that is no object has no \<open>get\<close>; a \<open>vranges\<close> that is a number, a truth value or null cannot be walked.\<close>

definition index_raises :: "json \<Rightarrow> bool" where
  "index_raises d = (case d of JObj kvs \<Rightarrow> (case map_of (rev kvs) ''vranges'' of None \<Rightarrow> False
       | Some (JArr _) \<Rightarrow> False | Some (JStr s) \<Rightarrow> s \<noteq> [] | Some (JObj kv) \<Rightarrow> kv \<noteq> [] | Some _ \<Rightarrow> True) | _ \<Rightarrow> True)"

fun sync_peers :: "config \<Rightarrow> world \<Rightarrow> (string \<Rightarrow> host_result) \<Rightarrow> bool \<Rightarrow> (json \<Rightarrow> string) \<Rightarrow> nat \<Rightarrow> peer list \<Rightarrow> sync_acc \<Rightarrow> bool \<times> sync_acc" where
  "sync_peers cfg w va d rp limit [] acc = (False, acc)"
| "sync_peers cfg w va d rp limit (p # ps) acc =
     (case pr_index p of None \<Rightarrow> sync_peers cfg w va d rp limit ps acc
      | Some doc \<Rightarrow>
          if index_raises doc then (True, acc)
          else case sync_entries cfg w va d rp limit p (elements (jget ''vranges'' doc)) acc of
            (True, acc') \<Rightarrow> (True, acc')
          | (False, acc') \<Rightarrow> sync_peers cfg w va d rp limit ps acc')"

definition sync_start :: "board \<Rightarrow> sync_acc" where
  "sync_start b = \<lparr> sa_board = b, sa_have = v_id ` set (vranges b), sa_adopted = 0, sa_rejected = 0 \<rparr>"

text \<open>The report of the pass, None where an exception left it, and the board.\<close>

definition sync_from_peers :: "config \<Rightarrow> world \<Rightarrow> (string \<Rightarrow> host_result) \<Rightarrow> bool \<Rightarrow> (json \<Rightarrow> string) \<Rightarrow> nat \<Rightarrow> peer list \<Rightarrow> board \<Rightarrow>
    (nat \<times> nat) option \<times> board" where
  "sync_from_peers cfg w va d rp limit ps b =
     (let (raised, acc) = sync_peers cfg w va d rp limit ps (sync_start b)
      in (if raised then None else Some (sa_adopted acc, sa_rejected acc), sa_board acc))"

section \<open>Lemmas\<close>

lemma busy_card: "0 \<le> PEER_BUSY_MAX_TOTAL caps \<Longrightarrow> int (card got) \<le> PEER_BUSY_MAX_TOTAL caps \<Longrightarrow>
    int (card (busy_entries caps bs got)) \<le> PEER_BUSY_MAX_TOTAL caps"
proof (induction caps bs got rule: busy_entries.induct)
  case (2 caps b bs got)
  then show ?case by (auto simp: Let_def not_less split: option.split)
qed simp

lemma busy_finite: "finite got \<Longrightarrow> finite (busy_entries caps bs got)"
proof (induction caps bs got rule: busy_entries.induct)
  case (2 caps b bs got)
  then show ?case by (auto simp: Let_def split: option.split)
qed simp

text \<open>What a pass may have changed of the board \<open>b\<close> it started from.\<close>

definition proved_by_us :: "config \<Rightarrow> (string \<Rightarrow> host_result) \<Rightarrow> vrange_row \<Rightarrow> bool" where
  "proved_by_us cfg va v \<longleftrightarrow> (\<exists>receipt rng nt m. verify_receipt cfg va receipt rng = (True, nt, Some m)
     \<and> rm_lo m = Some (v_lo v) \<and> rm_hi m = Some (v_hi v) \<and> v_in_tip v = Some (rm_in_tip m) \<and> v_out_tip v = Some (rm_out_tip m)
     \<and> v_range_work v = Some (rm_range_work m))"

definition sync_ok :: "config \<Rightarrow> (string \<Rightarrow> host_result) \<Rightarrow> board \<Rightarrow> sync_acc \<Rightarrow> bool" where
  "sync_ok cfg va b acc \<longleftrightarrow> set (vranges b) \<subseteq> set (vranges (sa_board acc))
     \<and> v_id ` set (vranges (sa_board acc)) = sa_have acc
     \<and> (distinct (map v_id (vranges b)) \<longrightarrow> distinct (map v_id (vranges (sa_board acc))))
     \<and> (\<forall>v \<in> set (vranges (sa_board acc)). v \<in> set (vranges b) \<or> proved_by_us cfg va v)
     \<and> length (vranges (sa_board acc)) = length (vranges b) + sa_adopted acc
     \<and> (\<exists>rs vs pf. sa_board acc = b\<lparr>ranges := rs, vranges := vs, proofs := pf\<rparr>)"

lemma sync_start_ok: "sync_ok cfg va b (sync_start b)"
  unfolding sync_ok_def sync_start_def
  by (auto intro!: exI [of _ "ranges b"] exI [of _ "vranges b"] exI [of _ "proofs b"])

lemma reject_ok: "sync_ok cfg va b acc \<Longrightarrow> sync_ok cfg va b (reject acc)"
  by (simp add: sync_ok_def reject_def)

lemma reject_simps [simp]: "sa_adopted (reject acc) = sa_adopted acc" "sa_rejected (reject acc) = sa_rejected acc + 1"
  by (simp_all add: reject_def)

lemma put_fresh: "key r \<notin> key ` set t \<Longrightarrow> put_row key r t = t @ [r]"
  unfolding put_row_def by (subst filter_True) (metis imageI, rule refl)

lemma adopt_ok:
  assumes "sync_ok cfg va b acc" "rid \<notin> sa_have acc" "verify_receipt cfg va receipt rng = (True, nt, Some m)"
    "rm_lo m = Some lo" "rm_hi m = Some hi"
  shows "sync_ok cfg va b (adopt now d rid rng lo hi handle m receipt acc)"
proof -
  let ?v = "synced_vrange now rid lo hi handle m" and ?c = "adopt now d rid rng lo hi handle m receipt acc"
  have fresh: "put_row v_id ?v (vranges (sa_board acc)) = vranges (sa_board acc) @ [?v]"
    using assms(1,2) by (intro put_fresh) (simp add: sync_ok_def synced_vrange_def)
  then have vr: "vranges (sa_board ?c) = vranges (sa_board acc) @ [?v]" by (simp add: adopt_def Let_def)
  have mine: "proved_by_us cfg va ?v"
    unfolding proved_by_us_def
    by (rule exI [of _ receipt], rule exI [of _ rng], rule exI [of _ nt], rule exI [of _ m]) (simp add: synced_vrange_def assms(3-5))
  obtain rs vs pf where b: "sa_board acc = b\<lparr>ranges := rs, vranges := vs, proofs := pf\<rparr>" using assms(1) by (auto simp: sync_ok_def)
  have "\<exists>rs vs pf. sa_board ?c = b\<lparr>ranges := rs, vranges := vs, proofs := pf\<rparr>"
    by (rule exI [of _ "ranges (sa_board ?c)"], rule exI [of _ "vranges (sa_board ?c)"], rule exI [of _ "proofs (sa_board ?c)"])
      (cases d; simp add: adopt_def Let_def b)
  moreover have "sa_have ?c = insert rid (sa_have acc)" "sa_adopted ?c = sa_adopted acc + 1"
    by (simp_all add: adopt_def Let_def)
  moreover have "v_id ?v = rid" by (simp add: synced_vrange_def)
  ultimately show ?thesis
    using assms(1,2) mine unfolding sync_ok_def vr by auto
qed

lemma entry_ok:
  assumes "sync_entry cfg w va d rp p v acc = (r, acc')" "sync_ok cfg va b acc"
  shows "sync_ok cfg va b acc' \<and> sa_adopted acc' + sa_rejected acc' \<le> sa_adopted acc + sa_rejected acc + 1"
proof -
  have counts: "sa_adopted (adopt now d rid rng lo hi handle m receipt acc) = sa_adopted acc + 1"
      "sa_rejected (adopt now d rid rng lo hi handle m receipt acc) = sa_rejected acc" for now rid rng lo hi handle m receipt
    by (simp_all add: adopt_def Let_def)
  show ?thesis
    using assms by (auto simp: sync_entry_def Let_def counts
        split: if_splits option.splits prod.splits bool.splits intro: adopt_ok reject_ok)
qed

lemma entries_ok:
  "sync_entries cfg w va d rp limit p vs acc = (r, acc') \<Longrightarrow> sync_ok cfg va b acc \<Longrightarrow> sa_adopted acc + sa_rejected acc \<le> limit \<Longrightarrow>
   sync_ok cfg va b acc' \<and> sa_adopted acc' + sa_rejected acc' \<le> limit"
proof (induction vs arbitrary: acc)
  case (Cons v vs)
  obtain q acc1 where e: "sync_entry cfg w va d rp p v acc = (q, acc1)" by fastforce
  show ?case
  proof (cases "sa_adopted acc + sa_rejected acc \<ge> limit")
    case True
    with Cons.prems show ?thesis by simp
  next
    case False
    with entry_ok [OF e Cons.prems(2)] have ok: "sync_ok cfg va b acc1" "sa_adopted acc1 + sa_rejected acc1 \<le> limit" by auto
    with Cons.prems(1) False e Cons.IH [OF _ ok] show ?thesis by (cases q) auto
  qed
qed simp

lemma peers_ok:
  "sync_peers cfg w va d rp limit ps acc = (r, acc') \<Longrightarrow> sync_ok cfg va b acc \<Longrightarrow> sa_adopted acc + sa_rejected acc \<le> limit \<Longrightarrow>
   sync_ok cfg va b acc' \<and> sa_adopted acc' + sa_rejected acc' \<le> limit"
proof (induction ps arbitrary: acc)
  case (Cons p ps)
  show ?case
  proof (cases "pr_index p")
    case None
    with Cons show ?thesis by simp
  next
    case (Some doc)
    obtain q acc1 where e: "sync_entries cfg w va d rp limit p (elements (jget ''vranges'' doc)) acc = (q, acc1)" by fastforce
    from entries_ok [OF e Cons.prems(2,3)] Cons.prems Some e Cons.IH [of acc1] show ?thesis
      by (cases q) (auto split: if_splits)
  qed
qed simp

section \<open>Properties\<close>

text \<open>
  Claim C18. A peer cannot put anything on the board. Whatever the peers answer, a pass removes no verified
  range and adds only ranges for which our own verifier accepted a receipt with exactly the bounds and
  boundaries recorded; it touches no other table than \<open>ranges\<close>, \<open>vranges\<close> and the proof files, and its report
  counts the ranges added and stays within the limit. This holds also of a pass an exception ended.
\<close>

theorem sync_adds_proved_only:
  assumes "sync_from_peers cfg w va d rp limit ps b = (rep, b')"
  shows "set (vranges b) \<subseteq> set (vranges b')
    \<and> (\<forall>v \<in> set (vranges b'). v \<in> set (vranges b) \<or>
         (\<exists>receipt rng nt m. verify_receipt cfg va receipt rng = (True, nt, Some m) \<and> rm_lo m = Some (v_lo v)
            \<and> rm_hi m = Some (v_hi v) \<and> v_in_tip v = Some (rm_in_tip m) \<and> v_out_tip v = Some (rm_out_tip m)
            \<and> v_range_work v = Some (rm_range_work m)))
    \<and> (\<exists>rs vs pf. b' = b\<lparr>ranges := rs, vranges := vs, proofs := pf\<rparr>)
    \<and> (\<forall>adopted rejected. rep = Some (adopted, rejected) \<longrightarrow>
         length (vranges b') = length (vranges b) + adopted \<and> adopted + rejected \<le> limit)"
proof -
  obtain r acc where run: "sync_peers cfg w va d rp limit ps (sync_start b) = (r, acc)" by fastforce
  have "sa_adopted (sync_start b) + sa_rejected (sync_start b) \<le> limit" by (simp add: sync_start_def)
  from peers_ok [OF run sync_start_ok this] have ok: "sync_ok cfg va b acc" "sa_adopted acc + sa_rejected acc \<le> limit" by auto
  from assms run have "b' = sa_board acc" "rep = (if r then None else Some (sa_adopted acc, sa_rejected acc))"
    by (auto simp: sync_from_peers_def)
  with ok show ?thesis unfolding sync_ok_def proved_by_us_def by auto
qed

definition plain_json :: "json \<Rightarrow> string" where
  "plain_json j = ''?''"

definition honest_peer :: peer where
  "honest_peer = \<lparr> pr_index = Some (JObj [(''vranges'', JArr [JObj [(''lo'', JInt 7), (''hi'', JInt 7), (''handle'', JStr ''ann'')],
     JObj [(''lo'', JInt 8), (''hi'', JInt 8)]])]), pr_proof = (\<lambda>rid. if rid = ''7'' then Some ''ok'' else Some ''bad'') \<rparr>"

definition sync_seven :: "(nat \<times> nat) option \<times> board" where
  "sync_seven = sync_from_peers default_config example_world good_host True plain_json 200 [honest_peer] empty_board"

theorem sync_adds_proved_only_witness:
  "fst sync_seven = Some (1, 1) \<and> length (vranges (snd sync_seven)) = 1"
proof -
  have rep: "fst sync_seven = Some (1, 1)" by code_simp
  have "sync_from_peers default_config example_world good_host True plain_json 200 [honest_peer] empty_board = (Some (1, 1), snd sync_seven)"
    using rep by (metis prod.collapse sync_seven_def)
  from sync_adds_proved_only [OF this] rep show ?thesis by simp
qed

text \<open>
  Peers can keep us from a bounded number of blocks only. Whatever they report, and however many
  of them there are, the heights taken as busy are finitely many and at most \<open>PEER_BUSY_MAX_TOTAL\<close>.
\<close>

theorem peer_busy_bounded:
  assumes "0 \<le> PEER_BUSY_MAX_TOTAL caps" and "finite (hc_heights hc)" and "int (card (hc_heights hc)) \<le> PEER_BUSY_MAX_TOTAL caps"
    and "peer_busy_heights caps ttl now docs hc = (got, hc')"
  shows "finite got \<and> int (card got) \<le> PEER_BUSY_MAX_TOTAL caps \<and> finite (hc_heights hc') \<and> int (card (hc_heights hc')) \<le> PEER_BUSY_MAX_TOTAL caps"
proof -
  have step: "finite (busy_of_peer caps doc g) \<and> int (card (busy_of_peer caps doc g)) \<le> PEER_BUSY_MAX_TOTAL caps"
    if "finite g \<and> int (card g) \<le> PEER_BUSY_MAX_TOTAL caps" for doc g
    using that assms(1) by (auto simp: busy_of_peer_def busy_finite busy_card split: option.split)
  have "finite (fold (busy_of_peer caps) ds g) \<and> int (card (fold (busy_of_peer caps) ds g)) \<le> PEER_BUSY_MAX_TOTAL caps"
    if "finite g \<and> int (card g) \<le> PEER_BUSY_MAX_TOTAL caps" for ds g
    using that by (induction ds arbitrary: g) (simp_all add: step)
  from this [of "{}"] assms show ?thesis by (auto simp: peer_busy_heights_def Let_def split: if_splits)
qed

definition busy_doc :: "int \<Rightarrow> int \<Rightarrow> json" where
  "busy_doc lo hi = JObj [(''board'', JArr [JObj [(''status'', JStr ''claimed''), (''stale'', JBool False), (''lo'', JInt lo), (''hi'', JInt hi)]])]"

definition tight_caps :: busy_caps where
  "tight_caps = \<lparr> PEER_BUSY_MAX_WIDTH = 10, PEER_BUSY_MAX_TOTAL = 6 \<rparr>"

theorem peer_busy_bounded_witness:
  "int (card (fst (peer_busy_heights tight_caps 300 1000 [Some (busy_doc 3 6), None] \<lparr> hc_t = 0, hc_heights = {} \<rparr>))) \<le> 6
   \<and> 5 \<in> fst (peer_busy_heights tight_caps 300 1000 [Some (busy_doc 3 6), None] \<lparr> hc_t = 0, hc_heights = {} \<rparr>)"
proof -
  let ?r = "peer_busy_heights tight_caps 300 1000 [Some (busy_doc 3 6), None] \<lparr> hc_t = 0, hc_heights = {} \<rparr>"
  have c: "0 \<le> PEER_BUSY_MAX_TOTAL tight_caps" "PEER_BUSY_MAX_TOTAL tight_caps = 6" by (simp_all add: tight_caps_def)
  have m: "5 \<in> fst ?r" by code_simp
  have "?r = (fst ?r, snd ?r)" by simp
  from peer_busy_bounded [OF c(1) _ _ this] c m show ?thesis by simp
qed

section \<open>What a peer can still do\<close>

text \<open>One implausible peer makes the heights of the peers before it be forgotten too.\<close>

lemma implausible_peer_clears_others:
  "fst (peer_busy_heights tight_caps 300 1000 [Some (busy_doc 3 6)] \<lparr> hc_t = 0, hc_heights = {} \<rparr>) = {3, 4, 5, 6}
   \<and> fst (peer_busy_heights tight_caps 300 1000 [Some (busy_doc 3 6), Some (busy_doc 20 29)] \<lparr> hc_t = 0, hc_heights = {} \<rparr>) = {}"
  by code_simp

text \<open>A peer whose index holds an entry that is no object ends the pass for the peers after it.\<close>

lemma bad_entry_ends_pass:
  "sync_from_peers default_config example_world good_host True plain_json 200
     [\<lparr> pr_index = Some (JObj [(''vranges'', JArr [JInt 1])]), pr_proof = (\<lambda>_. None) \<rparr>, honest_peer] empty_board = (None, empty_board)"
  by (simp add: sync_from_peers_def index_raises_def elements_def jget_def sync_entry_def is_object_def sync_start_def)

text \<open>
  The id of an entry whose bounds differ as values is the peer's word: a valid proof of block 7 listed with
  \<open>hi\<close> spelled as text is recorded under the id of block 9, whose row then reads verified although block 9
  is covered by nothing.
\<close>

definition renaming_peer :: peer where
  "renaming_peer = \<lparr> pr_index = Some (JObj [(''vranges'', JArr [JObj [(''id'', JStr ''9''), (''lo'', JInt 7), (''hi'', JStr ''7'')]])]),
     pr_proof = (\<lambda>_. Some ''ok'') \<rparr>"

lemma peer_renames_range:
  "(let b = snd (sync_from_peers default_config example_world good_host True plain_json 200 [renaming_peer] empty_board)
    in map_option r_status (row_of r_id ''9'' (ranges b)) = Some Verified \<and> \<not> is_proven b 9 \<and> proofs b ''9'' = Some ''ok'')"
  by code_simp

end
