(* ===== verification/Single_Flight.thy ===== *)
theory Single_Flight
  imports Federation
begin

text \<open>
  The shared cache behind the public pages (\<open>coordinator/server.py\<close>: \<open>_sf_store\<close>, \<open>_sf_refresh\<close>,
  \<open>_single_flight\<close>, \<open>_frontier_invalidate\<close>), for one key and any number of threads. Each step is one section under \<open>_sf_lock\<close>
  together with the thread's own code up to the next; what the rebuilt function returns or whether it raises
  is open. The lemmas show that the busy flag has exactly one owner, that every answer is a value the
  function built, and that the flag can always be given back.
\<close>

section \<open>The threads\<close>

text \<open>
  Where a thread stands: outside, waiting for the first value, rebuilding in line (as the leader or not),
  about to leave the \<open>finally\<close> block (with its value or an exception), the two places of the background
  thread, and the two outcomes.
\<close>

datatype 'v sf_pc = Outside | Waiting | Rebuilding bool | Leaving bool "'v option" | Refreshing | Refreshed | Answered 'v | Raising

record 'v sf_state =
  sf_entry :: "(time \<times> 'v) option"
  sf_busy :: bool
  sf_pc :: "nat \<Rightarrow> 'v sf_pc"

definition goto :: "nat \<Rightarrow> 'v sf_pc \<Rightarrow> 'v sf_state \<Rightarrow> 'v sf_state" where
  "goto i p s = s\<lparr>sf_pc := (sf_pc s)(i := p)\<rparr>"

definition fresh_entry :: "time \<Rightarrow> time \<Rightarrow> 'v sf_state \<Rightarrow> bool" where
  "fresh_entry ttl now s = (case sf_entry s of None \<Rightarrow> False | Some (t, v) \<Rightarrow> now - t < ttl)"

text \<open>Whether the leader may hand the rebuild to a background thread and answer with the old value.\<close>

definition may_defer :: "bool \<Rightarrow> time \<Rightarrow> time \<Rightarrow> time \<Rightarrow> 'v sf_state \<Rightarrow> bool" where
  "may_defer background ttl max_stale now s = (background \<and> (case sf_entry s of None \<Rightarrow> False | Some (t, v) \<Rightarrow> now - t < ttl + max_stale))"

inductive sf_step :: "'v set \<Rightarrow> bool \<Rightarrow> time \<Rightarrow> time \<Rightarrow> 'v sf_state \<Rightarrow> 'v sf_state \<Rightarrow> bool" for produces background ttl max_stale where
  hit: "sf_pc s i = Outside \<Longrightarrow> sf_entry s = Some (t, v) \<Longrightarrow> now - t < ttl \<Longrightarrow> sf_step produces background ttl max_stale s (goto i (Answered v) s)"
| stale: "sf_pc s i = Outside \<Longrightarrow> \<not> fresh_entry ttl now s \<Longrightarrow> sf_busy s \<Longrightarrow> sf_entry s = Some (t, v) \<Longrightarrow>
    sf_step produces background ttl max_stale s (goto i (Answered v) s)"
| cold: "sf_pc s i = Outside \<Longrightarrow> sf_busy s \<Longrightarrow> sf_entry s = None \<Longrightarrow> sf_step produces background ttl max_stale s (goto i Waiting s)"
| woken: "sf_pc s i = Waiting \<Longrightarrow> sf_step produces background ttl max_stale s
    (goto i (case sf_entry s of Some (t, v) \<Rightarrow> Answered v | None \<Rightarrow> Rebuilding False) s)"
| lead: "sf_pc s i = Outside \<Longrightarrow> \<not> fresh_entry ttl now s \<Longrightarrow> \<not> sf_busy s \<Longrightarrow>
    sf_step produces background ttl max_stale s (goto i (Rebuilding True) (s\<lparr>sf_busy := True\<rparr>))"
| handoff: "sf_pc s i = Outside \<Longrightarrow> sf_pc s j = Outside \<Longrightarrow> i \<noteq> j \<Longrightarrow> \<not> fresh_entry ttl now s \<Longrightarrow> \<not> sf_busy s \<Longrightarrow>
    may_defer background ttl max_stale now s \<Longrightarrow> sf_entry s = Some (t, v) \<Longrightarrow>
    sf_step produces background ttl max_stale s (goto j Refreshing (goto i (Answered v) (s\<lparr>sf_busy := True\<rparr>)))"
| built: "sf_pc s i = Rebuilding l \<Longrightarrow> v \<in> produces \<Longrightarrow> sf_step produces background ttl max_stale s (goto i (Leaving l (Some v)) (s\<lparr>sf_entry := Some (now, v)\<rparr>))"
| failed: "sf_pc s i = Rebuilding l \<Longrightarrow> sf_step produces background ttl max_stale s (goto i (Leaving l None) s)"
| left: "sf_pc s i = Leaving l r \<Longrightarrow> sf_step produces background ttl max_stale s
    (goto i (case r of Some v \<Rightarrow> Answered v | None \<Rightarrow> Raising) (s\<lparr>sf_busy := (sf_busy s \<and> \<not> l)\<rparr>))"
| refreshed: "sf_pc s i = Refreshing \<Longrightarrow> v \<in> produces \<Longrightarrow> sf_step produces background ttl max_stale s (goto i Refreshed (s\<lparr>sf_entry := Some (now, v)\<rparr>))"
| refresh_failed: "sf_pc s i = Refreshing \<Longrightarrow> sf_step produces background ttl max_stale s (goto i Refreshed s)"
| released: "sf_pc s i = Refreshed \<Longrightarrow> sf_step produces background ttl max_stale s (goto i Outside (s\<lparr>sf_busy := False\<rparr>))"
| invalidate: "sf_step produces background ttl max_stale s (s\<lparr>sf_entry := None\<rparr>)"
| again: "sf_pc s i = Answered v \<or> sf_pc s i = Raising \<Longrightarrow> sf_step produces background ttl max_stale s (goto i Outside s)"

definition sf_init :: "'v sf_state \<Rightarrow> bool" where
  "sf_init s \<longleftrightarrow> sf_entry s = None \<and> \<not> sf_busy s \<and> (\<forall>i. sf_pc s i = Outside)"

section \<open>The owner of the flag\<close>

fun owns :: "'v sf_pc \<Rightarrow> bool" where
  "owns (Rebuilding l) = l"
| "owns (Leaving l r) = l"
| "owns Refreshing = True"
| "owns Refreshed = True"
| "owns _ = False"

definition sf_ok :: "'v sf_state \<Rightarrow> bool" where
  "sf_ok s \<longleftrightarrow> (sf_busy s \<longleftrightarrow> (\<exists>i. owns (sf_pc s i))) \<and> (\<forall>i j. owns (sf_pc s i) \<longrightarrow> owns (sf_pc s j) \<longrightarrow> i = j)"

lemma goto_simps [simp]: "sf_pc (goto i p s) = (sf_pc s)(i := p)" "sf_entry (goto i p s) = sf_entry s" "sf_busy (goto i p s) = sf_busy s"
  by (simp_all add: goto_def)

lemma owner_kept:
  assumes "sf_ok s" "owns p = owns (sf_pc s i)" "sf_busy s' = sf_busy s" "sf_pc s' = (sf_pc s)(i := p)"
  shows "sf_ok s'"
  using assms unfolding sf_ok_def by (metis fun_upd_apply)

lemma owner_leaves:
  assumes "sf_ok s" "owns (sf_pc s i)" "\<not> owns p" "\<not> sf_busy s'" "sf_pc s' = (sf_pc s)(i := p)"
  shows "sf_ok s'"
  using assms unfolding sf_ok_def by (metis fun_upd_apply)

lemma owner_enters:
  assumes "sf_ok s" "\<not> sf_busy s" "owns p" "sf_busy s'" "sf_pc s' = (sf_pc s)(i := p)"
  shows "sf_ok s'"
  using assms unfolding sf_ok_def by (metis fun_upd_apply)

lemma sf_step_ok: "sf_step produces background ttl max_stale s s' \<Longrightarrow> sf_ok s \<Longrightarrow> sf_ok s'"
proof (induction rule: sf_step.induct)
  case (woken s i)
  show ?case
    by (rule owner_kept [of s "case sf_entry s of Some (t, v) \<Rightarrow> Answered v | None \<Rightarrow> Rebuilding False" i]) (use woken in \<open>auto split: option.split\<close>)
next
  case (lead s i now)
  show ?case by (rule owner_enters [of s "Rebuilding True" _ i]) (use lead in auto)
next
  case (handoff s i j now t v)
  have "sf_ok (goto i (Answered v) s)" by (rule owner_kept [of s "Answered v" i]) (use handoff in auto)
  then show ?case by (rule owner_enters [of _ Refreshing _ j]) (use handoff in auto)
next
  case (left s i l r)
  show ?case
  proof (cases l)
    case True
    show ?thesis
      by (rule owner_leaves [of s i "case r of Some v \<Rightarrow> Answered v | None \<Rightarrow> Raising"]) (use left True in \<open>auto split: option.split\<close>)
  next
    case False
    show ?thesis
      by (rule owner_kept [of s "case r of Some v \<Rightarrow> Answered v | None \<Rightarrow> Raising" i]) (use left False in \<open>auto split: option.split\<close>)
  qed
next
  case (released s i)
  show ?case by (rule owner_leaves [of s i Outside]) (use released in auto)
next
  case (again s i v)
  show ?case by (rule owner_kept [of s Outside i]) (use again in auto)
next
  case (invalidate s)
  then show ?case by (simp add: sf_ok_def)
next
  case (hit s i t v now)
  show ?case by (rule owner_kept [of s "Answered v" i]) (use hit in auto)
next
  case (stale s i now t v)
  show ?case by (rule owner_kept [of s "Answered v" i]) (use stale in auto)
next
  case (cold s i)
  show ?case by (rule owner_kept [of s Waiting i]) (use cold in auto)
next
  case (built s i l v now)
  show ?case by (rule owner_kept [of s "Leaving l (Some v)" i]) (use built in auto)
next
  case (failed s i l)
  show ?case by (rule owner_kept [of s "Leaving l None" i]) (use failed in auto)
next
  case (refreshed s i v now)
  show ?case by (rule owner_kept [of s Refreshed i]) (use refreshed in auto)
next
  case (refresh_failed s i)
  show ?case by (rule owner_kept [of s Refreshed i]) (use refresh_failed in auto)
qed

section \<open>The values\<close>

fun holds_value :: "'v sf_pc \<Rightarrow> 'v option" where
  "holds_value (Leaving l r) = r"
| "holds_value (Answered v) = Some v"
| "holds_value _ = None"

definition sf_honest :: "'v set \<Rightarrow> 'v sf_state \<Rightarrow> bool" where
  "sf_honest produces s \<longleftrightarrow> (\<forall>t v. sf_entry s = Some (t, v) \<longrightarrow> v \<in> produces) \<and> (\<forall>i v. holds_value (sf_pc s i) = Some v \<longrightarrow> v \<in> produces)"

lemma sf_step_honest: "sf_step produces background ttl max_stale s s' \<Longrightarrow> sf_honest produces s \<Longrightarrow> sf_honest produces s'"
proof (induction rule: sf_step.induct)
  case (left s i l r)
  have "v \<in> produces" if "r = Some v" for v
    using left that by (metis holds_value.simps(1) sf_honest_def)
  with left show ?case by (auto simp: sf_honest_def split: option.split)
qed (auto simp: sf_honest_def split: option.splits)

interpretation flight: transition_inv sf_init "sf_step produces background ttl max_stale" "\<lambda>s. sf_ok s \<and> sf_honest produces s"
proof
  show "sf_ok s \<and> sf_honest produces s" if "sf_init s" for s using that by (simp add: sf_init_def sf_ok_def sf_honest_def)
  show "sf_ok t \<and> sf_honest produces t" if "sf_step produces background ttl max_stale s t" "sf_ok s \<and> sf_honest produces s" for s t
    using that sf_step_ok sf_step_honest by blast
qed

text \<open>The owner of the flag gives it back in at most two steps of its own, whatever the function does.\<close>

lemma owner_releases:
  assumes "owns (sf_pc s i)" "sf_ok s"
  shows "\<exists>s'. (sf_step produces background ttl max_stale)\<^sup>*\<^sup>* s s' \<and> \<not> sf_busy s' \<and> (\<forall>j. j \<noteq> i \<longrightarrow> sf_pc s' j = sf_pc s j)"
proof -
  let ?step = "sf_step produces background ttl max_stale"
  have out: "\<exists>s'. ?step\<^sup>*\<^sup>* u s' \<and> \<not> sf_busy s' \<and> (\<forall>j. j \<noteq> i \<longrightarrow> sf_pc s' j = sf_pc u j)" if "sf_pc u i = Leaving True r" for u r
    by (rule exI, rule conjI, rule r_into_rtranclp, rule left [OF that]) simp
  have ret: "\<exists>s'. ?step\<^sup>*\<^sup>* u s' \<and> \<not> sf_busy s' \<and> (\<forall>j. j \<noteq> i \<longrightarrow> sf_pc s' j = sf_pc u j)" if "sf_pc u i = Refreshed" for u
    by (rule exI, rule conjI, rule r_into_rtranclp, rule released [OF that]) simp
  from assms(1) consider "sf_pc s i = Rebuilding True" | r where "sf_pc s i = Leaving True r" | "sf_pc s i = Refreshing" | "sf_pc s i = Refreshed"
    by (cases "sf_pc s i") auto
  then show ?thesis
  proof cases
    case 1
    have st: "?step s (goto i (Leaving True None) s)" by (rule failed [OF 1])
    from out [of "goto i (Leaving True None) s"] obtain s' where "?step\<^sup>*\<^sup>* (goto i (Leaving True None) s) s'" "\<not> sf_busy s'"
        "\<forall>j. j \<noteq> i \<longrightarrow> sf_pc s' j = sf_pc s j"
      by auto
    with converse_rtranclp_into_rtranclp [of ?step, OF st] show ?thesis by blast
  next
    case 2
    from out [OF 2] show ?thesis .
  next
    case 3
    have st: "?step s (goto i Refreshed s)" by (rule refresh_failed [OF 3])
    from ret [of "goto i Refreshed s"] obtain s' where "?step\<^sup>*\<^sup>* (goto i Refreshed s) s'" "\<not> sf_busy s'"
        "\<forall>j. j \<noteq> i \<longrightarrow> sf_pc s' j = sf_pc s j"
      by auto
    with converse_rtranclp_into_rtranclp [of ?step, OF st] show ?thesis by blast
  next
    case 4
    from ret [OF 4] show ?thesis .
  qed
qed

section \<open>Properties\<close>

text \<open>
  Claim C20. One thread at a time is in charge of a rebuild, and a failing rebuild cannot wedge the page. In
  every reachable state the busy flag is set exactly when one thread, and only one, is due to clear it; that
  thread can clear it by steps of its own, also when the rebuild raises; and every answer given and every
  value kept is one the function built.
\<close>

theorem single_flight_safe:
  assumes "sf_init s0" and "(sf_step produces background ttl max_stale)\<^sup>*\<^sup>* s0 s"
  shows "(sf_busy s \<longleftrightarrow> (\<exists>!i. owns (sf_pc s i)))
    \<and> (sf_busy s \<longrightarrow> (\<exists>i s'. (sf_step produces background ttl max_stale)\<^sup>*\<^sup>* s s' \<and> \<not> sf_busy s' \<and> (\<forall>j. j \<noteq> i \<longrightarrow> sf_pc s' j = sf_pc s j)))
    \<and> (\<forall>i v. sf_pc s i = Answered v \<longrightarrow> v \<in> produces)
    \<and> (\<forall>t v. sf_entry s = Some (t, v) \<longrightarrow> v \<in> produces)"
proof -
  from flight.inv_reachable [OF assms] have ok: "sf_ok s" "sf_honest produces s" by auto
  have "sf_busy s \<longleftrightarrow> (\<exists>!i. owns (sf_pc s i))" using ok(1) by (auto simp: sf_ok_def)
  moreover have "\<exists>i s'. (sf_step produces background ttl max_stale)\<^sup>*\<^sup>* s s' \<and> \<not> sf_busy s' \<and> (\<forall>j. j \<noteq> i \<longrightarrow> sf_pc s' j = sf_pc s j)"
    if "sf_busy s"
  proof -
    from that ok(1) obtain i where "owns (sf_pc s i)" by (auto simp: sf_ok_def)
    from owner_releases [OF this ok(1)] show ?thesis by blast
  qed
  moreover have "v \<in> produces" if "sf_pc s i = Answered v" for i v
    using that ok(2) by (metis holds_value.simps(2) sf_honest_def)
  ultimately show ?thesis using ok(2) by (auto simp: sf_honest_def)
qed

definition idle_page :: "int sf_state" where
  "idle_page = \<lparr> sf_entry = None, sf_busy = False, sf_pc = (\<lambda>_. Outside) \<rparr>"

definition led_page :: "int sf_state" where
  "led_page = goto 0 (Rebuilding True) (idle_page\<lparr>sf_busy := True\<rparr>)"

theorem single_flight_safe_witness:
  "sf_busy led_page \<and> (\<exists>i s'. (sf_step {1} True 2 60)\<^sup>*\<^sup>* led_page s' \<and> \<not> sf_busy s' \<and> (\<forall>j. j \<noteq> i \<longrightarrow> sf_pc s' j = sf_pc led_page j))"
proof -
  have init: "sf_init idle_page" by (simp add: sf_init_def idle_page_def)
  have "sf_step {1} True 2 60 idle_page led_page"
    unfolding led_page_def by (rule lead) (simp_all add: idle_page_def fresh_entry_def)
  then have "(sf_step {1} True 2 60)\<^sup>*\<^sup>* idle_page led_page" by (rule r_into_rtranclp)
  from single_flight_safe [OF init this] show ?thesis by (simp add: led_page_def)
qed

end
