(* ===== verification/Board_View.thy ===== *)
theory Board_View
  imports Single_Flight
begin

text \<open>
  The pages about the board as a whole (\<open>coordinator/server.py\<close>: \<open>prover_rows\<close>, \<open>block_detail\<close>, \<open>state\<close>).
  Values the code reads through a cache are arguments (the frontier snapshot) or taken fresh. The lemmas say
  what the stall clock measures over a sequence of calls and when the page asks for a human. Where the code
  iterates over a Python set the order is left open by the language; here it is the order of first
  appearance.
\<close>

section \<open>Provers\<close>

record prover_row =
  pr_id :: string
  pr_handle :: "string option"
  pr_proved :: nat
  pr_folded :: nat
  pr_anchored :: nat
  pr_version :: "string option"

definition worked :: "contribution \<Rightarrow> bool" where
  "worked v \<longleftrightarrow> proved v \<noteq> 0 \<or> folded v \<noteq> 0 \<or> anchored v \<noteq> 0"

definition contributor_keys :: "config \<Rightarrow> board \<Rightarrow> pubkey list" where
  "contributor_keys cfg b = rev (remdups (rev (map fst (proof_items cfg b) @ fold_keys cfg b @ spine_keys cfg b)))"

definition prover_of :: "board \<Rightarrow> pubkey \<Rightarrow> contribution \<Rightarrow> prover_row" where
  "prover_of b pk v = \<lparr> pr_id = take 10 pk, pr_handle = Option.bind (row_of c_pubkey pk (contributors b)) c_handle,
     pr_proved = nat (proved v), pr_folded = folded v, pr_anchored = anchored v,
     pr_version = Option.bind (row_of c_pubkey pk (contributors b)) c_last_version \<rparr>"

text \<open>Every contributor with work, hidden keys left out, best first.\<close>

definition prover_rows :: "config \<Rightarrow> string list \<Rightarrow> board \<Rightarrow> prover_row list" where
  "prover_rows cfg blocked b =
     (let hidden = blocked @ map (\<lambda>k. resolve_pubkey cfg (rotation_map b) (Some k)) blocked
      in sort_key (\<lambda>r. (- int (pr_proved r), - int (pr_folded r), - int (pr_anchored r)))
        (List.map_filter (\<lambda>pk. case contributions_by_pubkey cfg b pk of None \<Rightarrow> None
            | Some v \<Rightarrow> if lower pk \<notin> set hidden \<and> worked v then Some (prover_of b pk v) else None) (contributor_keys cfg b)))"

section \<open>One block\<close>

definition or_now :: "time \<Rightarrow> time option \<Rightarrow> time" where
  "or_now now t = (case t of None \<Rightarrow> now | Some x \<Rightarrow> if x = 0 then now else x)"

definition since_beat :: "time \<Rightarrow> range_row \<Rightarrow> int" where
  "since_beat now r = py_trunc (now - (case r_last_beat r of None \<Rightarrow> or_now now (r_claimed_at r)
     | Some x \<Rightarrow> if x = 0 then or_now now (r_claimed_at r) else x))"

definition since_claim :: "time \<Rightarrow> range_row \<Rightarrow> int" where
  "since_claim now r = py_trunc (now - or_now now (r_claimed_at r))"

record proof_view =
  pf_lo :: int
  pf_hi :: int
  pf_ts :: "time option"
  pf_fold :: bool
  pf_handle :: "string option"
  pf_proof :: "range_id option"

record claim_view =
  cl_lo :: int
  cl_hi :: int
  cl_handle :: "string option"
  cl_elapsed :: int
  cl_stale :: bool

record fold_view =
  fv_result :: range_id
  fv_lo :: int
  fv_hi :: int
  fv_handle :: "string option"
  fv_elapsed :: int
  fv_expires :: int

definition claim_view_of :: "config \<Rightarrow> string list \<Rightarrow> time \<Rightarrow> range_row \<Rightarrow> claim_view" where
  "claim_view_of cfg blk now r = \<lparr> cl_lo = r_lo r, cl_hi = r_hi r, cl_handle = hide blk (r_assignee r) (r_handle r),
     cl_elapsed = since_claim now r, cl_stale = (of_int (since_beat now r) > CLAIM_TTL cfg) \<rparr>"

definition fold_view_of :: "config \<Rightarrow> string list \<Rightarrow> time \<Rightarrow> range_id \<times> fold_claim \<Rightarrow> fold_view" where
  "fold_view_of cfg blk now kv = (case kv of (k, v) \<Rightarrow> \<lparr> fv_result = k, fv_lo = fc_lo v, fv_hi = fc_hi v,
     fv_handle = hide blk (Some (fc_pubkey v)) (Some (fc_handle v)), fv_elapsed = py_trunc (now - fc_at v),
     fv_expires = max 0 (py_trunc (FOLD_CLAIM_TTL cfg - (now - fc_at v))) \<rparr>)"

datatype block_state = BS_Genesis | BS_Spined | BS_Folded | BS_Proved | BS_Claimed | BS_Open

record block_view =
  bv_status :: block_state
  bv_unbroken :: bool
  bv_proofs :: "proof_view list"
  bv_claim :: "claim_view option"
  bv_fold_claim :: "fold_view option"
  bv_anchored_by :: "string option"
  bv_absorbed :: "absorption option"
  bv_sponsor :: "int option"
  bv_held :: "(int \<times> int) option"

definition block_proofs :: "string list \<Rightarrow> board \<Rightarrow> int \<Rightarrow> proof_view list" where
  "block_proofs blk b n = map (\<lambda>r. \<lparr> pf_lo = v_lo r, pf_hi = v_hi r, pf_ts = v_ts r, pf_fold = (v_id r \<in> fold_ids b),
       pf_handle = hide blk (v_pubkey r) (v_handle r), pf_proof = (if proofs b (v_id r) = None then None else Some (v_id r)) \<rparr>)
     (sort_key (\<lambda>r. (v_hi r - v_lo r, v_ts r)) (filter (\<lambda>r. v_lo r \<le> n \<and> v_hi r \<ge> n) (vranges b)))"

definition block_detail :: "config \<Rightarrow> world \<Rightarrow> string list \<Rightarrow> int \<Rightarrow> board \<Rightarrow> fold_claims \<Rightarrow> int \<Rightarrow> block_view option" where
  "block_detail cfg w blk fr b fcs n =
     (if n > chain_tip cfg w then None
      else (let now = w_now w; spine_hi = spine_floor b; ps = block_proofs blk b n;
          cl = map_option (claim_view_of cfg blk now)
                 (first_by r_lo (filter (\<lambda>r. r_status r = Claimed \<and> r_lo r \<le> n \<and> r_hi r \<ge> n) (ranges b)));
          inside = 0 < n \<and> n \<le> spine_hi
        in Some \<lparr> bv_status =
              (if n = 0 then BS_Genesis else if n \<le> spine_hi then BS_Spined
               else if list_ex pf_fold ps then BS_Folded else if ps \<noteq> [] then BS_Proved
               else if (case cl of None \<Rightarrow> False | Some c \<Rightarrow> \<not> cl_stale c) then BS_Claimed else BS_Open),
            bv_unbroken = (0 < n \<and> n \<le> fr), bv_proofs = ps, bv_claim = cl,
            bv_fold_claim = find (\<lambda>v. fv_lo v \<le> n \<and> n \<le> fv_hi v)
              (map (fold_view_of cfg blk now) (sort_key (\<lambda>(k, v). fc_hi v - fc_lo v) (live_fold_claims cfg now fcs))),
            bv_anchored_by = (if inside then map_option a_handle (find (\<lambda>sg. a_lo sg \<le> n \<and> n \<le> a_hi sg) (fst (spine_segments blk b))) else None),
            bv_absorbed = (if inside then spine_absorption b n else None),
            bv_sponsor = map_option sp_id (public_sponsor b n),
            bv_held = (case sponsor_holds b (Some (n, n)) of [] \<Rightarrow> None
               | s # _ \<Rightarrow> Some (sp_id s, py_trunc (now - or_now now (sp_paid_at s)))) \<rparr>))"

section \<open>The board window\<close>

record board_cell =
  bc_id :: range_id
  bc_lo :: int
  bc_hi :: int
  bc_status :: status
  bc_handle :: "string option"
  bc_claim :: "(int \<times> int \<times> bool) option"

definition board_cell_of :: "config \<Rightarrow> string list \<Rightarrow> time \<Rightarrow> range_row list \<Rightarrow> int \<Rightarrow> board_cell" where
  "board_cell_of cfg blk now existing lo =
     (let hi = lo + RANGE_SIZE cfg - 1; rid = int_str lo @ CHR ''-'' # int_str hi in
      case row_of r_id rid existing of
        Some r \<Rightarrow> if r_status r \<in> {Claimed, Verified}
          then \<lparr> bc_id = rid, bc_lo = lo, bc_hi = hi, bc_status = r_status r, bc_handle = hide blk (r_assignee r) (r_handle r),
                 bc_claim = (if r_status r = Claimed then Some (since_claim now r, since_beat now r, of_int (since_beat now r) > CLAIM_TTL cfg) else None) \<rparr>
          else \<lparr> bc_id = rid, bc_lo = lo, bc_hi = hi, bc_status = Open, bc_handle = None, bc_claim = None \<rparr>
      | None \<Rightarrow> \<lparr> bc_id = rid, bc_lo = lo, bc_hi = hi, bc_status = Open, bc_handle = None, bc_claim = None \<rparr>)"

definition board_window :: "config \<Rightarrow> world \<Rightarrow> string list \<Rightarrow> int \<Rightarrow> board \<Rightarrow> board_cell list" where
  "board_window cfg w blk fr b =
     (let start = max 0 (fr div RANGE_SIZE cfg - 1) * RANGE_SIZE cfg;
          existing = take 60 (sort_key r_lo (filter (\<lambda>r. r_lo r \<ge> start) (ranges b)))
      in map (board_cell_of cfg blk (w_now w) existing)
           (takeWhile (\<lambda>lo. lo < chain_tip cfg w) (map (\<lambda>i. start + int i * RANGE_SIZE cfg) [0..<18])))"

section \<open>What holds the frontier\<close>

record failed_view =
  fa_id :: range_id
  fa_lo :: int
  fa_hi :: int
  fa_attempts :: "int option"
  fa_error :: string
  fa_since :: int

definition failed_rows :: "time \<Rightarrow> board \<Rightarrow> failed_view list" where
  "failed_rows now b = map (\<lambda>r. \<lparr> fa_id = r_id r, fa_lo = r_lo r, fa_hi = r_hi r, fa_attempts = r_attempts r,
       fa_error = take 200 (or_empty (r_last_error r)), fa_since = py_trunc (now - or_now now (r_last_failed_at r)) \<rparr>)
     (sort_key r_lo (filter (\<lambda>r. r_status r = Failed) (ranges b)))"

definition blocker_of :: "board \<Rightarrow> int \<Rightarrow> range_row option" where
  "blocker_of b nb = (case first_by (\<lambda>r. r_hi r - r_lo r)
       (filter (\<lambda>r. r_lo r \<le> nb \<and> r_hi r \<ge> nb \<and> r_status r \<in> {Claimed, Verified, Failed}) (ranges b)) of
     Some r \<Rightarrow> Some r | None \<Rightarrow> row_of r_id (int_str nb) (ranges b))"

text \<open>
  The frontier's mark \<open>"<height>:<time>"\<close> and the seconds since it was set; \<open>ftext\<close> is the text of a float.
  None where a mark whose height or time is no number raises.
\<close>

definition read_mark :: "board \<Rightarrow> (string \<times> string) option" where
  "read_mark b = (case meta b ''frontier_mark'' of None \<Rightarrow> None
     | Some v \<Rightarrow> (case split_at (\<lambda>c. c = CHR '':'') v of (h, Some t) \<Rightarrow> Some (h, t) | (_, None) \<Rightarrow> None))"

definition stamp :: "(time \<Rightarrow> string) \<Rightarrow> time \<Rightarrow> int \<Rightarrow> board \<Rightarrow> board" where
  "stamp ftext now fr b = b\<lparr>meta := (meta b)(''frontier_mark'' \<mapsto> int_str fr @ CHR '':'' # ftext now)\<rparr>"

definition frontier_mark :: "(time \<Rightarrow> string) \<Rightarrow> time \<Rightarrow> int \<Rightarrow> board \<Rightarrow> (int \<times> board) option" where
  "frontier_mark ftext now fr b =
     (case read_mark b of None \<Rightarrow> Some (0, stamp ftext now fr b)
      | Some (h, t) \<Rightarrow> (case py_int h of None \<Rightarrow> None
         | Some hi \<Rightarrow> if hi \<noteq> fr then Some (0, stamp ftext now fr b)
             else map_option (\<lambda>ts. (max 0 (py_trunc (now - ts)), b)) (decimal t)))"

text \<open>Why the frontier waits; the arguments are the facts the message prints.\<close>

datatype waiting = JustVerified | CannotSeam | FailedOut int | NoBeats string int int string | Retaken int string int string
  | LargeBlock string int int string | LiveWorker string string | HeldLong int int | HeldBy int | Unpaid int | Nobody int | OpenBlock

definition worker_version :: "board \<Rightarrow> range_row \<Rightarrow> string" where
  "worker_version b r = (let v = or_empty (case r_assignee r of None \<Rightarrow> None
       | Some pk \<Rightarrow> if pk = [] then None else Option.bind (row_of c_pubkey pk (contributors b)) c_last_version)
     in if v = [] then ''unknown'' else v)"

definition claimed_verdict :: "config \<Rightarrow> time \<Rightarrow> board \<Rightarrow> int \<Rightarrow> range_row \<Rightarrow> bool \<times> waiting" where
  "claimed_verdict cfg now b stalled r =
     (let ver = worker_version b r;
          who = (if or_empty (r_handle r) = [] then ''an anonymous prover'' else or_empty (r_handle r));
          claim_age = since_claim now r; beat_age = since_beat now r;
          settled = of_int claim_age \<ge> CLAIM_TTL cfg; alive = of_int beat_age \<le> CLAIM_TTL cfg
      in if of_int stalled > 2 * CLAIM_TTL cfg \<and> \<not> (settled \<and> alive) then
           (True, if \<not> alive then NoBeats who claim_age beat_age ver else Retaken stalled who claim_age ver)
         else if of_int stalled > 2 * CLAIM_TTL cfg then (False, LargeBlock who claim_age beat_age ver)
         else (False, LiveWorker who ver))"

definition attention :: "config \<Rightarrow> rat \<Rightarrow> time \<Rightarrow> board \<Rightarrow> time \<Rightarrow> int \<Rightarrow> int \<Rightarrow> bool \<times> waiting" where
  "attention cfg alert now b taken_at nb stalled =
     (let blocker = blocker_of b nb;
          st = (case blocker of None \<Rightarrow> Open | Some r \<Rightarrow> r_status r);
          att = (case blocker of None \<Rightarrow> 0 | Some r \<Rightarrow> the (coalesce (r_attempts r) (Some 0)));
          hold = (case sponsor_holds b (Some (nb, nb)) of [] \<Rightarrow> None | s # _ \<Rightarrow> Some s);
          pending = (if hold \<noteq> None then None else case sponsor_pending b now (Some (nb, nb)) of [] \<Rightarrow> None | s # _ \<Rightarrow> Some s)
      in if st = Verified \<and> \<not> cover_settled cfg b nb taken_at then (False, JustVerified)
         else if st = Verified then (True, CannotSeam)
         else if att \<ge> MAX_ATTEMPTS cfg then (True, FailedOut att)
         else if st = Claimed then claimed_verdict cfg now b stalled (the blocker)
         else case hold of
           Some s \<Rightarrow> (let since = py_trunc (now - or_now now (sp_paid_at s)) in
               if of_int since > alert then (True, HeldLong (sp_id s) since) else (False, HeldBy (sp_id s)))
         | None \<Rightarrow> case pending of Some s \<Rightarrow> (False, Unpaid (sp_id s))
         | None \<Rightarrow> if of_int stalled > CLAIM_TTL cfg then (True, Nobody stalled) else (False, OpenBlock))"

section \<open>The page\<close>

record progress =
  pg_proven :: int
  pg_folded :: int
  pg_folds :: int
  pg_frontier :: int
  pg_tip :: int
  pg_pct :: rat
  pg_contributors :: nat
  pg_spine_hi :: "int option"

record recent_row =
  rr_range :: range_id
  rr_handle :: "string option"
  rr_verified :: bool
  rr_ts :: time
  rr_note :: string

record state_view =
  st_progress :: progress
  st_failed :: "failed_view list"
  st_blocked :: "int \<times> range_id option \<times> status \<times> int \<times> int option \<times> int \<times> bool \<times> waiting"
  st_board :: "board_cell list"
  st_leaders :: "prover_row list"
  st_recent :: "recent_row list"
  st_index :: "index_entry list"
  st_claims :: "claim_view list"
  st_folds :: "fold_view list"
  st_proof :: frontier
  st_timeline :: "nat list \<times> int"

definition round_milli :: "rat \<Rightarrow> rat" where
  "round_milli x = py_round 3 x"

definition recent_rows :: "string list \<Rightarrow> board \<Rightarrow> recent_row list" where
  "recent_rows blk b = map (\<lambda>s. \<lparr> rr_range = s_range_id s, rr_handle = hide blk (Some (s_pubkey s)) (Some (s_handle s)),
       rr_verified = s_verified s, rr_ts = s_ts s, rr_note = s_note s \<rparr>) (take 40 (sort_key (\<lambda>s. - s_ts s) (submissions b)))"

definition progress_of :: "config \<Rightarrow> world \<Rightarrow> int \<Rightarrow> board \<Rightarrow> progress" where
  "progress_of cfg w fr b =
     (let cs = List.map_filter (contributions_by_pubkey cfg b) (contributor_keys cfg b); tip = chain_tip cfg w
      in \<lparr> pg_proven = proven_count b, pg_folded = folded_count b, pg_folds = sum_list (map (\<lambda>v. int (folded v)) cs), pg_frontier = fr,
           pg_tip = tip, pg_pct = (if tip \<noteq> 0 then round_milli (100 * of_int fr / of_int tip) else 0),
           pg_contributors = length (filter worked cs), pg_spine_hi = map_option m_hi (spine b) \<rparr>)"

text \<open>
  \<open>state\<close>: the page and the board (the mark may be set), None where the mark raises. The snapshot is the
  cached frontier, which the page's proof panel reads too.
\<close>

definition state_page :: "config \<Rightarrow> world \<Rightarrow> rat \<Rightarrow> (time \<Rightarrow> string) \<Rightarrow> string list \<Rightarrow> snapshot \<Rightarrow> fold_claims \<Rightarrow> bool \<Rightarrow> board \<Rightarrow> (state_view \<times> board) option" where
  "state_page cfg w alert ftext blk snap fcs slim b =
     (let now = w_now w; (taken_at, chain) = snap; fr = f_hi chain; nb = fr + 1
      in case frontier_mark ftext now fr b of None \<Rightarrow> None
      | Some (stalled, b') \<Rightarrow>
          (let (attn, why) = attention cfg alert now b taken_at nb stalled; blocker = blocker_of b nb
           in Some (\<lparr> st_progress = progress_of cfg w fr b, st_failed = failed_rows now b,
                st_blocked = (nb, map_option r_id blocker, (case blocker of None \<Rightarrow> Open | Some r \<Rightarrow> r_status r),
                   (case blocker of None \<Rightarrow> 0 | Some r \<Rightarrow> the (coalesce (r_attempts r) (Some 0))),
                   (case sponsor_holds b (Some (nb, nb)) of [] \<Rightarrow> None | s # _ \<Rightarrow> Some (sp_id s)), stalled, attn, why),
                st_board = board_window cfg w blk fr b, st_leaders = take 8 (prover_rows cfg blk b),
                st_recent = recent_rows blk b, st_index = (if slim then [] else build_vranges blk b),
                st_claims = map (claim_view_of cfg blk now) (sort_key r_lo (filter (\<lambda>r. r_status r = Claimed) (ranges b))),
                st_folds = map (fold_view_of cfg blk now) (sort_key (\<lambda>(k, v). fc_lo v) (live_fold_claims cfg now fcs)),
                st_proof = chain, st_timeline = timeline (chain_tip cfg w) 240 fr b \<rparr>, b')))"

section \<open>The stall clock\<close>

text \<open>The stall reported by a sequence of looks, each at a time and a frontier; None when one of them raises.\<close>

fun look_run :: "(time \<Rightarrow> string) \<Rightarrow> (time \<times> int) list \<Rightarrow> board \<Rightarrow> (int list \<times> board) option" where
  "look_run ftext [] b = Some ([], b)"
| "look_run ftext ((now, fr) # xs) b = (case frontier_mark ftext now fr b of None \<Rightarrow> None
     | Some (s, b') \<Rightarrow> map_option (\<lambda>(ss, c). (s # ss, c)) (look_run ftext xs b'))"

fun stalls :: "int \<Rightarrow> time \<Rightarrow> (time \<times> int) list \<Rightarrow> int list" where
  "stalls fr0 t0 [] = []"
| "stalls fr0 t0 ((now, fr) # xs) = (if fr = fr0 then max 0 (py_trunc (now - t0)) # stalls fr0 t0 xs else 0 # stalls fr now xs)"

lemma no_colon: "CHR '':'' \<notin> set (int_str i)"
proof -
  have "digit_val CHR '':'' = None" by code_simp
  then show ?thesis using all_digits_no_char [OF nat_str_digits] by (auto simp: int_str_def)
qed

lemma split_at_first: "(\<And>c. c \<in> set s \<Longrightarrow> \<not> p c) \<Longrightarrow> p d \<Longrightarrow> split_at p (s @ d # t) = (s, Some t)"
  by (simp add: split_at_def takeWhile_append dropWhile_append)

lemma read_stamp: "read_mark (stamp ftext now fr b) = Some (int_str fr, ftext now)"
proof -
  have "split_at (\<lambda>c. c = CHR '':'') (int_str fr @ CHR '':'' # ftext now) = (int_str fr, Some (ftext now))"
    by (rule split_at_first) (use no_colon [of fr] in auto)
  then show ?thesis by (simp add: read_mark_def stamp_def)
qed

lemma look_run_stalls:
  assumes "read_mark b = Some (int_str fr0, ftext t0)" "decimal (ftext t0) = Some t0" "0 \<le> fr0"
    "\<forall>(now, fr) \<in> set xs. 0 \<le> fr \<and> decimal (ftext now) = Some now"
  shows "\<exists>c. look_run ftext xs b = Some (stalls fr0 t0 xs, c)"
  using assms
proof (induction xs arbitrary: fr0 t0 b)
  case (Cons x xs)
  obtain now fr where x: "x = (now, fr)" by (cases x)
  show ?case
  proof (cases "fr = fr0")
    case True
    with Cons.prems have "frontier_mark ftext now fr b = Some (max 0 (py_trunc (now - t0)), b)" by (simp add: frontier_mark_def)
    with Cons.IH [OF Cons.prems(1-3)] Cons.prems(4) True x show ?thesis by fastforce
  next
    case False
    with Cons.prems have "frontier_mark ftext now fr b = Some (0, stamp ftext now fr b)" by (auto simp: frontier_mark_def)
    with Cons.IH [OF read_stamp [of ftext now fr b]] Cons.prems(4) False x show ?thesis by fastforce
  qed
qed simp

lemma length_stalls [simp]: "length (stalls fr0 t0 xs) = length xs"
  by (induction fr0 t0 xs rule: stalls.induct) simp_all

text \<open>The entry of the clock for look \<open>i\<close>: the seconds since the first look that saw the frontier where it is.\<close>

definition since_move :: "(time \<times> int) list \<Rightarrow> nat \<Rightarrow> int \<Rightarrow> bool" where
  "since_move xs i s \<longleftrightarrow> (\<exists>j \<le> i. (\<forall>k. j \<le> k \<longrightarrow> k \<le> i \<longrightarrow> snd (xs ! k) = snd (xs ! i))
     \<and> (j = 0 \<or> snd (xs ! (j - 1)) \<noteq> snd (xs ! i)) \<and> s = max 0 (py_trunc (fst (xs ! i) - fst (xs ! j))))"

lemma since_move_here: "i = 0 \<or> snd (xs ! (i - 1)) \<noteq> snd (xs ! i) \<Longrightarrow> since_move xs i 0"
  unfolding since_move_def by (rule exI [of _ i]) (auto simp: py_trunc_def)

lemma since_move_Cons: "since_move xs i s \<Longrightarrow> snd x \<noteq> snd (xs ! 0) \<Longrightarrow> since_move (x # xs) (Suc i) s"
  unfolding since_move_def
proof (elim exE conjE)
  fix j assume j: "j \<le> i" "\<forall>k. j \<le> k \<longrightarrow> k \<le> i \<longrightarrow> snd (xs ! k) = snd (xs ! i)" "j = 0 \<or> snd (xs ! (j - 1)) \<noteq> snd (xs ! i)"
    "s = max 0 (py_trunc (fst (xs ! i) - fst (xs ! j)))" "snd x \<noteq> snd (xs ! 0)"
  have "snd ((x # xs) ! (Suc j - 1)) \<noteq> snd ((x # xs) ! Suc i)"
  proof (cases j)
    case 0
    with j(2) [rule_format, of 0] j(5) show ?thesis by simp
  next
    case (Suc m)
    with j(3) show ?thesis by simp
  qed
  moreover have "snd ((x # xs) ! k) = snd ((x # xs) ! Suc i)" if "Suc j \<le> k" "k \<le> Suc i" for k
  proof -
    from that obtain m where "k = Suc m" by (cases k) auto
    with that j(2) [rule_format, of m] show ?thesis by simp
  qed
  ultimately show "\<exists>j \<le> Suc i. (\<forall>k. j \<le> k \<longrightarrow> k \<le> Suc i \<longrightarrow> snd ((x # xs) ! k) = snd ((x # xs) ! Suc i))
      \<and> (j = 0 \<or> snd ((x # xs) ! (j - 1)) \<noteq> snd ((x # xs) ! Suc i)) \<and> s = max 0 (py_trunc (fst ((x # xs) ! Suc i) - fst ((x # xs) ! j)))"
    using j(1,4) by (intro exI [of _ "Suc j"]) simp
qed

lemma stalls_since:
  "i < length xs \<Longrightarrow> since_move ((t0, fr0) # xs) (Suc i) (stalls fr0 t0 xs ! i)"
proof (induction fr0 t0 xs arbitrary: i rule: stalls.induct)
  case (2 fr0 t0 now fr xs)
  show ?case
  proof (cases "fr = fr0")
    case False
    show ?thesis
    proof (cases i)
      case 0
      with False show ?thesis using since_move_here [of "Suc 0" "(t0, fr0) # (now, fr) # xs"] by simp
    next
      case (Suc n)
      with 2 False have "since_move ((now, fr) # xs) (Suc n) (stalls fr now xs ! n)" by simp
      from since_move_Cons [OF this, of "(t0, fr0)"] False Suc show ?thesis by simp
    qed
  next
    case True
    show ?thesis
    proof (cases i)
      case 0
      have "\<forall>k. k \<le> Suc 0 \<longrightarrow> snd (((t0, fr0) # (now, fr) # xs) ! k) = fr" using True by (auto simp: le_Suc_eq)
      with True 0 show ?thesis by (auto simp: since_move_def intro!: exI [of _ 0])
    next
      case (Suc n)
      with 2 True have m: "since_move ((t0, fr0) # xs) (Suc n) (stalls fr0 t0 xs ! n)" by simp
      then obtain j where j: "j \<le> Suc n" "\<forall>k. j \<le> k \<longrightarrow> k \<le> Suc n \<longrightarrow> snd (((t0, fr0) # xs) ! k) = snd (xs ! n)"
          "j = 0 \<or> snd (((t0, fr0) # xs) ! (j - 1)) \<noteq> snd (xs ! n)"
          "stalls fr0 t0 xs ! n = max 0 (py_trunc (fst (xs ! n) - fst (((t0, fr0) # xs) ! j)))"
        by (auto simp: since_move_def)
      show ?thesis
      proof (cases j)
        case 0
        have "snd (((t0, fr0) # (now, fr) # xs) ! k) = snd (xs ! n)" if "k \<le> Suc (Suc n)" for k
        proof -
          have fr0: "fr0 = snd (xs ! n)" using j(2) [rule_format, of 0] 0 by simp
          show ?thesis
          proof (cases k)
            case 0
            with fr0 show ?thesis by simp
          next
            case k1: (Suc l)
            show ?thesis
            proof (cases l)
              case 0
              with k1 fr0 True show ?thesis by simp
            next
              case (Suc m)
              with k1 that j(2) [rule_format, of "Suc m"] \<open>j = 0\<close> show ?thesis by simp
            qed
          qed
        qed
        with j(4) 0 Suc True show ?thesis by (auto simp: since_move_def intro!: exI [of _ 0])
      next
        case (Suc m)
        have same: "snd (((t0, fr0) # (now, fr) # xs) ! k) = snd (xs ! n)" if "Suc j \<le> k" "k \<le> Suc (Suc n)" for k
        proof -
          define l where "l = k - 2"
          with that(1) \<open>j = Suc m\<close> have k: "k = Suc (Suc l)" by linarith
          from that k have "j \<le> Suc l" "Suc l \<le> Suc n" by linarith+
          from j(2) [rule_format, OF this] show ?thesis by (simp only: k nth_Cons_Suc)
        qed
        have moved: "snd (((t0, fr0) # (now, fr) # xs) ! j) \<noteq> snd (xs ! n)"
        proof (cases m)
          case 0
          with j(3) Suc True show ?thesis by simp
        next
          case (Suc l)
          with j(3) \<open>j = Suc m\<close> show ?thesis by simp
        qed
        show ?thesis
          unfolding since_move_def
        proof (intro exI [of _ "Suc j"] conjI)
          show "Suc j \<le> Suc i" using j(1) \<open>i = Suc n\<close> by simp
          show "\<forall>k. Suc j \<le> k \<longrightarrow> k \<le> Suc i \<longrightarrow> snd (((t0, fr0) # (now, fr) # xs) ! k) = snd (((t0, fr0) # (now, fr) # xs) ! Suc i)"
            using same \<open>i = Suc n\<close> by simp
          show "Suc j = 0 \<or> snd (((t0, fr0) # (now, fr) # xs) ! (Suc j - 1)) \<noteq> snd (((t0, fr0) # (now, fr) # xs) ! Suc i)"
            using moved \<open>i = Suc n\<close> by simp
          show "stalls fr0 t0 ((now, fr) # xs) ! i = max 0 (py_trunc (fst (((t0, fr0) # (now, fr) # xs) ! Suc i)
              - fst (((t0, fr0) # (now, fr) # xs) ! Suc j)))"
            using j(4) True Suc \<open>i = Suc n\<close> by simp
        qed
      qed
    qed
  qed
qed simp

section \<open>Properties\<close>

text \<open>
  The stall the page reports is the time since the frontier last moved. Over any sequence of looks,
  from a board without a mark, none of them raises and the stall at each look is the whole seconds since the
  first of the looks that found the frontier where it still is, whatever happened to the blocking range in
  between; times are written so that they read back.
\<close>

theorem stall_since_frontier_moved:
  assumes "meta b ''frontier_mark'' = None" and "\<forall>(now, fr) \<in> set looks. 0 \<le> fr \<and> decimal (ftext now) = Some now"
  shows "\<exists>ss c. look_run ftext looks b = Some (ss, c) \<and> length ss = length looks \<and> (\<forall>i < length looks. since_move looks i (ss ! i))"
proof (cases looks)
  case (Cons x xs)
  obtain now fr where x: "x = (now, fr)" by (cases x)
  have first: "frontier_mark ftext now fr b = Some (0, stamp ftext now fr b)" using assms(1) by (simp add: frontier_mark_def read_mark_def)
  obtain c where run: "look_run ftext xs (stamp ftext now fr b) = Some (stalls fr now xs, c)"
    using look_run_stalls [of "stamp ftext now fr b" fr ftext now xs] read_stamp [of ftext now fr b] assms(2) Cons x by auto
  have "since_move looks i ((0 # stalls fr now xs) ! i)" if "i < length looks" for i
  proof (cases i)
    case 0
    then show ?thesis using since_move_here [of 0 looks] by simp
  next
    case (Suc n)
    with that stalls_since [of n xs now fr] Cons x show ?thesis by simp
  qed
  with first run Cons x show ?thesis by auto
qed simp

definition whole_text :: "time \<Rightarrow> string" where
  "whole_text t = nat_str (nat \<lfloor>t\<rfloor>)"

theorem stall_since_frontier_moved_witness:
  "\<exists>c. look_run whole_text [(10, 5), (15, 5), (20, 6), (80, 6)] empty_board = Some ([0, 5, 0, 60], c)
   \<and> since_move [(10, 5), (15, 5), (20, 6), (80, 6)] 3 60"
proof -
  let ?looks = "[(10, 5), (15, 5), (20, 6), (80, 6)] :: (time \<times> int) list"
  have ok: "\<forall>(now, fr) \<in> set ?looks. 0 \<le> fr \<and> decimal (whole_text now) = Some now"
    by (simp; intro conjI; code_simp)
  have "map_option fst (look_run whole_text ?looks empty_board) = Some [0, 5, 0, 60]" by code_simp
  then obtain c where run: "look_run whole_text ?looks empty_board = Some ([0, 5, 0, 60], c)" by auto
  have "meta empty_board ''frontier_mark'' = None" by simp
  from stall_since_frontier_moved [OF this ok] run have "since_move ?looks 3 ([0, 5, 0, 60] ! 3)" by fastforce
  with run show ?thesis by simp
qed

text \<open>A mark whose height is no number is not written afresh: every look raises.\<close>

lemma malformed_mark_raises:
  "frontier_mark whole_text 10 5 (empty_board\<lparr>meta := [''frontier_mark'' \<mapsto> ''x:1'']\<rparr>) = None"
  by code_simp

text \<open>
  A claim older than a cycle whose last beat is within a cycle is never a reason to ask for a human, whatever
  the stall, unless the block has failed its way to the cap.
\<close>

lemma beating_claim_not_flagged:
  assumes "blocker_of b nb = Some r" "r_status r = Claimed" "the (coalesce (r_attempts r) (Some 0)) < MAX_ATTEMPTS cfg"
    "of_int (since_claim now r) \<ge> CLAIM_TTL cfg" "of_int (since_beat now r) \<le> CLAIM_TTL cfg"
  shows "\<not> fst (attention cfg alert now b taken_at nb stalled)"
  using assms by (simp add: attention_def claimed_verdict_def Let_def)

end
