(* ===== verification/Text_Match.thy ===== *)
theory Text_Match
  imports Decimal_Text "HOL-Library.Monad_Syntax"
begin

text \<open>
  Matching text: the pieces that stand for the regular expressions of the tip rig and of the offsite mirror,
  and how they consume the decimal numbers a program prints.
\<close>

text \<open>
  The pieces a regular expression is put together from: each consumes a prefix of the text or fails. What follows a
  repetition never starts with a character the repetition takes, so no backtracking is needed.
\<close>

definition is_digit :: "char \<Rightarrow> bool" where
  "is_digit c \<longleftrightarrow> digit_val c \<noteq> None"

definition m_num :: "string \<Rightarrow> (nat \<times> string) option" where
  "m_num s = (case py_digits 0 False (takeWhile is_digit s) of None \<Rightarrow> None | Some n \<Rightarrow> Some (n, dropWhile is_digit s))"

definition m_lit :: "string \<Rightarrow> string \<Rightarrow> string option" where
  "m_lit p s = (if prefixed p s then Some (drop (length p) s) else None)"

definition m_blank :: "string \<Rightarrow> string option" where
  "m_blank s = (case s of [] \<Rightarrow> None | c # _ \<Rightarrow> if is_space c then Some (dropWhile is_space s) else None)"

fun m_search :: "(string \<Rightarrow> 'a option) \<Rightarrow> string \<Rightarrow> 'a option" where
  "m_search p s = (case p s of Some x \<Rightarrow> Some x | None \<Rightarrow> (case s of [] \<Rightarrow> None | _ # t \<Rightarrow> m_search p t))"

declare m_search.simps [simp del]

lemma is_digit_simps [simp]: "is_digit c \<longleftrightarrow> digit_val c \<noteq> None"
  by (simp add: is_digit_def)

lemma digit_run:
  "all_digits ds \<Longrightarrow> s = [] \<or> digit_val (hd s) = None \<Longrightarrow>
   takeWhile is_digit (ds @ s) = ds \<and> dropWhile is_digit (ds @ s) = s"
  by (induction ds) (cases s; auto)+

lemma m_num_nat_str [simp]: "s = [] \<or> digit_val (hd s) = None \<Longrightarrow> m_num (nat_str n @ s) = Some (n, s)"
  using digit_run [OF nat_str_digits [of n], of s] by (simp add: m_num_def py_digits_nat_str)

lemma m_num_end [simp]: "m_num (nat_str n) = Some (n, [])"
  using m_num_nat_str [of "[]" n] by simp

lemma m_num_other [simp]: "digit_val c = None \<Longrightarrow> m_num (c # s) = None"
  by (simp add: m_num_def)

lemma m_lit_append [simp]: "m_lit p (p @ s) = Some s"
  by (simp add: m_lit_def)

lemma m_lit_cons [simp]:
  "m_lit [] s = Some s" "m_lit (c # p) [] = None"
  "m_lit (c # p) (d # s) = (if c = d then m_lit p s else None)"
  by (auto simp: m_lit_def prefixed_def)

lemma blank_chars [simp]: "is_space CHR '' ''" "\<not> is_space CHR ''s''" "\<not> is_space CHR ''e''" "\<not> is_space CHR ''~''"
  "\<not> is_space CHR ''l''" "\<not> is_space CHR ''j''"
  by (simp_all add: is_space_def)

lemma digit_chars [simp]: "digit_val CHR '' '' = None" "digit_val CHR ''s'' = None" "digit_val CHR ''/'' = None"
  "digit_val CHR ''j'' = None" "digit_val CHR ''o'' = None"
  by (simp_all add: digit_val_def)

lemma skip_blank_nat_str [simp]: "dropWhile is_space (nat_str n @ s) = nat_str n @ s"
  using dropWhile_digits [OF nat_str_digits [of n]] nat_str_digits [of n]
  by (cases "nat_str n") (auto simp: digit_not_space)

lemma skip_blank_end [simp]: "dropWhile is_space (nat_str n) = nat_str n"
  by (rule dropWhile_digits) simp

lemma m_blank_cons [simp]: "m_blank (CHR '' '' # s) = Some (dropWhile is_space s)"
  by (simp add: m_blank_def)

lemma m_search_hit: "p s = Some x \<Longrightarrow> m_search p s = Some x"
  by (simp add: m_search.simps)

lemma m_search_skip: "p (c # s) = None \<Longrightarrow> m_search p (c # s) = m_search p s"
  by (simp add: m_search.simps [of p "c # s"])

lemma m_search_None: "(\<And>t. set t \<subseteq> set s \<Longrightarrow> p t = None) \<Longrightarrow> m_search p s = None"
proof (induction s)
  case Nil
  then show ?case by (simp add: m_search.simps [of p "[]"])
next
  case (Cons c s)
  then have "m_search p s = None" "p (c # s) = None" by auto
  then show ?case by (simp add: m_search_skip)
qed

lemma m_lit_chars: "m_lit p s = Some t \<Longrightarrow> set p \<subseteq> set s \<and> set t \<subseteq> set s"
  by (metis m_lit_def prefixed_def option.inject option.distinct(1) set_take_subset set_drop_subset)

lemma m_num_chars: "m_num s = Some (n, t) \<Longrightarrow> set t \<subseteq> set s"
  by (auto simp: m_num_def dest: set_dropWhileD split: option.splits)

lemma m_blank_chars: "m_blank s = Some t \<Longrightarrow> set t \<subseteq> set s"
  by (auto simp: m_blank_def dest: set_dropWhileD split: list.splits if_splits)

end
