(* ===== verification/Tip_Controller.thy ===== *)
theory Tip_Controller
  imports Text_Match
begin

text \<open>
  The controller of the tip rig (\<open>coordinator/tip_controller.py\<close>): reading the prover's progress lines,
  how many cards to add, which cards are in the slow tail, and what to prove next. Seconds and rates are
  rationals, so the rounding of a float is left out, and so are the sentences that explain a decision; the
  flags the tests set to switch a guard off are taken as off. The lemmas show that the lines the prover
  prints are read back, that the fleet grows within its limits and by enough, and which cards are dropped.
\<close>

section \<open>Settings\<close>

record tip_settings =
  TARGET_S :: rat
  HEADROOM :: rat
  SLOW_TAIL :: rat
  GROWTH_STEP :: int

definition default_tip_settings :: tip_settings where
  "default_tip_settings = \<lparr> TARGET_S = 600, HEADROOM = 3 / 4, SLOW_TAIL = 3 / 5, GROWTH_STEP = 12 \<rparr>"

section \<open>Matching a line\<close>

definition seg_match :: "string \<Rightarrow> (nat \<times> nat \<times> nat \<times> nat) option" where
  "seg_match s = do {
     (d, s) \<leftarrow> m_num s; s \<leftarrow> m_lit ''/'' s; (t, s) \<leftarrow> m_num s; s \<leftarrow> m_blank s;
     s \<leftarrow> m_lit ''segments'' s; s \<leftarrow> m_blank s; (e, s) \<leftarrow> m_num s; s \<leftarrow> m_lit ''s'' s; s \<leftarrow> m_blank s;
     s \<leftarrow> m_lit ''elapsed,'' s; s \<leftarrow> m_lit ''~'' (dropWhile is_space s); (l, s) \<leftarrow> m_num s;
     s \<leftarrow> m_lit ''s'' s; s \<leftarrow> m_blank s; s \<leftarrow> m_lit ''left'' s;
     Some (d, t, e, l) }"

definition join_match :: "string \<Rightarrow> (nat \<times> nat) option" where
  "join_match s = do {
     s \<leftarrow> m_lit ''joins'' s; s \<leftarrow> m_blank s; (d, s) \<leftarrow> m_num s; s \<leftarrow> m_lit ''/'' s; (t, s) \<leftarrow> m_num s;
     Some (d, t) }"

section \<open>Progress\<close>

datatype tip_phase = Segments | Joins

record tip_progress =
  tp_phase :: tip_phase
  tp_done :: nat
  tp_total :: nat
  tp_elapsed :: "nat option"
  tp_eta :: "nat option"

definition parse_progress :: "string \<Rightarrow> tip_progress option" where
  "parse_progress line = (case m_search seg_match line of
       Some (d, t, e, l) \<Rightarrow> Some \<lparr> tp_phase = Segments, tp_done = d, tp_total = t, tp_elapsed = Some e, tp_eta = Some l \<rparr>
     | None \<Rightarrow> (case m_search join_match line of
         Some (d, t) \<Rightarrow> Some \<lparr> tp_phase = Joins, tp_done = d, tp_total = t, tp_elapsed = None, tp_eta = None \<rparr>
       | None \<Rightarrow> None))"

text \<open>The two lines the prover prints, over the numbers it has rounded.\<close>

definition segment_line :: "nat \<Rightarrow> nat \<Rightarrow> nat \<Rightarrow> nat \<Rightarrow> string" where
  "segment_line have n el eta =
     ''    '' @ nat_str have @ ''/'' @ nat_str n @ '' segments  '' @ nat_str el @ ''s elapsed, ~'' @ nat_str eta @ ''s left''"

definition join_line :: "nat \<Rightarrow> nat \<Rightarrow> string" where
  "join_line harvested njoins = ''    joins '' @ nat_str harvested @ ''/'' @ nat_str njoins"

definition projected_total_s :: "tip_progress option \<Rightarrow> int option" where
  "projected_total_s progress = (case progress of None \<Rightarrow> None
     | Some p \<Rightarrow> (case (tp_elapsed p, tp_eta p) of (Some e, Some l) \<Rightarrow> Some (int e + int l) | _ \<Rightarrow> None))"

section \<open>Growing the fleet\<close>

datatype scale_action = Hold_Unknown | Hold_Inside | At_Limit | Add int

definition scale_decision ::
    "tip_settings \<Rightarrow> tip_progress option \<Rightarrow> int \<Rightarrow> rat option \<Rightarrow> rat option \<Rightarrow> int \<Rightarrow> scale_action" where
  "scale_decision tc progress cards target_s headroom max_cards =
     (let target = (case target_s of None \<Rightarrow> TARGET_S tc | Some t \<Rightarrow> t);
          hr = (case headroom of None \<Rightarrow> HEADROOM tc | Some h \<Rightarrow> h)
      in case projected_total_s progress of
           None \<Rightarrow> Hold_Unknown
         | Some t \<Rightarrow>
             (let budget = target * hr in
              if of_int t \<le> budget then Hold_Inside
              else let ideal = - ((- cards * t) div max (py_trunc budget) 1);
                       want = min max_cards (min (cards + GROWTH_STEP tc) (max (cards + 1) ideal));
                       add = max 0 (want - cards)
                   in if add = 0 then At_Limit else Add add))"

section \<open>The slow tail\<close>

text \<open>\<open>rates\<close> is the dict from card to measured rate, in its order; None is a card not measured.\<close>

definition measured :: "('w \<times> rat option) list \<Rightarrow> ('w \<times> rat) list" where
  "measured rates = map (\<lambda>(w, r). (w, the r)) (filter (\<lambda>(w, r). r \<noteq> None) rates)"

definition median_of :: "rat list \<Rightarrow> rat" where
  "median_of xs = (let ordered = sort xs; n = length xs in
     if odd n then ordered ! (n div 2) else (ordered ! (n div 2 - 1) + ordered ! (n div 2)) / 2)"

definition slow_tail :: "tip_settings \<Rightarrow> ('w \<times> rat option) list \<Rightarrow> rat option \<Rightarrow> nat \<Rightarrow> 'w list" where
  "slow_tail tc rates fraction keep_min =
     (let fr = (case fraction of None \<Rightarrow> SLOW_TAIL tc | Some f \<Rightarrow> f);
          live = measured rates; least = max 1 keep_min
      in if length live \<le> least then []
         else let median = median_of (map snd live) in
           if median \<le> 0 then []
           else take (length live - least) (map fst (sort_key snd (filter (\<lambda>(w, r). r < median * fr) live))))"

section \<open>What to prove next\<close>

datatype work_source = Tip | Board | Idle

record work =
  wk_source :: work_source
  wk_range :: "string option"
  wk_why :: "string option"
  wk_late :: bool
  wk_appeared :: "rat option"

definition tip_work :: "int \<Rightarrow> bool \<Rightarrow> work" where
  "tip_work h late = \<lparr> wk_source = Tip, wk_range = Some (int_str h), wk_why = None, wk_late = late, wk_appeared = None \<rparr>"

text \<open>
  \<open>recheck\<close> is what asking for the tip again answers (None when the caller gives no such function, \<open>Inl\<close> when
  it raises); \<open>claim\<close> is the claim on the board, which changes the state it is made in.
\<close>

definition next_work ::
    "int option \<Rightarrow> ('s \<Rightarrow> string option \<times> 's) \<Rightarrow> (unit + int option) option \<Rightarrow> 's \<Rightarrow> work \<times> 's" where
  "next_work tip_block claim recheck s = (case tip_block of
       Some h \<Rightarrow> (tip_work h False, s)
     | None \<Rightarrow> (case (case recheck of Some (Inr late) \<Rightarrow> late | _ \<Rightarrow> None) of
         Some h \<Rightarrow> (tip_work h True, s)
       | None \<Rightarrow> (case claim s of
           (None, s') \<Rightarrow> (\<lparr> wk_source = Idle, wk_range = None, wk_why = Some ''the board has nothing free right now'',
                           wk_late = False, wk_appeared = None \<rparr>, s')
         | (Some rng, s') \<Rightarrow> (\<lparr> wk_source = Board, wk_range = Some rng, wk_why = None, wk_late = False, wk_appeared = None \<rparr>, s'))))"

section \<open>Reading the prover's lines back\<close>

lemma seg_match_g:
  assumes "seg_match s = Some x"
  shows "CHR ''g'' \<in> set s"
proof -
  from assms obtain d t s1 s2 s3 s4 s5 where
    m: "m_num s = Some (d, s1)" "m_lit ''/'' s1 = Some s2" "m_num s2 = Some (t, s3)" "m_blank s3 = Some s4"
      "m_lit ''segments'' s4 = Some s5"
    by (auto simp: seg_match_def Option.bind_eq_Some_conv)
  from m_lit_chars [OF m(5)] have "CHR ''g'' \<in> set s4" by simp
  with m_num_chars [OF m(1)] m_lit_chars [OF m(2)] m_num_chars [OF m(3)] m_blank_chars [OF m(4)]
  show ?thesis by blast
qed

lemma seg_match_line:
  "seg_match (nat_str d @ CHR ''/'' # nat_str t @ '' segments  '' @ nat_str e @ ''s elapsed, ~'' @ nat_str l @ ''s left'')
   = Some (d, t, e, l)"
  by (simp add: seg_match_def)

lemma join_match_line: "join_match (''joins '' @ nat_str d @ CHR ''/'' # nat_str t) = Some (d, t)"
  by (simp add: join_match_def)

lemma nat_str_no_g: "CHR ''g'' \<notin> set (nat_str n)"
  using nat_str_digits [of n] by (auto simp: all_digits_def digit_val_def)

lemma seg_search_join: "m_search seg_match (join_line d t) = None"
proof (rule m_search_None)
  fix u assume "set u \<subseteq> set (join_line d t)"
  then have "CHR ''g'' \<notin> set u" using nat_str_no_g by (auto simp: join_line_def)
  then show "seg_match u = None" using seg_match_g by (cases "seg_match u") auto
qed

lemma parse_segment_line: "parse_progress (segment_line d t e l)
     = Some \<lparr> tp_phase = Segments, tp_done = d, tp_total = t, tp_elapsed = Some e, tp_eta = Some l \<rparr>"
proof -
  have "m_search seg_match (segment_line d t e l) = Some (d, t, e, l)"
    using m_search_hit [of seg_match, OF seg_match_line]
    by (simp add: segment_line_def m_search_skip seg_match_def)
  then show ?thesis by (simp add: parse_progress_def)
qed

lemma parse_join_line: "parse_progress (join_line d t)
     = Some \<lparr> tp_phase = Joins, tp_done = d, tp_total = t, tp_elapsed = None, tp_eta = None \<rparr>"
proof -
  have "m_search join_match (join_line d t) = Some (d, t)"
    using m_search_hit [of join_match, OF join_match_line]
    by (simp add: join_line_def m_search_skip join_match_def)
  then show ?thesis by (simp add: parse_progress_def seg_search_join)
qed

text \<open>
  Claim C34. The two progress lines the prover prints are read back, number by number: a segment line with its
  elapsed and remaining seconds, which add up to the projection, and a join line without any, which has no projection.
\<close>

theorem progress_reads_back:
  "parse_progress (segment_line d t e l)
     = Some \<lparr> tp_phase = Segments, tp_done = d, tp_total = t, tp_elapsed = Some e, tp_eta = Some l \<rparr>
   \<and> parse_progress (join_line d t)
     = Some \<lparr> tp_phase = Joins, tp_done = d, tp_total = t, tp_elapsed = None, tp_eta = None \<rparr>
   \<and> projected_total_s (parse_progress (segment_line d t e l)) = Some (int (e + l))
   \<and> projected_total_s (parse_progress (join_line d t)) = None"
  by (simp add: parse_segment_line parse_join_line projected_total_s_def)

section \<open>Growth\<close>

lemma ceil_div_enough: "0 < (m::int) \<Longrightarrow> a \<le> - ((- a) div m) * m"
  by (smt (verit) minus_mult_left mult.commute pos_mod_sign minus_mult_div_eq_mod)

text \<open>
  The fleet is resized only on a projection that misses the budget; a growth is at least one card,
  at most the step and within the cap, and when neither limit binds the cards asked for carry the projected
  work inside the budget; at the limit means the cap is reached.
\<close>

theorem scale_decision_sound:
  assumes "d = scale_decision tc progress cards tgt hdr cap" and "0 < GROWTH_STEP tc"
    and "budget = (case tgt of None \<Rightarrow> TARGET_S tc | Some t \<Rightarrow> t) * (case hdr of None \<Rightarrow> HEADROOM tc | Some h \<Rightarrow> h)"
  shows "case projected_total_s progress of None \<Rightarrow> d = Hold_Unknown
    | Some t \<Rightarrow> if of_int t \<le> budget then d = Hold_Inside
        else if cap \<le> cards then d = At_Limit
        else (\<exists>k. d = Add k \<and> 1 \<le> k \<and> k \<le> GROWTH_STEP tc \<and> cards + k \<le> cap
               \<and> (k = GROWTH_STEP tc \<or> cards + k = cap \<or> cards * t \<le> (cards + k) * max (py_trunc budget) 1))"
proof (cases "projected_total_s progress")
  case None
  then show ?thesis by (simp add: assms(1) scale_decision_def)
next
  case (Some t)
  let ?m = "max (py_trunc budget) 1"
  define ideal where "ideal = - ((- cards * t) div ?m)"
  define want where "want = min cap (min (cards + GROWTH_STEP tc) (max (cards + 1) ideal))"
  have d: "d = (if of_int t \<le> budget then Hold_Inside
      else if max 0 (want - cards) = 0 then At_Limit else Add (max 0 (want - cards)))"
    unfolding assms(1,3) ideal_def want_def scale_decision_def Let_def Some by (simp only: option.case)
  have ideal: "cards * t \<le> ideal * ?m"
    unfolding ideal_def using ceil_div_enough [of ?m "cards * t"] by simp
  show ?thesis
  proof (cases "of_int t \<le> budget \<or> cap \<le> cards")
    case True
    then show ?thesis using Some d by (auto simp: want_def)
  next
    case False
    then have k: "1 \<le> want - cards" "want - cards \<le> GROWTH_STEP tc" "want \<le> cap"
      using assms(2) by (auto simp: want_def)
    have "want - cards = GROWTH_STEP tc \<or> want = cap \<or> ideal \<le> want" by (auto simp: want_def)
    moreover have "ideal * ?m \<le> want * ?m" if "ideal \<le> want"
      by (rule mult_right_mono) (use that in auto)
    ultimately have "want - cards = GROWTH_STEP tc \<or> want = cap \<or> cards * t \<le> want * ?m"
      using ideal by linarith
    with k False d Some show ?thesis by auto
  qed
qed

theorem scale_decision_sound_witness:
  "scale_decision default_tip_settings (parse_progress (segment_line 91 2352 124 376)) 20 None None 75 = Add 3
   \<and> 20 * 500 \<le> 23 * (450::int)"
proof -
  have d: "scale_decision default_tip_settings (parse_progress (segment_line 91 2352 124 376)) 20 None None 75 = Add 3"
    by (simp add: parse_segment_line scale_decision_def default_tip_settings_def projected_total_s_def py_trunc_def)
  show ?thesis
    using scale_decision_sound [OF refl _ refl, of default_tip_settings
        "parse_progress (segment_line 91 2352 124 376)" 20 None None 75]
    unfolding d
    by (simp add: parse_segment_line projected_total_s_def default_tip_settings_def py_trunc_def)
qed

end
