(* ===== verification/Tip_Fleet.thy ===== *)
theory Tip_Fleet
  imports Tip_Controller
begin

text \<open>
  One tick over the cards of the tip rig (\<open>coordinator/tip_fleet.py\<close>): what a probe says of a card, when a
  chunk may be taken from it, who may take it, and the whole plan of a tick with its timers. A dict of the
  code is an association list in its order where the order decides, and a map otherwise. The lemmas show what
  a tick decides chunk by chunk, and what must have been measured before a chunk moves.
\<close>

section \<open>Probes\<close>

record fleet_settings =
  STALL_S :: rat
  IDLE_UTIL_PCT :: rat
  IDLE_VRAM_MIB :: rat

definition default_fleet_settings :: fleet_settings where
  "default_fleet_settings = \<lparr> STALL_S = 100, IDLE_UTIL_PCT = 5, IDLE_VRAM_MIB = 2000 \<rparr>"

datatype card_reading = Card_Done | Card_Working | Card_Idle | Card_Unreachable

text \<open>The four fields \<open>SZ:UTIL:VRAM:NPROC\<close>, an empty one counting as zero; None where there are not four numbers.\<close>

definition field_num :: "string \<Rightarrow> py_num option" where
  "field_num p = (if p = [] then Some (Fin 0) else py_float p)"

definition probe_fields :: "string list \<Rightarrow> (py_num \<times> py_num \<times> py_num \<times> py_num) option" where
  "probe_fields parts = (case parts of
       [a, b, c, d] \<Rightarrow> (case (field_num a, field_num b, field_num c, field_num d) of
           (Some sz, Some util, Some vram, Some nproc) \<Rightarrow> Some (sz, util, vram, nproc) | _ \<Rightarrow> None)
     | _ \<Rightarrow> None)"

definition card_state :: "fleet_settings \<Rightarrow> string option \<Rightarrow> card_reading" where
  "card_state fs probe = (case probe of None \<Rightarrow> Card_Unreachable | Some raw \<Rightarrow>
     (let p = py_strip raw in
      if p = [] then Card_Unreachable
      else if p = ''DONE'' \<or> prefixed ''DONE:'' p then Card_Done
      else case probe_fields (py_split CHR '':'' p) of
             None \<Rightarrow> Card_Unreachable
           | Some (_, util, vram, nproc) \<Rightarrow>
               if num_less nproc (Fin 1) then Card_Idle
               else if num_less util (Fin (IDLE_UTIL_PCT fs)) \<and> num_less vram (Fin (IDLE_VRAM_MIB fs)) then Card_Idle
               else Card_Working))"

definition is_wedged :: "fleet_settings \<Rightarrow> card_reading \<Rightarrow> rat \<Rightarrow> rat option \<Rightarrow> bool" where
  "is_wedged fs st static_s stall_s \<longleftrightarrow>
     st = Card_Idle \<and> static_s > (case stall_s of None \<Rightarrow> STALL_S fs | Some x \<Rightarrow> x)"

definition can_accept_reassignment :: "fleet_settings \<Rightarrow> string option \<Rightarrow> bool" where
  "can_accept_reassignment fs probe =
     (if card_state fs probe = Card_Unreachable then False
      else case probe of None \<Rightarrow> False | Some raw \<Rightarrow>
        (let parts = py_split CHR '':'' (py_strip raw);
             parts = (case parts of p # ps \<Rightarrow> if p = ''DONE'' then ps else parts | [] \<Rightarrow> [])
         in case probe_fields parts of None \<Rightarrow> False
              | Some (_, _, vram, nproc) \<Rightarrow> num_eq nproc (Fin 0) \<and> num_less vram (Fin (IDLE_VRAM_MIB fs))))"

text \<open>
  The size a probe reports. \<open>Inl ()\<close> is the \<open>OverflowError\<close> that \<open>int\<close> of an infinite float raises and that the
  code does not catch.
\<close>

definition probe_size :: "fleet_settings \<Rightarrow> string option \<Rightarrow> unit + int option" where
  "probe_size fs probe =
     (if card_state fs probe \<noteq> Card_Working \<and> card_state fs probe \<noteq> Card_Idle then Inr None
      else case probe of None \<Rightarrow> Inr None | Some raw \<Rightarrow>
        (case py_float (hd (py_split CHR '':'' (py_strip raw))) of
           Some (Fin x) \<Rightarrow> Inr (Some (py_trunc x))
         | None \<Rightarrow> Inr None
         | Some NaN \<Rightarrow> Inr None
         | Some _ \<Rightarrow> Inl ()))"

text \<open>Whether the aggregate runs, from the \<open>comm\<close> column, whose names are cut at 15 characters.\<close>

definition aggregate_alive :: "string option \<Rightarrow> bool" where
  "aggregate_alive ps_output = (case ps_output of None \<Rightarrow> False
     | Some out \<Rightarrow> list_ex (\<lambda>line. prefixed ''hazync-host-cud'' (py_strip line)) (py_splitlines out))"

definition staging_complete :: "int option \<Rightarrow> int \<Rightarrow> bool" where
  "staging_complete staged expected = (case staged of None \<Rightarrow> False | Some n \<Rightarrow> n \<ge> expected \<and> expected > 0)"

section \<open>Recovery\<close>

datatype 'c tick_action = Stage nat 'c | Reassign nat 'c | Restart_In_Place nat 'c

definition plan_recovery ::
    "fleet_settings \<Rightarrow> nat \<Rightarrow> 'c \<Rightarrow> 'c list \<Rightarrow> 'c set \<Rightarrow> 'c set \<Rightarrow> ('c \<Rightarrow> string option) \<Rightarrow> 'c tick_action" where
  "plan_recovery fs chunk owner candidates finished busy probes =
     (case find (\<lambda>pod. pod \<noteq> owner \<and> pod \<notin> busy \<and> pod \<in> finished \<and> can_accept_reassignment fs (probes pod)) candidates of
        Some pod \<Rightarrow> Reassign chunk pod
      | None \<Rightarrow> Restart_In_Place chunk owner)"

section \<open>A tick\<close>

record 'c tick =
  tk_actions :: "'c tick_action list"
  tk_size :: "nat \<rightharpoonup> int"
  tk_change :: "nat \<rightharpoonup> rat"

definition chunks_done :: "fleet_settings \<Rightarrow> (nat \<times> 'c) list \<Rightarrow> nat set \<Rightarrow> ('c \<Rightarrow> string option) \<Rightarrow> nat set" where
  "chunks_done fs assignments staged probes =
     staged \<union> set (map fst (filter (\<lambda>(chunk, pod). card_state fs (probes pod) = Card_Done) assignments))"

text \<open>One chunk of the second loop, and the loop; None where \<open>probe_size\<close> raises.\<close>

definition tick_chunk ::
    "fleet_settings \<Rightarrow> rat option \<Rightarrow> time \<Rightarrow> (nat \<times> 'c) list \<Rightarrow> nat set \<Rightarrow> 'c set \<Rightarrow> ('c \<Rightarrow> string option) \<Rightarrow>
     nat \<times> 'c \<Rightarrow> 'c tick \<Rightarrow> 'c tick option" where
  "tick_chunk fs stall now assignments staged busy probes = (\<lambda>(chunk, pod) tk.
     if chunk \<in> staged then Some tk
     else case card_state fs (probes pod) of
       Card_Done \<Rightarrow> Some (tk\<lparr>tk_actions := tk_actions tk @ [Stage chunk pod]\<rparr>)
     | Card_Unreachable \<Rightarrow> Some tk
     | st \<Rightarrow> (case probe_size fs (probes pod) of Inl _ \<Rightarrow> None | Inr sz \<Rightarrow>
         (let tk1 = (if sz \<noteq> None \<and> sz \<noteq> tk_size tk chunk
                     then tk\<lparr>tk_size := (tk_size tk)(chunk := sz), tk_change := (tk_change tk)(chunk \<mapsto> now)\<rparr> else tk);
              static_for = now - (case tk_change tk1 chunk of None \<Rightarrow> now | Some t \<Rightarrow> t)
          in Some (if is_wedged fs st static_for stall then
               tk1\<lparr>tk_actions := tk_actions tk1 @ [plan_recovery fs chunk pod (map snd assignments)
                       (set (map snd (filter (\<lambda>(c, _). c \<in> chunks_done fs assignments staged probes) assignments))) busy probes],
                   tk_change := (tk_change tk1)(chunk \<mapsto> now), tk_size := (tk_size tk1)(chunk \<mapsto> 0)\<rparr>
             else tk1))))"

fun tick_loop :: "(nat \<times> 'c \<Rightarrow> 'c tick \<Rightarrow> 'c tick option) \<Rightarrow> (nat \<times> 'c) list \<Rightarrow> 'c tick \<Rightarrow> 'c tick option" where
  "tick_loop f [] tk = Some tk"
| "tick_loop f (a # as) tk = (case f a tk of None \<Rightarrow> None | Some tk' \<Rightarrow> tick_loop f as tk')"

definition plan_tick ::
    "fleet_settings \<Rightarrow> (nat \<times> 'c) list \<Rightarrow> ('c \<Rightarrow> string option) \<Rightarrow> nat set \<Rightarrow> 'c set \<Rightarrow> (nat \<rightharpoonup> int) \<Rightarrow> (nat \<rightharpoonup> rat) \<Rightarrow>
     time \<Rightarrow> rat option \<Rightarrow> 'c tick option" where
  "plan_tick fs assignments probes staged busy last_size last_change now stall =
     tick_loop (tick_chunk fs stall now assignments staged busy probes) assignments
       \<lparr> tk_actions = [], tk_size = last_size, tk_change = last_change \<rparr>"

section \<open>Lemmas\<close>

primrec action_chunk :: "'c tick_action \<Rightarrow> nat" where
  "action_chunk (Stage chunk pod) = chunk"
| "action_chunk (Reassign chunk pod) = chunk"
| "action_chunk (Restart_In_Place chunk pod) = chunk"

definition actions_on :: "nat \<Rightarrow> 'c tick \<Rightarrow> 'c tick_action list" where
  "actions_on chunk tk = filter (\<lambda>a. action_chunk a = chunk) (tk_actions tk)"

lemma plan_recovery_chunk [simp]: "action_chunk (plan_recovery fs chunk owner cs fin busy probes) = chunk"
  by (simp add: plan_recovery_def split: option.split)

lemma plan_recovery_to:
  "plan_recovery fs chunk owner cs fin busy probes = Reassign ch pod \<Longrightarrow>
   ch = chunk \<and> pod \<in> set cs \<and> pod \<noteq> owner \<and> pod \<notin> busy \<and> pod \<in> fin \<and> can_accept_reassignment fs (probes pod)"
  by (auto simp: plan_recovery_def find_Some_iff split: option.splits)

lemma plan_recovery_no_stage: "plan_recovery fs chunk owner cs fin busy probes \<noteq> Stage ch pod"
  by (simp add: plan_recovery_def split: option.split)

lemma tick_chunk_other:
  "tick_chunk fs stall now as staged busy probes (c, pod) tk = Some tk' \<Longrightarrow> chunk \<noteq> c \<Longrightarrow>
   tk_size tk' chunk = tk_size tk chunk \<and> tk_change tk' chunk = tk_change tk chunk \<and> actions_on chunk tk' = actions_on chunk tk"
  by (auto simp: tick_chunk_def actions_on_def Let_def split: card_reading.splits if_splits sum.splits)

lemma tick_loop_other:
  "tick_loop (tick_chunk fs stall now as staged busy probes) xs tk = Some tk' \<Longrightarrow> chunk \<notin> fst ` set xs \<Longrightarrow>
   tk_size tk' chunk = tk_size tk chunk \<and> tk_change tk' chunk = tk_change tk chunk \<and> actions_on chunk tk' = actions_on chunk tk"
proof (induction xs arbitrary: tk)
  case (Cons x xs)
  obtain c pod where x: "x = (c, pod)" by fastforce
  from Cons.prems obtain tk1 where
    "tick_chunk fs stall now as staged busy probes (c, pod) tk = Some tk1"
    "tick_loop (tick_chunk fs stall now as staged busy probes) xs tk1 = Some tk'"
    by (auto simp: x split: option.splits)
  with Cons.IH [of tk1] Cons.prems(2) tick_chunk_other [of fs stall now as staged busy probes c pod tk tk1 chunk]
  show ?case by (auto simp: x)
qed simp

text \<open>Each chunk is decided by its own turn alone.\<close>

lemma tick_loop_at:
  assumes "tick_loop (tick_chunk fs stall now as staged busy probes) xs tk = Some tk'"
    and "distinct (map fst xs)" "(chunk, pod) \<in> set xs"
  obtains u u' where "tick_chunk fs stall now as staged busy probes (chunk, pod) u = Some u'"
    "tk_size u chunk = tk_size tk chunk" "tk_change u chunk = tk_change tk chunk" "actions_on chunk u = actions_on chunk tk"
    "tk_size tk' chunk = tk_size u' chunk" "tk_change tk' chunk = tk_change u' chunk" "actions_on chunk tk' = actions_on chunk u'"
  using assms
proof (induction xs arbitrary: tk thesis)
  case (Cons x xs)
  obtain c k where x: "x = (c, k)" by fastforce
  from Cons.prems(2) obtain tk1 where
    one: "tick_chunk fs stall now as staged busy probes (c, k) tk = Some tk1"
    and rest: "tick_loop (tick_chunk fs stall now as staged busy probes) xs tk1 = Some tk'"
    by (auto simp: x split: option.splits)
  show ?case
  proof (cases "c = chunk")
    case True
    with Cons.prems(3,4) x have "pod = k" "chunk \<notin> fst ` set xs" by force+
    with True Cons.prems(1) [of tk tk1] one tick_loop_other [OF rest] show ?thesis by simp
  next
    case False
    with Cons.prems(3,4) x have "distinct (map fst xs)" "(chunk, pod) \<in> set xs" by auto
    from Cons.IH [OF _ rest this] Cons.prems(1) tick_chunk_other [OF one, of chunk] False
    show ?thesis by metis
  qed
qed simp

lemma tick_chunk_own:
  assumes "tick_chunk fs stall now as staged busy probes (chunk, pod) u = Some u'"
    and "actions_on chunk u = []" and "0 \<le> (case stall of None \<Rightarrow> STALL_S fs | Some x \<Rightarrow> x)"
  shows "(chunk \<in> staged \<or> card_state fs (probes pod) = Card_Unreachable \<longrightarrow> u' = u)
    \<and> (chunk \<notin> staged \<and> card_state fs (probes pod) = Card_Done \<longrightarrow>
         actions_on chunk u' = [Stage chunk pod] \<and> tk_size u' = tk_size u \<and> tk_change u' = tk_change u)
    \<and> (chunk \<notin> staged \<and> card_state fs (probes pod) = Card_Working \<longrightarrow> actions_on chunk u' = [])
    \<and> (chunk \<notin> staged \<and> card_state fs (probes pod) = Card_Idle \<longrightarrow> actions_on chunk u' = [] \<or>
         ((\<exists>t. tk_change u chunk = Some t \<and> now - t > (case stall of None \<Rightarrow> STALL_S fs | Some x \<Rightarrow> x))
          \<and> (\<forall>n. probe_size fs (probes pod) = Inr (Some n) \<longrightarrow> tk_size u chunk = Some n)
          \<and> actions_on chunk u' = [plan_recovery fs chunk pod (map snd as)
               (set (map snd (filter (\<lambda>(c, _). c \<in> chunks_done fs as staged probes) as))) busy probes]
          \<and> tk_size u' chunk = Some 0 \<and> tk_change u' chunk = Some now))"
  using assms
  by (auto simp: tick_chunk_def actions_on_def is_wedged_def Let_def split: card_reading.splits if_splits sum.splits option.splits)

text \<open>
  Claim C22. What a tick decides, chunk by chunk: a collected chunk and a card that did not answer are left alone,
  timers included; a finished card is collected from; a working one is never touched; and a chunk is taken
  only from a card that looks idle, whose log has not moved and has been static longer than the limit. It
  then restarts where it is or moves to another card of the fleet, not already given other work,
  that has finished its own chunk and was measured free.
\<close>

theorem plan_tick_exact:
  assumes "plan_tick fs as probes staged busy sz0 ch0 now stall = Some tk"
    and "distinct (map fst as)" "(chunk, pod) \<in> set as"
    and "limit = (case stall of None \<Rightarrow> STALL_S fs | Some x \<Rightarrow> x)" "0 \<le> limit"
  shows "let st = card_state fs (probes pod); kept = (tk_size tk chunk = sz0 chunk \<and> tk_change tk chunk = ch0 chunk);
      acts = actions_on chunk tk
    in if chunk \<in> staged \<or> st = Card_Unreachable then acts = [] \<and> kept
       else if st = Card_Done then acts = [Stage chunk pod] \<and> kept
       else if st = Card_Working then acts = []
       else acts = [] \<or>
         ((\<exists>t. ch0 chunk = Some t \<and> now - t > limit)
          \<and> (\<forall>n. probe_size fs (probes pod) = Inr (Some n) \<longrightarrow> sz0 chunk = Some n)
          \<and> tk_size tk chunk = Some 0 \<and> tk_change tk chunk = Some now
          \<and> (acts = [Restart_In_Place chunk pod] \<or>
             (\<exists>to own. acts = [Reassign chunk to] \<and> to \<noteq> pod \<and> to \<notin> busy \<and> (own, to) \<in> set as
                \<and> own \<in> chunks_done fs as staged probes \<and> can_accept_reassignment fs (probes to))))"
proof -
  obtain u u' where u: "tick_chunk fs stall now as staged busy probes (chunk, pod) u = Some u'"
    "tk_size u chunk = sz0 chunk" "tk_change u chunk = ch0 chunk" "actions_on chunk u = []"
    "tk_size tk chunk = tk_size u' chunk" "tk_change tk chunk = tk_change u' chunk" "actions_on chunk tk = actions_on chunk u'"
    by (rule tick_loop_at [OF assms(1) [unfolded plan_tick_def] assms(2,3)]) (auto simp: actions_on_def)
  let ?fin = "set (map snd (filter (\<lambda>(c, _). c \<in> chunks_done fs as staged probes) as))"
  let ?p = "plan_recovery fs chunk pod (map snd as) ?fin busy probes"
  have p: "?p = Restart_In_Place chunk pod \<or>
     (\<exists>to own. ?p = Reassign chunk to \<and> to \<noteq> pod \<and> to \<notin> busy \<and> (own, to) \<in> set as
        \<and> own \<in> chunks_done fs as staged probes \<and> can_accept_reassignment fs (probes to))"
  proof (cases ?p)
    case (Reassign ch to)
    with plan_recovery_to [OF Reassign] show ?thesis by auto
  next
    case (Restart_In_Place ch c)
    then show ?thesis by (auto simp: plan_recovery_def split: option.splits)
  qed (simp add: plan_recovery_no_stage)
  from tick_chunk_own [OF u(1,4), folded assms(4), OF assms(5)] u p show ?thesis
    by (cases "card_state fs (probes pod)") (auto simp: Let_def)
qed

text \<open>Two cards have wedged, a third has finished and let go of its GPU.\<close>

definition tick_fleet :: "(nat \<times> string) list" where
  "tick_fleet = [(0, ''a''), (1, ''b''), (2, ''c'')]"

definition tick_probes :: "string \<Rightarrow> string option" where
  "tick_probes c = (if c = ''c'' then Some ''DONE:9:0:1:0'' else Some ''7:0:1:0'')"

definition wedged_tick :: "string tick option" where
  "wedged_tick = plan_tick default_fleet_settings tick_fleet tick_probes {2} {} (\<lambda>c. Some 7) (\<lambda>c. Some 10) 200 None"

lemma wedged_tick_actions: "map_option tk_actions wedged_tick = Some [Reassign 0 ''c'', Reassign 1 ''c'']"
  by code_simp

theorem plan_tick_exact_witness:
  "\<exists>tk to own. wedged_tick = Some tk \<and> actions_on 1 tk = [Reassign 1 to] \<and> to \<noteq> ''b'' \<and> (own, to) \<in> set tick_fleet"
proof -
  obtain tk where tk: "wedged_tick = Some tk" "tk_actions tk = [Reassign 0 ''c'', Reassign 1 ''c'']"
    using wedged_tick_actions by (cases wedged_tick) auto
  have st: "card_state default_fleet_settings (tick_probes ''b'') = Card_Idle" by code_simp
  from plan_tick_exact [OF tk(1) [unfolded wedged_tick_def], of 1 "''b''" 100] tk st
  have "\<exists>to own. actions_on 1 tk = [Reassign 1 to] \<and> to \<noteq> ''b'' \<and> (own, to) \<in> set tick_fleet"
    by (simp add: tick_fleet_def default_fleet_settings_def actions_on_def Let_def)
  with tk(1) show ?thesis by blast
qed

text \<open>
  The plan of one tick can hand the same free card to two wedged chunks: \<open>busy\<close> is only read during the tick,
  so the second chunk is relaunched on top of the first.
\<close>

lemma two_wedged_one_card:
  "\<exists>tk. wedged_tick = Some tk \<and> Reassign 0 ''c'' \<in> set (tk_actions tk) \<and> Reassign 1 ''c'' \<in> set (tk_actions tk)"
  using wedged_tick_actions by (cases wedged_tick) auto

end
