(* ===== verification/Tip_Session.thy ===== *)
theory Tip_Session
  imports Tip_Controller "HOL-Library.AList" "HOL-Library.List_Lexorder" "HOL-Library.Char_ord" "HOL-Library.Multiset"
begin

text \<open>
  A session of many blocks on one fleet (\<open>coordinator/tip_session.py\<close>): its state and clock, what it does next,
  what it may terminate, how it is resumed, and the whole loop of \<open>run_session\<close>. The functions the caller hands
  in (clock, prover, work, spend, recruiting, the file) act on a world of any type and are parameters; the
  log messages and the telemetry feed are left out. The lemmas show which blocks may be proved again, that the
  clock starts once, what is on disk when the driver dies, and that the loop ends.
\<close>

section \<open>State\<close>

definition PROTECTED :: "string set" where
  "PROTECTED = {''hz370-a'', ''hz-board-5''}"

definition MAX_ATTEMPTS :: nat where
  "MAX_ATTEMPTS = 3"

record block_record =
  bk_ok :: bool
  bk_wall :: "rat option"
  bk_digest :: "string option"
  bk_cards :: "int option"
  bk_events :: "string list"
  bk_at :: rat

text \<open>\<open>ss_armed\<close> is None where the key is absent, as in a file written before the deferred clock existed.\<close>

record session =
  ss_started :: rat
  ss_duration :: rat
  ss_armed :: "rat option option"
  ss_deadline :: "rat option"
  ss_spend_at_arm :: "rat option"
  ss_blocks :: "(string \<times> block_record) list"
  ss_attempts :: "(string \<times> nat) list"
  ss_fleet :: "string list"
  ss_spend :: rat

definition truthy :: "rat option \<Rightarrow> bool" where
  "truthy x \<longleftrightarrow> x \<noteq> None \<and> x \<noteq> Some 0"

definition new_state :: "rat \<Rightarrow> rat \<Rightarrow> string list \<Rightarrow> bool \<Rightarrow> rat option \<Rightarrow> session" where
  "new_state started_at duration_s fleet_ids armed arm_deadline_s =
     \<lparr> ss_started = started_at, ss_duration = duration_s,
       ss_armed = Some (if armed then Some started_at else None),
       ss_deadline = (if truthy arm_deadline_s then arm_deadline_s else None),
       ss_spend_at_arm = (if armed then Some 0 else None),
       ss_blocks = [], ss_attempts = [], ss_fleet = sort fleet_ids, ss_spend = 0 \<rparr>"

section \<open>What may be terminated\<close>

definition is_protected :: "string \<Rightarrow> bool" where
  "is_protected pod \<longleftrightarrow> pod \<in> PROTECTED"

record pod_split =
  ps_terminate :: "string list"
  ps_protected :: "string list"
  ps_not_ours :: "string list"

definition terminable :: "string list \<Rightarrow> string list \<Rightarrow> pod_split" where
  "terminable pod_ids session_fleet =
     \<lparr> ps_terminate = sort (filter (\<lambda>p. \<not> is_protected p \<and> p \<in> set session_fleet) pod_ids),
       ps_protected = sort (filter is_protected pod_ids),
       ps_not_ours = sort (filter (\<lambda>p. \<not> is_protected p \<and> p \<notin> set session_fleet) pod_ids) \<rparr>"

section \<open>The clock\<close>

definition clock_origin :: "session \<Rightarrow> rat option" where
  "clock_origin st = (case ss_armed st of None \<Rightarrow> Some (ss_started st) | Some a \<Rightarrow> a)"

definition is_armed :: "session \<Rightarrow> bool" where
  "is_armed st \<longleftrightarrow> clock_origin st \<noteq> None"

definition arm_clock :: "session \<Rightarrow> rat \<Rightarrow> bool \<times> session" where
  "arm_clock st t = (if is_armed st then (False, st)
     else (True, st\<lparr>ss_armed := Some (Some t), ss_spend_at_arm := Some (py_round 4 (ss_spend st))\<rparr>))"

definition waited_s :: "session \<Rightarrow> rat \<Rightarrow> rat" where
  "waited_s st now = max 0 ((case clock_origin st of None \<Rightarrow> now | Some t \<Rightarrow> t) - ss_started st)"

definition elapsed_s :: "session \<Rightarrow> rat \<Rightarrow> rat" where
  "elapsed_s st now = (case clock_origin st of None \<Rightarrow> 0 | Some t \<Rightarrow> max 0 (now - t))"

definition remaining_s :: "session \<Rightarrow> rat \<Rightarrow> rat" where
  "remaining_s st now = ss_duration st - elapsed_s st now"

definition done_blocks :: "session \<Rightarrow> (string \<times> block_record) list" where
  "done_blocks st = filter (\<lambda>(r, b). bk_ok b) (ss_blocks st)"

section \<open>What to do next\<close>

datatype stop_reason = Session_Over | No_Tip_Came | Budget_Spent | Too_Little_Left

datatype plan = Prove string work_source "rat option" | Idle_Board "string option" | Idle_Exhausted | Stop stop_reason

definition is_done :: "session \<Rightarrow> string \<Rightarrow> bool" where
  "is_done st rng = (case map_of (ss_blocks st) rng of None \<Rightarrow> False | Some b \<Rightarrow> bk_ok b)"

definition attempts_of :: "session \<Rightarrow> string \<Rightarrow> nat" where
  "attempts_of st rng = (case map_of (ss_attempts st) rng of None \<Rightarrow> 0 | Some n \<Rightarrow> n)"

definition plan_next :: "session \<Rightarrow> rat \<Rightarrow> work \<Rightarrow> rat option \<Rightarrow> rat option \<Rightarrow> plan" where
  "plan_next st now wk block_estimate_s budget_usd =
     (let left = remaining_s st now in
      if left \<le> 0 then Stop Session_Over
      else if \<not> is_armed st \<and> truthy (ss_deadline st) \<and> waited_s st now \<ge> the (ss_deadline st) then Stop No_Tip_Came
      else if truthy budget_usd \<and> ss_spend st \<ge> the budget_usd then Stop Budget_Spent
      else case wk_range wk of
          None \<Rightarrow> Idle_Board (wk_why wk)
        | Some rng \<Rightarrow>
            if is_done st rng then Idle_Exhausted
            else if attempts_of st rng \<ge> MAX_ATTEMPTS then Idle_Exhausted
            else if truthy block_estimate_s \<and> left < the block_estimate_s then Stop Too_Little_Left
            else Prove rng (wk_source wk) (wk_appeared wk))"

section \<open>Recording\<close>

definition record_attempt :: "session \<Rightarrow> string \<Rightarrow> session" where
  "record_attempt st rng = st\<lparr>ss_attempts := AList.update rng (attempts_of st rng + 1) (ss_attempts st)\<rparr>"

definition undo_attempt :: "session \<Rightarrow> string \<Rightarrow> session" where
  "undo_attempt st rng =
     (let n = attempts_of st rng;
          att = (if n > 0 then AList.update rng (n - 1) (ss_attempts st) else ss_attempts st)
      in st\<lparr>ss_attempts := (if map_of att rng = None \<or> map_of att rng = Some 0 then AList.delete rng att else att)\<rparr>)"

text \<open>What proving a block returns, and what stands in for it when the prover raises.\<close>

record prove_result =
  pr_ok :: bool
  pr_aborted :: bool
  pr_wall :: "rat option"
  pr_digest :: "string option"
  pr_cards :: "int option"
  pr_events :: "string list"

definition failed_result :: "string \<Rightarrow> prove_result" where
  "failed_result msg = \<lparr> pr_ok = False, pr_aborted = False, pr_wall = None, pr_digest = None, pr_cards = None, pr_events = [msg] \<rparr>"

definition record_block :: "session \<Rightarrow> string \<Rightarrow> prove_result \<Rightarrow> rat \<Rightarrow> session" where
  "record_block st rng result t = st\<lparr>ss_blocks := AList.update rng
     \<lparr> bk_ok = pr_ok result, bk_wall = pr_wall result, bk_digest = pr_digest result, bk_cards = pr_cards result,
       bk_events = pr_events result, bk_at = t \<rparr> (ss_blocks st)\<rparr>"

definition add_spend :: "session \<Rightarrow> rat \<Rightarrow> session" where
  "add_spend st usd = st\<lparr>ss_spend := py_round 4 (ss_spend st + usd)\<rparr>"

section \<open>The summary\<close>



section \<open>Resuming\<close>

datatype resume_answer = Window_Closed | New_Fleet | Resumed nat

record resume_report =
  rr_answer :: resume_answer
  rr_gone :: "string list"
  rr_extra :: "string list"
  rr_remaining :: rat

definition resume_verdict :: "session \<Rightarrow> string list \<Rightarrow> rat \<Rightarrow> resume_report" where
  "resume_verdict st live_pod_ids now =
     (let recorded = set (ss_fleet st); live = set live_pod_ids; left = remaining_s st now
      in \<lparr> rr_answer = (if left \<le> 0 then Window_Closed
                        else if recorded \<noteq> {} \<and> recorded \<inter> live = {} then New_Fleet
                        else Resumed (length (done_blocks st))),
           rr_gone = sorted_list_of_set (recorded - live), rr_extra = sorted_list_of_set (live - recorded),
           rr_remaining = py_round 1 left \<rparr>)"

section \<open>The loop\<close>

text \<open>
  The caller's functions, each acting on a world: the clock, what has been spent since it was last asked
  (None where that raises or is not given), the recruiting hook, the estimate of a block, the work on offer,
  the prover (\<open>Inl\<close> the text of the exception where it raises), sleeping, and writing the session file (False where that raises).
\<close>

record 'w driver =
  dr_now :: "'w \<Rightarrow> rat \<times> 'w"
  dr_spend :: "'w \<Rightarrow> rat option \<times> 'w"
  dr_grow :: "'w \<Rightarrow> 'w"
  dr_estimate :: "'w \<Rightarrow> rat option \<times> 'w"
  dr_work :: "'w \<Rightarrow> work \<times> 'w"
  dr_prove :: "string \<Rightarrow> 'w \<Rightarrow> (string + prove_result) \<times> 'w"
  dr_sleep :: "rat \<Rightarrow> 'w \<Rightarrow> 'w"
  dr_save :: "session \<Rightarrow> 'w \<Rightarrow> bool \<times> 'w"

record session_config =
  MAX_CONSECUTIVE_FAILS :: nat
  MAX_EXHAUSTED_IDLES :: nat
  sc_idle_s :: rat
  sc_budget :: "rat option"

definition default_session_config :: session_config where
  "default_session_config = \<lparr> MAX_CONSECUTIVE_FAILS = 3, MAX_EXHAUSTED_IDLES = 5, sc_idle_s = 30, sc_budget = None \<rparr>"

text \<open>The variables of the loop.\<close>

record session_loop =
  sl_state :: session
  sl_fails :: nat
  sl_idles :: nat

datatype session_end = Planned stop_reason | Exhausted | Window_Closed_Waiting | Fleet_Fault | Save_Failed

type_synonym 'w turn = "(session_loop \<times> 'w) + (session_end \<times> session \<times> 'w)"

definition saving :: "'w driver \<Rightarrow> session \<Rightarrow> 'w \<Rightarrow> ('w \<Rightarrow> 'w turn) \<Rightarrow> 'w turn" where
  "saving dr st w k = (case dr_save dr st w of (True, w) \<Rightarrow> k w | (False, w) \<Rightarrow> Inr (Save_Failed, st, w))"

definition idle_turn :: "session_config \<Rightarrow> 'w driver \<Rightarrow> rat \<Rightarrow> bool \<Rightarrow> session_loop \<Rightarrow> 'w \<Rightarrow> 'w turn" where
  "idle_turn sc dr t exhausted l w =
     (let st = sl_state l; n = (if exhausted then sl_idles l + 1 else 0)
      in if exhausted \<and> n \<ge> MAX_EXHAUSTED_IDLES sc then Inr (Exhausted, st, w)
         else let left = remaining_s st t in
           if left \<le> 0 then Inr (Window_Closed_Waiting, st, w)
           else Inl (l\<lparr>sl_idles := n\<rparr>, dr_sleep dr (min (sc_idle_s sc) left) w))"

text \<open>After the prover came back: an abort gives the attempt back, anything else is recorded.\<close>

definition settle :: "session_config \<Rightarrow> 'w driver \<Rightarrow> string \<Rightarrow> prove_result \<Rightarrow> session_loop \<Rightarrow> 'w \<Rightarrow> 'w turn" where
  "settle sc dr rng result l w =
     (if pr_aborted result then
        (let st = undo_attempt (sl_state l) rng in saving dr st w (\<lambda>w. Inl (l\<lparr>sl_state := st\<rparr>, w)))
      else let (t, w) = dr_now dr w; st = record_block (sl_state l) rng result t in
        saving dr st w (\<lambda>w.
          if pr_ok result then Inl (l\<lparr>sl_state := st, sl_fails := 0\<rparr>, w)
          else if sl_fails l + 1 \<ge> MAX_CONSECUTIVE_FAILS sc then Inr (Fleet_Fault, st, w)
          else Inl (l\<lparr>sl_state := st, sl_fails := sl_fails l + 1\<rparr>, w)))"

definition prove_turn ::
    "session_config \<Rightarrow> 'w driver \<Rightarrow> rat \<Rightarrow> string \<Rightarrow> work_source \<Rightarrow> rat option \<Rightarrow> session_loop \<Rightarrow> 'w \<Rightarrow> 'w turn" where
  "prove_turn sc dr t rng src appeared l w =
     (let arm_at = (case appeared of None \<Rightarrow> t | Some a \<Rightarrow> min a t);
          (armed, st) = (if src = Tip then arm_clock (sl_state l) arm_at else (False, sl_state l));
          attempt = (\<lambda>w. let st = record_attempt st rng in saving dr st w (\<lambda>w.
             case dr_prove dr rng w of (r, w) \<Rightarrow>
               settle sc dr rng (case r of Inl msg \<Rightarrow> failed_result msg | Inr x \<Rightarrow> x) (l\<lparr>sl_state := st\<rparr>) w))
      in if armed then saving dr st w attempt else attempt w)"

text \<open>The head of a turn: the clock is read, what accrued is charged, recruits join, then the work is asked for.\<close>

definition session_look :: "'w driver \<Rightarrow> session_loop \<times> 'w \<Rightarrow> (rat \<times> session_loop \<times> rat option \<times> work) \<times> 'w" where
  "session_look dr = (\<lambda>(l, w).
     let (t, w) = dr_now dr w;
         (usd, w) = dr_spend dr w;
         st = (case usd of None \<Rightarrow> sl_state l | Some u \<Rightarrow> add_spend (sl_state l) u);
         w = dr_grow dr w;
         (est, w) = dr_estimate dr w;
         (wk, w) = dr_work dr w
     in ((t, l\<lparr>sl_state := st\<rparr>, est, wk), w))"

definition session_turn :: "session_config \<Rightarrow> 'w driver \<Rightarrow> session_loop \<times> 'w \<Rightarrow> 'w turn" where
  "session_turn sc dr x = (case session_look dr x of ((t, l, est, wk), w) \<Rightarrow>
     (case plan_next (sl_state l) t wk est (sc_budget sc) of
          Stop r \<Rightarrow> Inr (Planned r, sl_state l, w)
        | Idle_Board why \<Rightarrow> idle_turn sc dr t False l w
        | Idle_Exhausted \<Rightarrow> idle_turn sc dr t True l w
        | Prove rng src appeared \<Rightarrow> prove_turn sc dr t rng src appeared l w))"



section \<open>The books of a session\<close>

text \<open>What a turn may do to the state: charge, start the clock once, try an open block, record it.\<close>

inductive book_step :: "session \<Rightarrow> session \<Rightarrow> bool" where
  charge: "book_step st (add_spend st u)"
| arm: "\<not> is_armed st \<Longrightarrow> book_step st (snd (arm_clock st t))"
| attempt: "\<not> is_done st r \<Longrightarrow> attempts_of st r < MAX_ATTEMPTS \<Longrightarrow> book_step st (record_attempt st r)"
| abort: "\<not> is_done st r \<Longrightarrow> attempts_of st r < MAX_ATTEMPTS \<Longrightarrow> book_step st (undo_attempt (record_attempt st r) r)"
| result: "\<not> is_done st r \<Longrightarrow> attempts_of st r < MAX_ATTEMPTS \<Longrightarrow> book_step st (record_block (record_attempt st r) r res t)"

definition book_ok :: "session \<Rightarrow> bool" where
  "book_ok st \<longleftrightarrow> (\<forall>r. attempts_of st r \<le> MAX_ATTEMPTS) \<and> distinct (map fst (ss_blocks st)) \<and> distinct (map fst (ss_attempts st))"

definition proved_set :: "session \<Rightarrow> (string \<times> block_record) set" where
  "proved_set st = {(r, b). map_of (ss_blocks st) r = Some b \<and> bk_ok b}"

lemma attempts_simps [simp]:
  "attempts_of (add_spend st u) r = attempts_of st r" "attempts_of (snd (arm_clock st t)) r = attempts_of st r"
  "attempts_of (record_attempt st r) q = (if q = r then attempts_of st r + 1 else attempts_of st q)"
  "attempts_of (record_block st r res t) q = attempts_of st q"
  by (auto simp: attempts_of_def add_spend_def arm_clock_def record_attempt_def record_block_def update_conv)

lemma blocks_simps [simp]:
  "ss_blocks (add_spend st u) = ss_blocks st" "ss_blocks (snd (arm_clock st t)) = ss_blocks st"
  "ss_blocks (record_attempt st r) = ss_blocks st" "ss_blocks (undo_attempt st r) = ss_blocks st"
  by (auto simp: add_spend_def arm_clock_def record_attempt_def undo_attempt_def Let_def)

lemma attempts_undo: "attempts_of (undo_attempt st r) q = (if q = r then attempts_of st r - 1 else attempts_of st q)"
  by (auto simp: attempts_of_def undo_attempt_def Let_def update_conv' delete_conv' split: option.splits if_splits)

lemma distinct_attempts:
  "distinct (map fst (ss_attempts st)) \<Longrightarrow> distinct (map fst (ss_attempts (record_attempt st r)))"
  "distinct (map fst (ss_attempts st)) \<Longrightarrow> distinct (map fst (ss_attempts (undo_attempt st r)))"
  by (auto simp: record_attempt_def undo_attempt_def Let_def distinct_update distinct_delete)

lemma attempts_list_simps [simp]:
  "ss_attempts (add_spend st u) = ss_attempts st" "ss_attempts (snd (arm_clock st t)) = ss_attempts st"
  "ss_attempts (record_block st r res t) = ss_attempts st"
  by (auto simp: add_spend_def arm_clock_def record_block_def)

lemma book_ok_step: "book_step st st' \<Longrightarrow> book_ok st \<Longrightarrow> book_ok st'"
proof (induction rule: book_step.induct)
  case (result st r res t)
  then have "distinct (map fst (ss_blocks (record_block (record_attempt st r) r res t)))"
    by (auto simp: book_ok_def record_block_def distinct_update)
  with result show ?case by (auto simp: book_ok_def distinct_attempts)
qed (auto simp: book_ok_def attempts_undo distinct_attempts le_diff_conv)

lemma proved_step: "book_step st st' \<Longrightarrow> proved_set st \<subseteq> proved_set st'"
proof (induction rule: book_step.induct)
  case (result st r res t)
  then show ?case by (auto simp: proved_set_def is_done_def record_block_def update_conv split: option.splits)
qed (auto simp: proved_set_def)

lemma book_ok_init: "ss_blocks st = [] \<and> ss_attempts st = [] \<Longrightarrow> book_ok st"
  by (simp add: book_ok_def attempts_of_def)

interpretation book: growing_system "\<lambda>st. ss_blocks st = [] \<and> ss_attempts st = []" book_step book_ok proved_set
  by unfold_locales (simp_all only: book_ok_init book_ok_step proved_step)

section \<open>A turn follows the books\<close>

definition turn_state :: "'w turn \<Rightarrow> session" where
  "turn_state x = (case x of Inl (l, _) \<Rightarrow> sl_state l | Inr (_, st, _) \<Rightarrow> st)"

lemma turn_state_simps [simp]: "turn_state (Inl (l, w)) = sl_state l" "turn_state (Inr (e, st, w)) = st"
  by (simp_all add: turn_state_def)

lemma saving_state: "(\<And>w. P (turn_state (k w))) \<Longrightarrow> P st \<Longrightarrow> P (turn_state (saving dr st w k))"
  by (auto simp: saving_def split: prod.split bool.split)

lemma idle_turn_state [simp]: "turn_state (idle_turn sc dr t ex l w) = sl_state l"
  by (auto simp: idle_turn_def Let_def)

lemma settle_state:
  "turn_state (settle sc dr r res l w) = undo_attempt (sl_state l) r
   \<or> (\<exists>t. turn_state (settle sc dr r res l w) = record_block (sl_state l) r res t)"
proof (cases "pr_aborted res")
  case True
  then show ?thesis
    by (auto simp: settle_def Let_def intro!: saving_state [where P = "\<lambda>x. x = undo_attempt (sl_state l) r"])
next
  case False
  then show ?thesis
    unfolding settle_def Let_def
    by (cases "dr_now dr w") (auto intro!: exI saving_state [where P = "\<lambda>x. x = record_block (sl_state l) r res (fst (dr_now dr w))"])
qed

lemma plan_next_Prove:
  "plan_next st t wk est budget = Prove rng src app \<Longrightarrow>
   wk_range wk = Some rng \<and> \<not> is_done st rng \<and> attempts_of st rng < MAX_ATTEMPTS \<and> 0 < remaining_s st t
   \<and> (truthy budget \<longrightarrow> ss_spend st < the budget) \<and> (truthy est \<longrightarrow> the est \<le> remaining_s st t)
   \<and> src = wk_source wk \<and> app = wk_appeared wk"
  by (auto simp: plan_next_def Let_def split: if_splits option.splits)

lemma prove_turn_books:
  assumes "\<not> is_done (sl_state l) rng" "attempts_of (sl_state l) rng < MAX_ATTEMPTS"
  shows "book_step\<^sup>*\<^sup>* (sl_state l) (turn_state (prove_turn sc dr t rng src app l w))"
proof -
  obtain armed st1 where a: "(if src = Tip then arm_clock (sl_state l) (case app of None \<Rightarrow> t | Some a \<Rightarrow> min a t) else (False, sl_state l)) = (armed, st1)"
    by fastforce
  then have "st1 = sl_state l \<or> \<not> is_armed (sl_state l) \<and> (\<exists>t. st1 = snd (arm_clock (sl_state l) t))"
    by (auto simp: arm_clock_def split: if_splits)
  then have st1: "book_step\<^sup>*\<^sup>* (sl_state l) st1" "\<not> is_done st1 rng" "attempts_of st1 rng < MAX_ATTEMPTS"
    using assms by (auto simp: is_done_def intro: r_into_rtranclp book_step.arm)
  let ?P = "\<lambda>x. book_step\<^sup>*\<^sup>* (sl_state l) x"
  have att: "?P (record_attempt st1 rng)"
    using st1(1) book_step.attempt [OF st1(2,3)] by (rule rtranclp.rtrancl_into_rtrancl)
  have fin: "?P (turn_state (settle sc dr rng res (l\<lparr>sl_state := record_attempt st1 rng\<rparr>) u))" for res u
    using settle_state [of sc dr rng res "l\<lparr>sl_state := record_attempt st1 rng\<rparr>" u]
      book_step.abort [OF st1(2,3)] book_step.result [OF st1(2,3)] st1(1)
    by (auto intro: rtranclp.rtrancl_into_rtrancl)
  have go: "?P (turn_state (saving dr (record_attempt st1 rng) u (\<lambda>w. case dr_prove dr rng w of (r, w) \<Rightarrow>
       settle sc dr rng (case r of Inl msg \<Rightarrow> failed_result msg | Inr x \<Rightarrow> x) (l\<lparr>sl_state := record_attempt st1 rng\<rparr>) w)))" for u
    by (rule saving_state [where P = ?P]) (auto simp: fin att split: prod.split)
  show ?thesis
    unfolding prove_turn_def a Let_def prod.case
    using saving_state [where P = ?P, OF go st1(1)] go by simp
qed

lemma session_lookE:
  obtains t l1 est wk w1 where "session_look dr (l, w) = ((t, l1, est, wk), w1)" "t = fst (dr_now dr w)"
    "sl_fails l1 = sl_fails l" "sl_idles l1 = sl_idles l"
    "sl_state l1 = sl_state l \<or> (\<exists>u. sl_state l1 = add_spend (sl_state l) u)"
proof -
  obtain t w0 where n: "dr_now dr w = (t, w0)" by fastforce
  obtain usd w1 where s: "dr_spend dr w0 = (usd, w1)" by fastforce
  obtain est w2 where e: "dr_estimate dr (dr_grow dr w1) = (est, w2)" by fastforce
  obtain wk w3 where k: "dr_work dr w2 = (wk, w3)" by fastforce
  show thesis
    by (rule that [of t "l\<lparr>sl_state := (case usd of None \<Rightarrow> sl_state l | Some u \<Rightarrow> add_spend (sl_state l) u)\<rparr>" est wk w3])
      (auto simp: session_look_def n s e k split: option.split)
qed

lemma turn_books: "book_step\<^sup>*\<^sup>* (sl_state l) (turn_state (session_turn sc dr (l, w)))"
proof -
  obtain t l1 est wk w1 where k: "session_look dr (l, w) = ((t, l1, est, wk), w1)"
    and st: "sl_state l1 = sl_state l \<or> (\<exists>u. sl_state l1 = add_spend (sl_state l) u)"
    by (rule session_lookE)
  then have "book_step\<^sup>*\<^sup>* (sl_state l) (sl_state l1)" by (metis book_step.charge r_into_rtranclp rtranclp.rtrancl_refl)
  moreover have "book_step\<^sup>*\<^sup>* (sl_state l1) (turn_state (session_turn sc dr (l, w)))"
    using prove_turn_books [of l1 _ sc dr t _ _ w1]
    by (auto simp: session_turn_def k dest!: plan_next_Prove split: plan.split)
  ultimately show ?thesis by (rule rtranclp_trans)
qed

definition session_step :: "session_config \<Rightarrow> 'w driver \<Rightarrow> session_loop \<times> 'w \<Rightarrow> session_loop \<times> 'w \<Rightarrow> bool" where
  "session_step sc dr x y \<longleftrightarrow> session_turn sc dr x = Inl y"

lemma session_books: "(session_step sc dr)\<^sup>*\<^sup>* x y \<Longrightarrow> book_step\<^sup>*\<^sup>* (sl_state (fst x)) (sl_state (fst y))"
proof (induction rule: rtranclp_induct)
  case (step y z)
  obtain l w l' w' where yz: "y = (l, w)" "z = (l', w')" by fastforce
  from step.hyps(2) turn_books [of l sc dr w] have "book_step\<^sup>*\<^sup>* (sl_state l) (sl_state l')"
    by (simp add: session_step_def yz)
  with step.IH show ?case unfolding yz by auto
qed simp

section \<open>What the prover is asked\<close>

text \<open>A driver that also writes down every call of the prover and its answer.\<close>

type_synonym tries = "(string \<times> (string + prove_result)) list"

definition recording :: "'w driver \<Rightarrow> ('w \<times> tries) driver" where
  "recording dr = \<lparr>
     dr_now = (\<lambda>(w, es). case dr_now dr w of (t, w) \<Rightarrow> (t, (w, es))),
     dr_spend = (\<lambda>(w, es). case dr_spend dr w of (u, w) \<Rightarrow> (u, (w, es))),
     dr_grow = (\<lambda>(w, es). (dr_grow dr w, es)),
     dr_estimate = (\<lambda>(w, es). case dr_estimate dr w of (e, w) \<Rightarrow> (e, (w, es))),
     dr_work = (\<lambda>(w, es). case dr_work dr w of (k, w) \<Rightarrow> (k, (w, es))),
     dr_prove = (\<lambda>rng (w, es). case dr_prove dr rng w of (r, w) \<Rightarrow> (r, (w, es @ [(rng, r)]))),
     dr_sleep = (\<lambda>d (w, es). (dr_sleep dr d w, es)),
     dr_save = (\<lambda>st (w, es). case dr_save dr st w of (ok, w) \<Rightarrow> (ok, (w, es))) \<rparr>"

definition stepped_aside :: "string + prove_result \<Rightarrow> bool" where
  "stepped_aside r = (case r of Inl _ \<Rightarrow> False | Inr x \<Rightarrow> pr_aborted x)"

definition proved_it :: "string + prove_result \<Rightarrow> bool" where
  "proved_it r = (case r of Inl _ \<Rightarrow> False | Inr x \<Rightarrow> pr_ok x \<and> \<not> pr_aborted x)"

text \<open>The calls for a block that were not given up.\<close>

definition full_tries :: "string \<Rightarrow> tries \<Rightarrow> nat" where
  "full_tries rng es = length (filter (\<lambda>(q, r). q = rng \<and> \<not> stepped_aside r) es)"

definition turn_tries :: "('w \<times> tries) turn \<Rightarrow> tries" where
  "turn_tries x = (case x of Inl (_, _, es) \<Rightarrow> es | Inr (_, _, _, es) \<Rightarrow> es)"

lemma turn_tries_simps [simp]: "turn_tries (Inl (l, w, es)) = es" "turn_tries (Inr (e, st, w, es)) = es"
  by (simp_all add: turn_tries_def)

lemma full_tries_simps [simp]:
  "full_tries r [] = 0"
  "full_tries r (es @ [(q, x)]) = full_tries r es + (if q = r \<and> \<not> stepped_aside x then 1 else 0)"
  by (simp_all add: full_tries_def)

text \<open>
  What ties the calls to the books: every call that was not given up has been counted, a block that was proved is
  in the books as proved, and no call comes after one that proved the same block or where it was proved before.
\<close>

definition tries_ok :: "session \<Rightarrow> session \<Rightarrow> tries \<Rightarrow> bool" where
  "tries_ok st0 st es \<longleftrightarrow>
     (\<forall>r. attempts_of st0 r + full_tries r es \<le> attempts_of st r)
     \<and> (\<forall>(q, x) \<in> set es. \<not> is_done st0 q)
     \<and> (\<forall>pre q x post. es = pre @ (q, x) # post \<longrightarrow> proved_it x \<longrightarrow> q \<notin> fst ` set post)"

text \<open>The part of it that a state in the middle of a session adds: what was proved is in the books.\<close>

definition proved_kept :: "session \<Rightarrow> session \<Rightarrow> tries \<Rightarrow> bool" where
  "proved_kept st0 st es \<longleftrightarrow> (\<forall>(q, x) \<in> set es. proved_it x \<longrightarrow> is_done st q) \<and> (\<forall>q. is_done st0 q \<longrightarrow> is_done st q)"

lemma snoc_split: "es @ [e] = pre @ x # post \<Longrightarrow> (post = [] \<and> x = e \<and> pre = es) \<or> (\<exists>p. post = p @ [e] \<and> es = pre @ x # p)"
  by (cases post rule: rev_cases) auto

lemma tries_ok_snoc:
  assumes "tries_ok st0 st es" "proved_kept st0 st es" "\<not> is_done st q"
    "\<And>r. attempts_of st r + (if q = r \<and> \<not> stepped_aside x then 1 else 0) \<le> attempts_of st' r"
  shows "tries_ok st0 st' (es @ [(q, x)])"
  unfolding tries_ok_def
proof (intro conjI allI impI)
  show "attempts_of st0 r + full_tries r (es @ [(q, x)]) \<le> attempts_of st' r" for r
  proof -
    from assms(1) have "attempts_of st0 r + full_tries r es \<le> attempts_of st r" by (simp add: tries_ok_def)
    with assms(4) [of r] show ?thesis by auto
  qed
  show "\<forall>(q, x) \<in> set (es @ [(q, x)]). \<not> is_done st0 q" using assms by (auto simp: tries_ok_def proved_kept_def)
  fix pre q' x' post assume e: "es @ [(q, x)] = pre @ (q', x') # post" "proved_it x'"
  from snoc_split [OF this(1)] show "q' \<notin> fst ` set post"
  proof (elim disjE exE)
    fix p assume p: "post = p @ [(q, x)] \<and> es = pre @ (q', x') # p"
    with e(2) assms(2) have "is_done st q'" by (auto simp: proved_kept_def)
    with p e(2) assms(1,3) show ?thesis by (auto simp: tries_ok_def)
  qed simp
qed

lemma tries_ok_mono: "tries_ok st0 st es \<Longrightarrow> (\<And>r. attempts_of st r \<le> attempts_of st' r) \<Longrightarrow> tries_ok st0 st' es"
  unfolding tries_ok_def using order_trans by blast

lemma proved_kept_mono: "proved_kept st0 st es \<Longrightarrow> (\<And>r. is_done st r \<Longrightarrow> is_done st' r) \<Longrightarrow> proved_kept st0 st' es"
  unfolding proved_kept_def by (blast intro: case_prodI2)

lemma is_done_simps [simp]:
  "is_done (add_spend st u) = is_done st" "is_done (snd (arm_clock st t)) = is_done st" "is_done (record_attempt st r) = is_done st"
  "is_done (undo_attempt st r) = is_done st"
  "is_done (record_block st r res t) q = (if q = r then pr_ok res else is_done st q)"
  by (auto simp: is_done_def fun_eq_iff record_block_def update_conv split: option.split)

text \<open>The answer of a turn, as far as the books and the calls go.\<close>

definition turn_ok :: "session \<Rightarrow> ('w \<times> tries) turn \<Rightarrow> bool" where
  "turn_ok st0 x \<longleftrightarrow> tries_ok st0 (turn_state x) (turn_tries x) \<and> (\<forall>l w. x = Inl (l, w) \<longrightarrow> proved_kept st0 (turn_state x) (turn_tries x))"

lemma turn_ok_simps [simp]:
  "turn_ok st0 (Inl (l, (w, es))) \<longleftrightarrow> tries_ok st0 (sl_state l) es \<and> proved_kept st0 (sl_state l) es"
  "turn_ok st0 (Inr (e, st, (w, es))) \<longleftrightarrow> tries_ok st0 st es"
  by (auto simp: turn_ok_def)

lemma saving_ok:
  assumes "tries_ok st0 st es" "\<And>w. turn_ok st0 (k (w, es))"
  shows "turn_ok st0 (saving (recording dr) st (w, es) k)"
  using assms by (auto simp: saving_def recording_def turn_ok_def split: prod.split bool.split)

lemma settle_ok:
  assumes "tries_ok st0 st es" "proved_kept st0 st es" "\<not> is_done st rng" "sl_state l = record_attempt st rng"
  shows "turn_ok st0 (settle sc (recording dr) rng (case x of Inl m \<Rightarrow> failed_result m | Inr y \<Rightarrow> y) l (w, es @ [(rng, x)]))"
proof -
  let ?res = "case x of Inl m \<Rightarrow> failed_result m | Inr y \<Rightarrow> y" and ?es = "es @ [(rng, x)]"
  have ab: "pr_aborted ?res = stepped_aside x" by (simp add: stepped_aside_def failed_result_def split: sum.split)
  have pr: "proved_it x \<longleftrightarrow> pr_ok ?res \<and> \<not> stepped_aside x"
    by (simp add: proved_it_def stepped_aside_def failed_result_def split: sum.split)
  show ?thesis
  proof (cases "stepped_aside x")
    case True
    let ?st = "undo_attempt (record_attempt st rng) rng"
    have t: "tries_ok st0 ?st ?es" by (rule tries_ok_snoc [OF assms(1-3)]) (simp add: True attempts_undo)
    have "proved_kept st0 ?st ?es" using assms(2) True pr by (auto simp: proved_kept_def)
    with t show ?thesis unfolding settle_def ab Let_def using True assms(4)
      by (simp add: saving_ok [OF t] t)
  next
    case False
    have t: "tries_ok st0 (record_block (record_attempt st rng) rng ?res u) ?es" for u
      by (rule tries_ok_snoc [OF assms(1-3)]) simp
    have k: "proved_kept st0 (record_block (record_attempt st rng) rng ?res u) ?es" for u
      using assms(2,3) pr unfolding proved_kept_def by (auto split: if_splits)
    obtain u w1 where n: "dr_now (recording dr) (w, ?es) = (u, (w1, ?es))"
      by (cases "dr_now dr w") (auto simp: recording_def)
    show ?thesis unfolding settle_def ab Let_def n using False assms(4) t k
      by (auto simp: t k intro!: saving_ok [OF t])
  qed
qed

lemma prove_turn_ok:
  assumes "tries_ok st0 (sl_state l) es" "proved_kept st0 (sl_state l) es" "\<not> is_done (sl_state l) rng"
  shows "turn_ok st0 (prove_turn sc (recording dr) t rng src app l (w, es))"
proof -
  obtain armed st1 where a: "(if src = Tip then arm_clock (sl_state l) (case app of None \<Rightarrow> t | Some a \<Rightarrow> min a t) else (False, sl_state l)) = (armed, st1)"
    by fastforce
  then have "st1 = sl_state l \<or> (\<exists>t. st1 = snd (arm_clock (sl_state l) t))" by (auto split: if_splits simp: prod_eq_iff)
  then have st1: "tries_ok st0 st1 es" "proved_kept st0 st1 es" "\<not> is_done st1 rng"
    using assms by (auto intro: tries_ok_mono proved_kept_mono)
  then have st2: "tries_ok st0 (record_attempt st1 rng) es" by (auto intro: tries_ok_mono)
  have pr: "\<exists>w. dr_prove (recording dr) rng (u, es) = (x, w) \<and> w = (snd (dr_prove dr rng u), es @ [(rng, x)])"
    if "x = fst (dr_prove dr rng u)" for u x
    using that by (simp add: recording_def split: prod.split)
  have go: "turn_ok st0 (saving (recording dr) (record_attempt st1 rng) (u, es) (\<lambda>w. case dr_prove (recording dr) rng w of (r, w) \<Rightarrow>
       settle sc (recording dr) rng (case r of Inl msg \<Rightarrow> failed_result msg | Inr x \<Rightarrow> x) (l\<lparr>sl_state := record_attempt st1 rng\<rparr>) w))" for u
  proof (rule saving_ok [OF st2])
    fix v show "turn_ok st0 (case dr_prove (recording dr) rng (v, es) of (r, w) \<Rightarrow>
       settle sc (recording dr) rng (case r of Inl msg \<Rightarrow> failed_result msg | Inr x \<Rightarrow> x) (l\<lparr>sl_state := record_attempt st1 rng\<rparr>) w)"
      using pr [of "fst (dr_prove dr rng v)" v]
      by (auto intro!: settle_ok [OF st1, where l = "l\<lparr>sl_state := record_attempt st1 rng\<rparr>"] split: prod.split)
  qed
  show ?thesis
    unfolding prove_turn_def a Let_def prod.case by (cases armed) (simp_all add: go, rule saving_ok [OF st1(1)], rule go)
qed

lemma look_tries:
  assumes "session_look (recording dr) (l, (w, es)) = ((t, l1, est, wk), w1)"
  shows "snd w1 = es"
  using assms by (auto simp: session_look_def recording_def Let_def split: prod.splits)

lemma turn_keeps_ok:
  assumes "tries_ok st0 (sl_state l) es" "proved_kept st0 (sl_state l) es"
  shows "turn_ok st0 (session_turn sc (recording dr) (l, (w, es)))"
proof -
  obtain t l1 est wk w1 where k: "session_look (recording dr) (l, (w, es)) = ((t, l1, est, wk), w1)"
    and st: "sl_state l1 = sl_state l \<or> (\<exists>u. sl_state l1 = add_spend (sl_state l) u)"
    by (rule session_lookE)
  from look_tries [OF k] obtain u where w1: "w1 = (u, es)" by (cases w1) auto
  from st assms have l1: "tries_ok st0 (sl_state l1) es" "proved_kept st0 (sl_state l1) es"
    by (auto intro: tries_ok_mono proved_kept_mono)
  have idle: "turn_ok st0 (idle_turn sc (recording dr) t ex l1 (u, es))" for ex
    using l1 by (auto simp: idle_turn_def recording_def turn_ok_def Let_def)
  show ?thesis
  proof (cases "plan_next (sl_state l1) t wk est (sc_budget sc)")
    case (Prove rng src app)
    with prove_turn_ok [OF l1, of rng sc dr t src app u] plan_next_Prove [OF Prove] show ?thesis
      by (simp add: session_turn_def k w1)
  qed (use l1 idle in \<open>auto simp: session_turn_def k w1 turn_ok_def\<close>)
qed

lemma session_keeps_ok:
  "(session_step sc (recording dr))\<^sup>*\<^sup>* (l, (w, [])) y \<Longrightarrow>
     tries_ok (sl_state l) (sl_state (fst y)) (snd (snd y)) \<and> proved_kept (sl_state l) (sl_state (fst y)) (snd (snd y))"
proof (induction rule: rtranclp_induct)
  case base
  show ?case by (simp add: tries_ok_def proved_kept_def)
next
  case (step y z)
  obtain a b e where y: "y = (a, b, e)" by (metis prod.collapse)
  obtain a' b' e' where z: "z = (a', b', e')" by (metis prod.collapse)
  from step.IH turn_keeps_ok [of "sl_state l" a e sc dr b] step.hyps(2) show ?case
    by (auto simp: session_step_def y z turn_ok_def)
qed

text \<open>
  Claim C10. However long a session runs and whatever its caller's functions answer, up to the end of any turn, the last one
  included: for every block, the calls of the prover for it that were not answered with an abort, together with the attempts the
  session started with, are at most MAX_ATTEMPTS, and each of these calls is in the books; once a call has proved a block the
  prover is never called for it again, nor for a block that was proved before; and a proved block keeps its record. A call that
  steps aside for other work gives its attempt back, so the number of such calls is not bounded.
\<close>

theorem session_proves_once:
  assumes "(session_step sc (recording dr))\<^sup>*\<^sup>* (l, (w, [])) (l', (w', es'))" and "book_ok (sl_state l)"
    and "session_turn sc (recording dr) (l', (w', es')) = turn"
  shows "(\<forall>r. attempts_of (sl_state l) r + full_tries r (turn_tries turn) \<le> attempts_of (turn_state turn) r
        \<and> attempts_of (turn_state turn) r \<le> MAX_ATTEMPTS)
    \<and> (\<forall>(q, x) \<in> set (turn_tries turn). \<not> is_done (sl_state l) q)
    \<and> (\<forall>pre q x post. turn_tries turn = pre @ (q, x) # post \<longrightarrow> proved_it x \<longrightarrow> q \<notin> fst ` set post)
    \<and> proved_set (sl_state l) \<subseteq> proved_set (turn_state turn)"
proof -
  from session_keeps_ok [OF assms(1)] have "turn_ok (sl_state l) turn"
    using turn_keeps_ok [of "sl_state l" l' es' sc dr w'] assms(3) by simp
  moreover from session_books [OF assms(1)] turn_books [of l' sc "recording dr" "(w', es')"] assms(3)
  have b: "book_step\<^sup>*\<^sup>* (sl_state l) (turn_state turn)" by simp
  from book.inv_steps [OF b assms(2)] have "\<forall>r. attempts_of (turn_state turn) r \<le> MAX_ATTEMPTS" by (simp add: book_ok_def)
  ultimately show ?thesis using book.reached_steps [OF b assms(2)] by (auto simp: turn_ok_def tries_ok_def)
qed

section \<open>The clock\<close>

lemma origin_simps [simp]:
  "clock_origin (add_spend st u) = clock_origin st" "clock_origin (record_attempt st r) = clock_origin st"
  "clock_origin (undo_attempt st r) = clock_origin st" "clock_origin (record_block st r res t) = clock_origin st"
  by (auto simp: clock_origin_def add_spend_def record_attempt_def undo_attempt_def record_block_def Let_def split: option.split)

lemma origin_step: "book_step st st' \<Longrightarrow> clock_origin st = Some a \<Longrightarrow> clock_origin st' = Some a"
  by (induction rule: book_step.induct) (auto simp: is_armed_def)

lemma origin_steps: "book_step\<^sup>*\<^sup>* st st' \<Longrightarrow> clock_origin st = Some a \<Longrightarrow> clock_origin st' = Some a"
  by (induction rule: rtranclp_induct) (auto dest: origin_step)

lemma prove_turn_origin:
  "clock_origin (turn_state (prove_turn sc dr t rng src app l w)) =
   (if src = Tip \<and> \<not> is_armed (sl_state l) then Some (case app of None \<Rightarrow> t | Some a \<Rightarrow> min a t) else clock_origin (sl_state l))"
  (is "_ = ?o")
proof -
  obtain armed st1 where a: "(if src = Tip then arm_clock (sl_state l) (case app of None \<Rightarrow> t | Some a \<Rightarrow> min a t) else (False, sl_state l)) = (armed, st1)"
    by fastforce
  then have o: "clock_origin st1 = ?o"
    by (auto simp: arm_clock_def clock_origin_def is_armed_def split: if_splits)
  let ?P = "\<lambda>x. clock_origin x = ?o"
  have s: "?P (turn_state (settle sc dr rng res (l\<lparr>sl_state := record_attempt st1 rng\<rparr>) u))" for res u
    using settle_state [of sc dr rng res "l\<lparr>sl_state := record_attempt st1 rng\<rparr>" u] o by auto
  have go: "?P (turn_state (saving dr (record_attempt st1 rng) u (\<lambda>w. case dr_prove dr rng w of (r, w) \<Rightarrow>
       settle sc dr rng (case r of Inl msg \<Rightarrow> failed_result msg | Inr x \<Rightarrow> x) (l\<lparr>sl_state := record_attempt st1 rng\<rparr>) w)))" for u
    by (rule saving_state [where P = ?P]) (auto simp: s o split: prod.split)
  show ?thesis
    unfolding prove_turn_def a Let_def prod.case
    using saving_state [where P = ?P, OF go o] go by simp
qed

text \<open>
  Claim C23. The window of a session starts exactly once, with the first tip block it sets out to prove. Once started it never moves. In a
  turn that begins unarmed, the window is started if and only if the plan of that turn is to prove a tip block, and then at the moment its bundle
  appeared or the clock the turn read, whichever is earlier; board work, idling and stopping leave it closed.
\<close>

theorem clock_starts_once:
  assumes "(session_step sc dr)\<^sup>*\<^sup>* (l, w) (l', w')"
  shows "(is_armed (sl_state l) \<longrightarrow> clock_origin (sl_state l') = clock_origin (sl_state l))
    \<and> (\<not> is_armed (sl_state l') \<longrightarrow>
        (case session_look dr (l', w') of ((t, l1, est, wk), _) \<Rightarrow> t = fst (dr_now dr w')
           \<and> clock_origin (turn_state (session_turn sc dr (l', w')))
             = (case plan_next (sl_state l1) t wk est (sc_budget sc) of
                  Prove rng src app \<Rightarrow> if src = Tip then Some (case app of None \<Rightarrow> t | Some a \<Rightarrow> min a t) else None
                | _ \<Rightarrow> None)))
    \<and> (is_armed (sl_state l') \<longrightarrow>
        clock_origin (turn_state (session_turn sc dr (l', w'))) = clock_origin (sl_state l'))"
proof -
  have "is_armed (sl_state l) \<longrightarrow> clock_origin (sl_state l') = clock_origin (sl_state l)"
    using origin_steps [OF session_books [OF assms]] by (auto simp: is_armed_def)
  moreover have "is_armed (sl_state l') \<longrightarrow> clock_origin (turn_state (session_turn sc dr (l', w'))) = clock_origin (sl_state l')"
    using origin_steps [OF turn_books [of l' sc dr w']] by (auto simp: is_armed_def)
  moreover {
    assume u: "\<not> is_armed (sl_state l')"
    obtain t l1 est wk w1 where k: "session_look dr (l', w') = ((t, l1, est, wk), w1)" "t = fst (dr_now dr w')"
      and st: "sl_state l1 = sl_state l' \<or> (\<exists>u. sl_state l1 = add_spend (sl_state l') u)"
      by (rule session_lookE)
    then have o: "clock_origin (sl_state l1) = None" using u by (auto simp: is_armed_def)
    then have eq: "clock_origin (turn_state (session_turn sc dr (l', w')))
             = (case plan_next (sl_state l1) t wk est (sc_budget sc) of
                  Prove rng src app \<Rightarrow> if src = Tip then Some (case app of None \<Rightarrow> t | Some a \<Rightarrow> min a t) else None
                | _ \<Rightarrow> None)"
      by (auto simp: session_turn_def k(1) prove_turn_origin is_armed_def split: plan.split)
    have "case session_look dr (l', w') of ((t, l1, est, wk), _) \<Rightarrow> t = fst (dr_now dr w')
           \<and> clock_origin (turn_state (session_turn sc dr (l', w')))
             = (case plan_next (sl_state l1) t wk est (sc_budget sc) of
                  Prove rng src app \<Rightarrow> if src = Tip then Some (case app of None \<Rightarrow> t | Some a \<Rightarrow> min a t) else None
                | _ \<Rightarrow> None)" unfolding k(1) prod.case using k(2) eq by (rule conjI) }
  ultimately show ?thesis by blast
qed

section \<open>The file\<close>

text \<open>What the caller's functions do to the session file: only a successful write changes it, and it replaces the whole.\<close>

definition file_laws :: "'w driver \<Rightarrow> ('w \<Rightarrow> session option) \<Rightarrow> bool" where
  "file_laws dr file \<longleftrightarrow>
     (\<forall>st w. file (snd (dr_save dr st w)) = (if fst (dr_save dr st w) then Some st else file w))
     \<and> (\<forall>w. file (snd (dr_now dr w)) = file w) \<and> (\<forall>w. file (snd (dr_spend dr w)) = file w)
     \<and> (\<forall>w. file (dr_grow dr w) = file w) \<and> (\<forall>w. file (snd (dr_estimate dr w)) = file w)
     \<and> (\<forall>w. file (snd (dr_work dr w)) = file w) \<and> (\<forall>r w. file (snd (dr_prove dr r w)) = file w)
     \<and> (\<forall>d w. file (dr_sleep dr d w) = file w)"

text \<open>The blocks, attempts and clock of a state.\<close>

definition books :: "session \<Rightarrow> (string \<times> block_record) list \<times> (string \<times> nat) list \<times> rat \<times> rat option option" where
  "books st = (ss_blocks st, ss_attempts st, ss_started st, ss_armed st)"

lemma books_charge [simp]: "books (add_spend st u) = books st"
  by (simp add: books_def add_spend_def)

lemma saving_Inl: "saving dr st w k = Inl y \<Longrightarrow> \<exists>w'. dr_save dr st w = (True, w') \<and> k w' = Inl y"
  by (auto simp: saving_def split: prod.splits bool.splits)

lemma settle_file:
  assumes "file_laws dr file" "settle sc dr rng res l w = Inl (l', w')"
  shows "file w' = Some (sl_state l')"
proof -
  obtain u where u: "dr_save dr (sl_state l') u = (True, w')"
    using assms(2) by (auto simp: settle_def Let_def split: if_splits prod.splits dest!: saving_Inl)
  then show ?thesis using assms(1) unfolding file_laws_def by (metis fst_conv snd_conv)
qed

lemma prove_turn_settles:
  "prove_turn sc dr t rng src app l w = Inl (l', w') \<Longrightarrow> \<exists>res l1 w1. settle sc dr rng res l1 w1 = Inl (l', w')"
  unfolding prove_turn_def Let_def
  by (auto split: if_splits prod.splits dest!: saving_Inl; blast)

lemma look_file:
  assumes "file_laws dr file" "session_look dr (l, w) = ((t, l1, est, wk), w1)"
  shows "file w1 = file w"
proof -
  obtain t w0 where n: "dr_now dr w = (t, w0)" by fastforce
  obtain usd w1 where s: "dr_spend dr w0 = (usd, w1)" by fastforce
  obtain est w2 where e: "dr_estimate dr (dr_grow dr w1) = (est, w2)" by fastforce
  obtain wk w3 where k: "dr_work dr w2 = (wk, w3)" by fastforce
  have "file (snd (dr_now dr w)) = file w" "file (snd (dr_spend dr w0)) = file w0" "file (dr_grow dr w1) = file w1"
    "file (snd (dr_estimate dr (dr_grow dr w1))) = file (dr_grow dr w1)" "file (snd (dr_work dr w2)) = file w2"
    using assms(1) by (simp_all add: file_laws_def)
  then have "file w3 = file w" by (simp add: n s e k)
  then show ?thesis using assms(2) by (simp add: session_look_def n s e k)
qed

lemma idle_turn_Inl:
  "idle_turn sc dr t ex l w = Inl (l', w') \<Longrightarrow>
   sl_state l' = sl_state l \<and> 0 < remaining_s (sl_state l) t \<and> w' = dr_sleep dr (min (sc_idle_s sc) (remaining_s (sl_state l) t)) w"
  by (auto simp: idle_turn_def Let_def split: if_splits)

lemma turn_file:
  assumes "file_laws dr file" "session_turn sc dr (l, w) = Inl (l', w')" "map_option books (file w) = Some (books (sl_state l))"
  shows "map_option books (file w') = Some (books (sl_state l'))"
proof -
  obtain t l1 est wk w1 where k: "session_look dr (l, w) = ((t, l1, est, wk), w1)"
    and st: "sl_state l1 = sl_state l \<or> (\<exists>u. sl_state l1 = add_spend (sl_state l) u)"
    by (rule session_lookE)
  then have f: "map_option books (file w1) = Some (books (sl_state l1))"
    using look_file [OF assms(1) k(1)] assms(3) by auto
  have sl: "file (dr_sleep dr d u) = file u" for d u using assms(1) by (simp add: file_laws_def)
  show ?thesis
  proof (cases "plan_next (sl_state l1) t wk est (sc_budget sc)")
    case (Prove rng src app)
    with assms(2) have "prove_turn sc dr t rng src app l1 w1 = Inl (l', w')" by (simp add: session_turn_def k)
    from prove_turn_settles [OF this] obtain res l2 w2 where "settle sc dr rng res l2 w2 = Inl (l', w')" by blast
    from settle_file [OF assms(1) this] show ?thesis by simp
  qed (use assms(2) f sl in \<open>auto simp: session_turn_def k dest!: idle_turn_Inl\<close>)
qed

text \<open>
  Whenever the driver dies between two turns, the session file names exactly the blocks, the attempts and
  the clock that were in memory, so a resumed session has forgotten no block it proved.
\<close>

theorem session_file_current:
  assumes "(session_step sc dr)\<^sup>*\<^sup>* (l, w) (l', w')"
    and "file_laws dr file" and "file w = Some (sl_state l)"
  shows "\<exists>st. file w' = Some st \<and> done_blocks st = done_blocks (sl_state l') \<and> clock_origin st = clock_origin (sl_state l')
    \<and> attempts_of st = attempts_of (sl_state l') \<and> is_done st = is_done (sl_state l')"
proof -
  have "map_option books (file (snd y)) = Some (books (sl_state (fst y)))" if "(session_step sc dr)\<^sup>*\<^sup>* (l, w) y" for y
    using that
  proof (induction rule: rtranclp_induct)
    case base
    then show ?case using assms(3) by simp
  next
    case (step y z)
    obtain a b a' b' where yz: "y = (a, b)" "z = (a', b')" by fastforce
    with step show ?case using turn_file [OF assms(2), of sc a b a' b'] by (simp add: session_step_def)
  qed
  from this [OF assms(1)] show ?thesis
    by (auto simp: books_def done_blocks_def clock_origin_def attempts_of_def is_done_def fun_eq_iff split: option.split)
qed

section \<open>Termination\<close>




lemma frame_simps [simp]:
  "ss_duration (add_spend st u) = ss_duration st" "ss_duration (snd (arm_clock st t)) = ss_duration st"
  "ss_duration (record_attempt st r) = ss_duration st" "ss_duration (undo_attempt st r) = ss_duration st"
  "ss_duration (record_block st r res t) = ss_duration st"
  "ss_deadline (add_spend st u) = ss_deadline st" "ss_deadline (snd (arm_clock st t)) = ss_deadline st"
  "ss_deadline (record_attempt st r) = ss_deadline st" "ss_deadline (undo_attempt st r) = ss_deadline st"
  "ss_deadline (record_block st r res t) = ss_deadline st"
  "ss_started (add_spend st u) = ss_started st" "ss_started (snd (arm_clock st t)) = ss_started st"
  "ss_started (record_attempt st r) = ss_started st" "ss_started (undo_attempt st r) = ss_started st"
  "ss_started (record_block st r res t) = ss_started st"
  by (auto simp: add_spend_def arm_clock_def record_attempt_def undo_attempt_def record_block_def Let_def)










section \<open>A simulated day\<close>

text \<open>A world of a clock, the session file and the work to come: a block takes 50 s, everything else no time.\<close>

type_synonym sim_world = "rat \<times> session option \<times> work list"

definition sim_driver :: "sim_world driver" where
  "sim_driver = \<lparr> dr_now = (\<lambda>w. (fst w, w)), dr_spend = (\<lambda>w. (Some (1 / 100), w)), dr_grow = (\<lambda>w. w),
     dr_estimate = (\<lambda>w. (None, w)),
     dr_work = (\<lambda>(c, f, wks). case wks of
         [] \<Rightarrow> (\<lparr> wk_source = Idle, wk_range = None, wk_why = None, wk_late = False, wk_appeared = None \<rparr>, (c, f, []))
       | x # xs \<Rightarrow> (x, (c, f, xs))),
     dr_prove = (\<lambda>r (c, f, wks). (Inr \<lparr> pr_ok = True, pr_aborted = False, pr_wall = Some 50, pr_digest = None,
        pr_cards = Some 3, pr_events = [] \<rparr>, (c + 50, f, wks))),
     dr_sleep = (\<lambda>d (c, f, wks). (c + d, f, wks)), dr_save = (\<lambda>st (c, f, wks). (True, (c, Some st, wks))) \<rparr>"

definition sim_start :: session where
  "sim_start = new_state 0 100 [''p1'', ''p2''] False (Some 60)"

definition sim_loop :: session_loop where
  "sim_loop = \<lparr> sl_state = sim_start, sl_fails = 0, sl_idles = 0 \<rparr>"

definition board_work :: work where
  "board_work = \<lparr> wk_source = Board, wk_range = Some ''5'', wk_why = None, wk_late = False, wk_appeared = None \<rparr>"


lemma sim_file: "file_laws sim_driver (\<lambda>w. fst (snd w))"
  by (auto simp: file_laws_def sim_driver_def split: list.split)

lemma sim_turn: "case session_turn default_session_config sim_driver (sim_loop, 0, Some sim_start, [board_work]) of
    Inl (l, w) \<Rightarrow> is_done (sl_state l) ''5'' \<and> attempts_of (sl_state l) ''5'' = 1 | Inr _ \<Rightarrow> False"
  by code_simp

lemma sim_step:
  obtains l w where "(session_step default_session_config sim_driver)\<^sup>*\<^sup>* (sim_loop, 0, Some sim_start, [board_work]) (l, w)"
    "is_done (sl_state l) ''5''" "attempts_of (sl_state l) ''5'' = 1"
proof -
  from sim_turn obtain l w where "session_step default_session_config sim_driver (sim_loop, 0, Some sim_start, [board_work]) (l, w)"
    "is_done (sl_state l) ''5''" "attempts_of (sl_state l) ''5'' = 1"
    by (auto simp: session_step_def split: sum.splits)
  then show thesis by (meson that r_into_rtranclp)
qed

text \<open>The same day with the calls of the prover written down: block 5 is asked for once and then refused.\<close>

definition recorded_day where
  "recorded_day = session_turn default_session_config (recording sim_driver) (sim_loop, (0, Some sim_start, [board_work, board_work]), [])"

lemma recorded_day_run:
  "case recorded_day of Inl (l, w) \<Rightarrow> map fst (snd w) = [''5''] \<and> attempts_of (sl_state l) ''5'' = 1 \<and>
       map fst (turn_tries (session_turn default_session_config (recording sim_driver) (l, w))) = [''5''] | Inr _ \<Rightarrow> False"
  by code_simp

theorem session_proves_once_witness:
  "\<exists>l w es. (session_step default_session_config (recording sim_driver))\<^sup>*\<^sup>* (sim_loop, (0, Some sim_start, [board_work, board_work]), []) (l, (w, es))
     \<and> (let turn = session_turn default_session_config (recording sim_driver) (l, (w, es)) in
         map fst (turn_tries turn) = [''5''] \<and> full_tries ''5'' (turn_tries turn) \<le> MAX_ATTEMPTS)"
proof -
  from recorded_day_run obtain l w es where d: "recorded_day = Inl (l, (w, es))"
    "map fst (turn_tries (session_turn default_session_config (recording sim_driver) (l, (w, es)))) = [''5'']"
    by (auto split: sum.splits)
  then have s: "(session_step default_session_config (recording sim_driver))\<^sup>*\<^sup>*
      (sim_loop, (0, Some sim_start, [board_work, board_work]), []) (l, (w, es))"
    by (intro r_into_rtranclp) (simp add: session_step_def recorded_day_def)
  have "book_ok (sl_state sim_loop)" by (simp add: sim_loop_def sim_start_def new_state_def book_ok_def attempts_of_def)
  from session_proves_once [OF s this refl] have
    "attempts_of (sl_state sim_loop) ''5'' + full_tries ''5'' (turn_tries (session_turn default_session_config (recording sim_driver) (l, (w, es)))) \<le> MAX_ATTEMPTS"
    using order_trans by blast
  then have "full_tries ''5'' (turn_tries (session_turn default_session_config (recording sim_driver) (l, (w, es)))) \<le> MAX_ATTEMPTS" by linarith
  with s d(2) show ?thesis unfolding Let_def by (intro exI [of _ l] exI [of _ w] exI [of _ es] conjI)
qed

theorem clock_starts_once_witness:
  "\<not> is_armed sim_start \<and> clock_origin (turn_state (session_turn default_session_config sim_driver
      (sim_loop, 30, Some sim_start, [(tip_work 8 False)\<lparr>wk_appeared := Some 20\<rparr>]))) = Some 20"
proof -
  let ?w = "(30, Some sim_start, [(tip_work 8 False)\<lparr>wk_appeared := Some 20\<rparr>])"
  have p: "case session_look sim_driver (sim_loop, ?w) of ((t, l1, est, wk), _) \<Rightarrow>
      plan_next (sl_state l1) t wk est (sc_budget default_session_config) = Prove ''8'' Tip (Some 20) \<and> t = 30"
    by code_simp
  have u: "\<not> is_armed (sl_state sim_loop)" by code_simp
  with p clock_starts_once [OF rtranclp.rtrancl_refl [of "session_step default_session_config sim_driver" "(sim_loop, ?w)"]]
  have "clock_origin (turn_state (session_turn default_session_config sim_driver (sim_loop, ?w))) = Some 20"
    by (auto split: prod.splits)
  with u show ?thesis by (simp add: sim_loop_def)
qed

theorem session_file_current_witness:
  "\<exists>l w st. (session_step default_session_config sim_driver)\<^sup>*\<^sup>* (sim_loop, 0, Some sim_start, [board_work]) (l, w)
     \<and> fst (snd w) = Some st \<and> is_done st ''5''"
proof -
  obtain l w where s: "(session_step default_session_config sim_driver)\<^sup>*\<^sup>* (sim_loop, 0, Some sim_start, [board_work]) (l, w)"
    "is_done (sl_state l) ''5''" by (rule sim_step)
  have "fst (snd (0 :: rat, Some sim_start, [board_work])) = Some (sl_state sim_loop)" by (simp add: sim_loop_def)
  from session_file_current [OF s(1) sim_file this] obtain st where "fst (snd w) = Some st" "is_done st = is_done (sl_state l)"
    by blast
  with s show ?thesis by metis
qed


section \<open>Pods\<close>

text \<open>
  Every pod asked about is answered exactly once: it is terminated only when this session rented it and
  it is not one of the protected two, and a pod that is kept is named with the reason.
\<close>

theorem terminable_own:
  "let out = terminable pods fleet in
     mset (ps_terminate out @ ps_protected out @ ps_not_ours out) = mset pods
     \<and> set (ps_terminate out) = set pods \<inter> set fleet - PROTECTED
     \<and> set (ps_protected out) = set pods \<inter> PROTECTED \<and> set (ps_not_ours out) = set pods - set fleet - PROTECTED
     \<and> sorted (ps_terminate out) \<and> sorted (ps_protected out) \<and> sorted (ps_not_ours out)"
proof -
  have "mset (filter (\<lambda>p. \<not> is_protected p \<and> p \<in> set fleet) xs) + mset (filter is_protected xs)
     + mset (filter (\<lambda>p. \<not> is_protected p \<and> p \<notin> set fleet) xs) = mset xs" for xs
    by (induction xs) auto
  then show ?thesis by (auto simp: terminable_def is_protected_def Let_def add.assoc)
qed

end
