(* ===== verification/Tip_Lifecycle.thy ===== *)
theory Tip_Lifecycle
  imports Tip_Fleet Tip_Session
begin

text \<open>
  Which cards may be used and which are let go (\<open>coordinator/tip_lifecycle.py\<close>): qualification, ranking, the
  cards kept and released, the report of a screening run, the levers forwarded to the cards, and the two
  gates on reaching the aggregate. A dict is a record of the keys the code reads, None where the key is
  missing or \<open>null\<close>; the sentences that explain a verdict are constructors. The lemmas show that a card is used
  only after its smoke prove, that the fleet splits into kept and released cards, and when the gates open.
\<close>

section \<open>The key of the rig\<close>

definition CANONICAL_METHOD_ID :: string where
  "CANONICAL_METHOD_ID = ''37987b85ec665970ac6c5e8031deb8160ac8ed846f09056c3790b5f78c8bb5dd''"

definition BRIDGE_METHOD_ID :: string where
  "BRIDGE_METHOD_ID = ''fb4d7352''"

text \<open>\<open>os.path.abspath\<close> is a parameter; an unset variable is None. None is the \<open>SystemExit\<close>.\<close>

definition key_path :: "(string \<Rightarrow> string) \<Rightarrow> string option \<Rightarrow> string option \<Rightarrow> string option" where
  "key_path abspath key_file bot_home =
     (case key_file of None \<Rightarrow> None | Some path \<Rightarrow>
        if path = [] then None
        else case bot_home of None \<Rightarrow> Some path
          | Some home \<Rightarrow> if prefixed (abspath home @ ''/'') (abspath path) then None else Some path)"

section \<open>Qualification\<close>

record card_report =
  cr_reachable :: bool
  cr_method_id :: "string option"
  cr_binary_sha :: "string option"
  cr_expect_sha :: "string option"
  cr_smoke_ok :: bool

datatype verdict = Ok | Unreachable | No_Method_Id | Bridge_Guest | Not_Canonical | Wrong_Binary | No_Smoke

definition text_set :: "string option \<Rightarrow> bool" where
  "text_set x \<longleftrightarrow> x \<noteq> None \<and> x \<noteq> Some []"

definition qualify :: "card_report \<Rightarrow> verdict" where
  "qualify report =
     (if \<not> cr_reachable report then Unreachable
      else let mid = lower (py_strip (or_empty (cr_method_id report))) in
        if mid = [] then No_Method_Id
        else if prefixed BRIDGE_METHOD_ID mid then Bridge_Guest
        else if mid \<noteq> CANONICAL_METHOD_ID then Not_Canonical
        else if text_set (cr_binary_sha report) \<and> text_set (cr_expect_sha report)
             \<and> cr_binary_sha report \<noteq> cr_expect_sha report then Wrong_Binary
        else if \<not> cr_smoke_ok report then No_Smoke
        else Ok)"

section \<open>Ranking, keeping and releasing\<close>

record rig_card =
  rc_id :: string
  rc_qualified :: bool
  rc_rate :: "rat option"
  rc_price :: "rat option"

definition or_zero :: "rat option \<Rightarrow> rat" where
  "or_zero x = (case x of None \<Rightarrow> 0 | Some r \<Rightarrow> r)"

definition rank_key :: "rig_card \<Rightarrow> nat \<times> rat \<times> rat \<times> string" where
  "rank_key c = (if or_zero (rc_rate c) \<noteq> 0 then 0 else 1, - or_zero (rc_rate c), or_zero (rc_price c), rc_id c)"

definition rank :: "rig_card list \<Rightarrow> rig_card list" where
  "rank cards = sort_key rank_key (filter rc_qualified cards)"

definition median :: "rat option list \<Rightarrow> rat option" where
  "median values = (let vs = map the (filter (\<lambda>v. v \<noteq> None) values) in if vs = [] then None else Some (median_of vs))"

record fleet_split =
  fs_keep :: "rig_card list"
  fs_release :: "rig_card list"
  fs_median :: "rat option"

definition too_slow :: "rat option \<Rightarrow> rat \<Rightarrow> rig_card \<Rightarrow> bool" where
  "too_slow med fraction c = (case (med, rc_rate c) of (Some m, Some r) \<Rightarrow> r < m * fraction | _ \<Rightarrow> False)"

fun split_ranked :: "nat \<Rightarrow> (rig_card \<Rightarrow> bool) \<Rightarrow> rig_card list \<Rightarrow> rig_card list \<times> rig_card list" where
  "split_ranked n slow [] = ([], [])"
| "split_ranked n slow (c # cs) = (let (keep, release) = split_ranked (n - 1) slow cs in
     if 0 < n \<and> \<not> slow c then (c # keep, release) else (keep, c # release))"

definition keep_and_release :: "rat \<Rightarrow> rig_card list \<Rightarrow> nat \<Rightarrow> fleet_split" where
  "keep_and_release min_fraction cards want =
     (let ranked = rank cards; med = median (map rc_rate ranked);
          (keep, release) = split_ranked want (too_slow med min_fraction) ranked
      in \<lparr> fs_keep = keep, fs_release = release @ filter (\<lambda>c. \<not> rc_qualified c) cards, fs_median = med \<rparr>)"

section \<open>The screening run\<close>

record screen =
  scr_rc :: "int option"
  scr_segments :: "int option"
  scr_s_per_segment :: "rat option"

datatype screen_note = No_Note | Cuda_Compat | Exited "int option" | Too_Few int | No_Rate

record screen_report =
  srp_report :: card_report
  srp_rate :: "rat option"
  srp_segments :: int
  srp_note :: screen_note

definition report_from_screen ::
    "int \<Rightarrow> screen option \<Rightarrow> string option \<Rightarrow> string option \<Rightarrow> string option \<Rightarrow> string \<Rightarrow> screen_report" where
  "report_from_screen min_segments scr method_id binary_sha expect_sha output =
     (let rc = Option.bind scr scr_rc;
          segs = (case Option.bind scr scr_segments of None \<Rightarrow> 0 | Some n \<Rightarrow> n);
          sps = Option.bind scr scr_s_per_segment;
          timed = (sps \<noteq> None \<and> sps \<noteq> Some 0);
          smoke_ok = (rc = Some 0 \<and> segs \<ge> min_segments \<and> timed)
      in \<lparr> srp_report = \<lparr> cr_reachable = True, cr_method_id = method_id, cr_binary_sha = binary_sha,
                         cr_expect_sha = expect_sha, cr_smoke_ok = smoke_ok \<rparr>,
           srp_rate = (if timed then Some (1 / the sps) else None), srp_segments = segs,
           srp_note = (if smoke_ok then No_Note
              else if infix_of ''cuda error 804'' (lower output) then Cuda_Compat
              else if rc \<noteq> Some 0 then Exited rc
              else if segs < min_segments then Too_Few segs
              else No_Rate) \<rparr>)"

section \<open>Levers and the bind\<close>

definition RESERVED_ENV :: "string list" where
  "RESERVED_ENV = [''HAZYNC_AGG'', ''HAZYNC_AGG_OUT'', ''HAZYNC_BIND'', ''HAZYNC_BLOCK'', ''HAZYNC_BLOCK_NAME'',
     ''HAZYNC_BRIDGE_OUT'', ''HAZYNC_CHUNK'', ''HAZYNC_CHUNKS'', ''HAZYNC_HOME'', ''HAZYNC_HOST_BYTES'',
     ''HAZYNC_HOST_URL'', ''HAZYNC_OUT'', ''HAZYNC_PORT'', ''HAZYNC_PUBLISH_DEST'', ''HAZYNC_PUBLISH_KEY'',
     ''HAZYNC_RANGE'', ''HAZYNC_SEG_REMOTE'', ''HAZYNC_TIP_FANOUT'', ''HAZYNC_WORKDIR'', ''HAZYNC_WORKER_ID'']"

definition lever_env :: "(string \<times> string) list \<Rightarrow> (string \<times> string) list" where
  "lever_env environ = filter (\<lambda>(k, v). prefixed ''HAZYNC_'' k \<and> k \<notin> set RESERVED_ENV) (sort_key fst environ)"

definition PUBLIC_BIND :: string where
  "PUBLIC_BIND = ''0.0.0.0''"

definition LOOPBACK_BINDS :: "string list" where
  "LOOPBACK_BINDS = [''127.0.0.1'', ''localhost'', ''::1'']"

definition effective_bind :: "(string \<rightharpoonup> string) \<Rightarrow> string" where
  "effective_bind env =
     (if text_set (env ''HAZYNC_BIND'') then the (env ''HAZYNC_BIND'')
      else if env ''HAZYNC_SEG_REMOTE'' = Some ''1'' then PUBLIC_BIND else ''127.0.0.1'')"

datatype bind_answer = Bind_Ok | Bind_Wider | Cannot_Attach | Public_Port

definition bind_verdict :: "(string \<rightharpoonup> string) \<Rightarrow> bool \<Rightarrow> bool \<Rightarrow> bind_answer" where
  "bind_verdict env cards_are_remote accept_public =
     (let bnd = effective_bind env in
      if cards_are_remote \<and> bnd \<in> set LOOPBACK_BINDS then Cannot_Attach
      else if bnd = PUBLIC_BIND \<and> \<not> accept_public then Public_Port
      else if \<not> cards_are_remote \<and> bnd \<notin> set LOOPBACK_BINDS then Bind_Wider
      else Bind_Ok)"

section \<open>Reaching the aggregate\<close>

record net_row =
  nr_ok :: nat
  nr_bad :: nat
  nr_cards :: "string list"

text \<open>The /24 of an address, the host itself where it is no such address, \<open>?\<close> where nothing is known.\<close>

definition net_block :: "string \<Rightarrow> string" where
  "net_block host =
     (if length (filter (\<lambda>c. c = CHR ''.'') host) \<ge> 3
      then (case py_split CHR ''.'' host of a # b # c # _ \<Rightarrow> a @ ''.'' @ b @ ''.'' @ c | _ \<Rightarrow> host)
      else if host = [] then ''?'' else host)"

text \<open>\<open>setdefault\<close> and the counting: \<open>rows\<close> is the dict in its order.\<close>

fun count_reach :: "string \<Rightarrow> bool \<Rightarrow> string \<Rightarrow> (string \<times> net_row) list \<Rightarrow> (string \<times> net_row) list" where
  "count_reach b reached cid [] =
     [(b, \<lparr> nr_ok = (if reached then 1 else 0), nr_bad = (if reached then 0 else 1), nr_cards = [cid] \<rparr>)]"
| "count_reach b reached cid ((k, row) # rows) =
     (if k = b then (k, row\<lparr> nr_ok := nr_ok row + (if reached then 1 else 0),
                             nr_bad := nr_bad row + (if reached then 0 else 1), nr_cards := nr_cards row @ [cid] \<rparr>) # rows
      else (k, row) # count_reach b reached cid rows)"

definition reachability_by_block :: "(string \<times> bool) list \<Rightarrow> (string \<rightharpoonup> string) \<Rightarrow> (string \<times> net_row) list" where
  "reachability_by_block results hosts =
     map (\<lambda>(b, row). (b, row\<lparr>nr_cards := sort (nr_cards row)\<rparr>))
       (fold (\<lambda>(cid, reached). count_reach (net_block (or_empty (hosts cid))) reached cid) results [])"

definition reachability_is_structural :: "(string \<times> net_row) list \<Rightarrow> bool" where
  "reachability_is_structural by_block \<longleftrightarrow>
     \<not> length by_block < 2
     \<and> list_all (\<lambda>(_, row). nr_ok row = 0 \<or> nr_bad row = 0) by_block
     \<and> list_ex (\<lambda>(_, row). nr_bad row \<noteq> 0) by_block \<and> list_ex (\<lambda>(_, row). nr_ok row \<noteq> 0) by_block"

datatype reach_answer = Reach_Ok | Nobody_Probed | Cannot_Reach "string list"

definition reachability_verdict :: "(string \<times> bool) list \<Rightarrow> reach_answer" where
  "reachability_verdict results =
     (let unreachable = sort (map fst (filter (\<lambda>(c, ok). \<not> ok) results))
      in if results = [] then Nobody_Probed else if unreachable \<noteq> [] then Cannot_Reach unreachable else Reach_Ok)"

definition spend_so_far :: "rig_card list \<Rightarrow> rat \<Rightarrow> rat" where
  "spend_so_far cards secs = py_round 3 (sum_list (map (\<lambda>c. or_zero (rc_price c)) cards) * (secs / 3600))"

section \<open>Lemmas\<close>

text \<open>A card is given a chunk only when it was reached, runs the canonical guest and its smoke prove verified.\<close>

lemma qualify_ok:
  "qualify r = Ok \<longleftrightarrow> cr_reachable r \<and> lower (py_strip (or_empty (cr_method_id r))) = CANONICAL_METHOD_ID \<and> cr_smoke_ok r
     \<and> (text_set (cr_binary_sha r) \<and> text_set (cr_expect_sha r) \<longrightarrow> cr_binary_sha r = cr_expect_sha r)"
  by (auto simp: qualify_def Let_def CANONICAL_METHOD_ID_def BRIDGE_METHOD_ID_def prefixed_def)

lemma screen_qualifies:
  "qualify (srp_report (report_from_screen n scr mid sha expect out)) = Ok \<Longrightarrow>
   \<exists>s. scr = Some s \<and> scr_rc s = Some 0 \<and> n \<le> srp_segments (report_from_screen n scr mid sha expect out)
     \<and> srp_rate (report_from_screen n scr mid sha expect out) \<noteq> None"
  by (cases scr) (auto simp: qualify_ok report_from_screen_def Let_def)

lemma split_ranked_mset: "split_ranked n slow cs = (k, r) \<Longrightarrow> mset k + mset r = mset cs"
  by (induction n slow cs arbitrary: k r rule: split_ranked.induct) (auto simp: Let_def split: if_splits prod.splits)

lemma split_ranked_keep:
  "split_ranked n slow cs = (k, r) \<Longrightarrow> k = filter (\<lambda>c. \<not> slow c) (take n cs) \<and> set k \<subseteq> set cs"
proof (induction cs arbitrary: n k r)
  case (Cons c cs)
  obtain k1 r1 where kr: "split_ranked (n - 1) slow cs = (k1, r1)" by fastforce
  from Cons.IH [OF kr] Cons.prems kr show ?case by (cases n) (auto simp: Let_def split: if_splits)
qed simp

lemma median_le_first:
  assumes "sorted (rev xs)" "xs \<noteq> []"
  shows "median_of xs \<le> hd xs"
proof -
  have le: "x \<le> hd xs" if "x \<in> set xs" for x
    using assms that by (cases xs) (auto simp: sorted_append)
  have "sort xs ! i \<in> set xs" if "i < length xs" for i using that by (metis length_sort nth_mem set_sort)
  then have i: "sort xs ! i \<le> hd xs" if "i < length xs" for i using that le by blast
  have n: "0 < length xs" using assms(2) by simp
  then have "length xs div 2 < length xs" "length xs div 2 - 1 < length xs" by linarith+
  from i [OF this(1)] i [OF this(2)] show ?thesis by (auto simp: median_of_def Let_def)
qed

definition measured_rates :: "rig_card list \<Rightarrow> rat list" where
  "measured_rates cs = map the (filter (\<lambda>v. v \<noteq> None) (map rc_rate cs))"

lemma median_rates: "median (map rc_rate cs) = (if measured_rates cs = [] then None else Some (median_of (measured_rates cs)))"
  by (simp add: median_def measured_rates_def Let_def)

lemma rank_key_rate:
  assumes "rank_key c \<le> rank_key d" "rc_rate d = Some r" "0 < r" "\<And>x. rc_rate c = Some x \<Longrightarrow> 0 < x"
  shows "\<exists>q \<ge> r. rc_rate c = Some q"
  using assms by (cases "rc_rate c") (auto simp: rank_key_def or_zero_def less_eq_prod_simp split: if_splits)

lemma ranked_rates:
  assumes "\<And>c r. c \<in> set cs \<Longrightarrow> rc_rate c = Some r \<Longrightarrow> 0 < r" "sorted (map rank_key cs)"
  shows "sorted (rev (measured_rates cs)) \<and> (measured_rates cs \<noteq> [] \<longrightarrow> rc_rate (hd cs) = Some (hd (measured_rates cs)))"
  using assms
proof (induction cs)
  case Nil
  then show ?case by (simp add: measured_rates_def)
next
  case (Cons c cs)
  have le: "\<exists>q \<ge> r. rc_rate c = Some q" if "r \<in> set (measured_rates cs)" for r
  proof -
    from that obtain d where "d \<in> set cs" "rc_rate d = Some r" by (auto simp: measured_rates_def)
    with Cons.prems show ?thesis by (intro rank_key_rate [of c d r]) auto
  qed
  have ih: "sorted (rev (measured_rates cs))"
    by (rule conjunct1 [OF Cons.IH]) (use Cons.prems in auto)
  show ?case
  proof (cases "rc_rate c")
    case None
    then have "measured_rates cs = []" using le by (cases "measured_rates cs") auto
    with None show ?thesis by (simp add: measured_rates_def)
  next
    case (Some q)
    then have "measured_rates (c # cs) = q # measured_rates cs" by (simp add: measured_rates_def)
    with ih le Some show ?thesis by (auto simp: sorted_append)
  qed
qed

text \<open>
  The fleet is split, no card lost: the kept ones are qualified, at most the number wanted, the fastest
  first and not below the fraction of the median; a card without a measured rate is never released as slow; and
  as long as one card is wanted and one qualifies, the fleet is not emptied.
\<close>

theorem keep_and_release_sound:
  assumes "s = keep_and_release fraction cards want" "fraction \<le> 1" "0 \<le> fraction"
    and "\<And>c r. c \<in> set cards \<Longrightarrow> rc_rate c = Some r \<Longrightarrow> 0 < r"
  shows "mset (fs_keep s) + mset (fs_release s) = mset cards
    \<and> length (fs_keep s) \<le> want \<and> (\<forall>c \<in> set (fs_keep s). rc_qualified c \<and> \<not> too_slow (fs_median s) fraction c)
    \<and> sorted (map rank_key (fs_keep s))
    \<and> (\<forall>c \<in> set (take want (rank cards)). rc_rate c = None \<longrightarrow> c \<in> set (fs_keep s))
    \<and> (0 < want \<and> (\<exists>c \<in> set cards. rc_qualified c) \<longrightarrow> fs_keep s \<noteq> [])"
proof -
  let ?med = "median (map rc_rate (rank cards))"
  obtain k r where kr: "split_ranked want (too_slow ?med fraction) (rank cards) = (k, r)" by fastforce
  then have s: "fs_keep s = k" "fs_release s = r @ filter (\<lambda>c. \<not> rc_qualified c) cards" "fs_median s = ?med"
    by (simp_all add: assms(1) keep_and_release_def Let_def)
  from split_ranked_keep [OF kr] have k: "k = filter (\<lambda>c. \<not> too_slow ?med fraction c) (take want (rank cards))" by simp
  have sub: "set (rank cards) = {c \<in> set cards. rc_qualified c}" by (auto simp: rank_def)
  have "mset (rank cards) + mset (filter (\<lambda>c. \<not> rc_qualified c) cards) = mset cards"
    by (simp add: rank_def multiset_partition [symmetric])
  with split_ranked_mset [OF kr] have m: "mset k + mset (r @ filter (\<lambda>c. \<not> rc_qualified c) cards) = mset cards"
    by (simp add: add.assoc [symmetric])
  have srt: "sorted (map rank_key (rank cards))" by (simp add: rank_def)
  then have sk: "sorted (map rank_key k)"
    unfolding k by (simp add: sorted_wrt_map sorted_wrt_filter sorted_wrt_take)
  have ne: "k \<noteq> []" if "0 < want" "rank cards \<noteq> []"
  proof -
    obtain c cs where c: "rank cards = c # cs" using \<open>rank cards \<noteq> []\<close> by (cases "rank cards") auto
    from ranked_rates [of "rank cards"] assms(4) srt sub
    have rr: "sorted (rev (measured_rates (rank cards)))"
      "measured_rates (rank cards) \<noteq> [] \<Longrightarrow> rc_rate c = Some (hd (measured_rates (rank cards)))"
      by (auto simp: c)
    have "\<not> too_slow ?med fraction c"
    proof (cases "measured_rates (rank cards) = []")
      case True
      then show ?thesis by (simp add: too_slow_def median_rates)
    next
      case False
      let ?q = "hd (measured_rates (rank cards))" and ?m = "median_of (measured_rates (rank cards))"
      have q: "rc_rate c = Some ?q" by (rule rr(2) [OF False])
      have "0 < ?q" using q assms(4) [of c] sub c by auto
      moreover have "?m * fraction \<le> ?q * fraction"
        by (rule mult_right_mono [OF median_le_first [OF rr(1) False] assms(3)])
      ultimately have "?m * fraction \<le> ?q" using mult_left_le [OF assms(2), of ?q] by linarith
      with False q show ?thesis by (simp add: too_slow_def median_rates)
    qed
    with \<open>0 < want\<close> show ?thesis by (cases want) (auto simp: k c)
  qed
  have "length k \<le> want" by (simp add: k le_trans [OF length_filter_le])
  moreover have "\<forall>c \<in> set k. rc_qualified c \<and> \<not> too_slow ?med fraction c" using sub by (auto simp: k dest: in_set_takeD)
  moreover have "\<forall>c \<in> set (take want (rank cards)). rc_rate c = None \<longrightarrow> c \<in> set k"
    by (auto simp: k too_slow_def split: option.split)
  moreover have "0 < want \<and> (\<exists>c \<in> set cards. rc_qualified c) \<longrightarrow> k \<noteq> []" using ne sub by fastforce
  ultimately show ?thesis using m sk by (simp add: s)
qed

definition rig :: "rig_card list" where
  "rig = [\<lparr> rc_id = ''a'', rc_qualified = True, rc_rate = Some 2, rc_price = Some (3 / 4) \<rparr>,
     \<lparr> rc_id = ''b'', rc_qualified = True, rc_rate = Some (1 / 2), rc_price = None \<rparr>,
     \<lparr> rc_id = ''c'', rc_qualified = False, rc_rate = Some 9, rc_price = None \<rparr>,
     \<lparr> rc_id = ''d'', rc_qualified = True, rc_rate = None, rc_price = None \<rparr>,
     \<lparr> rc_id = ''e'', rc_qualified = True, rc_rate = Some 3, rc_price = None \<rparr>]"

theorem keep_and_release_sound_witness:
  "map rc_id (fs_keep (keep_and_release (3 / 5) rig 4)) = [''e'', ''a'', ''d'']
   \<and> length (fs_release (keep_and_release (3 / 5) rig 4)) = 2"
proof -
  have k: "map rc_id (fs_keep (keep_and_release (3 / 5) rig 4)) = [''e'', ''a'', ''d'']" by code_simp
  have "0 < r" if "c \<in> set rig" "rc_rate c = Some r" for c r using that by (auto simp: rig_def)
  then have "mset (fs_keep (keep_and_release (3 / 5) rig 4)) + mset (fs_release (keep_and_release (3 / 5) rig 4)) = mset rig"
    using keep_and_release_sound [OF refl, of "3 / 5" rig 4] by simp
  then have "length (fs_keep (keep_and_release (3 / 5) rig 4)) + length (fs_release (keep_and_release (3 / 5) rig 4)) = length rig"
    by (metis size_mset size_union)
  moreover have "length (fs_keep (keep_and_release (3 / 5) rig 4)) = 3" using arg_cong [OF k, of length] by simp
  ultimately show ?thesis using k by (simp add: rig_def)
qed

section \<open>Reachability by network\<close>

definition reach_row :: "(string \<times> bool) list \<Rightarrow> (string \<rightharpoonup> string) \<Rightarrow> string \<Rightarrow> net_row" where
  "reach_row results hosts b = (let here = filter (\<lambda>(cid, ok). net_block (or_empty (hosts cid)) = b) results in
     \<lparr> nr_ok = length (filter snd here), nr_bad = length (filter (\<lambda>x. \<not> snd x) here), nr_cards = sort (map fst here) \<rparr>)"

lemma count_reach_keys:
  "fst ` set (count_reach b ok cid rows) = insert b (fst ` set rows)
   \<and> (distinct (map fst rows) \<longrightarrow> distinct (map fst (count_reach b ok cid rows)))"
proof (induction rows)
  case (Cons r rows)
  obtain k row where "r = (k, row)" by fastforce
  with Cons show ?case by (auto simp: image_iff)
qed simp

lemma count_reach_get:
  "map_of (count_reach b ok cid rows) k = (if k = b then Some (case map_of rows b of
      None \<Rightarrow> \<lparr> nr_ok = (if ok then 1 else 0), nr_bad = (if ok then 0 else 1), nr_cards = [cid] \<rparr>
    | Some row \<Rightarrow> row\<lparr> nr_ok := nr_ok row + (if ok then 1 else 0), nr_bad := nr_bad row + (if ok then 0 else 1),
                       nr_cards := nr_cards row @ [cid] \<rparr>) else map_of rows k)"
  by (induction rows) auto

definition block_of :: "(string \<rightharpoonup> string) \<Rightarrow> string \<Rightarrow> string" where
  "block_of hosts cid = net_block (or_empty (hosts cid))"

definition reach_rows :: "(string \<rightharpoonup> string) \<Rightarrow> (string \<times> bool) list \<Rightarrow> (string \<times> net_row) list" where
  "reach_rows hosts results = fold (\<lambda>(cid, reached). count_reach (block_of hosts cid) reached cid) results []"

definition here :: "(string \<rightharpoonup> string) \<Rightarrow> string \<Rightarrow> (string \<times> bool) list \<Rightarrow> (string \<times> bool) list" where
  "here hosts b results = filter (\<lambda>(cid, ok). block_of hosts cid = b) results"

lemma here_snoc: "here hosts b (rs @ [(cid, ok)]) = (if block_of hosts cid = b then here hosts b rs @ [(cid, ok)] else here hosts b rs)"
  by (simp add: here_def)

lemma here_mem: "x \<in> set (here hosts b results) \<longleftrightarrow> x \<in> set results \<and> block_of hosts (fst x) = b"
  by (auto simp: here_def)

lemma reach_rows_snoc:
  "reach_rows hosts (rs @ [(cid, ok)]) = count_reach (block_of hosts cid) ok cid (reach_rows hosts rs)"
  by (simp add: reach_rows_def)

lemma reach_rows_get:
  "map_of (reach_rows hosts results) b = (if here hosts b results = [] then None else
     Some \<lparr> nr_ok = length (filter snd (here hosts b results)), nr_bad = length (filter (\<lambda>x. \<not> snd x) (here hosts b results)),
            nr_cards = map fst (here hosts b results) \<rparr>)"
proof (induction results rule: rev_induct)
  case (snoc x results)
  obtain cid ok where x: "x = (cid, ok)" by fastforce
  show ?case using snoc.IH by (auto simp: x reach_rows_snoc here_snoc count_reach_get)
qed (simp add: reach_rows_def here_def)

lemma reach_rows_distinct: "distinct (map fst (reach_rows hosts results))"
proof (induction results rule: rev_induct)
  case (snoc x results)
  obtain cid ok where "x = (cid, ok)" by fastforce
  with snoc.IH count_reach_keys show ?case by (simp add: reach_rows_def)
qed (simp add: reach_rows_def)

lemma reach_rows_mem:
  "(b, row) \<in> set (reach_rows hosts results) \<longleftrightarrow> here hosts b results \<noteq> [] \<and>
     row = \<lparr> nr_ok = length (filter snd (here hosts b results)), nr_bad = length (filter (\<lambda>x. \<not> snd x) (here hosts b results)),
            nr_cards = map fst (here hosts b results) \<rparr>"
  using map_of_eq_Some_iff [OF reach_rows_distinct, of hosts results b row] by (auto simp: reach_rows_get split: if_splits)

lemma by_block_rows: "reachability_by_block results hosts = map (\<lambda>(b, row). (b, row\<lparr>nr_cards := sort (nr_cards row)\<rparr>)) (reach_rows hosts results)"
  by (simp add: reachability_by_block_def reach_rows_def block_of_def)

text \<open>
  The failure to reach the aggregate is called structural exactly when the network block of a card decides
  it: any two cards of one block fare alike, and there are cards of either kind.
\<close>

theorem structural_exact:
  "reachability_is_structural (reachability_by_block results hosts) \<longleftrightarrow>
     (\<forall>(c, ok) \<in> set results. \<forall>(d, ok') \<in> set results. block_of hosts c = block_of hosts d \<longrightarrow> ok = ok')
     \<and> (\<exists>c. (c, True) \<in> set results) \<and> (\<exists>c. (c, False) \<in> set results)"
proof -
  let ?R = "reach_rows hosts results"
  define row_at where "row_at b = \<lparr> nr_ok = length (filter snd (here hosts b results)),
    nr_bad = length (filter (\<lambda>x. \<not> snd x) (here hosts b results)), nr_cards = map fst (here hosts b results) \<rparr>" for b
  have mem: "(b, row) \<in> set ?R \<longleftrightarrow> here hosts b results \<noteq> [] \<and> row = row_at b" for b row
    by (simp add: reach_rows_mem row_at_def)
  have lhs: "(\<forall>(b, row) \<in> set ?R. nr_ok row = 0 \<or> nr_bad row = 0) \<longleftrightarrow>
    (\<forall>b. here hosts b results \<noteq> [] \<longrightarrow> nr_ok (row_at b) = 0 \<or> nr_bad (row_at b) = 0)"
    using mem by (metis (mono_tags, lifting) case_prodD case_prodI2)
  have q: "nr_ok (row_at b) = 0 \<or> nr_bad (row_at b) = 0 \<longleftrightarrow>
    (\<forall>x \<in> set (here hosts b results). \<not> snd x) \<or> (\<forall>x \<in> set (here hosts b results). snd x)" for b
    by (auto simp: row_at_def filter_empty_conv)
  have all: "(\<forall>(b, row) \<in> set ?R. nr_ok row = 0 \<or> nr_bad row = 0) \<longleftrightarrow>
    (\<forall>b. (\<forall>x \<in> set (here hosts b results). \<not> snd x) \<or> (\<forall>x \<in> set (here hosts b results). snd x))"
    unfolding lhs q by (metis empty_iff empty_set)
  have pure: "(\<forall>(b, row) \<in> set ?R. nr_ok row = 0 \<or> nr_bad row = 0) \<longleftrightarrow>
    (\<forall>(c, ok) \<in> set results. \<forall>(d, ok') \<in> set results. block_of hosts c = block_of hosts d \<longrightarrow> ok = ok')"
    unfolding all unfolding Ball_def here_mem case_prod_unfold by metis
  have ex: "(\<exists>(b, row) \<in> set ?R. P row) \<longleftrightarrow> (\<exists>b. here hosts b results \<noteq> [] \<and> P (row_at b))" for P
    using mem by (metis (mono_tags, lifting) case_prodE case_prodI)
  have mem': "(c, ok) \<in> set (here hosts b results) \<longleftrightarrow> (c, ok) \<in> set results \<and> block_of hosts c = b" for c ok b
    by (simp add: here_mem)
  have "here hosts b results \<noteq> [] \<and> nr_bad (row_at b) \<noteq> 0 \<longleftrightarrow> (\<exists>c. (c, False) \<in> set (here hosts b results))"
    "here hosts b results \<noteq> [] \<and> nr_ok (row_at b) \<noteq> 0 \<longleftrightarrow> (\<exists>c. (c, True) \<in> set (here hosts b results))" for b
    by (force simp: row_at_def filter_empty_conv)+
  then have bad: "(\<exists>(b, row) \<in> set ?R. nr_bad row \<noteq> 0) \<longleftrightarrow> (\<exists>c. (c, False) \<in> set results)"
    and good: "(\<exists>(b, row) \<in> set ?R. nr_ok row \<noteq> 0) \<longleftrightarrow> (\<exists>c. (c, True) \<in> set results)"
    unfolding ex mem' by auto
  have two: "\<not> length ?R < 2" if "\<forall>(b, row) \<in> set ?R. nr_ok row = 0 \<or> nr_bad row = 0"
    "\<exists>(b, row) \<in> set ?R. nr_bad row \<noteq> 0" "\<exists>(b, row) \<in> set ?R. nr_ok row \<noteq> 0"
    using that by (cases ?R; cases "tl ?R") auto
  show ?thesis
    unfolding pure [symmetric] bad [symmetric] good [symmetric] reachability_is_structural_def by_block_rows
    using two by (auto simp: list_all_iff list_ex_iff case_prod_unfold)
qed

text \<open>Two networks: the cards of one reach the aggregate, those of the other do not.\<close>

theorem structural_exact_witness:
  "reachability_is_structural (reachability_by_block [(''a'', True), (''b'', False), (''c'', True)]
     (\<lambda>c. if c = ''b'' then Some ''69.30.85.4'' else Some ''194.68.245.9''))
   \<and> block_of (\<lambda>c. Some ''194.68.245.9'') ''a'' = ''194.68.245''"
proof
  let ?hosts = "\<lambda>c. if c = ''b'' then Some ''69.30.85.4'' else Some ''194.68.245.9''"
  have b: "block_of ?hosts ''b'' = ''69.30.85''" "block_of ?hosts ''a'' = ''194.68.245''" "block_of ?hosts ''c'' = ''194.68.245''"
    by code_simp+
  show "reachability_is_structural (reachability_by_block [(''a'', True), (''b'', False), (''c'', True)] ?hosts)"
    unfolding structural_exact [of "[(''a'', True), (''b'', False), (''c'', True)]" ?hosts] using b by auto
  show "block_of (\<lambda>c. Some ''194.68.245.9'') ''a'' = ''194.68.245''" by code_simp
qed

end
