(* ===== verification/Tip_Run.thy ===== *)
theory Tip_Run
  imports Tip_Lifecycle
begin

text \<open>
  One block from start to receipt (\<open>coordinator/tip_run.py\<close>), and what of the runner it drives is decided in
  the code (\<open>coordinator/tip_runner.py\<close>): reading the aggregate's status, where a receipt is fetched from.
  The runner's actions on the cards are parameters that act on a world of any type; a bounded loop of the
  code recurses on its bound. The telemetry feed and the log messages are left out. The lemmas show
  in which order a run acts, whatever the cards answer, and that an abandoned run is torn down.
\<close>

section \<open>The runner\<close>

record agg_status =
  as_verified :: bool
  as_unreachable :: bool
  as_alive :: bool
  as_digest :: "string option"
  as_joins :: "string option"
  as_segments :: "string option"

record ('c, 'w) runner =
  rn_clear :: "(nat \<times> 'c) list \<Rightarrow> 'w \<Rightarrow> ('c \<times> string option) list \<times> 'w"
  rn_launch_all :: "(nat \<times> 'c) list \<Rightarrow> 'w \<Rightarrow> 'w"
  rn_arm :: "(nat \<times> 'c) list \<Rightarrow> 'w \<Rightarrow> 'w"
  rn_probe_all :: "(nat \<times> 'c) list \<Rightarrow> nat set \<Rightarrow> 'w \<Rightarrow> ('c \<Rightarrow> string option) \<times> 'w"
  rn_stage :: "'c \<Rightarrow> nat \<Rightarrow> nat set \<Rightarrow> 'w \<Rightarrow> bool \<times> 'w"
  rn_kill :: "'c \<Rightarrow> 'w \<Rightarrow> 'w"
  rn_relaunch :: "'c \<Rightarrow> nat \<Rightarrow> 'w \<Rightarrow> 'w"
  rn_staged_count :: "'w \<Rightarrow> int option \<times> 'w"
  rn_start_aggregate :: "'w \<Rightarrow> 'w"
  rn_status :: "'w \<Rightarrow> agg_status \<times> 'w"
  rn_start_range :: "'w \<Rightarrow> bool \<times> 'w"
  rn_stop_range :: "'w \<Rightarrow> bool \<times> 'w"
  rn_disarm :: "(nat \<times> 'c) list \<Rightarrow> 'w \<Rightarrow> 'w"
  rn_now :: "'w \<Rightarrow> rat \<times> 'w"
  rn_sleep :: "rat \<Rightarrow> 'w \<Rightarrow> 'w"

section \<open>What the runner reads\<close>

text \<open>The directory a relaunched chunk works in, and the one its receipt is fetched from.\<close>

definition redo_dir :: "string \<Rightarrow> nat \<Rightarrow> string" where
  "redo_dir workdir chunk = workdir @ ''/re'' @ nat_str chunk"

definition receipt_path :: "string \<Rightarrow> nat \<Rightarrow> nat set \<Rightarrow> string" where
  "receipt_path workdir chunk reassigned =
     (if chunk \<in> reassigned then redo_dir workdir chunk else workdir) @ ''/chunk_'' @ nat_str chunk @ ''.bin''"

text \<open>
  The status read from what the aggregate's log shows, None where the card did not answer: the first word of 64
  characters in the last line that speaks of a digest, and the lines the remote command labels.
\<close>

definition digest_words :: "string \<Rightarrow> string list" where
  "digest_words line = filter (\<lambda>u. length u = 64) (py_words line)"

definition labelled :: "string \<Rightarrow> string list \<Rightarrow> string option" where
  "labelled l lines = (case find (prefixed l) lines of None \<Rightarrow> None
     | Some line \<Rightarrow> (let v = py_strip (drop (length l) line) in if v = [] then None else Some v))"

definition aggregate_status :: "string option \<Rightarrow> agg_status" where
  "aggregate_status out = (case out of
       None \<Rightarrow> \<lparr> as_verified = False, as_unreachable = True, as_alive = True, as_digest = None, as_joins = None, as_segments = None \<rparr>
     | Some t \<Rightarrow> (let lines = py_splitlines t in
         \<lparr> as_verified = infix_of ''VERIFIED'' t, as_unreachable = False,
           as_alive = list_ex (\<lambda>l. prefixed ''ALIVE:'' l \<and> py_strip (drop 6 l) \<notin> {[], ''0''}) lines,
           as_digest = (case filter (\<lambda>l. infix_of ''digest'' l \<and> digest_words l \<noteq> []) lines of
              [] \<Rightarrow> None | ls \<Rightarrow> Some (hd (digest_words (last ls)))),
           as_joins = labelled ''JOINS:'' lines, as_segments = labelled ''SEGS:'' lines \<rparr>))"

text \<open>
  A prover that verified its receipt but could not write it says so on its error output and exits with an error; the
  status takes the word for a verified run all the same.
\<close>

lemma unsaved_receipt_reads_verified:
  "as_verified (aggregate_status (Some ''RECEIPT VERIFIED BUT NOT SAVED: aggregate_receipt.bin: disk full''))"
  by code_simp

section \<open>Phase 0\<close>

record 'c emptiness =
  em_clean :: "'c list"
  em_dirty :: "'c list"
  em_silent :: "'c list"
  em_ok :: bool

text \<open>The lists are sorted by the name of the card, \<open>name\<close>.\<close>

definition verify_fleet_empty :: "('c \<Rightarrow> string) \<Rightarrow> ('c \<times> string option) list \<Rightarrow> nat \<Rightarrow> 'c emptiness" where
  "verify_fleet_empty name replies n_cards =
     (let is_clean = (\<lambda>reply. infix_of ''LEFT:0 REDIRS:0'' reply);
          silent = map fst (filter (\<lambda>(c, r). r = None) replies);
          clean = map fst (filter (\<lambda>(c, r). r \<noteq> None \<and> is_clean (the r)) replies);
          dirty = map fst (filter (\<lambda>(c, r). r \<noteq> None \<and> \<not> is_clean (the r)) replies)
      in \<lparr> em_clean = sort_key name clean, em_dirty = sort_key name dirty, em_silent = sort_key name silent,
           em_ok = (dirty = [] \<and> silent = [] \<and> length clean = n_cards) \<rparr>)"

section \<open>Progress\<close>

definition joins_match :: "string \<Rightarrow> nat option" where
  "joins_match s = do { s \<leftarrow> m_lit ''joins '' s; (d, s) \<leftarrow> m_num s; s \<leftarrow> m_lit ''/'' s; (t, s) \<leftarrow> m_num s; Some d }"

definition segments_match :: "string \<Rightarrow> nat option" where
  "segments_match s = do { (d, s) \<leftarrow> m_num s; s \<leftarrow> m_lit ''/'' s; (t, s) \<leftarrow> m_num s; s \<leftarrow> m_lit '' segments'' s; Some d }"

definition joins_done :: "string option \<Rightarrow> nat option" where
  "joins_done joins = (if text_set joins then m_search joins_match (the joins) else None)"

definition segments_done :: "string option \<Rightarrow> nat option" where
  "segments_done segments = (if text_set segments then m_search segments_match (the segments) else None)"

definition progress_units :: "agg_status \<Rightarrow> nat option" where
  "progress_units out = (case (segments_done (as_segments out), joins_done (as_joins out)) of
       (None, None) \<Rightarrow> None
     | (segs, joins) \<Rightarrow> Some ((case segs of None \<Rightarrow> 0 | Some n \<Rightarrow> n) + (case joins of None \<Rightarrow> 0 | Some n \<Rightarrow> n)))"

section \<open>A block in chunks\<close>

datatype 'c refusal = No_Cards | Fleet_Not_Empty "'c list" "'c list" | Probe_Overflow | Not_All_Staged "int option"
  | Aggregate_Gone nat | Aggregate_Died | Never_Verified | Could_Not_Start

record block_summary =
  bs_cards :: nat
  bs_wall :: rat
  bs_chunk_phase :: rat
  bs_digest :: "string option"
  bs_joins :: "string option"

record run_limits =
  rl_stall :: "rat option"
  rl_max_ticks :: nat
  rl_tick_s :: rat
  rl_unreachable_limit :: nat

record 'c block_run =
  br_cards :: "(nat \<times> 'c) list"
  br_staged :: "nat set"
  br_busy :: "'c set"
  br_reassigned :: "nat set"
  br_size :: "nat \<rightharpoonup> int"
  br_change :: "nat \<rightharpoonup> rat"

text \<open>An action of the plan; the chunks it names are keys of \<open>cards\<close>, so the lookup succeeds.\<close>

definition do_action :: "('c, 'w) runner \<Rightarrow> 'c tick_action \<Rightarrow> 'c block_run \<times> 'w \<Rightarrow> 'c block_run \<times> 'w" where
  "do_action rn act = (\<lambda>(br, w). case act of
       Stage chunk _ \<Rightarrow> (case map_of (br_cards br) chunk of None \<Rightarrow> (br, w) | Some c \<Rightarrow>
         (case rn_stage rn c chunk {} w of (ok, w) \<Rightarrow> (if ok then br\<lparr>br_staged := insert chunk (br_staged br)\<rparr> else br, w)))
     | Reassign chunk target \<Rightarrow> (case map_of (br_cards br) chunk of None \<Rightarrow> (br, w) | Some c \<Rightarrow>
         (br\<lparr>br_cards := AList.update chunk target (br_cards br), br_busy := insert target (br_busy br),
             br_reassigned := insert chunk (br_reassigned br)\<rparr>, rn_relaunch rn target chunk (rn_kill rn c w)))
     | Restart_In_Place chunk _ \<Rightarrow> (case map_of (br_cards br) chunk of None \<Rightarrow> (br, w) | Some c \<Rightarrow>
         (br\<lparr>br_reassigned := insert chunk (br_reassigned br)\<rparr>, rn_relaunch rn c chunk (rn_kill rn c w))))"

fun chunk_phase ::
    "nat \<Rightarrow> fleet_settings \<Rightarrow> ('c, 'w) runner \<Rightarrow> run_limits \<Rightarrow> nat \<Rightarrow> 'c block_run \<Rightarrow> 'w \<Rightarrow> 'c block_run option \<times> 'w" where
  "chunk_phase 0 fs rn rl n br w = (Some br, w)"
| "chunk_phase (Suc k) fs rn rl n br w =
     (let (probes, w) = rn_probe_all rn (br_cards br) (br_reassigned br) w; (t, w) = rn_now rn w in
      case plan_tick fs (br_cards br) probes (br_staged br) (br_busy br) (br_size br) (br_change br) t (rl_stall rl) of
        None \<Rightarrow> (None, w)
      | Some tk \<Rightarrow>
          (case fold (do_action rn) (tk_actions tk) (br\<lparr>br_size := tk_size tk, br_change := tk_change tk\<rparr>, w) of (br, w) \<Rightarrow>
             if card (br_staged br) \<ge> n then (Some br, w)
             else chunk_phase k fs rn rl n br (rn_sleep rn (rl_tick_s rl) w)))"

definition sweep :: "('c, 'w) runner \<Rightarrow> 'c block_run \<Rightarrow> 'w \<Rightarrow> 'c block_run \<times> 'w" where
  "sweep rn br w = fold (\<lambda>(chunk, c) (br, w). if chunk \<in> br_staged br then (br, w)
     else case rn_stage rn c chunk {} w of (ok, w) \<Rightarrow> (if ok then br\<lparr>br_staged := insert chunk (br_staged br)\<rparr> else br, w))
     (br_cards br) (br, w)"

fun await_verified :: "nat \<Rightarrow> ('c, 'w) runner \<Rightarrow> run_limits \<Rightarrow> nat \<Rightarrow> 'w \<Rightarrow> ('c refusal + agg_status) \<times> 'w" where
  "await_verified 0 rn rl gone w = (Inl Never_Verified, w)"
| "await_verified (Suc k) rn rl gone w =
     (case rn_status rn w of (out, w) \<Rightarrow>
        if as_verified out then (Inr out, w)
        else if as_unreachable out then
          (if gone + 1 \<ge> rl_unreachable_limit rl then (Inl (Aggregate_Gone (gone + 1)), w)
           else await_verified k rn rl (gone + 1) (rn_sleep rn (rl_tick_s rl) w))
        else if \<not> as_alive out then (Inl Aggregate_Died, w)
        else await_verified k rn rl 0 (rn_sleep rn (rl_tick_s rl) w))"

text \<open>Phases 4 to 6: the sweep, the count, the aggregate.\<close>

definition finish_block ::
    "('c, 'w) runner \<Rightarrow> run_limits \<Rightarrow> nat \<Rightarrow> rat \<Rightarrow> 'c block_run \<Rightarrow> 'w \<Rightarrow> ('c refusal + block_summary) \<times> 'w" where
  "finish_block rn rl n t0 br w =
     (let (t1, w) = rn_now rn w; (br, w) = sweep rn br w; (count, w) = rn_staged_count rn w in
      if \<not> staging_complete count (int n) then (Inl (Not_All_Staged count), w)
      else case await_verified (rl_max_ticks rl) rn rl 0 (rn_start_aggregate rn w) of
          (Inl r, w) \<Rightarrow> (Inl r, w)
        | (Inr out, w) \<Rightarrow> (let (t2, w) = rn_now rn w in
            (Inr \<lparr> bs_cards = n, bs_wall = py_round 1 (t2 - t0), bs_chunk_phase = py_round 1 (t1 - t0),
                   bs_digest = as_digest out, bs_joins = as_joins out \<rparr>, w)))"

definition run_block ::
    "('c \<Rightarrow> string) \<Rightarrow> fleet_settings \<Rightarrow> ('c, 'w) runner \<Rightarrow> run_limits \<Rightarrow> (nat \<times> 'c) list \<Rightarrow> 'w \<Rightarrow>
     ('c refusal + block_summary) \<times> 'w" where
  "run_block name fs rn rl cards w =
     (let n = length cards in
      if n = 0 then (Inl No_Cards, w)
      else let (replies, w) = rn_clear rn cards w; empty = verify_fleet_empty name replies n in
      if \<not> em_ok empty then (Inl (Fleet_Not_Empty (em_dirty empty) (em_silent empty)), w)
      else let (t0, w) = rn_now rn w;
               w = rn_arm rn cards (rn_launch_all rn cards w);
               br = \<lparr> br_cards = cards, br_staged = {}, br_busy = {}, br_reassigned = {}, br_size = Map.empty,
                      br_change = map_of (map (\<lambda>(c, _). (c, t0)) cards) \<rparr>
      in case chunk_phase (rl_max_ticks rl) fs rn rl n br w of
           (None, w) \<Rightarrow> (Inl Probe_Overflow, w)
         | (Some br, w) \<Rightarrow> finish_block rn rl n t0 br w)"

section \<open>A board block from its bundle\<close>

datatype 'c range_end = Range_Done block_summary | Range_Refused "'c refusal" | Range_Aborted string rat

text \<open>\<open>beat\<close> and \<open>abort\<close> are None where the caller gives none; an abort that raises is \<open>Inl\<close>.\<close>

definition send_beat :: "(nat \<Rightarrow> 'w \<Rightarrow> nat \<times> 'w) option \<Rightarrow> nat option \<Rightarrow> nat \<Rightarrow> 'w \<Rightarrow> nat \<times> 'w" where
  "send_beat beat prog beaten w = (case (beat, prog) of
     (Some b, Some p) \<Rightarrow> if p > beaten then b p w else (beaten, w) | _ \<Rightarrow> (beaten, w))"

definition ask_abort :: "('w \<Rightarrow> (unit + string option) \<times> 'w) option \<Rightarrow> 'w \<Rightarrow> string option \<times> 'w" where
  "ask_abort abort w = (case abort of None \<Rightarrow> (None, w)
     | Some f \<Rightarrow> (case f w of (Inl _, w) \<Rightarrow> (None, w) | (Inr why, w) \<Rightarrow> (if text_set why then why else None, w)))"

fun range_loop ::
    "nat \<Rightarrow> ('c, 'w) runner \<Rightarrow> run_limits \<Rightarrow> (nat \<Rightarrow> 'w \<Rightarrow> nat \<times> 'w) option \<Rightarrow> ('w \<Rightarrow> (unit + string option) \<times> 'w) option \<Rightarrow>
     (nat \<times> 'c) list \<Rightarrow> rat \<Rightarrow> nat \<Rightarrow> nat \<Rightarrow> 'w \<Rightarrow> 'c range_end \<times> 'w" where
  "range_loop 0 rn rl beat abort cards t0 gone beaten w = (Range_Refused Never_Verified, w)"
| "range_loop (Suc k) rn rl beat abort cards t0 gone beaten w =
     (let (out, w) = rn_status rn w;
          (beaten, w) = send_beat beat (progress_units out) beaten w
      in if as_verified out then
           (let (t, w) = rn_now rn w in
            (Range_Done \<lparr> bs_cards = length cards, bs_wall = py_round 1 (t - t0), bs_chunk_phase = 0,
                          bs_digest = as_digest out, bs_joins = as_joins out \<rparr>, w))
         else case ask_abort abort w of
             (Some why, w) \<Rightarrow>
               (let (_, w) = rn_now rn w; (_, w) = rn_stop_range rn w; w = rn_disarm rn cards w; (t, w) = rn_now rn w in
                (Range_Aborted why (py_round 1 (t - t0)), w))
           | (None, w) \<Rightarrow>
               if as_unreachable out then
                 (if gone + 1 \<ge> rl_unreachable_limit rl then (Range_Refused (Aggregate_Gone (gone + 1)), w)
                  else range_loop k rn rl beat abort cards t0 (gone + 1) beaten (rn_sleep rn (rl_tick_s rl) w))
               else if \<not> as_alive out then (Range_Refused Aggregate_Died, w)
               else range_loop k rn rl beat abort cards t0 0 beaten (rn_sleep rn (rl_tick_s rl) w))"

definition run_range ::
    "('c, 'w) runner \<Rightarrow> run_limits \<Rightarrow> (nat \<Rightarrow> 'w \<Rightarrow> nat \<times> 'w) option \<Rightarrow> ('w \<Rightarrow> (unit + string option) \<times> 'w) option \<Rightarrow>
     (nat \<times> 'c) list \<Rightarrow> 'w \<Rightarrow> 'c range_end \<times> 'w" where
  "run_range rn rl beat abort cards w =
     (let (t0, w) = rn_now rn w; (ok, w) = rn_start_range rn w in
      if \<not> ok then (Range_Refused Could_Not_Start, w)
      else range_loop (rl_max_ticks rl) rn rl beat abort cards t0 0 0 (rn_arm rn cards w))"

section \<open>The order of a run\<close>

text \<open>A runner that writes down what it is asked to do.\<close>

datatype 'c event = Ev_Clear "('c \<times> string option) list" | Ev_Launch | Ev_Arm | Ev_Probe | Ev_Stage 'c nat bool
  | Ev_Kill 'c | Ev_Relaunch 'c nat | Ev_Count "int option" | Ev_Start | Ev_Status agg_status
  | Ev_Range bool | Ev_Stop bool | Ev_Disarm | Ev_Beat nat | Ev_Abort "string option" | Ev_Now | Ev_Sleep

definition logging :: "('w \<Rightarrow> 'x \<times> 'w) \<Rightarrow> ('x \<Rightarrow> 'c event) \<Rightarrow> 'w \<times> 'c event list \<Rightarrow> 'x \<times> 'w \<times> 'c event list" where
  "logging f ev = (\<lambda>(w, l). case f w of (x, w) \<Rightarrow> (x, w, l @ [ev x]))"

definition noting :: "('w \<Rightarrow> 'w) \<Rightarrow> 'c event \<Rightarrow> 'w \<times> 'c event list \<Rightarrow> 'w \<times> 'c event list" where
  "noting f e = (\<lambda>(w, l). (f w, l @ [e]))"

definition logged :: "('c, 'w) runner \<Rightarrow> ('c, 'w \<times> 'c event list) runner" where
  "logged rn = \<lparr> rn_clear = (\<lambda>cs. logging (rn_clear rn cs) Ev_Clear),
     rn_launch_all = (\<lambda>cs. noting (rn_launch_all rn cs) Ev_Launch),
     rn_arm = (\<lambda>cs. noting (rn_arm rn cs) Ev_Arm),
     rn_probe_all = (\<lambda>cs re. logging (rn_probe_all rn cs re) (\<lambda>_. Ev_Probe)),
     rn_stage = (\<lambda>c ch re. logging (rn_stage rn c ch re) (Ev_Stage c ch)),
     rn_kill = (\<lambda>c. noting (rn_kill rn c) (Ev_Kill c)),
     rn_relaunch = (\<lambda>c ch. noting (rn_relaunch rn c ch) (Ev_Relaunch c ch)),
     rn_staged_count = logging (rn_staged_count rn) Ev_Count,
     rn_start_aggregate = noting (rn_start_aggregate rn) Ev_Start,
     rn_status = logging (rn_status rn) Ev_Status,
     rn_start_range = logging (rn_start_range rn) Ev_Range,
     rn_stop_range = logging (rn_stop_range rn) Ev_Stop,
     rn_disarm = (\<lambda>cs. noting (rn_disarm rn cs) Ev_Disarm),
     rn_now = logging (rn_now rn) (\<lambda>_. Ev_Now),
     rn_sleep = (\<lambda>d. noting (rn_sleep rn d) Ev_Sleep) \<rparr>"

text \<open>Work on the cards, and watching the aggregate.\<close>

fun work_event :: "'c event \<Rightarrow> bool" where
  "work_event Ev_Probe \<longleftrightarrow> True"
| "work_event (Ev_Stage _ _ _) \<longleftrightarrow> True"
| "work_event (Ev_Kill _) \<longleftrightarrow> True"
| "work_event (Ev_Relaunch _ _) \<longleftrightarrow> True"
| "work_event Ev_Now \<longleftrightarrow> True"
| "work_event Ev_Sleep \<longleftrightarrow> True"
| "work_event _ \<longleftrightarrow> False"

fun watch_event :: "'c event \<Rightarrow> bool" where
  "watch_event (Ev_Status _) \<longleftrightarrow> True"
| "watch_event Ev_Now \<longleftrightarrow> True"
| "watch_event Ev_Sleep \<longleftrightarrow> True"
| "watch_event _ \<longleftrightarrow> False"

definition is_status :: "'c event \<Rightarrow> bool" where
  "is_status e \<longleftrightarrow> (\<exists>out. e = Ev_Status out)"

lemma is_status_simps [simp]: "is_status (Ev_Status out)" "\<not> is_status Ev_Sleep" "\<not> is_status Ev_Now"
  by (simp_all add: is_status_def)

text \<open>\<open>grows P x y\<close>: the log of \<open>y\<close> extends that of \<open>x\<close> by events of \<open>P\<close>.\<close>

definition grows :: "('c event \<Rightarrow> bool) \<Rightarrow> 'w \<times> 'c event list \<Rightarrow> 'w \<times> 'c event list \<Rightarrow> bool" where
  "grows P x y \<longleftrightarrow> (\<exists>es. snd y = snd x @ es \<and> list_all P es)"

lemma grows_refl [simp]: "grows P x x"
  by (simp add: grows_def)

lemma grows_trans [trans]: "grows P x y \<Longrightarrow> grows P y z \<Longrightarrow> grows P x z"
  by (auto simp: grows_def)

lemma grows_noting: "P e \<Longrightarrow> grows P x (noting f e x)"
  by (auto simp: grows_def noting_def split: prod.split)

lemma grows_logging: "(\<And>a. P (ev a)) \<Longrightarrow> grows P x (snd (logging f ev x))"
  by (auto simp: grows_def logging_def split: prod.split)

lemma do_action_grows: "grows work_event x (snd (do_action (logged rn) act (br, x)))"
proof (cases act)
  case (Stage ch c)
  have "grows work_event x (snd (logging (rn_stage rn d ch {}) (Ev_Stage d ch) x))" for d
    by (rule grows_logging) simp
  with Stage show ?thesis
    by (auto simp: do_action_def logged_def split: option.split prod.split) (metis snd_conv)+
next
  case (Reassign ch c)
  have "grows work_event x (noting f (Ev_Relaunch c ch) (noting g (Ev_Kill d) x))" for f g d
    by (rule grows_trans; rule grows_noting) simp_all
  with Reassign show ?thesis by (auto simp: do_action_def logged_def split: option.split)
next
  case (Restart_In_Place ch c)
  have "grows work_event x (noting f (Ev_Relaunch d ch) (noting g (Ev_Kill d) x))" for f g d
    by (rule grows_trans; rule grows_noting) simp_all
  with Restart_In_Place show ?thesis by (auto simp: do_action_def logged_def split: option.split)
qed

lemma fold_grows:
  "(\<And>a y br. grows P y (snd (f a (br, y)))) \<Longrightarrow> grows P x (snd (fold f acts (br, x)))"
proof (induction acts arbitrary: br x)
  case (Cons a acts)
  obtain br1 x1 where "f a (br, x) = (br1, x1)" by (rule prod.exhaust)
  with Cons.IH [of x1 br1] Cons.prems [of x a br] Cons.prems show ?case by (auto intro: grows_trans)
qed simp

lemma chunk_phase_grows: "grows work_event x (snd (chunk_phase k fs (logged rn) rl n br x))"
proof (induction k arbitrary: br x)
  case (Suc k)
  obtain probes x1 where p: "rn_probe_all (logged rn) (br_cards br) (br_reassigned br) x = (probes, x1)" by (rule prod.exhaust)
  obtain t x2 where t: "rn_now (logged rn) x1 = (t, x2)" by (rule prod.exhaust)
  have "grows work_event x x1"
    using grows_logging [of work_event "\<lambda>_. Ev_Probe" x "rn_probe_all rn (br_cards br) (br_reassigned br)"] p by (simp add: logged_def)
  also have "grows work_event x1 x2"
    using grows_logging [of work_event "\<lambda>_. Ev_Now" x1 "rn_now rn"] t by (simp add: logged_def)
  finally have g: "grows work_event x x2" .
  show ?case
  proof (cases "plan_tick fs (br_cards br) probes (br_staged br) (br_busy br) (br_size br) (br_change br) t (rl_stall rl)")
    case (Some tk)
    obtain br1 x3 where f: "fold (do_action (logged rn)) (tk_actions tk) (br\<lparr>br_size := tk_size tk, br_change := tk_change tk\<rparr>, x2) = (br1, x3)"
      by (rule prod.exhaust)
    with fold_grows [of work_event "do_action (logged rn)" x2 "tk_actions tk"] do_action_grows
    have g3: "grows work_event x x3" using g by (metis grows_trans snd_conv)
    have "grows work_event x3 (rn_sleep (logged rn) (rl_tick_s rl) x3)"
      using grows_noting [of work_event Ev_Sleep] by (simp add: logged_def)
    with g3 Suc.IH [of "rn_sleep (logged rn) (rl_tick_s rl) x3" br1] Some show ?thesis
      by (auto simp: p t f intro: grows_trans)
  qed (use g in \<open>simp add: p t\<close>)
qed simp

lemma sweep_grows: "grows work_event x (snd (sweep (logged rn) br x))"
  unfolding sweep_def
proof (rule fold_grows)
  fix a :: "nat \<times> 'a" and y br
  obtain ch c where "a = (ch, c)" by fastforce
  moreover have "grows work_event y (snd (logging (rn_stage rn c ch {}) (Ev_Stage c ch) y))" by (rule grows_logging) simp
  ultimately show "grows work_event y (snd ((\<lambda>(chunk, c) (br, w). if chunk \<in> br_staged br then (br, w)
     else case rn_stage (logged rn) c chunk {} w of (ok, w) \<Rightarrow> (if ok then br\<lparr>br_staged := insert chunk (br_staged br)\<rparr> else br, w)) a (br, y)))"
    by (auto simp: logged_def split: prod.split)
qed

lemma await_log:
  "await_verified k (logged rn) rl gone x = (r, y) \<Longrightarrow>
   \<exists>es. snd y = snd x @ es \<and> list_all watch_event es \<and> length (filter is_status es) \<le> k
     \<and> (\<forall>out. r = Inr out \<longrightarrow> as_verified out \<and> Ev_Status out \<in> set es)"
proof (induction k arbitrary: gone x)
  case (Suc k)
  obtain w l where x: "x = (w, l)" by (rule prod.exhaust)
  obtain out w1 where s: "rn_status rn w = (out, w1)" by (rule prod.exhaust)
  have st: "rn_status (logged rn) x = (out, w1, l @ [Ev_Status out])" by (simp add: logged_def logging_def x s)
  let ?nap = "rn_sleep (logged rn) (rl_tick_s rl) (w1, l @ [Ev_Status out])"
  have nap: "snd ?nap = l @ [Ev_Status out, Ev_Sleep]" by (simp add: logged_def noting_def)
  have one: ?case if "y = (w1, l @ [Ev_Status out])" "\<forall>o'. r = Inr o' \<longrightarrow> as_verified o' \<and> o' = out"
    using that by (intro exI [of _ "[Ev_Status out]"]) (auto simp: x)
  have more: ?case if m: "await_verified k (logged rn) rl g ?nap = (r, y)" for g
  proof -
    from Suc.IH [OF m] obtain es where es: "snd y = snd ?nap @ es" "list_all watch_event es" "length (filter is_status es) \<le> k"
      "\<forall>o'. r = Inr o' \<longrightarrow> as_verified o' \<and> Ev_Status o' \<in> set es" by auto
    then show ?thesis
      by (intro exI [of _ "[Ev_Status out, Ev_Sleep] @ es"]) (auto simp: x nap)
  qed
  show ?case
  proof (cases "as_verified out")
    case True
    with Suc.prems st show ?thesis by (intro one) auto
  next
    case False
    with Suc.prems st have "(r, y) = (Inl (Aggregate_Gone (gone + 1)), w1, l @ [Ev_Status out]) \<or> (r, y) = (Inl Aggregate_Died, w1, l @ [Ev_Status out])
       \<or> (\<exists>g. await_verified k (logged rn) rl g ?nap = (r, y))"
      by (auto split: if_splits)
    then show ?thesis using one more by auto
  qed
qed auto

lemma fleet_empty_iff:
  "em_ok (verify_fleet_empty name replies n) \<longleftrightarrow>
     (\<forall>(c, r) \<in> set replies. \<exists>t. r = Some t \<and> infix_of ''LEFT:0 REDIRS:0'' t) \<and> length replies = n"
proof -
  have "em_ok (verify_fleet_empty name replies n) \<longleftrightarrow> (\<forall>(c, r) \<in> set replies. \<exists>t. r = Some t \<and> infix_of ''LEFT:0 REDIRS:0'' t)
      \<and> length (filter (\<lambda>(c, r). r \<noteq> None \<and> infix_of ''LEFT:0 REDIRS:0'' (the r)) replies) = n"
    by (fastforce simp: verify_fleet_empty_def filter_empty_conv Let_def)
  moreover have "filter (\<lambda>(c, r). r \<noteq> None \<and> infix_of ''LEFT:0 REDIRS:0'' (the r)) replies = replies"
    if "\<forall>(c, r) \<in> set replies. \<exists>t. r = Some t \<and> infix_of ''LEFT:0 REDIRS:0'' t"
    using that by (auto intro!: filter_True)
  ultimately show ?thesis by auto
qed

text \<open>The log of the last phases: the aggregate is started once, on a full count, and then watched.\<close>

definition aggregated_once :: "nat \<Rightarrow> nat \<Rightarrow> 'c event list \<Rightarrow> bool" where
  "aggregated_once n k es \<longleftrightarrow> (Ev_Start \<in> set es \<longrightarrow> (\<exists>pre count post. es = pre @ [Ev_Count (Some count), Ev_Start] @ post
     \<and> 0 < n \<and> int n \<le> count \<and> Ev_Start \<notin> set pre \<and> list_all watch_event post \<and> length (filter is_status post) \<le> k))"

definition reported :: "nat \<Rightarrow> 'c refusal + block_summary \<Rightarrow> 'c event list \<Rightarrow> bool" where
  "reported n r es \<longleftrightarrow> (\<forall>s. r = Inr s \<longrightarrow> Ev_Start \<in> set es
     \<and> (\<exists>out. Ev_Status out \<in> set es \<and> as_verified out \<and> bs_digest s = as_digest out \<and> bs_cards s = n))"

lemma aggregated_once_prefix: "aggregated_once n k es \<Longrightarrow> Ev_Start \<notin> set xs \<Longrightarrow> aggregated_once n k (xs @ es)"
  unfolding aggregated_once_def by (metis Un_iff append_assoc set_append)

lemma finish_log:
  assumes "finish_block (logged rn) rl n t0 br x = (r, y)"
  shows "\<exists>es. snd y = snd x @ es \<and> aggregated_once n (rl_max_ticks rl) es \<and> reported n r es \<and> Ev_Launch \<notin> set es"
proof -
  obtain t1 x1 where n1: "rn_now (logged rn) x = (t1, x1)" by (rule prod.exhaust)
  obtain br2 x2 where sw: "sweep (logged rn) br x1 = (br2, x2)" by (rule prod.exhaust)
  obtain count x3 where ct: "rn_staged_count (logged rn) x2 = (count, x3)" by (rule prod.exhaust)
  obtain es2 where es2: "snd x2 = snd x1 @ es2" "list_all work_event es2"
    using sweep_grows [of x1 rn br] sw by (auto simp: grows_def)
  let ?pre = "Ev_Now # es2"
  have x3: "snd x3 = snd x @ ?pre @ [Ev_Count count]"
    using n1 ct es2(1) by (auto simp: logged_def logging_def split: prod.splits)
  have pre: "Ev_Start \<notin> set ?pre" "Ev_Launch \<notin> set ?pre" using es2(2) by (auto simp: list_all_iff)
  note run = assms [unfolded finish_block_def Let_def n1 prod.case sw ct]
  show ?thesis
  proof (cases "staging_complete count (int n)")
    case False
    with run x3 pre show ?thesis
      by (intro exI [of _ "?pre @ [Ev_Count count]"]) (auto simp: aggregated_once_def reported_def)
  next
    case True
    then obtain k where k: "count = Some k" "int n \<le> k" "0 < n" by (auto simp: staging_complete_def split: option.splits)
    obtain res x4 where aw: "await_verified (rl_max_ticks rl) (logged rn) rl 0 (rn_start_aggregate (logged rn) x3) = (res, x4)"
      by (rule prod.exhaust)
    have "snd (rn_start_aggregate (logged rn) x3) = snd x3 @ [Ev_Start]"
      by (simp add: logged_def noting_def split: prod.split)
    with await_log [OF aw] x3 k(1) obtain es3 where es3: "snd x4 = snd x @ ?pre @ [Ev_Count (Some k), Ev_Start] @ es3"
      "list_all watch_event es3" "length (filter is_status es3) \<le> rl_max_ticks rl"
      "\<forall>out. res = Inr out \<longrightarrow> as_verified out \<and> Ev_Status out \<in> set es3" by auto
    have once: "aggregated_once n (rl_max_ticks rl) (?pre @ [Ev_Count (Some k), Ev_Start] @ es3 @ post) \<and>
        Ev_Launch \<notin> set (?pre @ [Ev_Count (Some k), Ev_Start] @ es3 @ post)" if "post = [] \<or> post = [Ev_Now]" for post
      using that pre es3 k unfolding aggregated_once_def by (fastforce simp: list_all_iff)
    show ?thesis
    proof (cases res)
      case (Inl e)
      with run True aw es3 once [of "[]"] show ?thesis
        by (intro exI [of _ "?pre @ [Ev_Count (Some k), Ev_Start] @ es3"]) (auto simp: reported_def)
    next
      case (Inr out)
      obtain t2 x5 where n2: "rn_now (logged rn) x4 = (t2, x5)" by (rule prod.exhaust)
      then have "snd x5 = snd x4 @ [Ev_Now]" by (auto simp: logged_def logging_def split: prod.splits)
      with run True aw Inr n2 es3 once [of "[Ev_Now]"] show ?thesis
        by (intro exI [of _ "?pre @ [Ev_Count (Some k), Ev_Start] @ es3 @ [Ev_Now]"]) (auto simp: reported_def)
    qed
  qed
qed

text \<open>
  Claim C13. Whatever the cards and the aggregate answer, a run acts in order: nothing is launched unless every card
  was heard from and is empty; the aggregate is started at most once, right after a count of at least one
  staged receipt per card, and from then on it is only watched, for a bounded number of looks; and
  success is reported only on a status that says the receipt was verified, whose digest it carries.
\<close>

theorem run_block_order:
  assumes "run_block name fs (logged rn) rl cards (w, []) = (r, w', evs)"
  shows "(Ev_Launch \<in> set evs \<longrightarrow> (\<exists>replies es. evs = Ev_Clear replies # es \<and> length replies = length cards
            \<and> (\<forall>(c, r) \<in> set replies. \<exists>t. r = Some t \<and> infix_of ''LEFT:0 REDIRS:0'' t)))
    \<and> aggregated_once (length cards) (rl_max_ticks rl) evs \<and> reported (length cards) r evs"
proof -
  define n where "n = length cards"
  obtain replies w1 where c: "rn_clear rn cards w = (replies, w1)" by (rule prod.exhaust)
  obtain t0 w2 where t0: "rn_now rn w1 = (t0, w2)" by (rule prod.exhaust)
  have cl: "rn_clear (logged rn) cards (w, []) = (replies, w1, [Ev_Clear replies])"
    and cn: "rn_now (logged rn) (w1, [Ev_Clear replies]) = (t0, w2, [Ev_Clear replies, Ev_Now])"
    by (simp_all add: logged_def logging_def c t0)
  define L where "L = [Ev_Clear replies, Ev_Now, Ev_Launch, Ev_Arm]"
  define x0 where "x0 = rn_arm (logged rn) cards (rn_launch_all (logged rn) cards (w2, [Ev_Clear replies, Ev_Now]))"
  have x0: "snd x0 = L" by (simp add: logged_def noting_def L_def x0_def)
  let ?br = "\<lparr> br_cards = cards, br_staged = {}, br_busy = {}, br_reassigned = {}, br_size = Map.empty,
                br_change = map_of (map (\<lambda>(c, _). (c, t0)) cards) \<rparr>"
  obtain ob x1 where ph: "chunk_phase (rl_max_ticks rl) fs (logged rn) rl n ?br x0 = (ob, x1)" by (rule prod.exhaust)
  obtain es1 where es1: "snd x1 = L @ es1" "list_all work_event es1"
    using chunk_phase_grows [of x0 "rl_max_ticks rl" fs rn rl n ?br] by (auto simp: ph x0 grows_def)
  have L1: "Ev_Start \<notin> set (L @ es1)" using es1(2) by (auto simp: L_def list_all_iff)
  note run = assms [unfolded run_block_def n_def [symmetric] Let_def cl prod.case cn x0_def [symmetric] ph]
  consider "n = 0" "evs = []" "r = Inl No_Cards" | e where "evs = [Ev_Clear replies]" "r = Inl e"
    | "em_ok (verify_fleet_empty name replies n)" "evs = L @ es1" "r = Inl Probe_Overflow"
    | br where "em_ok (verify_fleet_empty name replies n)" "finish_block (logged rn) rl n t0 br x1 = (r, w', evs)"
    using run es1(1) by (auto split: if_splits option.splits)
  then show ?thesis
  proof cases
    case 3
    with L1 show ?thesis unfolding fleet_empty_iff n_def by (auto simp: aggregated_once_def reported_def L_def)
  next
    case 4
    from finish_log [OF this(2)] obtain es where es: "evs = (L @ es1) @ es" "aggregated_once n (rl_max_ticks rl) es" "reported n r es"
      using es1(1) by auto
    with aggregated_once_prefix [OF es(2) L1] 4(1) show ?thesis
      unfolding fleet_empty_iff n_def by (fastforce simp: reported_def L_def)
  qed (auto simp: aggregated_once_def reported_def)
qed

section \<open>Giving way\<close>

definition logged_beat :: "(nat \<Rightarrow> 'w \<Rightarrow> nat \<times> 'w) \<Rightarrow> nat \<Rightarrow> 'w \<times> 'c event list \<Rightarrow> nat \<times> 'w \<times> 'c event list" where
  "logged_beat b p = logging (b p) (\<lambda>_. Ev_Beat p)"

text \<open>An abort that raises has not asked for anything.\<close>

definition abort_answer :: "unit + string option \<Rightarrow> string option" where
  "abort_answer a = (case a of Inl _ \<Rightarrow> None | Inr why \<Rightarrow> why)"

definition logged_abort ::
    "('w \<Rightarrow> (unit + string option) \<times> 'w) \<Rightarrow> 'w \<times> 'c event list \<Rightarrow> (unit + string option) \<times> 'w \<times> 'c event list" where
  "logged_abort f = logging f (\<lambda>a. Ev_Abort (abort_answer a))"

fun beats_of :: "'c event list \<Rightarrow> nat list" where
  "beats_of [] = []"
| "beats_of (Ev_Beat p # es) = p # beats_of es"
| "beats_of (_ # es) = beats_of es"

lemma beats_append [simp]: "beats_of (xs @ ys) = beats_of xs @ beats_of ys"
  by (induction xs rule: beats_of.induct) auto

text \<open>A block that goes on: nothing verified, no request to give way, nothing stopped and nothing disarmed.\<close>

fun goes_on :: "'c event \<Rightarrow> bool" where
  "goes_on (Ev_Status out) \<longleftrightarrow> \<not> as_verified out"
| "goes_on (Ev_Abort why) \<longleftrightarrow> \<not> text_set why"
| "goes_on (Ev_Beat _) \<longleftrightarrow> True"
| "goes_on Ev_Sleep \<longleftrightarrow> True"
| "goes_on _ \<longleftrightarrow> False"

fun is_beat :: "'c event \<Rightarrow> bool" where
  "is_beat (Ev_Beat _) \<longleftrightarrow> True"
| "is_beat _ \<longleftrightarrow> False"

text \<open>
  How a run of the loop ends. Given up: the request for it, then the order to stop the aggregate and the order to
  disarm the workers. Done: a status that says verified, at most a beat, and the clock. Refused: nothing more; the
  reason is in the statuses.
\<close>

fun range_ending :: "nat \<Rightarrow> nat \<Rightarrow> 'c range_end \<Rightarrow> 'c event list \<Rightarrow> bool" where
  "range_ending k miss (Range_Aborted why t) es \<longleftrightarrow>
     (\<exists>pre ok. es = pre @ [Ev_Abort (Some why), Ev_Now, Ev_Stop ok, Ev_Disarm, Ev_Now] \<and> list_all goes_on pre \<and> why \<noteq> [])"
| "range_ending k miss (Range_Done s) es \<longleftrightarrow>
     (\<exists>pre out bs. es = pre @ Ev_Status out # bs @ [Ev_Now] \<and> list_all goes_on pre \<and> list_all is_beat bs
        \<and> as_verified out \<and> bs_digest s = as_digest out)"
| "range_ending k miss (Range_Refused e) es \<longleftrightarrow> list_all goes_on es
     \<and> (case e of Never_Verified \<Rightarrow> length (filter is_status es) = k
        | Aggregate_Gone m \<Rightarrow> miss \<le> m \<and> (\<exists>out. Ev_Status out \<in> set es \<and> as_unreachable out)
        | Aggregate_Died \<Rightarrow> \<exists>out. Ev_Status out \<in> set es \<and> \<not> as_unreachable out \<and> \<not> as_alive out
        | _ \<Rightarrow> False)"

text \<open>What the log of a run of the loop looks like, for its result and the last progress beaten.\<close>

definition range_log :: "nat \<Rightarrow> nat \<Rightarrow> nat \<Rightarrow> 'c range_end \<Rightarrow> 'c event list \<Rightarrow> bool" where
  "range_log miss k beaten r es \<longleftrightarrow> length (filter is_status es) \<le> k
     \<and> sorted_wrt (<) (beats_of es) \<and> (\<forall>p \<in> set (beats_of es). beaten < p) \<and> range_ending k miss r es"

definition beat_keeps :: "(nat \<Rightarrow> 'w \<Rightarrow> nat \<times> 'w) option \<Rightarrow> bool" where
  "beat_keeps beat \<longleftrightarrow> (\<forall>b p v. beat = Some b \<longrightarrow> p \<le> fst (b p v))"

lemma send_beat_log:
  assumes "send_beat (map_option logged_beat beat) prog beaten (w, l) = (b', w', l')"
    and "beat_keeps beat"
  obtains bs where "l' = l @ bs" "bs = [] \<or> (\<exists>p. bs = [Ev_Beat p] \<and> beaten < p \<and> p \<le> b')" "bs = [] \<longrightarrow> b' = beaten"
proof (cases "\<exists>b p. beat = Some b \<and> prog = Some p \<and> beaten < p")
  case True
  then obtain b p where bp: "beat = Some b" "prog = Some p" "beaten < p" by auto
  obtain c v where c: "b p w = (c, v)" by (rule prod.exhaust)
  have "p \<le> c" using assms(2) bp c unfolding beat_keeps_def by (metis fst_conv)
  moreover from assms(1) bp c have "b' = c" "l' = l @ [Ev_Beat p]" by (simp_all add: send_beat_def logged_beat_def logging_def)
  ultimately show ?thesis using that [of "[Ev_Beat p]"] bp by simp
next
  case False
  with assms(1) have "b' = beaten" "l' = l" by (auto simp: send_beat_def split: option.splits if_splits)
  with that [of "[]"] show ?thesis by simp
qed

text \<open>The request that ends a block is the answer the caller gave, and the last thing asked before the end.\<close>

lemma ask_abort_log:
  assumes "ask_abort (map_option logged_abort abort) (w, l) = (r, w', l')"
  obtains as where "l' = l @ as" "case r of None \<Rightarrow> as = [] \<or> (\<exists>a. as = [Ev_Abort a] \<and> \<not> text_set a)
    | Some why \<Rightarrow> as = [Ev_Abort (Some why)] \<and> why \<noteq> []"
proof (cases abort)
  case None
  with assms have "l' = l" "r = None" by (auto simp: ask_abort_def)
  then show ?thesis using that [of "[]"] by simp
next
  case (Some f)
  obtain a v where f: "f w = (a, v)" by (rule prod.exhaust)
  have "l' = l @ [Ev_Abort (abort_answer a)]" "r = (if text_set (abort_answer a) then abort_answer a else None)"
    using assms f by (auto simp: ask_abort_def Some logged_abort_def logging_def abort_answer_def text_set_def split: sum.splits if_splits)
  then show ?thesis using that [of "[Ev_Abort (abort_answer a)]"] by (cases "abort_answer a") (auto simp: text_set_def split: if_splits)
qed

lemma range_log_step:
  assumes "range_log miss k b' r es" "\<not> as_verified out" "beaten \<le> b'"
    and "bs = [] \<or> (\<exists>p. bs = [Ev_Beat p] \<and> beaten < p \<and> p \<le> b')"
    and "as = [] \<or> (\<exists>a. as = [Ev_Abort a] \<and> \<not> text_set a)"
  shows "range_log miss (Suc k) beaten r (Ev_Status out # bs @ as @ Ev_Sleep # es)"
proof -
  have bs: "filter is_status bs = [] \<and> list_all goes_on bs
      \<and> sorted_wrt (<) (beats_of bs) \<and> (\<forall>p \<in> set (beats_of bs). beaten < p \<and> p \<le> b')"
    using assms(4) by (auto simp: is_status_def)
  have as: "filter is_status as = [] \<and> list_all goes_on as \<and> beats_of as = []"
    using assms(5) by (auto simp: is_status_def)
  let ?xs = "Ev_Status out # bs @ as @ [Ev_Sleep]"
  have on: "list_all goes_on ?xs" using bs as assms(2) by simp
  have one: "length (filter is_status ?xs) = 1" using bs as by simp
  have ending: "range_ending (Suc k) miss r (?xs @ es)" if "range_ending k miss r es"
  proof (cases r)
    case (Range_Done s)
    with that obtain pre out' bs' where "es = pre @ Ev_Status out' # bs' @ [Ev_Now]" "list_all goes_on pre" "list_all is_beat bs'"
      "as_verified out'" "bs_digest s = as_digest out'" by auto
    with on show ?thesis
      unfolding Range_Done range_ending.simps by (intro exI [of _ "?xs @ pre"] exI [of _ out'] exI [of _ bs']) simp
  next
    case (Range_Refused e)
    with that on one show ?thesis by (cases e) auto
  next
    case (Range_Aborted why t)
    with that obtain pre ok where "es = pre @ [Ev_Abort (Some why), Ev_Now, Ev_Stop ok, Ev_Disarm, Ev_Now]" "list_all goes_on pre" "why \<noteq> []"
      by auto
    with on show ?thesis
      unfolding Range_Aborted range_ending.simps by (intro exI [of _ "?xs @ pre"] exI [of _ ok]) simp
  qed
  have e: "length (filter is_status es) \<le> k" "sorted_wrt (<) (beats_of es)" "\<forall>p \<in> set (beats_of es). b' < p" "range_ending k miss r es"
    using assms(1) by (simp_all add: range_log_def)
  show ?thesis
    unfolding range_log_def
  proof (intro conjI)
    let ?es = "Ev_Status out # bs @ as @ Ev_Sleep # es"
    show "length (filter is_status ?es) \<le> Suc k" using e(1) bs as by simp
    show "sorted_wrt (<) (beats_of ?es)" using e bs as by (fastforce simp: sorted_wrt_append)
    show "\<forall>p \<in> set (beats_of ?es). beaten < p" using e(3) bs as assms(3) by fastforce
    show "range_ending (Suc k) miss r ?es" using ending [OF e(4)] by simp
  qed
qed

lemma range_loop_log:
  assumes "beat_keeps beat"
  shows "range_loop k (logged rn) rl (map_option logged_beat beat) (map_option logged_abort abort) cards t0 gone beaten x = (r, y) \<Longrightarrow>
    \<exists>es. snd y = snd x @ es \<and> range_log (rl_unreachable_limit rl) k beaten r es"
proof (induction k arbitrary: gone beaten x)
  case 0
  then show ?case by (auto simp: range_log_def)
next
  case (Suc k)
  obtain w l where x: "x = (w, l)" by (rule prod.exhaust)
  obtain out w1 where s: "rn_status rn w = (out, w1)" by (rule prod.exhaust)
  have st: "rn_status (logged rn) x = (out, w1, l @ [Ev_Status out])" by (simp add: logged_def logging_def x s)
  obtain b' w2 l2 where sb: "send_beat (map_option logged_beat beat) (progress_units out) beaten (w1, l @ [Ev_Status out]) = (b', w2, l2)"
    by (metis surj_pair)
  obtain bs where bs: "l2 = (l @ [Ev_Status out]) @ bs" "bs = [] \<or> (\<exists>p. bs = [Ev_Beat p] \<and> beaten < p \<and> p \<le> b')" "bs = [] \<longrightarrow> b' = beaten"
    by (rule send_beat_log [OF sb assms])
  then have le: "beaten \<le> b'" by auto
  obtain why w3 l3 where ab: "ask_abort (map_option logged_abort abort) (w2, l2) = (why, w3, l3)" by (metis surj_pair)
  obtain as where as: "l3 = l2 @ as" "case why of None \<Rightarrow> as = [] \<or> (\<exists>a. as = [Ev_Abort a] \<and> \<not> text_set a)
      | Some y \<Rightarrow> as = [Ev_Abort (Some y)] \<and> y \<noteq> []"
    by (rule ask_abort_log [OF ab])
  let ?nap = "rn_sleep (logged rn) (rl_tick_s rl) (w3, l3)"
  have nap: "snd ?nap = l @ Ev_Status out # bs @ as @ [Ev_Sleep]" by (simp add: logged_def noting_def as bs)
  note run = Suc.prems [unfolded range_loop.simps Let_def st prod.case sb ab]
  show ?case
  proof (cases "as_verified out")
    case True
    with run obtain t w4 sm where "r = Range_Done sm" "bs_digest sm = as_digest out" "y = (w4, l2 @ [Ev_Now])"
      by (auto simp: logged_def logging_def split: prod.splits)
    with bs True show ?thesis
      by (intro exI [of _ "Ev_Status out # bs @ [Ev_Now]"]) (auto simp: x range_log_def is_status_def intro!: exI [of _ "[]"])
  next
    case False
    show ?thesis
    proof (cases why)
      case (Some a)
      with run False obtain t w4 ok where e: "r = Range_Aborted a t" "y = (w4, l3 @ [Ev_Now, Ev_Stop ok, Ev_Disarm, Ev_Now])"
        by (auto simp: logged_def logging_def noting_def split: prod.splits)
      have "range_ending (Suc k) (rl_unreachable_limit rl) r ((Ev_Status out # bs) @ [Ev_Abort (Some a), Ev_Now, Ev_Stop ok, Ev_Disarm, Ev_Now])"
        unfolding e range_ending.simps using bs(2) as(2) Some False
        by (intro exI [of _ "Ev_Status out # bs"] exI [of _ ok]) auto
      with e bs as Some False show ?thesis
        by (intro exI [of _ "(Ev_Status out # bs) @ [Ev_Abort (Some a), Ev_Now, Ev_Stop ok, Ev_Disarm, Ev_Now]"])
          (auto simp: x range_log_def is_status_def)
    next
      case None
      have quiet: "list_all goes_on (Ev_Status out # bs @ as)" "length (filter is_status (Ev_Status out # bs @ as)) = 1"
        "sorted_wrt (<) (beats_of (Ev_Status out # bs @ as))" "\<forall>p \<in> set (beats_of (Ev_Status out # bs @ as)). beaten < p"
        using bs(2) as(2) None False by (auto simp: is_status_def)
      have stop: ?thesis if "r = Range_Refused e" "y = (w3, l3)"
        "e = Aggregate_Gone (gone + 1) \<and> as_unreachable out \<and> rl_unreachable_limit rl \<le> gone + 1 \<or> e = Aggregate_Died \<and> \<not> as_unreachable out \<and> \<not> as_alive out" for e
        using that bs as quiet by (intro exI [of _ "Ev_Status out # bs @ as"]) (auto simp: x range_log_def)
      have more: ?thesis if m: "range_loop k (logged rn) rl (map_option logged_beat beat) (map_option logged_abort abort) cards t0 g b' ?nap = (r, y)" for g
      proof -
        from Suc.IH [OF m] obtain es where "snd y = snd ?nap @ es" "range_log (rl_unreachable_limit rl) k b' r es" by auto
        with range_log_step [OF this(2) False le bs(2), of as] as(2) None show ?thesis
          by (intro exI [of _ "Ev_Status out # bs @ as @ Ev_Sleep # es"]) (simp add: nap x)
      qed
      from run False None have "(\<exists>e. r = Range_Refused e \<and> y = (w3, l3) \<and>
            (e = Aggregate_Gone (gone + 1) \<and> as_unreachable out \<and> rl_unreachable_limit rl \<le> gone + 1 \<or> e = Aggregate_Died \<and> \<not> as_unreachable out \<and> \<not> as_alive out))
         \<or> (\<exists>g. range_loop k (logged rn) rl (map_option logged_beat beat) (map_option logged_abort abort) cards t0 g b' ?nap = (r, y))"
        by (auto split: if_splits)
      then show ?thesis using stop more by blast
    qed
  qed
qed

text \<open>
  Claim C16. A board block is given up only when the caller asks for it: an aborted run ends with the caller's request,
  the order to stop the aggregate and the order to disarm the workers, in this sequence, and carries the reason
  the caller gave; the request comes before any status said the receipt was verified. The order is given
  once, and whether the aggregate obeyed is not looked at. A finished run ends with a status that
  says verified, whose digest it carries. A finished or refused run asks for no stop and disarms nobody, so a refused run
  leaves the aggregate as it is; it is refused because the start failed, the looks ran out, the aggregate
  could not be reached, or a status said it had died. Beats are sent only when the work done has risen, and the
  aggregate is asked at most max_ticks times.
\<close>

theorem run_range_teardown:
  assumes "run_range (logged rn) rl (map_option logged_beat beat) (map_option logged_abort abort) cards (w, []) = (r, w', evs)"
    and "beat_keeps beat"
  shows "sorted_wrt (<) (beats_of evs) \<and> length (filter is_status evs) \<le> rl_max_ticks rl
    \<and> (evs = [Ev_Now, Ev_Range False] \<and> r = Range_Refused Could_Not_Start
       \<or> (\<exists>es. evs = [Ev_Now, Ev_Range True, Ev_Arm] @ es \<and> range_ending (rl_max_ticks rl) (rl_unreachable_limit rl) r es))"
proof -
  obtain t0 w1 where n: "rn_now rn w = (t0, w1)" by (rule prod.exhaust)
  obtain ok w2 where st: "rn_start_range rn w1 = (ok, w2)" by (rule prod.exhaust)
  have run: "rn_now (logged rn) (w, []) = (t0, w1, [Ev_Now])" "rn_start_range (logged rn) (w1, [Ev_Now]) = (ok, w2, [Ev_Now, Ev_Range ok])"
    by (simp_all add: logged_def logging_def n st)
  let ?x = "rn_arm (logged rn) cards (w2, [Ev_Now, Ev_Range ok])"
  have x: "snd ?x = [Ev_Now, Ev_Range ok, Ev_Arm]" by (simp add: logged_def noting_def)
  show ?thesis
  proof (cases ok)
    case False
    with assms(1) show ?thesis by (auto simp: run_range_def run Let_def is_status_def)
  next
    case True
    with assms(1) have "range_loop (rl_max_ticks rl) (logged rn) rl (map_option logged_beat beat) (map_option logged_abort abort) cards t0 0 0 ?x = (r, w', evs)"
      by (simp add: run_range_def run Let_def)
    from range_loop_log [OF assms(2) this] obtain es where es: "evs = snd ?x @ es" "range_log (rl_unreachable_limit rl) (rl_max_ticks rl) 0 r es"
      by auto
    have "evs = [Ev_Now, Ev_Range True, Ev_Arm] @ es" using es(1) unfolding x by (simp add: True)
    with es(2) show ?thesis
      by (auto simp: range_log_def is_status_def)
  qed
qed

section \<open>A simulated fleet\<close>

text \<open>
  Card \<open>a\<close> never proves, card \<open>b\<close> is done and free; a receipt is the file a (re)launched prover writes, and staging
  finds it where \<open>receipt_path\<close> says.
\<close>

record sim_fleet =
  sf_time :: rat
  sf_files :: "(string \<times> string) list"
  sf_staged :: int

definition sim_runner :: "(string, sim_fleet) runner" where
  "sim_runner = \<lparr> rn_clear = (\<lambda>cs w. (map (\<lambda>(_, c). (c, Some ''LEFT:0 REDIRS:0'')) cs, w)),
     rn_launch_all = (\<lambda>cs w. w\<lparr>sf_files := [(''b'', receipt_path ''/workspace'' 1 {})]\<rparr>), rn_arm = (\<lambda>cs w. w),
     rn_probe_all = (\<lambda>cs re w. (\<lambda>c. if c = ''b'' then Some ''DONE:9:0:1:0'' else Some ''7:0:1:0'', w)),
     rn_stage = (\<lambda>c ch re w. if (c, receipt_path ''/workspace'' ch re) \<in> set (sf_files w)
        then (True, w\<lparr>sf_staged := sf_staged w + 1\<rparr>) else (False, w)),
     rn_kill = (\<lambda>c w. w),
     rn_relaunch = (\<lambda>c ch w. w\<lparr>sf_files := (c, receipt_path ''/workspace'' ch {ch}) # sf_files w\<rparr>),
     rn_staged_count = (\<lambda>w. (Some (sf_staged w), w)), rn_start_aggregate = (\<lambda>w. w),
     rn_status = (\<lambda>w. (\<lparr> as_verified = True, as_unreachable = False, as_alive = True, as_digest = Some ''d'',
        as_joins = None, as_segments = Some ''3/9 segments'' \<rparr>, w)),
     rn_start_range = (\<lambda>w. (True, w)), rn_stop_range = (\<lambda>w. (True, w)), rn_disarm = (\<lambda>cs w. w),
     rn_now = (\<lambda>w. (sf_time w, w)), rn_sleep = (\<lambda>d w. w\<lparr>sf_time := sf_time w + d\<rparr>) \<rparr>"

definition sim_limits :: run_limits where
  "sim_limits = \<lparr> rl_stall = None, rl_max_ticks = 4, rl_tick_s = 60, rl_unreachable_limit = 20 \<rparr>"

definition sim_world :: sim_fleet where
  "sim_world = \<lparr> sf_time = 0, sf_files = [], sf_staged = 0 \<rparr>"

text \<open>
  A chunk that was moved or restarted writes its receipt in its own directory, but \<open>run_block\<close> collects receipts
  without naming the chunks it relaunched: the receipt is there, is never found, and the block is refused.
\<close>

lemma recovered_chunk_never_staged:
  "fst (run_block (\<lambda>c. c) default_fleet_settings sim_runner sim_limits [(0, ''a''), (1, ''b'')] sim_world) = Inl (Not_All_Staged (Some 1))
   \<and> (''b'', receipt_path ''/workspace'' 0 {0})
       \<in> set (sf_files (snd (run_block (\<lambda>c. c) default_fleet_settings sim_runner sim_limits [(0, ''a''), (1, ''b'')] sim_world)))"
  by code_simp

theorem run_block_order_witness:
  "\<exists>s w evs. run_block (\<lambda>c. c) default_fleet_settings (logged sim_runner) sim_limits [(1, ''b'')] (sim_world, []) = (Inr s, w, evs)
     \<and> (\<exists>out. Ev_Status out \<in> set evs \<and> as_verified out \<and> bs_digest s = as_digest out)"
proof -
  let ?run = "run_block (\<lambda>c. c) default_fleet_settings (logged sim_runner) sim_limits [(1, ''b'')] (sim_world, [])"
  have "case fst ?run of Inl _ \<Rightarrow> False | Inr _ \<Rightarrow> True" by code_simp
  then obtain s where "fst ?run = Inr s" by (cases "fst ?run") auto
  moreover obtain x w evs where run: "?run = (x, w, evs)" by (metis surj_pair)
  ultimately have "x = Inr s" by simp
  with run_block_order [OF run] run show ?thesis by (auto simp: reported_def)
qed

text \<open>A caller that asks for the cards back is obeyed.\<close>

definition slow_runner :: "(string, sim_fleet) runner" where
  "slow_runner = sim_runner\<lparr>rn_status := (\<lambda>w. (\<lparr> as_verified = False, as_unreachable = False, as_alive = True, as_digest = None,
     as_joins = None, as_segments = Some ''3/9 segments'' \<rparr>, w))\<rparr>"

definition tip_abort :: "sim_fleet \<Rightarrow> (unit + string option) \<times> sim_fleet" where
  "tip_abort w = (if sf_time w < 60 then Inl () else Inr (Some ''tip''), w)"

theorem run_range_teardown_witness:
  "\<exists>why t w evs es. run_range (logged slow_runner) sim_limits (map_option logged_beat (Some (\<lambda>p w. (p, w))))
      (map_option logged_abort (Some tip_abort)) [(1, ''b'')] (sim_world, []) = (Range_Aborted why t, w, evs)
     \<and> evs = [Ev_Now, Ev_Range True, Ev_Arm] @ es \<and> range_ending 4 20 (Range_Aborted why t :: string range_end) es \<and> beats_of evs = [3]"
proof -
  let ?run = "run_range (logged slow_runner) sim_limits (map_option logged_beat (Some (\<lambda>p w. (p, w))))
      (map_option logged_abort (Some tip_abort)) [(1, ''b'')] (sim_world, [])"
  have b: "(case fst ?run of Range_Aborted _ _ \<Rightarrow> True | _ \<Rightarrow> False) \<and> beats_of (snd (snd ?run)) = [3]" by code_simp
  then obtain why t where s: "fst ?run = Range_Aborted why t" by (cases "fst ?run") auto
  obtain w evs where w: "snd ?run = (w, evs)" by (rule prod.exhaust)
  have run: "?run = (Range_Aborted why t, w, evs)" by (metis prod.collapse s w)
  have "beat_keeps (Some (\<lambda>p w. (p, w)) :: (nat \<Rightarrow> sim_fleet \<Rightarrow> nat \<times> sim_fleet) option)" by (simp add: beat_keeps_def)
  from run_range_teardown [OF run this] obtain es where "evs = [Ev_Now, Ev_Range True, Ev_Arm] @ es"
    "range_ending 4 20 (Range_Aborted why t :: string range_end) es"
    by (auto simp: sim_limits_def)
  with run b w show ?thesis by auto
qed

end
