(* ===== verification/Offsite.thy ===== *)
theory Offsite
  imports Claims Text_Match
begin

text \<open>
  The copies of the proofs, the spine, the sponsor keys, the ledger and the bridge's checkpoints in two object
  stores (\<open>coordinator/deploy/hazync-offsite-proofs.py\<close>). A store is a map from keys to bytes; what an upload
  returns and what it leaves in the store is a parameter (it may fail, or return and have stored something
  else), and so are SHA-256, gzip, tar, gpg and the verifier. Progress reports are left out, and the threads of
  the pool are taken in the order of the list: each writes a key of its own. The lemmas show that no mode
  overwrites an object, what the exit codes promise, what may leave the box encrypted, and that the upload
  rate keeps its bound.
\<close>

section \<open>The store\<close>

type_synonym store = "string \<rightharpoonup> string"

text \<open>An upload returns (true) or raises; what it left is the store it gives back.\<close>

type_synonym putter = "string \<Rightarrow> string \<Rightarrow> store \<Rightarrow> bool \<times> store"

datatype outcome = Exit nat | Died

definition list_remote :: "store \<Rightarrow> string \<Rightarrow> string \<Rightarrow> nat option" where
  "list_remote s prefix name = map_option length (s (prefix @ name))"

text \<open>What S3 documents of a PUT: it writes one object. \<open>faithful\<close>: a PUT that returns has stored the bytes.\<close>

definition one_object :: "putter \<Rightarrow> bool" where
  "one_object put \<longleftrightarrow> (\<forall>k v s j. j \<noteq> k \<longrightarrow> snd (put k v s) j = s j)"

definition faithful :: "putter \<Rightarrow> bool" where
  "faithful put \<longleftrightarrow> (\<forall>k v s. fst (put k v s) \<longrightarrow> snd (put k v s) k = Some v)"

text \<open>The guest's id, from the lines of \<open>reproduce/METHOD_ID\<close>; None is the \<open>SystemExit\<close>.\<close>

definition hex_lower :: "char \<Rightarrow> bool" where
  "hex_lower c \<longleftrightarrow> c \<in> set ''0123456789abcdef''"

fun method_prefix :: "string list \<Rightarrow> string option" where
  "method_prefix [] = None"
| "method_prefix (l # ls) = (let line = py_strip l; tok = filter hex_lower line in
     if line \<noteq> [] \<and> hd line \<noteq> CHR ''#'' \<and> length tok \<ge> 64 then Some (take 8 tok) else method_prefix ls)"

section \<open>What is to be copied\<close>

type_synonym listing = "(string \<times> nat) list"

definition plan :: "listing \<Rightarrow> (string \<Rightarrow> nat option) \<Rightarrow> string list \<times> string list" where
  "plan local remote =
     (sort (map fst (filter (\<lambda>(n, z). remote n = None) local)),
      sort (map fst (filter (\<lambda>(n, z). remote n \<noteq> None \<and> remote n \<noteq> Some z) local)))"

record dir_entry =
  de_name :: string
  de_file :: bool
  de_mtime :: time
  de_data :: string

definition list_local :: "dir_entry list \<Rightarrow> rat \<Rightarrow> time \<Rightarrow> string \<Rightarrow> string \<Rightarrow> listing \<times> nat" where
  "list_local entries min_age now prefix suffix =
     (let ours = filter (\<lambda>e. de_file e \<and> prefixed prefix (de_name e) \<and> suffixed suffix (de_name e)) entries in
      (map (\<lambda>e. (de_name e, length (de_data e))) (filter (\<lambda>e. \<not> now - de_mtime e < min_age) ours),
       length (filter (\<lambda>e. now - de_mtime e < min_age) ours)))"

text \<open>\<open>upload_all\<close>: the number of failures; \<open>read\<close> opens the file, None where that fails.\<close>

definition up :: "putter \<Rightarrow> string \<Rightarrow> (string \<Rightarrow> string option) \<Rightarrow> string \<Rightarrow> nat \<times> store \<Rightarrow> nat \<times> store" where
  "up put prefix read name = (\<lambda>(failed, s). case read name of None \<Rightarrow> (failed + 1, s)
     | Some data \<Rightarrow> (case put (prefix @ name) data s of (ok, s) \<Rightarrow> (if ok then failed else failed + 1, s)))"

definition upload_all :: "putter \<Rightarrow> string \<Rightarrow> (string \<Rightarrow> string option) \<Rightarrow> string list \<Rightarrow> store \<Rightarrow> nat \<times> store" where
  "upload_all put prefix read names s = fold (up put prefix read) names (0, s)"

text \<open>\<open>missing[: limit]\<close> with a limit that may be negative.\<close>

definition py_upto :: "int \<Rightarrow> 'a list \<Rightarrow> 'a list" where
  "py_upto k xs = (if 0 \<le> k then take (nat k) xs else take (length xs - nat (- k)) xs)"

definition proofs_copy :: "putter \<Rightarrow> string \<Rightarrow> (string \<Rightarrow> string option) \<Rightarrow> int \<Rightarrow> listing \<Rightarrow> store \<Rightarrow> outcome \<times> store" where
  "proofs_copy put prefix read limit local s =
     (let (missing, differ) = plan local (list_remote s prefix);
          todo = (if limit \<noteq> 0 then py_upto limit missing else missing);
          (failed, s) = upload_all put prefix read todo s
      in (Exit (if failed \<noteq> 0 then 1 else 0), s))"

definition proofs_check :: "string \<Rightarrow> listing \<Rightarrow> store \<Rightarrow> outcome" where
  "proofs_check prefix local s =
     (let (missing, differ) = plan local (list_remote s prefix) in Exit (if missing \<noteq> [] \<or> differ \<noteq> [] then 1 else 0))"

section \<open>Checkpoints\<close>

text \<open>\<open>str.isdigit\<close>, which takes the superscripts too; \<open>int\<close> raises on those.\<close>

definition isdigit_char :: "char \<Rightarrow> bool" where
  "isdigit_char c \<longleftrightarrow> digit_val c \<noteq> None \<or> (of_char c :: nat) \<in> {178, 179, 185}"

definition isdigit :: "string \<Rightarrow> bool" where
  "isdigit s \<longleftrightarrow> s \<noteq> [] \<and> list_all isdigit_char s"

definition stem :: "string \<Rightarrow> string \<Rightarrow> string \<Rightarrow> string" where
  "stem pre suf name = take (length name - length pre - length suf) (drop (length pre) name)"

definition checkpoints_copy ::
    "putter \<Rightarrow> string \<Rightarrow> (string \<Rightarrow> string option) \<Rightarrow> rat \<Rightarrow> time \<Rightarrow> dir_entry list option \<Rightarrow> store \<Rightarrow> outcome \<times> store" where
  "checkpoints_copy put prefix read min_age now entries_opt s = (case entries_opt of None \<Rightarrow> (Exit 1, s) | Some entries \<Rightarrow>
     (let local = filter (\<lambda>(n, z). isdigit (stem ''state_'' ''.bin'' n)) (fst (list_local entries min_age now ''state_'' ''.bin'')) in
      if local = [] then (Exit 0, s)
      else let (missing, differ) = plan local (list_remote s prefix);
               (failed, s) = upload_all put prefix read missing s
           in if \<exists>(n, z) \<in> set local. py_int (stem ''state_'' ''.bin'' n) = None then (Died, s)
              else (Exit (if failed \<noteq> 0 \<or> (\<exists>(n, z) \<in> set local. list_remote s prefix n \<noteq> Some z) then 1 else 0), s)))"

section \<open>The spine\<close>

text \<open>
  One try reads \<open>spine.json\<close> (its bytes and what they decode to, None where that raises) and then
  \<open>spine.bin\<close>; None where a file cannot be read.
\<close>

record spine_read =
  sr_json :: "(string \<times> json option) option"
  sr_bin :: "string option"

definition json_is :: "json \<Rightarrow> int \<Rightarrow> bool" where
  "json_is j n \<longleftrightarrow> json_num j = Some (of_int n)"

text \<open>
  The tries of \<open>read_spine\<close>: \<open>Inr\<close> a pair that agrees, \<open>Inl True\<close> none did, \<open>Inl False\<close> an exception no clause
  catches (\<open>meta.get\<close> of what is no object).
\<close>

fun read_spine :: "(string \<Rightarrow> string) \<Rightarrow> spine_read list \<Rightarrow> bool + (string \<times> string \<times> json)" where
  "read_spine sha256 [] = Inl True"
| "read_spine sha256 (r # rs) = (case (sr_json r, sr_bin r) of
       (Some (js, Some mt), Some data) \<Rightarrow>
         if \<not> is_object mt then Inl False
         else if jget ''sha256'' mt = JStr (sha256 data) \<and> json_is (jget ''bytes'' mt) (int (length data)) then Inr (data, js, mt)
         else read_spine sha256 rs
     | _ \<Rightarrow> read_spine sha256 rs)"

definition spine_name :: "json \<Rightarrow> string option" where
  "spine_name mt = (case (json_int (jget ''lo'' mt), json_int (jget ''hi'' mt)) of
       (Some lo, Some hi) \<Rightarrow> Some (''spine_'' @ int_str lo @ CHR ''-'' # int_str hi)
     | _ \<Rightarrow> None)"

text \<open>\<open>.bin\<close> first; a key the listing had is left alone. False: an upload raised.\<close>

fun put_pair :: "putter \<Rightarrow> string \<Rightarrow> (string \<Rightarrow> nat option) \<Rightarrow> (string \<times> string) list \<Rightarrow> store \<Rightarrow> bool \<times> store" where
  "put_pair put prefix remote [] s = (True, s)"
| "put_pair put prefix remote ((key, body) # ps) s =
     (if remote key \<noteq> None then put_pair put prefix remote ps s
      else case put (prefix @ key) body s of (ok, s) \<Rightarrow> if ok then put_pair put prefix remote ps s else (False, s))"

text \<open>\<open>verify\<close>: None where no verifier is given, else its exit code on the bytes, None where it cannot be run.\<close>

definition spine_copy ::
    "putter \<Rightarrow> (string \<Rightarrow> string) \<Rightarrow> string \<Rightarrow> spine_read list \<Rightarrow> (string \<Rightarrow> int option) option \<Rightarrow> store \<Rightarrow> outcome \<times> store" where
  "spine_copy put sha256 prefix reads verify s = (case read_spine sha256 reads of
       Inl no_pair \<Rightarrow> (if no_pair then Exit 1 else Died, s)
     | Inr (data, js, mt) \<Rightarrow> (case spine_name mt of None \<Rightarrow> (Died, s) | Some name \<Rightarrow>
         if (case verify of None \<Rightarrow> False | Some f \<Rightarrow> f data \<noteq> Some 0) then (Exit 1, s)
         else let pair = [(name @ ''.bin'', data), (name @ ''.json'', js)];
                  (ok, s) = put_pair put prefix (list_remote s prefix) pair s
              in if \<not> ok then (Exit 1, s)
                 else (Exit (if \<forall>(k, b) \<in> set pair. list_remote s prefix k = Some (length b) then 0 else 1), s)))"

section \<open>Sponsor keys and the rescued tree\<close>

text \<open>\<open>str.upper\<close> on ASCII, which is all gpg's key ids hold.\<close>

definition upper :: "string \<Rightarrow> string" where
  "upper s = map (\<lambda>c. let k = (of_char c :: nat) in if 97 \<le> k \<and> k \<le> 122 then char_of (k - 32) else c) s"

text \<open>
  gpg in the scratch keyring: whether the import worked, the key listing (None: a non-zero exit), a ciphertext
  (None: a non-zero exit) and the packet listing of one.
\<close>

record gpg =
  g_import :: bool
  g_list :: "string option"
  g_encrypt :: "string \<Rightarrow> string option"
  g_packets :: "string \<Rightarrow> string"

record key_scan =
  ks_pub :: bool
  ks_primary :: "string list"
  ks_subs :: "string list"

definition int_or_empty :: "string \<Rightarrow> bool" where
  "int_or_empty f \<longleftrightarrow> f = [] \<or> py_int f \<noteq> None"

text \<open>One line of the listing; None where an index or a number raises. The expiry dates are not kept here.\<close>

definition scan_line :: "string \<Rightarrow> key_scan \<Rightarrow> key_scan option" where
  "scan_line line ks = (let f = py_split CHR '':'' line in
     if f ! 0 = ''pub'' then
       (if 6 < length f \<and> int_or_empty (f ! 6) then Some (ks\<lparr>ks_pub := True\<rparr>) else None)
     else if f ! 0 = ''sub'' then
       (if length f \<le> 11 then None
        else if CHR ''e'' \<in> set (f ! 11) \<and> f ! 1 \<noteq> ''e'' \<and> f ! 1 \<noteq> ''r'' then
          (if int_or_empty (f ! 6) then Some (ks\<lparr>ks_pub := False, ks_subs := ks_subs ks @ [f ! 4]\<rparr>) else None)
        else Some (ks\<lparr>ks_pub := False\<rparr>))
     else if f ! 0 = ''fpr'' \<and> ks_pub ks then
       (if 9 < length f then Some (ks\<lparr>ks_primary := ks_primary ks @ [upper (f ! 9)]\<rparr>) else None)
     else Some ks)"

fun scan_lines :: "string list \<Rightarrow> key_scan \<Rightarrow> key_scan option" where
  "scan_lines [] ks = Some ks"
| "scan_lines (l # ls) ks = (case scan_line l ks of None \<Rightarrow> None | Some ks \<Rightarrow> scan_lines ls ks)"

text \<open>The usable encryption subkeys of the pinned key: \<open>None\<close> an exception, \<open>Some []\<close> a refusal.\<close>

definition recipient_keys :: "gpg \<Rightarrow> string \<Rightarrow> string list option" where
  "recipient_keys g fpr =
     (if \<not> g_import g then Some []
      else case g_list g of None \<Rightarrow> Some [] | Some out \<Rightarrow>
        (case scan_lines (py_splitlines out) \<lparr> ks_pub = False, ks_primary = [], ks_subs = [] \<rparr> of
           None \<Rightarrow> None
         | Some ks \<Rightarrow> if upper fpr \<notin> set (ks_primary ks) then Some [] else Some (map upper (ks_subs ks))))"

text \<open>The key ids named in the packets: every match of the pattern, from left to right.\<close>

definition is_hex_char :: "char \<Rightarrow> bool" where
  "is_hex_char c \<longleftrightarrow> c \<in> set ''0123456789abcdefABCDEF''"

definition m_keyid :: "string \<Rightarrow> (string \<times> string) option" where
  "m_keyid s = do {
     s \<leftarrow> m_lit ''pubkey enc packet: version '' s; (_, s) \<leftarrow> m_num s; s \<leftarrow> m_lit '', algo '' s; (_, s) \<leftarrow> m_num s;
     s \<leftarrow> m_lit '', keyid '' s;
     if length (take 16 s) = 16 \<and> list_all is_hex_char (take 16 s) then Some (take 16 s, drop 16 s) else None }"

text \<open>What follows a match holds no start of another before its end, so the search may go on one character further.\<close>

fun packet_keyids :: "string \<Rightarrow> string list" where
  "packet_keyids [] = []"
| "packet_keyids (c # s) = (case m_keyid (c # s) of Some (k, _) \<Rightarrow> upper k # packet_keyids s | None \<Rightarrow> packet_keyids s)"

definition named_in :: "gpg \<Rightarrow> string list \<Rightarrow> string \<Rightarrow> bool" where
  "named_in g subs cipher \<longleftrightarrow> set (packet_keyids (g_packets g cipher)) \<inter> set subs \<noteq> {}"

text \<open>The files packed, sorted by name; \<open>tar\<close> is the library's PAX format.\<close>

record tree_file =
  tf_rel :: string
  tf_plain :: bool
  tf_data :: string

definition tar_members :: "string \<Rightarrow> tree_file list \<Rightarrow> (string \<times> string) list" where
  "tar_members kind files = map (\<lambda>f. (kind @ tf_rel f, tf_data f)) (sort_key tf_rel (filter tf_plain files))"

definition sealed_name :: "(string \<Rightarrow> string) \<Rightarrow> string \<Rightarrow> string \<Rightarrow> string" where
  "sealed_name sha256 kind bytes = kind @ CHR ''-'' # take 16 (sha256 bytes) @ ''.tar.gpg''"

text \<open>\<open>keys_copy\<close> and \<open>rescued_copy\<close>: the second looks at the first \<open>window\<close> bytes of the ciphertext only.\<close>

definition sealed_copy ::
    "putter \<Rightarrow> (string \<Rightarrow> string) \<Rightarrow> ((string \<times> string) list \<Rightarrow> string) \<Rightarrow> gpg \<Rightarrow> string \<Rightarrow> string \<Rightarrow> nat option \<Rightarrow> string \<Rightarrow>
     tree_file list option \<Rightarrow> store \<Rightarrow> outcome \<times> store" where
  "sealed_copy put sha256 tar g prefix kind window fpr src s = (case src of None \<Rightarrow> (Exit 1, s) | Some files \<Rightarrow>
     (case recipient_keys g fpr of None \<Rightarrow> (Died, s) | Some subs \<Rightarrow>
        if subs = [] then (Exit 1, s)
        else let bytes = tar (tar_members (kind @ ''/'') files); name = sealed_name sha256 kind bytes in
          if list_remote s prefix name \<noteq> None then (Exit 0, s)
          else (case g_encrypt g bytes of None \<Rightarrow> (Exit 1, s) | Some cipher \<Rightarrow>
            let seen = (case window of None \<Rightarrow> cipher | Some n \<Rightarrow> take n cipher) in
            if cipher = [] \<and> window = None then (Exit 1, s)
            else if \<not> named_in g subs seen then (Exit 1, s)
            else if infix_of (kind @ ''/'') seen then (Exit 1, s)
            else case put (prefix @ name) cipher s of (ok, s) \<Rightarrow>
              if \<not> ok then (Exit 1, s)
              else (Exit (if list_remote s prefix name = Some (length cipher) then 0 else 1), s))))"

definition keys_copy where
  "keys_copy put sha256 tar g prefix fpr src s = sealed_copy put sha256 tar g prefix ''identities'' None fpr src s"

definition rescued_copy where
  "rescued_copy put sha256 tar g prefix fpr src s = sealed_copy put sha256 tar g prefix ''rescued'' (Some 1048576) fpr src s"

section \<open>The ledger\<close>

text \<open>The online backup: the answer of the integrity check and the number of rows, None for an SQLite error.\<close>

definition ledger_snapshot :: "(string \<times> nat) option \<Rightarrow> bool" where
  "ledger_snapshot backup = (case backup of None \<Rightarrow> False | Some (integrity, _) \<Rightarrow> integrity = ''ok'')"

definition ledger_copy :: "putter \<Rightarrow> string \<Rightarrow> string \<Rightarrow> (string \<times> nat) option \<Rightarrow> string \<Rightarrow> store \<Rightarrow> outcome \<times> store" where
  "ledger_copy put prefix stamp backup gz s =
     (let name = ''coordinator-'' @ stamp @ ''.db.gz'' in
      if \<not> ledger_snapshot backup then (Exit 1, s)
      else case list_remote s prefix name of
          Some z \<Rightarrow> (Exit (if z = length gz then 0 else 1), s)
        | None \<Rightarrow> (case put (prefix @ name) gz s of (ok, s) \<Rightarrow>
            if \<not> ok then (Exit 1, s) else (Exit (if list_remote s prefix name = Some (length gz) then 0 else 1), s)))"


section \<open>The upload rate\<close>

text \<open>
  The token bucket of \<open>RateLimit\<close>, charged from all upload threads: one pass of the loop of \<open>take\<close> under the
  lock. A pass that is not let through sleeps and tries again.
\<close>

record bucket =
  bk_tokens :: rat
  bk_t :: rat

definition rate_take :: "rat \<Rightarrow> nat \<Rightarrow> rat \<Rightarrow> bucket \<Rightarrow> bool \<times> bucket" where
  "rate_take bps n now b =
     (if bps \<le> 0 then (True, b)
      else let tokens = min bps (bk_tokens b + (now - bk_t b) * bps) in
        if tokens > 0 then (True, \<lparr> bk_tokens = tokens - of_nat n, bk_t = now \<rparr>)
        else (False, \<lparr> bk_tokens = tokens, bk_t = now \<rparr>))"

text \<open>The passes of any threads in the order of the lock: the bytes let through and the bucket left.\<close>

fun rate_run :: "rat \<Rightarrow> (nat \<times> rat) list \<Rightarrow> bucket \<Rightarrow> nat \<times> bucket" where
  "rate_run bps [] b = (0, b)"
| "rate_run bps ((n, now) # ps) b = (case rate_take bps n now b of (ok, b) \<Rightarrow>
     (case rate_run bps ps b of (sent, b) \<Rightarrow> ((if ok then n else 0) + sent, b)))"

section \<open>Nothing is overwritten\<close>

definition keeps :: "store \<Rightarrow> store \<Rightarrow> bool" where
  "keeps s t \<longleftrightarrow> (\<forall>k. s k \<noteq> None \<longrightarrow> t k = s k)"

lemma keeps_refl [simp]: "keeps s s"
  by (simp add: keeps_def)

lemma keeps_trans [trans]: "keeps s t \<Longrightarrow> keeps t u \<Longrightarrow> keeps s u"
  by (simp add: keeps_def)

lemma list_remote_None [simp]: "list_remote s prefix n = None \<longleftrightarrow> s (prefix @ n) = None"
  by (simp add: list_remote_def)

lemma list_remote_Some: "list_remote s prefix n = Some z \<longleftrightarrow> (\<exists>d. s (prefix @ n) = Some d \<and> length d = z)"
  by (simp add: list_remote_def)

lemma put_keeps: "one_object put \<Longrightarrow> s k = None \<Longrightarrow> keeps s (snd (put k v s))"
  unfolding one_object_def keeps_def by metis

lemma put_keeps': "one_object put \<Longrightarrow> put k v s = (ok, t) \<Longrightarrow> s k = None \<Longrightarrow> keeps s t"
  using put_keeps [of put s k v] by simp

lemma put_other: "one_object put \<Longrightarrow> j \<noteq> k \<Longrightarrow> snd (put k v s) j = s j"
  by (simp add: one_object_def)

lemma up_other: "one_object put \<Longrightarrow> j \<noteq> prefix @ n \<Longrightarrow> snd (up put prefix read n (f, s)) j = s j"
  using put_other [of put j "prefix @ n"] by (auto simp: up_def split: option.split prod.split) (metis snd_conv)

lemma up_keeps: "one_object put \<Longrightarrow> s (prefix @ n) = None \<Longrightarrow> keeps s (snd (up put prefix read n (f, s)))"
  using put_keeps [of put s "prefix @ n"]
  by (auto simp: up_def split: option.split prod.split) (metis snd_conv)

lemma fold_up_keeps:
  assumes "one_object put" "distinct ns" "\<forall>n \<in> set ns. s (prefix @ n) = None"
  shows "keeps s (snd (fold (up put prefix read) ns (f, s)))"
  using assms(2,3)
proof (induction ns arbitrary: f s)
  case (Cons n ns)
  obtain f' s' where u: "up put prefix read n (f, s) = (f', s')" by (cases "up put prefix read n (f, s)")
  have "keeps s s'" using up_keeps [OF assms(1), of s prefix n read f] Cons.prems u by simp
  moreover have "\<forall>m \<in> set ns. s' (prefix @ m) = None"
    using up_other [OF assms(1), of "prefix @ m" prefix n read f s for m] Cons.prems u by (metis (no_types) distinct.simps(2) list.set_intros(2) same_append_eq snd_conv)
  ultimately show ?case using Cons.IH [of s' f'] Cons.prems u by (auto intro: keeps_trans)
qed simp

lemma plan_missing:
  "plan local remote = (missing, differ) \<Longrightarrow> set missing = {n. \<exists>z. (n, z) \<in> set local \<and> remote n = None}"
  "plan local remote = (missing, differ) \<Longrightarrow> set differ = {n. \<exists>z. (n, z) \<in> set local \<and> remote n \<noteq> None \<and> remote n \<noteq> Some z}"
  by (force simp: plan_def)+

lemma plan_distinct: "plan local remote = (missing, differ) \<Longrightarrow> distinct (map fst local) \<Longrightarrow> distinct missing"
  by (auto simp: plan_def distinct_map_filter)

lemma py_upto_sub: "set (py_upto k xs) \<subseteq> set xs" "distinct xs \<Longrightarrow> distinct (py_upto k xs)"
  by (auto simp: py_upto_def dest: in_set_takeD)

lemma upload_keeps:
  assumes "one_object put" "plan local (list_remote s prefix) = (missing, differ)" "distinct (map fst local)"
    and "distinct todo" "set todo \<subseteq> set missing"
  shows "keeps s (snd (upload_all put prefix read todo s))"
  unfolding upload_all_def
  using assms plan_missing(1) [OF assms(2)] by (intro fold_up_keeps) auto

lemma listed_distinct:
  "distinct (map de_name entries) \<Longrightarrow> distinct (map fst (filter P (fst (list_local entries a now p q))))"
  by (auto simp: list_local_def Let_def comp_def intro!: distinct_map_filter)

lemma put_pair_keeps: "one_object put \<Longrightarrow> distinct (map fst ps) \<Longrightarrow> \<forall>(k, b) \<in> set ps. remote k = None \<longrightarrow> s (prefix @ k) = None \<Longrightarrow>
    keeps s (snd (put_pair put prefix remote ps s))"
proof (induction ps arbitrary: s)
  case (Cons p ps)
  obtain k b where p: "p = (k, b)" by fastforce
  show ?case
  proof (cases "remote k")
    case None
    obtain ok s' where u: "put (prefix @ k) b s = (ok, s')" by fastforce
    have 1: "keeps s s'" using put_keeps [OF Cons.prems(1), of s "prefix @ k" b] None Cons.prems u p by simp
    have "\<forall>(k, b) \<in> set ps. remote k = None \<longrightarrow> s' (prefix @ k) = None"
      using put_other [OF Cons.prems(1), of _ "prefix @ k" b s] Cons.prems u p by (force simp: image_iff)
    with Cons.IH [of s'] Cons.prems p have "keeps s' (snd (put_pair put prefix remote ps s'))" by simp
    with 1 u p None show ?thesis by (auto intro: keeps_trans)
  next
    case (Some z)
    with Cons p show ?thesis by simp
  qed
qed simp


lemma sealed_keeps: "one_object put \<Longrightarrow> keeps s (snd (sealed_copy put sha256 tar g prefix kind window fpr src s))"
  by (auto simp: sealed_copy_def Let_def dest: put_keeps' split: option.split prod.split)

lemma modes_keep:
  assumes "one_object put" and "distinct (map fst local)" and "distinct (map de_name entries)"
  shows "keeps s (snd (proofs_copy put prefix read limit local s))
    \<and> keeps s (snd (checkpoints_copy put prefix read min_age now (Some entries) s))
    \<and> keeps s (snd (spine_copy put sha256 prefix reads verify s))
    \<and> keeps s (snd (keys_copy put sha256 tar g prefix fpr src s))
    \<and> keeps s (snd (rescued_copy put sha256 tar g prefix fpr src s))
    \<and> keeps s (snd (ledger_copy put prefix stamp backup gz s))"
proof (intro conjI)
  obtain missing differ where p: "plan local (list_remote s prefix) = (missing, differ)" by fastforce
  show "keeps s (snd (proofs_copy put prefix read limit local s))"
    using upload_keeps [OF assms(1) p assms(2)] plan_distinct [OF p assms(2)] py_upto_sub [where k = limit and xs = missing]
    by (auto simp: proofs_copy_def Let_def p split: prod.split) (metis order_refl snd_conv)+
next
  let ?local = "filter (\<lambda>(n, z). isdigit (stem ''state_'' ''.bin'' n)) (fst (list_local entries min_age now ''state_'' ''.bin''))"
  obtain missing differ where p: "plan ?local (list_remote s prefix) = (missing, differ)" by fastforce
  have d: "distinct (map fst ?local)" by (rule listed_distinct [OF assms(3)])
  obtain failed s' where u: "upload_all put prefix read missing s = (failed, s')" by fastforce
  from upload_keeps [OF assms(1) p d plan_distinct [OF p d] order_refl, of read] u have "keeps s s'" by simp
  then show "keeps s (snd (checkpoints_copy put prefix read min_age now (Some entries) s))"
    by (simp add: checkpoints_copy_def Let_def p u)
next
  show "keeps s (snd (spine_copy put sha256 prefix reads verify s))"
  proof (cases "read_spine sha256 reads")
    case (Inr x)
    obtain data js mt where x: "x = (data, js, mt)" by (metis surj_pair)
    show ?thesis
    proof (cases "spine_name mt")
      case (Some name)
      let ?pair = "[(name @ ''.bin'', data), (name @ ''.json'', js)]"
      obtain ok s' where u: "put_pair put prefix (list_remote s prefix) ?pair s = (ok, s')" by fastforce
      have "keeps s (snd (put_pair put prefix (list_remote s prefix) ?pair s))"
        by (rule put_pair_keeps [OF assms(1)]) auto
      with u have "keeps s s'" by simp
      with u show ?thesis by (simp add: spine_copy_def Inr x Some Let_def)
    qed (simp add: spine_copy_def Inr x)
  qed (simp add: spine_copy_def)
next
  show "keeps s (snd (ledger_copy put prefix stamp backup gz s))"
    using assms(1) by (auto simp: ledger_copy_def Let_def dest: put_keeps' split: option.split prod.split)
qed (simp_all add: keys_copy_def rescued_copy_def sealed_keeps [OF assms(1)])

definition plain_put :: putter where
  "plain_put k v s = (True, s(k \<mapsto> v))"

lemma plain_put_laws: "one_object plain_put" "faithful plain_put"
  by (simp_all add: one_object_def faithful_def plain_put_def)

section \<open>The command\<close>

datatype offsite_mode = M_Copy | M_Check | M_Spine | M_Keys | M_Ledger | M_Checkpoints | M_Rescued

record offsite_args =
  oa_mode :: offsite_mode
  oa_keys_text :: string
  oa_bucket :: "string option"
  oa_verify :: "(string \<Rightarrow> int option) option"
  oa_pubkey :: bool
  oa_recipient :: string
  oa_min_age :: rat
  oa_limit :: int

text \<open>The box it runs on: clock and stamp, directories, files as they are opened, gpg and the ledger's backup.\<close>

record box =
  ob_now :: time
  ob_stamp :: string
  ob_method :: "string list"
  ob_proofs :: "dir_entry list"
  ob_checkpoints :: "dir_entry list option"
  ob_open :: "string \<Rightarrow> string option"
  ob_spine :: "spine_read list"
  ob_identities :: "tree_file list option"
  ob_rescued :: "tree_file list option"
  ob_gpg :: gpg
  ob_backup :: "(string \<times> nat) option"
  ob_gz :: string

text \<open>A \<open>SystemExit\<close> with a message is exit status 1. The store is that of the bucket named.\<close>

definition offsite_main ::
    "putter \<Rightarrow> (string \<Rightarrow> string) \<Rightarrow> ((string \<times> string) list \<Rightarrow> string) \<Rightarrow> offsite_args \<Rightarrow> box \<Rightarrow> store \<Rightarrow> outcome \<times> store" where
  "offsite_main put sha256 tar a x s =
     (let parts = py_words (oa_keys_text a); named = (oa_bucket a \<noteq> None \<and> oa_bucket a \<noteq> Some []) in
      if length parts < 3 then (Exit 1, s)
      else if \<not> named \<and> length parts \<le> 3 then (Exit 1, s)
      else case oa_mode a of
          M_Spine \<Rightarrow> (case method_prefix (ob_method x) of None \<Rightarrow> (Exit 1, s)
            | Some m \<Rightarrow> spine_copy put sha256 (''spine-'' @ m @ ''/'') (ob_spine x) (oa_verify a) s)
        | M_Checkpoints \<Rightarrow> checkpoints_copy put ''checkpoints/'' (ob_open x) (oa_min_age a) (ob_now x) (ob_checkpoints x) s
        | M_Ledger \<Rightarrow> ledger_copy put ''ledger/'' (ob_stamp x) (ob_backup x) (ob_gz x) s
        | M_Rescued \<Rightarrow> (if \<not> oa_pubkey a \<or> oa_recipient a = [] then (Exit 1, s)
            else rescued_copy put sha256 tar (ob_gpg x) ''rescued/'' (oa_recipient a) (ob_rescued x) s)
        | M_Keys \<Rightarrow> (if \<not> oa_pubkey a \<or> oa_recipient a = [] then (Exit 1, s)
            else keys_copy put sha256 tar (ob_gpg x) ''sponsor-keys/'' (oa_recipient a) (ob_identities x) s)
        | mode \<Rightarrow> (case method_prefix (ob_method x) of None \<Rightarrow> (Exit 1, s) | Some m \<Rightarrow>
            (let prefix = ''proofs-'' @ m @ ''/'';
                 local = fst (list_local (ob_proofs x) (oa_min_age a) (ob_now x) ''proof_'' []) in
             if mode = M_Check then (proofs_check prefix local s, s)
             else proofs_copy put prefix (ob_open x) (oa_limit a) local s)))"

text \<open>
  Claim C37. Every mode only adds. Whatever an upload does to the one object it writes, and whether it returns
  or raises, an object that was in the store keeps its bytes: the copy of the proofs and of the checkpoints,
  the spine, the encrypted copies and the ledger never write a key the store has.
\<close>

theorem offsite_append_only:
  assumes "one_object put" and "distinct (map de_name (ob_proofs x))"
    and "\<And>entries. ob_checkpoints x = Some entries \<Longrightarrow> distinct (map de_name entries)"
  shows "keeps s (snd (offsite_main put sha256 tar a x s))"
proof -
  have local: "distinct (map fst (fst (list_local (ob_proofs x) m n p q)))" for m n p q
    using listed_distinct [OF assms(2), of "\<lambda>_. True"] by simp
  have "keeps s (snd (checkpoints_copy put prefix read m n (ob_checkpoints x) s))" for prefix read m n
    using modes_keep [OF assms(1), of "[]" "the (ob_checkpoints x)" s prefix read 0 m n] assms(3)
    by (cases "ob_checkpoints x") (auto simp: checkpoints_copy_def)
  moreover have "keeps s (snd (proofs_copy put prefix read limit (fst (list_local (ob_proofs x) m n p q)) s))" for prefix read limit m n p q
    using modes_keep [OF assms(1) local, of "[]"] by simp
  ultimately show ?thesis
    using modes_keep [OF assms(1), of "[]" "[]" s]
    by (auto simp: offsite_main_def Let_def split: offsite_mode.split option.split)
qed

definition copy_args :: offsite_args where
  "copy_args = \<lparr> oa_mode = M_Copy, oa_keys_text = ''id secret r2'', oa_bucket = Some ''b'', oa_verify = None,
     oa_pubkey = False, oa_recipient = [], oa_min_age = 120, oa_limit = 0 \<rparr>"

definition demo_box :: box where
  "demo_box = \<lparr> ob_now = 1000, ob_stamp = ''t'',
     ob_method = [''# guest'', ''0123456701234567012345670123456701234567012345670123456701234567''],
     ob_proofs = [\<lparr> de_name = ''proof_1.bin'', de_file = True, de_mtime = 0, de_data = ''one'' \<rparr>,
                  \<lparr> de_name = ''proof_2.bin'', de_file = True, de_mtime = 5, de_data = ''two'' \<rparr>],
     ob_checkpoints = None, ob_open = (\<lambda>n. Some ''two''), ob_spine = [], ob_identities = None, ob_rescued = None,
     ob_gpg = \<lparr> g_import = False, g_list = None, g_encrypt = (\<lambda>_. None), g_packets = (\<lambda>_. []) \<rparr>,
     ob_backup = None, ob_gz = [] \<rparr>"

definition old_store :: store where
  "old_store = [''proofs-01234567/proof_1.bin'' \<mapsto> ''older'']"

theorem offsite_append_only_witness:
  "let s' = snd (offsite_main plain_put (\<lambda>x. x) (\<lambda>ms. []) copy_args demo_box old_store) in
     s' ''proofs-01234567/proof_1.bin'' = Some ''older'' \<and> s' ''proofs-01234567/proof_2.bin'' = Some ''two''"
proof -
  let ?s = "snd (offsite_main plain_put (\<lambda>x. x) (\<lambda>ms. []) copy_args demo_box old_store)"
  have "keeps old_store ?s"
    by (rule offsite_append_only [OF plain_put_laws(1)]) (simp_all add: demo_box_def)
  moreover have "?s ''proofs-01234567/proof_2.bin'' = Some ''two''" by code_simp
  ultimately show ?thesis by (simp add: keeps_def old_store_def Let_def)
qed

section \<open>What the exit codes promise\<close>

lemma check_exact: "proofs_check prefix local s = Exit 0 \<longleftrightarrow> (\<forall>(n, z) \<in> set local. list_remote s prefix n = Some z)"
proof -
  obtain missing differ where p: "plan local (list_remote s prefix) = (missing, differ)" by fastforce
  have "missing = [] \<and> differ = [] \<longleftrightarrow> set missing = {} \<and> set differ = {}" by simp
  also have "\<dots> \<longleftrightarrow> (\<forall>(n, z) \<in> set local. list_remote s prefix n = Some z)"
    unfolding plan_missing [OF p] by fastforce
  finally have e: "(missing = [] \<and> differ = []) \<longleftrightarrow> (\<forall>(n, z) \<in> set local. list_remote s prefix n = Some z)" .
  show ?thesis unfolding e [symmetric] by (simp add: proofs_check_def p)
qed

lemma up_fails: "fst (fold (up put prefix read) ns (f, s)) \<ge> f"
proof (induction ns arbitrary: f s)
  case (Cons n ns)
  obtain f' s' where u: "up put prefix read n (f, s) = (f', s')" by (cases "up put prefix read n (f, s)")
  then have "f \<le> f'" by (auto simp: up_def split: option.splits prod.splits if_splits)
  with Cons [of f' s'] u show ?case by simp
qed simp

lemma fold_up_other: "one_object put \<Longrightarrow> \<forall>n \<in> set ns. j \<noteq> prefix @ n \<Longrightarrow> snd (fold (up put prefix read) ns (f, s)) j = s j"
proof (induction ns arbitrary: f s)
  case (Cons n ns)
  obtain f' s' where u: "up put prefix read n (f, s) = (f', s')" by (cases "up put prefix read n (f, s)")
  then have "s' j = s j" using up_other [OF Cons.prems(1), of j prefix n read f s] Cons.prems(2) by simp
  with Cons u show ?case by simp
qed simp

lemma fold_up_stored:
  assumes "one_object put" "faithful put"
  shows "fst (fold (up put prefix read) ns (f, s)) = f \<Longrightarrow> distinct ns \<Longrightarrow> n \<in> set ns \<Longrightarrow>
    \<exists>d. read n = Some d \<and> snd (fold (up put prefix read) ns (f, s)) (prefix @ n) = Some d"
proof (induction ns arbitrary: f s)
  case (Cons m ns)
  obtain f' s' where u: "up put prefix read m (f, s) = (f', s')" by (cases "up put prefix read m (f, s)")
  from u have "f \<le> f'" by (auto simp: up_def split: option.splits prod.splits if_splits)
  moreover have "f' \<le> f" using Cons.prems(1) up_fails [of f' put prefix read ns s'] by (simp add: u)
  ultimately have f: "f' = f" by simp
  show ?case
  proof (cases "n = m")
    case True
    from u f have "\<exists>d. read m = Some d \<and> s' (prefix @ m) = Some d"
      using assms(2) unfolding faithful_def up_def by (auto split: option.splits prod.splits if_splits) (metis fst_conv snd_conv)
    moreover have "\<forall>k \<in> set ns. prefix @ m \<noteq> prefix @ k" using Cons.prems(2) by auto
    ultimately show ?thesis using True u by (simp add: fold_up_other [OF assms(1)])
  next
    case False
    with Cons u f show ?thesis by simp
  qed
qed simp

text \<open>
  The check holds exactly when every proof old enough is in the store with its size, and a copy
  without a limit that reports success, on a store that keeps what it accepts, leaves a store on which the
  check can only fail for an object that was there before with another size.
\<close>

theorem copy_then_check:
  assumes "one_object put" "faithful put" "distinct (map fst local)"
    and "\<And>n z d. (n, z) \<in> set local \<Longrightarrow> read n = Some d \<Longrightarrow> length d = z"
    and "proofs_copy put prefix read 0 local s = (Exit 0, s')"
  shows "proofs_check prefix local s' = Exit 0 \<longleftrightarrow> (\<forall>(n, z) \<in> set local. list_remote s prefix n = None \<or> list_remote s prefix n = Some z)"
proof -
  obtain missing differ where p: "plan local (list_remote s prefix) = (missing, differ)" by fastforce
  from assms(5) have u: "upload_all put prefix read missing s = (0, s')"
    by (auto simp: proofs_copy_def Let_def p split: prod.splits if_splits)
  have k: "keeps s s'" using upload_keeps [OF assms(1) p assms(3) plan_distinct [OF p assms(3)] order_refl, of read] u by simp
  have "list_remote s' prefix n = Some z \<longleftrightarrow> list_remote s prefix n = None \<or> list_remote s prefix n = Some z" if n: "(n, z) \<in> set local" for n z
  proof (cases "list_remote s prefix n")
    case None
    with n have "n \<in> set missing" unfolding plan_missing(1) [OF p] by blast
    with fold_up_stored [OF assms(1,2), of prefix read missing 0 s n] u plan_distinct [OF p assms(3)]
    obtain d where "read n = Some d" "s' (prefix @ n) = Some d" by (auto simp: upload_all_def)
    with assms(4) [OF n] None show ?thesis by (simp add: list_remote_def)
  next
    case (Some y)
    then have "s' (prefix @ n) = s (prefix @ n)" using k by (auto simp: keeps_def list_remote_def)
    with Some show ?thesis by (auto simp: list_remote_def)
  qed
  then show ?thesis unfolding check_exact by fast
qed

definition p_store :: store where
  "p_store = [''p/proof_1.bin'' \<mapsto> ''one'']"

definition two_proofs :: listing where
  "two_proofs = [(''proof_1.bin'', 3), (''proof_2.bin'', 5)]"

definition proof_bytes :: "string \<Rightarrow> string option" where
  "proof_bytes n = (if n = ''proof_1.bin'' then Some ''one'' else Some ''three'')"

theorem copy_then_check_witness:
  "proofs_check ''p/'' two_proofs (snd (proofs_copy plain_put ''p/'' proof_bytes 0 two_proofs p_store)) = Exit 0"
proof -
  let ?r = "proofs_copy plain_put ''p/'' proof_bytes 0 two_proofs p_store"
  have "fst ?r = Exit 0" by code_simp
  then have r: "?r = (Exit 0, snd ?r)" by (metis prod.collapse)
  have "distinct (map fst two_proofs)" by (simp add: two_proofs_def)
  moreover have "length d = z" if "(n, z) \<in> set two_proofs" "proof_bytes n = Some d" for n z d
    using that by (auto simp: two_proofs_def proof_bytes_def)
  moreover have "\<forall>(n, z) \<in> set two_proofs. list_remote p_store ''p/'' n = None \<or> list_remote p_store ''p/'' n = Some z"
    by (simp add: two_proofs_def p_store_def list_remote_def)
  ultimately show ?thesis using copy_then_check [OF plain_put_laws, of two_proofs proof_bytes "''p/''" p_store "snd ?r"] r by blast
qed


lemma read_spine_Inr: "read_spine sha256 reads = Inr (data, js, mt) \<Longrightarrow>
    (\<exists>r \<in> set reads. sr_json r = Some (js, Some mt) \<and> sr_bin r = Some data)
    \<and> jget ''sha256'' mt = JStr (sha256 data) \<and> json_is (jget ''bytes'' mt) (int (length data))"
  by (induction reads) (auto split: option.splits if_splits prod.splits)

lemma spine_copy_cases:
  assumes "spine_copy put sha256 prefix reads verify s = (out, s')"
  obtains "s' = s" "out \<noteq> Exit 0"
  | data js mt name ok where "read_spine sha256 reads = Inr (data, js, mt)" "spine_name mt = Some name"
      "\<forall>f. verify = Some f \<longrightarrow> f data = Some 0"
      "put_pair put prefix (list_remote s prefix) [(name @ ''.bin'', data), (name @ ''.json'', js)] s = (ok, s')"
      "out = Exit 0 \<longleftrightarrow> ok \<and> list_remote s' prefix (name @ ''.bin'') = Some (length data)
         \<and> list_remote s' prefix (name @ ''.json'') = Some (length js)"
proof (cases "read_spine sha256 reads")
  case (Inl e)
  with assms that(1) show ?thesis by (auto simp: spine_copy_def split: if_splits)
next
  case (Inr x)
  obtain data js mt where x: "x = (data, js, mt)" by (metis surj_pair)
  show ?thesis
  proof (cases "spine_name mt")
    case None
    with assms that(1) Inr x show ?thesis by (auto simp: spine_copy_def)
  next
    case (Some name)
    let ?pair = "[(name @ ''.bin'', data), (name @ ''.json'', js)]"
    obtain ok t where u: "put_pair put prefix (list_remote s prefix) ?pair s = (ok, t)" by fastforce
    show ?thesis
    proof (cases "case verify of None \<Rightarrow> False | Some f \<Rightarrow> f data \<noteq> Some 0")
      case True
      with assms that(1) Inr x Some show ?thesis by (auto simp: spine_copy_def)
    next
      case False
      then have v: "\<forall>f. verify = Some f \<longrightarrow> f data = Some 0" by (cases verify) auto
      from assms False have "s' = t" "out = Exit 0 \<longleftrightarrow> ok \<and> list_remote t prefix (name @ ''.bin'') = Some (length data)
         \<and> list_remote t prefix (name @ ''.json'') = Some (length js)"
        by (auto simp: spine_copy_def Inr x Some u Let_def simp del: put_pair.simps split: if_splits)
      with that(2) [OF Inr [unfolded x] Some v] u show ?thesis by blast
    qed
  qed
qed

text \<open>
  Claim C39. A copy of the spine that reports success was read as a pair that agrees, was accepted by the
  verifier where one is given, and is in the store with its length under its own height. And, on a store that
  keeps what it accepts, whenever a run adds a \<open>.json\<close> the \<open>.bin\<close> of that height is there, with the bytes the
  \<open>.json\<close> describes unless the store had a \<open>.bin\<close> of that name before.
\<close>

theorem spine_copy_sound:
  assumes "spine_copy put sha256 prefix reads verify s = (out, s')" and "one_object put" and "faithful put"
  shows "(out = Exit 0 \<longrightarrow> (\<exists>r \<in> set reads. \<exists>js mt data name. sr_json r = Some (js, Some mt) \<and> sr_bin r = Some data
        \<and> jget ''sha256'' mt = JStr (sha256 data) \<and> spine_name mt = Some name \<and> (\<forall>f. verify = Some f \<longrightarrow> f data = Some 0)
        \<and> list_remote s' prefix (name @ ''.bin'') = Some (length data) \<and> list_remote s' prefix (name @ ''.json'') = Some (length js)))
    \<and> (\<forall>k. s (k @ ''.json'') = None \<and> s' (k @ ''.json'') \<noteq> None \<longrightarrow>
         s' (k @ ''.bin'') \<noteq> None
         \<and> (s (k @ ''.bin'') = None \<longrightarrow> (\<exists>r \<in> set reads. \<exists>js mt data. sr_json r = Some (js, Some mt)
              \<and> jget ''sha256'' mt = JStr (sha256 data) \<and> s' (k @ ''.bin'') = Some data)))"
proof (cases rule: spine_copy_cases [OF assms(1)])
  case 1
  then show ?thesis by auto
next
  case (2 data js mt name ok)
  note r = read_spine_Inr [OF 2(1)]
  let ?b = "prefix @ name @ ''.bin''" and ?j = "prefix @ name @ ''.json''"
  have keep: "s' x = s x" if "x \<noteq> ?b" "x \<noteq> ?j" for x
    using 2(4) put_other [OF assms(2), of x ?b data s] put_other [OF assms(2), of x ?j js] that
    by (auto split: if_splits prod.splits) (metis snd_conv)+
  have stored: "s' ?j \<noteq> None \<and> s ?j = None \<longrightarrow> s' ?b \<noteq> None \<and> (s ?b = None \<longrightarrow> s' ?b = Some data)"
  proof (cases "s ?b")
    case (Some y)
    with 2(4) put_other [OF assms(2), of ?b ?j js s] show ?thesis
      by (auto split: if_splits prod.splits)
  next
    case None
    obtain ok1 s1 where u: "put ?b data s = (ok1, s1)" by fastforce
    show ?thesis
    proof (cases ok1)
      case True
      have "s1 ?b = Some data" using assms(3) u True unfolding faithful_def by (metis fst_conv snd_conv)
      with 2(4) None u True put_other [OF assms(2), of ?b ?j js s1] show ?thesis
        by (auto split: if_splits prod.splits)
    next
      case False
      with 2(4) None u put_other [OF assms(2), of ?j ?b data s] show ?thesis by auto
    qed
  qed
  show ?thesis
  proof (intro conjI impI allI)
    assume "out = Exit 0"
    with r 2 show "\<exists>r \<in> set reads. \<exists>js mt data name. sr_json r = Some (js, Some mt) \<and> sr_bin r = Some data
        \<and> jget ''sha256'' mt = JStr (sha256 data) \<and> spine_name mt = Some name \<and> (\<forall>f. verify = Some f \<longrightarrow> f data = Some 0)
        \<and> list_remote s' prefix (name @ ''.bin'') = Some (length data) \<and> list_remote s' prefix (name @ ''.json'') = Some (length js)"
      by blast
  next
    fix k assume k: "s (k @ ''.json'') = None \<and> s' (k @ ''.json'') \<noteq> None"
    have "k @ ''.json'' \<noteq> ?b" by (auto dest!: arg_cong [where f = "\<lambda>x. hd (tl (rev x))"])
    with keep [of "k @ ''.json''"] k have "k @ ''.json'' = ?j" by metis
    then have kn: "k = prefix @ name" by simp
    with stored k show "s' (k @ ''.bin'') \<noteq> None" by simp
    assume "s (k @ ''.bin'') = None"
    with kn stored k r show "\<exists>r \<in> set reads. \<exists>js mt data. sr_json r = Some (js, Some mt)
              \<and> jget ''sha256'' mt = JStr (sha256 data) \<and> s' (k @ ''.bin'') = Some data" by auto
  qed
qed


definition spine_meta_json :: "string \<Rightarrow> nat \<Rightarrow> json" where
  "spine_meta_json sha n = JObj [(''lo'', JInt 1), (''hi'', JInt 9), (''sha256'', JStr sha), (''bytes'', JInt (int n))]"

definition good_read :: spine_read where
  "good_read = \<lparr> sr_json = Some (''{js}'', Some (spine_meta_json ''data'' 4)), sr_bin = Some ''data'' \<rparr>"

text \<open>SHA-256 is the identity here.\<close>

theorem spine_copy_sound_witness:
  "\<exists>s'. spine_copy plain_put (\<lambda>x. x) ''s/'' [good_read] (Some (\<lambda>_. Some 0)) Map.empty = (Exit 0, s')
     \<and> list_remote s' ''s/'' ''spine_1-9.bin'' = Some 4"
proof -
  let ?r = "spine_copy plain_put (\<lambda>x. x) ''s/'' [good_read] (Some (\<lambda>_. Some 0)) Map.empty"
  have "fst ?r = Exit 0" by code_simp
  then have r: "?r = (Exit 0, snd ?r)" by (metis prod.collapse)
  have "spine_name (spine_meta_json ''data'' 4) = Some ''spine_1-9''" by code_simp
  with spine_copy_sound [OF r plain_put_laws] r show ?thesis by (auto simp: good_read_def)
qed

text \<open>A \<open>.bin\<close> of another length is left in place, and the \<open>.json\<close> goes up beside it all the same.\<close>

lemma json_beside_other_bin:
  "case spine_copy plain_put (\<lambda>x. x) ''s/'' [good_read] None [''s/spine_1-9.bin'' \<mapsto> ''da''] of (out, s') \<Rightarrow>
     out = Exit 1 \<and> s' ''s/spine_1-9.json'' = Some ''{js}'' \<and> s' ''s/spine_1-9.bin'' = Some ''da''"
  by code_simp

section \<open>What leaves the box encrypted\<close>

text \<open>
  What makes a ciphertext one that the pinned key's owner alone can open, said of gpg's listing and not of how the code reads it:
  the listing of the imported file has a primary key with the pinned fingerprint (the \<open>fpr\<close> line that follows a \<open>pub\<close> line with no
  \<open>sub\<close> line between), and a subkey line that can encrypt and is neither expired nor revoked, whose id the ciphertext names.
\<close>

definition colon_field :: "nat \<Rightarrow> string \<Rightarrow> string" where
  "colon_field n line = py_split CHR '':'' line ! n"

definition lists_primary :: "string list \<Rightarrow> string \<Rightarrow> bool" where
  "lists_primary lines fpr \<longleftrightarrow> (\<exists>pre p mid l post. lines = pre @ p # mid @ l # post \<and> colon_field 0 p = ''pub''
     \<and> (\<forall>m \<in> set mid. colon_field 0 m \<noteq> ''sub'') \<and> colon_field 0 l = ''fpr'' \<and> upper (colon_field 9 l) = fpr)"

definition usable_subkey :: "string list \<Rightarrow> string \<Rightarrow> bool" where
  "usable_subkey lines kid \<longleftrightarrow> (\<exists>l \<in> set lines. colon_field 0 l = ''sub'' \<and> CHR ''e'' \<in> set (colon_field 11 l)
     \<and> colon_field 1 l \<noteq> ''e'' \<and> colon_field 1 l \<noteq> ''r'' \<and> upper (colon_field 4 l) = kid)"

definition sealed_for :: "gpg \<Rightarrow> string \<Rightarrow> string \<Rightarrow> string \<Rightarrow> bool" where
  "sealed_for g fpr bytes cipher \<longleftrightarrow> g_import g \<and> g_encrypt g bytes = Some cipher
     \<and> (\<exists>out. g_list g = Some out \<and> lists_primary (py_splitlines out) (upper fpr)
         \<and> (\<exists>kid \<in> set (packet_keyids (g_packets g cipher)). usable_subkey (py_splitlines out) kid))"

text \<open>What the scan of the listing keeps comes from such lines.\<close>

lemma scan_subs:
  "scan_lines ls ks0 = Some ks \<Longrightarrow> x \<in> set (ks_subs ks) \<Longrightarrow> x \<in> set (ks_subs ks0) \<or> usable_subkey ls (upper x)"
proof (induction ls arbitrary: ks0)
  case (Cons l ls)
  then obtain ks1 where k: "scan_line l ks0 = Some ks1" "scan_lines ls ks1 = Some ks" by (auto split: option.splits)
  have "x \<in> set (ks_subs ks1) \<Longrightarrow> x \<in> set (ks_subs ks0) \<or> usable_subkey [l] (upper x)"
    using k(1) by (auto simp: scan_line_def usable_subkey_def colon_field_def Let_def split: if_splits)
  with Cons.IH [OF k(2) Cons.prems(2)] show ?case by (auto simp: usable_subkey_def)
qed simp

lemma lists_primary_Cons: "lists_primary ls x \<Longrightarrow> lists_primary (l # ls) x"
  unfolding lists_primary_def by (metis append_Cons)

lemma scan_primary:
  "scan_lines ls ks0 = Some ks \<Longrightarrow> x \<in> set (ks_primary ks) \<Longrightarrow> x \<in> set (ks_primary ks0) \<or> lists_primary ls x
    \<or> ks_pub ks0 \<and> (\<exists>mid l post. ls = mid @ l # post \<and> (\<forall>m \<in> set mid. colon_field 0 m \<noteq> ''sub'') \<and> colon_field 0 l = ''fpr'' \<and> upper (colon_field 9 l) = x)"
proof (induction ls arbitrary: ks0)
  case (Cons l ls)
  then obtain ks1 where k: "scan_line l ks0 = Some ks1" "scan_lines ls ks1 = Some ks" by (auto split: option.splits)
  let ?under = "\<lambda>ls. \<exists>mid l post. ls = mid @ l # post \<and> (\<forall>m \<in> set mid. colon_field 0 m \<noteq> ''sub'') \<and> colon_field 0 l = ''fpr'' \<and> upper (colon_field 9 l) = x"
  from Cons.IH [OF k(2) Cons.prems(2)] consider (old) "x \<in> set (ks_primary ks1)" | (rest) "lists_primary ls x" | (under) "ks_pub ks1" "?under ls"
    by blast
  then show ?case
  proof cases
    case old
    with k(1) have "x \<in> set (ks_primary ks0) \<or> ks_pub ks0 \<and> colon_field 0 l = ''fpr'' \<and> upper (colon_field 9 l) = x"
      by (auto simp: scan_line_def colon_field_def Let_def split: if_splits)
    then show ?thesis by (metis append_Nil empty_iff list.set(1))
  next
    case rest
    then show ?thesis by (simp add: lists_primary_Cons)
  next
    case under
    from k(1) under(1) have l: "colon_field 0 l = ''pub'' \<or> ks_pub ks0 \<and> colon_field 0 l \<noteq> ''sub''"
      by (auto simp: scan_line_def colon_field_def Let_def split: if_splits)
    from under(2) obtain mid m post where u: "ls = mid @ m # post" "\<forall>m \<in> set mid. colon_field 0 m \<noteq> ''sub''"
      "colon_field 0 m = ''fpr''" "upper (colon_field 9 m) = x" by blast
    show ?thesis
    proof (cases "colon_field 0 l = ''pub''")
      case True
      with u have "lists_primary (l # ls) x"
        unfolding lists_primary_def by (intro exI [of _ "[]"] exI [of _ l] exI [of _ mid] exI [of _ m] exI [of _ post]) simp
      then show ?thesis by blast
    next
      case False
      with l u have "ks_pub ks0 \<and> ?under (l # ls)" by (intro conjI exI [of _ "l # mid"] exI [of _ m] exI [of _ post]) auto
      then show ?thesis by blast
    qed
  qed
qed simp

lemma recipient_sealed:
  assumes "recipient_keys g fpr = Some subs" "named_in g subs cipher" "g_encrypt g bytes = Some cipher"
  shows "sealed_for g fpr bytes cipher"
proof -
  from assms(2) obtain kid where kid: "kid \<in> set (packet_keyids (g_packets g cipher))" "kid \<in> set subs" by (auto simp: named_in_def)
  with assms(1) obtain out ks where o: "g_import g" "g_list g = Some out"
      "scan_lines (py_splitlines out) \<lparr> ks_pub = False, ks_primary = [], ks_subs = [] \<rparr> = Some ks"
      "upper fpr \<in> set (ks_primary ks)" "subs = map upper (ks_subs ks)"
    by (auto simp: recipient_keys_def split: if_splits option.splits)
  from o(5) kid(2) obtain x where x: "x \<in> set (ks_subs ks)" "kid = upper x" by auto
  from scan_primary [OF o(3,4)] have "lists_primary (py_splitlines out) (upper fpr)" by simp
  moreover from scan_subs [OF o(3) x(1)] x(2) have "usable_subkey (py_splitlines out) kid" by simp
  ultimately show ?thesis using o(1,2) kid(1) assms(3) unfolding sealed_for_def by blast
qed

text \<open>
  Claim C38. The only object the copy of the sponsor keys can add or change is its own, named by the hash of the
  tree, and only with what gpg made of that very tree: a ciphertext whose packets name a subkey that gpg's listing of the
  imported key file shows as able to encrypt and neither expired nor revoked, where the same listing has a primary key with the pinned
  fingerprint, and in which no file name shows; success means the store holds an object of that name.
\<close>

theorem keys_leave_sealed:
  assumes "keys_copy put sha256 tar g prefix fpr src s = (out, s')" and "one_object put"
  shows "(\<forall>k. s' k \<noteq> s k \<longrightarrow> (\<exists>files cipher. src = Some files
        \<and> k = prefix @ sealed_name sha256 ''identities'' (tar (tar_members ''identities/'' files))
        \<and> s k = None \<and> sealed_for g fpr (tar (tar_members ''identities/'' files)) cipher
        \<and> \<not> infix_of ''identities/'' cipher \<and> s' = snd (put k cipher s)))
    \<and> (out = Exit 0 \<longrightarrow> (\<exists>files. src = Some files
        \<and> list_remote s' prefix (sealed_name sha256 ''identities'' (tar (tar_members ''identities/'' files))) \<noteq> None))"
proof -
  have t: "''identities'' @ ''/'' = ''identities/''" by simp
  show ?thesis
  proof (cases "s' = s")
    case True
    with assms(1) show ?thesis
      by (auto simp: keys_copy_def sealed_copy_def t Let_def list_remote_def split: option.splits if_splits prod.splits)
  next
    case False
    then obtain files subs cipher ok where x: "src = Some files" "recipient_keys g fpr = Some subs"
        "g_encrypt g (tar (tar_members ''identities/'' files)) = Some cipher" "named_in g subs cipher"
        "\<not> infix_of ''identities/'' cipher"
        "list_remote s prefix (sealed_name sha256 ''identities'' (tar (tar_members ''identities/'' files))) = None"
        "put (prefix @ sealed_name sha256 ''identities'' (tar (tar_members ''identities/'' files))) cipher s = (ok, s')"
        "out = Exit 0 \<longrightarrow> list_remote s' prefix (sealed_name sha256 ''identities'' (tar (tar_members ''identities/'' files))) \<noteq> None"
      using assms(1) by (auto simp: keys_copy_def sealed_copy_def t Let_def list_remote_def split: option.splits if_splits prod.splits)
    from x(7) have s': "s' = snd (put (prefix @ sealed_name sha256 ''identities'' (tar (tar_members ''identities/'' files))) cipher s)" by simp
    from recipient_sealed [OF x(2,4,3)] have "sealed_for g fpr (tar (tar_members ''identities/'' files)) cipher" .
    moreover have "k = prefix @ sealed_name sha256 ''identities'' (tar (tar_members ''identities/'' files))" if "s' k \<noteq> s k" for k
      using that s' put_other [OF assms(2), of k] by metis
    ultimately show ?thesis using x(1,5,6,8) s' by (auto simp: list_remote_def)
  qed
qed

definition demo_gpg :: gpg where
  "demo_gpg = \<lparr> g_import = True,
     g_list = Some (''pub:u:255:22:AAAA:1:2:::::sc::'' @ CHR 0x0A # ''fpr:::::::::FFFF:'' @ CHR 0x0A # ''sub:u:255:18:0123456789ABCDEF:1:2:::::e::''),
     g_encrypt = (\<lambda>b. Some (''sealed'')),
     g_packets = (\<lambda>c. '':pubkey enc packet: version 3, algo 18, keyid 0123456789abcdef'') \<rparr>"

definition one_key :: "tree_file list" where
  "one_key = [\<lparr> tf_rel = ''7/key.hex'', tf_plain = True, tf_data = ''secret'' \<rparr>]"

definition flat_tar :: "(string \<times> string) list \<Rightarrow> string" where
  "flat_tar ms = concat (map (\<lambda>(n, d). n @ d) ms)"

theorem keys_leave_sealed_witness:
  "\<exists>s' k. keys_copy plain_put (\<lambda>x. x) flat_tar demo_gpg ''k/'' ''ffff'' (Some one_key) Map.empty = (Exit 0, s')
     \<and> s' k = Some ''sealed'' \<and> sealed_for demo_gpg ''ffff'' (flat_tar (tar_members ''identities/'' one_key)) ''sealed''"
proof -
  let ?r = "keys_copy plain_put (\<lambda>x. x) flat_tar demo_gpg ''k/'' ''ffff'' (Some one_key) Map.empty"
  let ?k = "''k/'' @ sealed_name (\<lambda>x. x) ''identities'' (flat_tar (tar_members ''identities/'' one_key))"
  have "fst ?r = Exit 0 \<and> snd ?r ?k = Some ''sealed''" by code_simp
  then have r: "?r = (Exit 0, snd ?r)" and k: "snd ?r ?k = Some ''sealed''" by (metis prod.collapse)+
  from keys_leave_sealed [OF r plain_put_laws(1)] k obtain cipher where
    "sealed_for demo_gpg ''ffff'' (flat_tar (tar_members ''identities/'' one_key)) cipher" "snd ?r = snd (plain_put ?k cipher Map.empty)" by fastforce
  with k have "sealed_for demo_gpg ''ffff'' (flat_tar (tar_members ''identities/'' one_key)) ''sealed''" by (simp add: plain_put_def)
  with r k show ?thesis by blast
qed

text \<open>An upload that left part of the ciphertext behind is taken for a finished copy by every later run.\<close>

lemma truncated_copy_accepted:
  "let name = sealed_name (\<lambda>x. x) ''identities'' (flat_tar (tar_members ''identities/'' one_key));
       cut = (\<lambda>k v s. (True, s(k \<mapsto> take 3 v)));
       first = keys_copy cut (\<lambda>x. x) flat_tar demo_gpg ''k/'' ''ffff'' (Some one_key) Map.empty;
       second = keys_copy plain_put (\<lambda>x. x) flat_tar demo_gpg ''k/'' ''ffff'' (Some one_key) (snd first)
   in fst first = Exit 1 \<and> fst second = Exit 0 \<and> snd second (''k/'' @ name) = Some ''sea''"
  by code_simp

section \<open>The bound of the upload rate\<close>

lemma rate_take_step:
  assumes "0 < bps" "rate_take bps n now b = (ok, b')" "bk_t b \<le> now"
  shows "bk_t b' = now \<and> bk_tokens b' \<le> bps
    \<and> bk_tokens b' + (if ok then of_nat n else 0) \<le> bk_tokens b + (now - bk_t b) * bps
    \<and> (ok \<longrightarrow> - of_nat n < bk_tokens b')"
  using assms by (auto simp: rate_take_def Let_def split: if_splits)

lemma rate_run_later: "0 < bps \<Longrightarrow> sorted (bk_t b # map snd ps) \<Longrightarrow> rate_run bps ps b = (sent, b') \<Longrightarrow> bk_t b \<le> bk_t b'"
proof (induction ps arbitrary: b sent)
  case (Cons p ps)
  obtain n now ok b1 sent1 where p: "p = (n, now)" "rate_take bps n now b = (ok, b1)" "rate_run bps ps b1 = (sent1, b')"
    using Cons.prems(3) by (cases p) (auto split: prod.splits)
  with Cons.IH [of b1 sent1] rate_take_step [OF Cons.prems(1) p(2)] Cons.prems(1,2) show ?case by auto
qed simp

text \<open>With a sorted clock, no more goes out than the rate allows plus one burst and the last charge.\<close>

lemma rate_run_bound:
  assumes "0 < bps" "\<forall>(n, now) \<in> set ps. n \<le> N"
  shows "sorted (bk_t b # map snd ps) \<Longrightarrow> rate_run bps ps b = (sent, b') \<Longrightarrow>
    sent = 0 \<or> of_nat sent \<le> bk_tokens b + (bk_t b' - bk_t b) * bps + of_nat N"
  using assms(2)
proof (induction ps arbitrary: b sent)
  case Nil
  then show ?case by simp
next
  case (Cons p ps)
  obtain n now where p: "p = (n, now)" by fastforce
  obtain ok b1 where t: "rate_take bps n now b = (ok, b1)" by fastforce
  obtain sent1 where r: "rate_run bps ps b1 = (sent1, b')"
    using Cons.prems(2) by (auto simp: p t split: prod.splits)
  have sent: "sent = (if ok then n else 0) + sent1" using Cons.prems(2) by (simp add: p t r)
  from rate_take_step [OF assms(1) t] Cons.prems(1) p
  have s: "bk_t b1 = now" "bk_tokens b1 + (if ok then of_nat n else 0) \<le> bk_tokens b + (now - bk_t b) * bps" by auto
  have IH: "sent1 = 0 \<or> of_nat sent1 \<le> bk_tokens b1 + (bk_t b' - now) * bps + of_nat N"
    using Cons.IH [of b1 sent1] Cons.prems(1,3) r s(1) p by simp
  have "now \<le> bk_t b'" using rate_run_later [OF assms(1) _ r] Cons.prems(1) s(1) p by simp
  then have later: "(now - bk_t b) * bps \<le> (bk_t b' - bk_t b) * bps" using assms(1) by simp
  have split: "(bk_t b' - bk_t b) * bps = (now - bk_t b) * bps + (bk_t b' - now) * bps" by (simp add: algebra_simps)
  have n: "n \<le> N" using Cons.prems(3) p by simp
  show ?case
  proof (cases "sent1 = 0")
    case True
    with sent later s(2) n rate_take_step [OF assms(1) t] Cons.prems(1) p show ?thesis by auto
  next
    case False
    with IH sent s(2) split show ?thesis by auto
  qed
qed


text \<open>
  Claim C40. However the upload threads interleave, in any stretch of time the bytes let through are at most the
  rate times the time plus one second's burst plus the last charge, whatever the size of the charges; the burst never
  exceeds one second's worth; and whatever was let through before, the first attempt of any thread that comes after the debt has
  been repaid gets through. (Which of several waiting threads comes first is up to the scheduler, so no bound on one thread's wait is claimed.)
\<close>

theorem upload_rate_bound:
  assumes "0 < bps" "sorted (bk_t b # map snd ps)" "\<forall>(n, now) \<in> set ps. n \<le> N" "bk_tokens b \<le> bps"
    and "rate_run bps ps b = (sent, b')"
  shows "of_nat sent \<le> bps * (1 + (bk_t b' - bk_t b)) + of_nat N
    \<and> bk_tokens b' \<le> bps
    \<and> (\<forall>n now. now - bk_t b' > max 0 (- bk_tokens b' / bps) \<longrightarrow> fst (rate_take bps n now b'))"
proof (intro conjI allI impI)
  have later: "bk_t b \<le> bk_t b'" by (rule rate_run_later [OF assms(1,2,5)])
  have pos: "0 \<le> (bk_t b' - bk_t b) * bps" using later assms(1) by simp
  have eq: "bps * (1 + (bk_t b' - bk_t b)) = bps + (bk_t b' - bk_t b) * bps" by (simp add: algebra_simps)
  show "of_nat sent \<le> bps * (1 + (bk_t b' - bk_t b)) + of_nat N"
    unfolding eq using rate_run_bound [OF assms(1,3,2,5)] assms(1,4) pos by auto
  show "bk_tokens b' \<le> bps"
    using assms(2,4,5)
  proof (induction ps arbitrary: b sent)
    case (Cons p ps)
    obtain n now ok b1 sent1 where p: "p = (n, now)" "rate_take bps n now b = (ok, b1)" "rate_run bps ps b1 = (sent1, b')"
      using Cons.prems(3) by (cases p) (auto split: prod.splits)
    with Cons.IH [of b1 sent1] rate_take_step [OF assms(1) p(2)] Cons.prems(1) show ?case by auto
  qed simp
  fix n now assume now: "now - bk_t b' > max 0 (- bk_tokens b' / bps)"
  then have "- bk_tokens b' / bps < now - bk_t b'" by simp
  then have "- bk_tokens b' < (now - bk_t b') * bps" by (rule pos_divide_less_eq [THEN iffD1, OF assms(1)])
  then have "0 < bk_tokens b' + (now - bk_t b') * bps" by simp
  with assms(1) show "fst (rate_take bps n now b')" by (simp add: rate_take_def Let_def)
qed

theorem upload_rate_bound_witness:
  "case rate_run 8 [(100, 1), (50, 2), (50, 13)] \<lparr> bk_tokens = 8, bk_t = 0 \<rparr> of (sent, b') \<Rightarrow>
     sent = 150 \<and> of_nat sent \<le> 8 * (1 + (bk_t b' - 0)) + (of_nat 100 :: rat)"
proof -
  let ?b = "\<lparr> bk_tokens = 8, bk_t = 0 \<rparr>" and ?ps = "[(100, 1), (50, 2), (50, 13)]"
  obtain sent b' where r: "rate_run 8 ?ps ?b = (sent, b')" by fastforce
  have "fst (rate_run 8 ?ps ?b) = 150" by code_simp
  with r upload_rate_bound [of 8 ?b ?ps 100 sent b'] show ?thesis by simp
qed

end
