(* ===== verification/Retention.thy ===== *)
theory Retention
  imports Ledger Offsite
begin

text \<open>
  Deleting the witness bundles of finished blocks and making them again
  (\<open>coordinator/deploy/prune_bundles.py\<close>, its caller \<open>coordinator/deploy/hazync-prune-bundles.py\<close> and
  \<open>coordinator/deploy/regen_bundles.py\<close>). A directory is the list of the names in it, None where it is not a
  directory; a file is the text or the decoded JSON read from it, None where that raises. The bridge that
  replays is a parameter. The lemmas show that a bundle is deleted only when every condition of the rule
  holds, that its block then has a proof of its own on the board, and what a replay installs.
\<close>

section \<open>The decision\<close>

datatype keep_reason = Reverify_Failed | No_Checkpoint_Below | No_Verified_Proof | Outside_Spine | Not_In_R2 | Not_In_B2 | Near_Top

definition prune_decision ::
    "int \<Rightarrow> bool \<Rightarrow> bool \<Rightarrow> bool \<Rightarrow> bool \<Rightarrow> int \<Rightarrow> int \<Rightarrow> bool \<Rightarrow> bool \<Rightarrow> bool \<Rightarrow> keep_reason option" where
  "prune_decision h has_proof in_spine in_r2 in_b2 spine_top margin reverify_ok checkpoint_below require_checkpoint =
     (if \<not> reverify_ok then Some Reverify_Failed
      else if require_checkpoint \<and> \<not> checkpoint_below then Some No_Checkpoint_Below
      else if \<not> has_proof then Some No_Verified_Proof
      else if \<not> in_spine then Some Outside_Spine
      else if \<not> in_r2 then Some Not_In_R2
      else if \<not> in_b2 then Some Not_In_B2
      else if h > spine_top - margin then Some Near_Top
      else None)"

section \<open>Reading the world\<close>

text \<open>\<open>int(x or 0)\<close> and the \<open>except\<close>: what is missing, empty or unreadable is 0.\<close>

definition spine_top :: "json option \<Rightarrow> int" where
  "spine_top doc = (case doc of None \<Rightarrow> 0 | Some v \<Rightarrow> (case json_int (jget ''hi'' v) of None \<Rightarrow> 0 | Some n \<Rightarrow> n))"

definition verified_single_heights :: "range_row list \<Rightarrow> int \<rightharpoonup> range_id" where
  "verified_single_heights rows =
     fold (\<lambda>r m. if r_lo r = r_hi r \<and> or_empty (r_receipt_sha r) \<noteq> [] then m(r_lo r \<mapsto> r_id r) else m)
       (filter (\<lambda>r. r_status r = Verified) rows) Map.empty"

definition reverify_passed :: "string option \<Rightarrow> bool" where
  "reverify_passed marker = (case marker of None \<Rightarrow> False | Some t \<Rightarrow> (case py_words t of [] \<Rightarrow> False | fails # _ \<Rightarrow> fails = ''0''))"

text \<open>The heights in the names \<open><pre><height><suf>\<close> of a directory; \<open>int\<close> decides what a height is.\<close>

definition named_heights :: "string \<Rightarrow> string \<Rightarrow> string list \<Rightarrow> int list" where
  "named_heights pre suf names = sort (List.map_filter (\<lambda>n. if prefixed pre n \<and> suffixed suf n then py_int (stem pre suf n) else None) names)"

definition archived_checkpoints :: "string list option \<Rightarrow> int list" where
  "archived_checkpoints archive = (case archive of None \<Rightarrow> [] | Some names \<Rightarrow> named_heights ''state_'' ''.bin'' names)"

definition has_checkpoint_below :: "int \<Rightarrow> int list \<Rightarrow> bool" where
  "has_checkpoint_below h checkpoints = list_ex (\<lambda>c. c < h) checkpoints"

definition bundle_file :: "int \<Rightarrow> string" where
  "bundle_file h = ''bundle_'' @ int_str h @ ''.json''"

definition proof_name :: "range_id \<Rightarrow> string" where
  "proof_name rid = ''proof_'' @ rid @ ''.bin''"

section \<open>Pruning\<close>

record prune_args =
  pa_apply :: bool
  pa_margin :: int
  pa_require :: bool

record prune_box =
  pb_reverify :: "string option"
  pb_spine :: "json option"
  pb_archive :: "string list option"
  pb_bundles :: "string list option"
  pb_rows :: "range_row list option"
  pb_can_remove :: "string \<Rightarrow> bool"

definition decide :: "prune_args \<Rightarrow> prune_box \<Rightarrow> range_row list \<Rightarrow> string set \<Rightarrow> string set \<Rightarrow> int \<Rightarrow> keep_reason option" where
  "decide a x rows r2 b2 h =
     (let rid = verified_single_heights rows h; t = spine_top (pb_spine x);
          confirmed = (\<lambda>names. case rid of None \<Rightarrow> False | Some i \<Rightarrow> proof_name i \<in> names)
      in prune_decision h (rid \<noteq> None) (0 < h \<and> h \<le> t) (confirmed r2) (confirmed b2) t (pa_margin a)
           (reverify_passed (pb_reverify x)) (has_checkpoint_below h (archived_checkpoints (pb_archive x))) (pa_require a))"

text \<open>The loop of deletions: it ends at the first \<open>os.remove\<close> that raises.\<close>

fun remove_all :: "(string \<Rightarrow> bool) \<Rightarrow> int list \<Rightarrow> string list \<Rightarrow> nat \<times> string list" where
  "remove_all can [] dir = (0, dir)"
| "remove_all can (h # hs) dir =
     (if bundle_file h \<in> set dir \<and> can (bundle_file h) then remove_all can hs (remove1 (bundle_file h) dir) else (1, dir))"

text \<open>\<open>main\<close>: the exit code and the directory of bundles it leaves (None where there is none).\<close>

definition prune_main ::
    "prune_args \<Rightarrow> prune_box \<Rightarrow> (string set \<times> string set) option \<Rightarrow> nat \<times> string list option" where
  "prune_main a x confirmed =
     (if pa_require a \<and> pb_archive x = None then (2, pb_bundles x)
      else case pb_bundles x of None \<Rightarrow> (2, None) | Some dir \<Rightarrow>
        (case pb_rows x of None \<Rightarrow> (2, Some dir) | Some rows \<Rightarrow>
          (case confirmed of None \<Rightarrow> (2, Some dir) | Some (r2, b2) \<Rightarrow>
            (let heights = named_heights ''bundle_'' ''.json'' dir in
             if heights = [] then (2, Some dir)
             else let doomed = filter (\<lambda>h. decide a x rows r2 b2 h = None) heights in
               if pa_apply a then (case remove_all (pb_can_remove x) doomed dir of (code, dir) \<Rightarrow> (code, Some dir))
               else (0, Some dir)))))"

text \<open>The caller: what the listing of each store names, None where it cannot be read.\<close>

definition confirm :: "string list option \<Rightarrow> string list option \<Rightarrow> (string set \<times> string set) option" where
  "confirm r2 b2 = (case r2 of None \<Rightarrow> None | Some xs \<Rightarrow> if xs = [] then None
     else (case b2 of None \<Rightarrow> None | Some ys \<Rightarrow> if ys = [] then None else Some (set xs, set ys)))"

definition prune_caller :: "prune_args \<Rightarrow> prune_box \<Rightarrow> string list option \<Rightarrow> string list option \<Rightarrow> nat \<times> string list option" where
  "prune_caller a x r2 b2 = (case confirm r2 b2 of None \<Rightarrow> (2, pb_bundles x) | Some c \<Rightarrow> prune_main a x (Some c))"

section \<open>Regenerating\<close>

text \<open>Here \<open>isdigit\<close> decides what a height is; \<open>int\<close> of a superscript raises: None.\<close>

definition archived_rungs :: "string list option \<Rightarrow> int list option" where
  "archived_rungs archive = (case archive of None \<Rightarrow> Some [] | Some names \<Rightarrow>
     (let hs = filter isdigit (map (stem ''state_'' ''.bin'') (filter (\<lambda>n. prefixed ''state_'' n \<and> suffixed ''.bin'' n) names)) in
      if list_ex (\<lambda>h. py_int h = None) hs then None else Some (sort (map (\<lambda>h. the (py_int h)) hs))))"

definition rung_below :: "int \<Rightarrow> int list \<Rightarrow> int option" where
  "rung_below height rungs = (let below = filter (\<lambda>r. r < height) rungs in if below = [] then None else Some (Max (set below)))"

record regen_plan =
  rp_rung :: "int option"
  rp_lo :: int
  rp_hi :: int
  rp_missing :: "int list"

definition regen_plan_of :: "int list \<Rightarrow> int list \<Rightarrow> regen_plan option" where
  "regen_plan_of heights rungs =
     (let hs = sort (remdups heights) in
      if hs = [] then None
      else let missing = filter (\<lambda>h. rung_below h rungs = None) hs in
        Some \<lparr> rp_rung = (if missing \<noteq> [] then None else Some (Min ((\<lambda>h. the (rung_below h rungs)) ` set hs))),
               rp_lo = hd hs, rp_hi = last hs, rp_missing = missing \<rparr>)"

text \<open>A run of the bridge: exit code and output, None where it times out.\<close>

definition replay :: "(int \<times> string) option \<Rightarrow> bool" where
  "replay run = (case run of None \<Rightarrow> False | Some (code, out) \<Rightarrow> code = 0 \<and> infix_of ''resuming from checkpoint'' out)"

text \<open>
  The scratch directory and the live store as sets of names; \<open>bridge seed to scratch\<close> is the run on the seed's
  checkpoint and the scratch directory it leaves.
\<close>

record regen_state =
  rg_scratch :: "string set"
  rg_out :: "string set"

definition install :: "int \<Rightarrow> regen_state \<times> int list \<Rightarrow> regen_state \<times> int list" where
  "install h = (\<lambda>(g, absent).
     if bundle_file h \<in> rg_scratch g
     then (g\<lparr>rg_scratch := rg_scratch g - {bundle_file h}, rg_out := insert (bundle_file h) (rg_out g)\<rparr>, absent)
     else (g, absent @ [h]))"

definition regen_main ::
    "(int \<Rightarrow> int \<Rightarrow> string set \<Rightarrow> (int \<times> string) option \<times> string set) \<Rightarrow> bool \<Rightarrow> bool \<Rightarrow> string list option \<Rightarrow> int list option \<Rightarrow>
     regen_state \<Rightarrow> nat option \<times> regen_state" where
  "regen_main bridge binary_ok apply archive wanted g = (case wanted of None \<Rightarrow> (Some 2, g) | Some heights \<Rightarrow>
     if heights = [] then (Some 0, g)
     else if \<not> binary_ok then (Some 2, g)
     else case archived_rungs archive of None \<Rightarrow> (None, g) | Some rungs \<Rightarrow>
       (case regen_plan_of heights rungs of None \<Rightarrow> (None, g) | Some p \<Rightarrow>
         if rp_missing p \<noteq> [] then (Some 2, g)
         else if \<not> apply then (Some 0, g)
         else case bridge (the (rp_rung p)) (rp_hi p) (rg_scratch g) of (run, scratch) \<Rightarrow>
           if \<not> replay run then (Some 1, g\<lparr>rg_scratch := scratch\<rparr>)
           else case fold install heights (g\<lparr>rg_scratch := scratch\<rparr>, []) of (g, absent) \<Rightarrow>
             (Some (if absent = [] then 0 else 1), g\<lparr>rg_scratch := {}\<rparr>)))"

text \<open>\<open>--heights\<close>, and \<open>--from-waiting\<close>: the blocks held for a sponsor that have no bundle; None is an exception.\<close>

definition heights_arg :: "string \<Rightarrow> int list option" where
  "heights_arg s = (let parts = filter (\<lambda>x. py_strip x \<noteq> []) (py_split CHR '','' s) in
     if list_ex (\<lambda>x. py_int x = None) parts then None else Some (map (\<lambda>x. the (py_int x)) parts))"

definition waiting_heights :: "('k \<times> int) list option \<Rightarrow> ('k \<times> int) list option \<Rightarrow> int list option" where
  "waiting_heights all_pending with_bundle = (case (all_pending, with_bundle) of
     (Some ws, Some hs) \<Rightarrow> Some (filter (\<lambda>h. h \<notin> snd ` set hs) (map snd ws)) | _ \<Rightarrow> None)"

section \<open>Lemmas\<close>

lemma decide_None:
  assumes "decide a x rows r2 b2 h = None"
  obtains r where "r \<in> set rows" "r_status r = Verified" "r_lo r = h" "r_hi r = h" "or_empty (r_receipt_sha r) \<noteq> []"
    "proof_name (r_id r) \<in> r2" "proof_name (r_id r) \<in> b2" "0 < h" "h \<le> spine_top (pb_spine x)" "h \<le> spine_top (pb_spine x) - pa_margin a"
    "reverify_passed (pb_reverify x)"
    "pa_require a \<Longrightarrow> has_checkpoint_below h (archived_checkpoints (pb_archive x))"
proof -
  have mem: "\<exists>r \<in> set rows. r_status r = Verified \<and> r_lo r = k \<and> r_hi r = k \<and> or_empty (r_receipt_sha r) \<noteq> [] \<and> r_id r = i"
    if "verified_single_heights rows k = Some i" for k i
  proof -
    have "fold (\<lambda>r m. if r_lo r = r_hi r \<and> or_empty (r_receipt_sha r) \<noteq> [] then m(r_lo r \<mapsto> r_id r) else m) rs m k = Some i \<Longrightarrow>
       m k = Some i \<or> (\<exists>r \<in> set rs. r_lo r = k \<and> r_hi r = k \<and> or_empty (r_receipt_sha r) \<noteq> [] \<and> r_id r = i)" for rs m
      by (induction rs arbitrary: m) (force split: if_splits)+
    from this [OF that [unfolded verified_single_heights_def]] show ?thesis by auto
  qed
  from assms obtain i where i: "verified_single_heights rows h = Some i"
    by (cases "verified_single_heights rows h") (auto simp: decide_def prune_decision_def Let_def split: if_splits)
  from mem [OF i] obtain r where r: "r \<in> set rows" "r_status r = Verified" "r_lo r = h" "r_hi r = h" "or_empty (r_receipt_sha r) \<noteq> []" "r_id r = i"
    by blast
  from assms i that r show ?thesis by (auto simp: decide_def prune_decision_def Let_def split: if_splits)
qed

lemma remove_all_gone: "remove_all can hs dir = (code, dir') \<Longrightarrow> n \<in> set dir \<Longrightarrow> n \<notin> set dir' \<Longrightarrow> \<exists>h \<in> set hs. n = bundle_file h"
proof (induction hs arbitrary: dir)
  case (Cons h hs)
  then show ?case
    by (cases "n = bundle_file h") (auto split: if_splits simp: in_set_remove1)
qed simp

text \<open>The rule, as the program states it.\<close>

definition finished :: "prune_args \<Rightarrow> prune_box \<Rightarrow> string list option \<Rightarrow> string list option \<Rightarrow> int \<Rightarrow> bool" where
  "finished a x r2 b2 h \<longleftrightarrow>
     (\<exists>rows xs ys r. pb_rows x = Some rows \<and> r2 = Some xs \<and> b2 = Some ys \<and> r \<in> set rows \<and> r_status r = Verified \<and> r_lo r = h \<and> r_hi r = h
        \<and> proof_name (r_id r) \<in> set xs \<and> proof_name (r_id r) \<in> set ys)
     \<and> 0 < h \<and> h \<le> spine_top (pb_spine x) \<and> h \<le> spine_top (pb_spine x) - pa_margin a
     \<and> reverify_passed (pb_reverify x)
     \<and> (pa_require a \<longrightarrow> (\<exists>c \<in> set (archived_checkpoints (pb_archive x)). c < h))"

lemma prune_deletes_finished:
  assumes "prune_caller a x r2 b2 = (code, Some left)" "pb_bundles x = Some dir" "n \<in> set dir" "n \<notin> set left"
  shows "pa_apply a \<and> code \<noteq> 2 \<and> (\<exists>h. n = bundle_file h \<and> finished a x r2 b2 h)"
proof -
  have ne: "left \<noteq> dir" using assms(3,4) by blast
  from assms(1,2) ne obtain xs ys rows where c: "r2 = Some xs" "b2 = Some ys" "pb_rows x = Some rows"
      "pa_apply a" "remove_all (pb_can_remove x) (filter (\<lambda>h. decide a x rows (set xs) (set ys) h = None) (named_heights ''bundle_'' ''.json'' dir)) dir = (code, left)"
    by (auto simp: prune_caller_def confirm_def prune_main_def Let_def split: option.splits if_splits prod.splits)
  from remove_all_gone [OF c(5) assms(3,4)] obtain h where h: "n = bundle_file h" "decide a x rows (set xs) (set ys) h = None" by auto
  have "code \<noteq> 2"
  proof -
    have "fst (remove_all can hs d) \<noteq> 2" for can hs d by (induction can hs d rule: remove_all.induct) auto
    with c(5) show ?thesis by (metis fst_conv)
  qed
  moreover from h(2) have "finished a x r2 b2 h"
    by (rule decide_None) (use c(1-3) in \<open>fastforce simp: finished_def has_checkpoint_below_def list_ex_iff\<close>)
  ultimately show ?thesis using h(1) c(4) by blast
qed


lemma install_fold:
  assumes "fold install hs (g, absent) = (g', absent')"
  shows "rg_out g \<subseteq> rg_out g' \<and> rg_out g' \<subseteq> rg_out g \<union> bundle_file ` set hs
    \<and> (absent' = [] \<longrightarrow> absent = [] \<and> (\<forall>h \<in> set hs. bundle_file h \<in> rg_out g'))"
  using assms
proof (induction hs arbitrary: g absent)
  case (Cons h hs)
  obtain g1 a1 where i: "install h (g, absent) = (g1, a1)" by fastforce
  with Cons.prems Cons.IH [of g1 a1] show ?case by (auto simp: install_def split: if_splits)
qed simp

lemma rung_below_Some:
  assumes "rung_below h rungs = Some c"
  shows "c \<in> set rungs \<and> c < h"
proof -
  let ?f = "filter (\<lambda>r. r < h) rungs"
  from assms have "?f \<noteq> []" "c = Max (set ?f)" by (auto simp: rung_below_def Let_def split: if_splits)
  with Max_in [of "set ?f"] have "c \<in> set ?f" by (simp del: set_filter)
  then show ?thesis by simp
qed


lemma regen_plan_seed:
  assumes "regen_plan_of heights rungs = Some p" "rp_missing p = []"
  shows "\<exists>c. rp_rung p = Some c \<and> c \<in> set rungs \<and> (\<forall>h \<in> set heights. c < h \<and> h \<le> rp_hi p)"
proof -
  let ?hs = "sort (remdups heights)" and ?r = "\<lambda>h. the (rung_below h rungs)"
  from assms have ne: "?hs \<noteq> []" and all: "\<forall>h \<in> set heights. rung_below h rungs \<noteq> None"
    and p: "rp_rung p = Some (Min (?r ` set heights))" "rp_hi p = last ?hs"
    by (fastforce simp: regen_plan_of_def Let_def filter_empty_conv split: if_splits)+
  from ne have ne': "set heights \<noteq> {}" by (metis set_empty set_remdups set_sort)
  have r: "?r h \<in> set rungs \<and> ?r h < h" if "h \<in> set heights" for h
    using all that rung_below_Some [of h rungs] by auto
  have "Min (?r ` set heights) \<in> ?r ` set heights" using ne' by simp
  then have "Min (?r ` set heights) \<in> set rungs" using r by auto
  moreover have "Min (?r ` set heights) < h" if "h \<in> set heights" for h
    using r [OF that] that by (meson Min_le finite_imageI finite_set imageI le_less_trans)
  moreover have "h \<le> last ?hs" if "h \<in> set heights" for h
  proof -
    from that obtain i where i: "i < length ?hs" "?hs ! i = h" by (metis in_set_conv_nth set_remdups set_sort)
    have "?hs ! i \<le> ?hs ! (length ?hs - 1)" by (rule sorted_nth_mono) (use i in auto)
    with i ne show ?thesis by (simp add: last_conv_nth)
  qed
  ultimately show ?thesis using p by simp
qed

section \<open>Properties\<close>

text \<open>
  Claim C35. A bundle leaves the disk only on a run asked to delete, and only when every condition of the rule
  holds for its height: a verified row of that one block whose receipt both stores list, inside the spine
  and below the margin, the nightly check passed, and a checkpoint below it where one is required. A run
  that could not check deletes nothing. When the rows are those of a coordinator that ran from a fresh
  database, the block also has a proof of its own.
\<close>

theorem prune_deletes_only_finished:
  assumes "sys_init cfg s0" "(sys_step cfg va)\<^sup>*\<^sup>* s0 s" "pb_rows x = Some (ranges (sv_board (sy_server s)))"
    and "prune_caller a x r2 b2 = (code, Some left)" "pb_bundles x = Some dir" "n \<in> set dir" "n \<notin> set left"
  shows "pa_apply a \<and> code \<noteq> 2 \<and> (\<exists>h. n = bundle_file h \<and> finished a x r2 b2 h
    \<and> (\<exists>v \<in> set (vranges (sv_board (sy_server s))). v_lo v = h \<and> v_hi v = h))"
proof -
  from prune_deletes_finished [OF assms(4-7)] obtain h where
    h: "pa_apply a" "code \<noteq> 2" "n = bundle_file h" "finished a x r2 b2 h" by blast
  then obtain r where "r \<in> set (ranges (sv_board (sy_server s)))" "r_status r = Verified" "r_lo r = h" "r_hi r = h"
    using assms(3) by (auto simp: finished_def)
  moreover have "verified_backed (sv_board (sy_server s))"
    using ledger.inv_reachable [OF assms(1,2)] by (simp add: sys_sound_def board_sound_def)
  ultimately have "\<exists>v \<in> set (vranges (sv_board (sy_server s))). v_lo v = h \<and> v_hi v = h"
    unfolding verified_backed_def by metis
  with h show ?thesis by blast
qed




text \<open>
  The regenerator writes into the live store only bundles it was asked for, and only after the bridge
  resumed from a checkpoint below every height; success means every bundle asked for is there, and a run
  that could not check, or was not told to apply, leaves everything as it was.
\<close>

theorem regen_installs_requested:
  assumes "regen_main bridge binary_ok apply archive (Some heights) g = (Some code, g')"
  shows "rg_out g \<subseteq> rg_out g' \<and> rg_out g' - rg_out g \<subseteq> bundle_file ` set heights
    \<and> (code = 2 \<or> \<not> apply \<longrightarrow> g' = g)
    \<and> (rg_out g' \<noteq> rg_out g \<longrightarrow> (\<exists>rungs c hi run scratch. archived_rungs archive = Some rungs \<and> c \<in> set rungs
         \<and> (\<forall>h \<in> set heights. c < h \<and> h \<le> hi) \<and> bridge c hi (rg_scratch g) = (run, scratch) \<and> replay run))
    \<and> (code = 0 \<and> apply \<longrightarrow> bundle_file ` set heights \<subseteq> rg_out g')"
proof (cases "g' = g \<and> (code = 0 \<and> apply \<longrightarrow> heights = [])")
  case True
  then show ?thesis by auto
next
  case False
  then obtain rungs p run scratch where x: "apply" "archived_rungs archive = Some rungs" "regen_plan_of heights rungs = Some p"
      "rp_missing p = []" "bridge (the (rp_rung p)) (rp_hi p) (rg_scratch g) = (run, scratch)" "code \<noteq> 2"
      "if replay run then (case fold install heights (g\<lparr>rg_scratch := scratch\<rparr>, []) of (g2, absent) \<Rightarrow>
             code = (if absent = [] then 0 else 1) \<and> g' = g2\<lparr>rg_scratch := {}\<rparr>)
       else code = 1 \<and> g' = g\<lparr>rg_scratch := scratch\<rparr>"
    using assms by (auto simp: regen_main_def split: if_splits option.splits prod.splits)
  from regen_plan_seed [OF x(3,4)] obtain c where c: "rp_rung p = Some c" "c \<in> set rungs" "\<forall>h \<in> set heights. c < h \<and> h \<le> rp_hi p" by blast
  obtain g2 absent where f: "fold install heights (g\<lparr>rg_scratch := scratch\<rparr>, []) = (g2, absent)" by fastforce
  show ?thesis
  proof (cases "replay run")
    case True
    with x(7) f have g': "rg_out g' = rg_out g2" "code = (if absent = [] then 0 else 1)" by simp_all
    have i: "rg_out g \<subseteq> rg_out g2 \<and> rg_out g2 \<subseteq> rg_out g \<union> bundle_file ` set heights
      \<and> (absent = [] \<longrightarrow> (\<forall>h \<in> set heights. bundle_file h \<in> rg_out g2))" using install_fold [OF f] by simp
    have w: "\<exists>rungs c hi run scratch. archived_rungs archive = Some rungs \<and> c \<in> set rungs
         \<and> (\<forall>h \<in> set heights. c < h \<and> h \<le> hi) \<and> bridge c hi (rg_scratch g) = (run, scratch) \<and> replay run"
      using x(2,5) c True by auto
    show ?thesis using i w x(1,6) g' by (auto split: if_splits)
  next
    case False
    with x show ?thesis by auto
  qed
qed


section \<open>Examples\<close>

text \<open>A coordinator on which block 7 has been submitted and verified.\<close>

definition seven_admitted :: "(submit_error + admitted) \<times> board" where
  "seven_admitted = submit_admit small_config example_world [] (submit_of ''7'' ''ok'') (sv_board (sy_server start_seven))"

definition seven_flight :: admitted where
  "seven_flight = (case fst seven_admitted of Inr adm \<Rightarrow> adm | Inl _ \<Rightarrow> undefined)"

definition seven_commit where
  "seven_commit = submit_commit small_config example_world True (submit_of ''7'' ''ok'') seven_flight
     (submit_verify small_config example_world good_host (submit_of ''7'' ''ok'') seven_flight)
     (with_board (sy_server start_seven) (snd seven_admitted))"

definition seven_state :: system where
  "seven_state = \<lparr> sy_server = snd seven_commit, sy_flight = [] \<rparr>"

lemma seven_rows:
  "ranges (sv_board (sy_server seven_state)) = [\<lparr> r_id = ''7'', r_lo = 7, r_hi = 7, r_status = Verified, r_assignee = None, r_handle = None,
     r_receipt_sha = Some ''ok'', r_claimed_at = None, r_verified_at = Some 1000, r_last_beat = None, r_attempts = Some 0, r_env_failures = Some 0,
     r_last_error = None, r_last_failed_at = None, r_last_assignee = None, r_claim_nonce = None, r_claim_signed = None \<rparr>]"
  by code_simp

lemma seven_row: "\<exists>r. ranges (sv_board (sy_server seven_state)) = [r] \<and> r_id r = ''7'' \<and> r_lo r = 7 \<and> r_hi r = 7
    \<and> r_status r = Verified \<and> r_receipt_sha r = Some ''ok''"
  by (simp add: seven_rows)

lemma seven_reached: "(sys_step small_config good_host)\<^sup>*\<^sup>* start_seven seven_state"
proof -
  let ?mid = "\<lparr> sy_server = with_board (sy_server start_seven) (snd seven_admitted), sy_flight = [(submit_of ''7'' ''ok'', seven_flight)] \<rparr>"
  have "(case fst seven_admitted of Inr _ \<Rightarrow> True | Inl _ \<Rightarrow> False)" by code_simp
  then have "seven_admitted = (Inr seven_flight, snd seven_admitted)"
    by (auto simp: seven_flight_def prod_eq_iff split: sum.splits)
  from sys_step.admit [OF this [unfolded seven_admitted_def], of good_host "[]"]
  have 1: "sys_step small_config good_host start_seven ?mid" by (simp add: start_seven_def seven_admitted_def)
  have 2: "sys_step small_config good_host ?mid \<lparr> sy_server = snd seven_commit,
      sy_flight = remove1 (submit_of ''7'' ''ok'', seven_flight) [(submit_of ''7'' ''ok'', seven_flight)] \<rparr>"
    by (rule sys_step.commit [where res = "fst seven_commit"]) (simp_all add: seven_commit_def)
  with 1 show ?thesis by (auto simp: seven_state_def intro: converse_rtranclp_into_rtranclp)
qed

definition prune_example :: prune_box where
  "prune_example = \<lparr> pb_reverify = Some ''0 0'', pb_spine = Some (JObj [(''hi'', JInt 20000)]),
     pb_archive = Some [''state_5.bin''], pb_bundles = Some [''bundle_7.json'', ''bundle_8.json''],
     pb_rows = Some (ranges (sv_board (sy_server seven_state))), pb_can_remove = (\<lambda>_. True) \<rparr>"

definition prune_flags :: prune_args where
  "prune_flags = \<lparr> pa_apply = True, pa_margin = 10000, pa_require = True \<rparr>"

lemma prune_example_run: "prune_caller prune_flags prune_example (Some [''proof_7.bin'']) (Some [''proof_7.bin'']) = (0, Some [''bundle_8.json''])"
  unfolding prune_example_def seven_rows by code_simp

theorem prune_deletes_only_finished_witness:
  "finished prune_flags prune_example (Some [''proof_7.bin'']) (Some [''proof_7.bin'']) 7
   \<and> (\<exists>v \<in> set (vranges (sv_board (sy_server seven_state))). v_lo v = 7 \<and> v_hi v = 7)"
proof -
  have "pb_rows prune_example = Some (ranges (sv_board (sy_server seven_state)))"
    "pb_bundles prune_example = Some [''bundle_7.json'', ''bundle_8.json'']" by (simp_all add: prune_example_def)
  from prune_deletes_only_finished [OF start_seven_init seven_reached this(1) prune_example_run this(2), of "''bundle_7.json''"]
  obtain h where h: "''bundle_7.json'' = bundle_file h" "finished prune_flags prune_example (Some [''proof_7.bin'']) (Some [''proof_7.bin'']) h"
    "\<exists>v \<in> set (vranges (sv_board (sy_server seven_state))). v_lo v = h \<and> v_hi v = h" by auto
  from h(2) seven_row have "h = 7" by (auto simp: finished_def prune_example_def)
  with h show ?thesis by simp
qed


definition resuming_bridge :: "int \<Rightarrow> int \<Rightarrow> string set \<Rightarrow> (int \<times> string) option \<times> string set" where
  "resuming_bridge seed hi scratch = (Some (0, ''resuming from checkpoint''), insert (bundle_file hi) scratch)"

theorem regen_installs_requested_witness:
  "case regen_main resuming_bridge True True (Some [''state_5.bin'']) (Some [7]) \<lparr> rg_scratch = {}, rg_out = {} \<rparr> of (code, g') \<Rightarrow>
     code = Some 0 \<and> rg_out g' = {bundle_file 7}"
proof -
  let ?g = "\<lparr> rg_scratch = {}, rg_out = {} \<rparr>"
  let ?r = "regen_main resuming_bridge True True (Some [''state_5.bin'']) (Some [7]) ?g"
  have "fst ?r = Some 0" by code_simp
  then obtain g' where r: "?r = (Some 0, g')" by (metis fst_conv surj_pair)
  from regen_installs_requested [OF r] have "rg_out g' = {bundle_file 7}" by auto
  with r show ?thesis by simp
qed

text \<open>
  The two programs disagree on what names a checkpoint: a name \<open>int\<close> reads but \<open>isdigit\<close> refuses lets a bundle
  be deleted that the regenerator refuses to make again.
\<close>

lemma signed_rung_counts_for_prune:
  "let archive = Some [''state_+5.bin''] in has_checkpoint_below 7 (archived_checkpoints archive)
     \<and> archived_rungs archive = Some [] \<and> map_option rp_missing (regen_plan_of [7] []) = Some [7]"
  by code_simp

text \<open>A height asked for twice is installed once and then reported as not produced.\<close>

lemma repeated_height_fails:
  "case regen_main resuming_bridge True True (Some [''state_5.bin'']) (Some [7, 7]) \<lparr> rg_scratch = {}, rg_out = {} \<rparr> of (code, g') \<Rightarrow>
     code = Some 1 \<and> bundle_file 7 \<in> rg_out g'"
  by code_simp

end
