(* ===== verification/Integrity.thy ===== *)
theory Integrity
  imports Retention
begin

text \<open>
  The integrity checks a timer runs beside the coordinator: the spine against Bitcoin's chain
  (\<open>coordinator/check-spine.py\<close>), the stored proofs against the board (\<open>check-proofs.py\<close>), the records against
  each other (\<open>check-continuity.py\<close>) and the receipts kept (\<open>check-retention.py\<close>). An exit code of 0 means the
  check holds, 1 that it does not, 2 that it could not be made. Files, the two verifiers, the node and the
  explorers are parameters; the printed report is left out. The lemmas show what a 0 guarantees.
\<close>

section \<open>Ranges the operator accepts\<close>

text \<open>One part of \<open>--allow\<close>: \<open>lo-hi\<close> or one height; None where \<open>int\<close> raises.\<close>

definition allow_part :: "string \<Rightarrow> (int \<times> int) option" where
  "allow_part part =
     (if CHR ''-'' \<in> set part then
        (case (py_int (takeWhile (\<lambda>c. c \<noteq> CHR ''-'') part), py_int (tl (dropWhile (\<lambda>c. c \<noteq> CHR ''-'') part))) of
           (Some lo, Some hi) \<Rightarrow> Some (lo, hi) | _ \<Rightarrow> None)
      else map_option (\<lambda>n. (n, n)) (py_int part))"

fun all_some :: "'a option list \<Rightarrow> 'a list option" where
  "all_some [] = Some []"
| "all_some (x # xs) = (case x of None \<Rightarrow> None | Some a \<Rightarrow> map_option ((#) a) (all_some xs))"

text \<open>In \<open>check-continuity.py\<close> blanks around a part and empty parts do not count; in \<open>check-retention.py\<close> they do.\<close>

definition parse_allow :: "string list \<Rightarrow> (int \<times> int) list option" where
  "parse_allow values = all_some (map allow_part (filter (\<lambda>p. p \<noteq> []) (map py_strip (concat (map (py_split CHR '','') values)))))"

fun parse_allow_args :: "string list \<Rightarrow> (int \<times> int) list option" where
  "parse_allow_args (a # b # as) =
     (if a = ''--allow'' then
        (case (all_some (map allow_part (py_split CHR '','' b)), parse_allow_args (b # as)) of
           (Some xs, Some ys) \<Rightarrow> Some (xs @ ys) | _ \<Rightarrow> None)
      else parse_allow_args (b # as))"
| "parse_allow_args as = Some []"

definition in_spans :: "(int \<times> int) list \<Rightarrow> int \<Rightarrow> bool" where
  "in_spans xs h \<longleftrightarrow> list_ex (\<lambda>(lo, hi). lo \<le> h \<and> h \<le> hi) xs"

section \<open>The receipts kept\<close>

text \<open>The heights with a receipt of their own; None where \<open>int\<close> raises on a name \<open>isdigit\<close> let through.\<close>

definition receipts_held :: "string list \<Rightarrow> int list option" where
  "receipts_held names = all_some (map py_int (filter isdigit (map (stem ''proof_'' ''.bin'')
     (filter (\<lambda>n. prefixed ''proof_'' n \<and> suffixed ''.bin'' n) names))))"

definition verified_spans :: "range_row list \<Rightarrow> (int \<times> int) list" where
  "verified_spans rows = map (\<lambda>r. (max (r_lo r) 1, r_hi r)) (filter (\<lambda>r. r_status r = Verified) rows)"

text \<open>\<open>sorted(proven - have)\<close>.\<close>

definition heights_without :: "(int \<times> int) list \<Rightarrow> int list \<Rightarrow> int list" where
  "heights_without spans have_them = filter (\<lambda>h. h \<notin> set have_them) (sort (remdups (concat (map (\<lambda>(lo, hi). [lo..hi]) spans))))"

definition check_retention :: "string list \<Rightarrow> string list option \<Rightarrow> range_row list \<Rightarrow> outcome" where
  "check_retention argv dir rows = (case parse_allow_args argv of None \<Rightarrow> Died | Some allowed \<Rightarrow>
     (case dir of None \<Rightarrow> Exit 1 | Some names \<Rightarrow>
       (case receipts_held names of None \<Rightarrow> Died | Some receipts \<Rightarrow>
         (let spans = verified_spans rows in
          if list_all (\<lambda>(lo, hi). hi < lo) spans then Exit (if receipts \<noteq> [] then 1 else 0)
          else Exit (if list_ex (\<lambda>h. \<not> in_spans allowed h) (heights_without spans receipts) then 1 else 0)))))"

section \<open>The records against each other\<close>

text \<open>A row of the query, a NULL read as the empty string.\<close>

record link =
  lk_lo :: int
  lk_in_tip :: string
  lk_out_tip :: string
  lk_in_bhash :: string
  lk_out_bhash :: string

definition link_of :: "vrange_row \<Rightarrow> link" where
  "link_of v = \<lparr> lk_lo = v_lo v, lk_in_tip = or_empty (v_in_tip v), lk_out_tip = or_empty (v_out_tip v),
     lk_in_bhash = or_empty (v_in_bhash v), lk_out_bhash = or_empty (v_out_bhash v) \<rparr>"

definition links :: "vrange_row list \<Rightarrow> int \<Rightarrow> link list" where
  "links vs n = map link_of (filter (\<lambda>v. v_lo v = v_hi v \<and> 1 \<le> v_lo v \<and> v_lo v \<le> n) vs)"

definition links_at :: "link list \<Rightarrow> int \<Rightarrow> link list" where
  "links_at ls h = filter (\<lambda>l. lk_lo l = h) ls"

definition tip_breaks :: "string \<Rightarrow> link list \<Rightarrow> int \<Rightarrow> bool" where
  "tip_breaks genesis_tip ls h \<longleftrightarrow> links_at ls h \<noteq> [] \<and>
     (if h = 1 then \<not> list_ex (\<lambda>x. lk_in_tip x = genesis_tip) (links_at ls h)
      else links_at ls (h - 1) \<noteq> [] \<and> \<not> list_ex (\<lambda>p. list_ex (\<lambda>x. lk_out_tip p = lk_in_tip x) (links_at ls h)) (links_at ls (h - 1)))"

definition digest_breaks :: "link list \<Rightarrow> int \<Rightarrow> bool" where
  "digest_breaks ls h \<longleftrightarrow> links_at ls h \<noteq> [] \<and> h \<noteq> 1 \<and> links_at ls (h - 1) \<noteq> [] \<and>
     \<not> list_ex (\<lambda>p. list_ex (\<lambda>x. lk_out_bhash p \<noteq> [] \<and> lk_out_bhash p = lk_in_bhash x) (links_at ls h)) (links_at ls (h - 1))"

definition no_digest :: "link list \<Rightarrow> int \<Rightarrow> bool" where
  "no_digest ls h \<longleftrightarrow> links_at ls h \<noteq> [] \<and> list_all (\<lambda>x. lk_in_bhash x = []) (links_at ls h)"

text \<open>A key that is there; a value \<open>int\<close> reads or refuses with a ValueError (on any other it is a TypeError).\<close>

definition has_key :: "string \<Rightarrow> json \<Rightarrow> bool" where
  "has_key k j \<longleftrightarrow> (case j of JObj kvs \<Rightarrow> k \<in> fst ` set kvs | _ \<Rightarrow> False)"

definition numeric_like :: "json \<Rightarrow> bool" where
  "numeric_like j \<longleftrightarrow> (case j of JNull \<Rightarrow> False | JArr _ \<Rightarrow> False | JObj _ \<Rightarrow> False | _ \<Rightarrow> True)"

text \<open>
  The spine record: whether \<open>spine.json\<close> exists, and what it decodes to (None where it cannot be read). The rows
  of the board are None where the database cannot be read.
\<close>

definition check_continuity ::
    "string \<Rightarrow> string list \<Rightarrow> bool \<Rightarrow> json option \<Rightarrow> vrange_row list option \<Rightarrow> outcome" where
  "check_continuity genesis_tip allow spine_exists spine_doc rows = (case parse_allow allow of None \<Rightarrow> Died | Some allowed \<Rightarrow>
     (case rows of None \<Rightarrow> Exit 2 | Some vs \<Rightarrow>
        if \<not> spine_exists then Exit (if vs = [] then 0 else 2)
        else (case spine_doc of None \<Rightarrow> Exit 2 | Some doc \<Rightarrow>
          if \<not> is_object doc then Died
          else if \<not> has_key ''hi'' doc then Exit 2
          else if \<not> numeric_like (jget ''hi'' doc) then Died
          else (case json_int (jget ''hi'' doc) of None \<Rightarrow> Exit 2 | Some n \<Rightarrow>
            (let ls = links vs n; hs = [1..n];
                 unexpected = list_ex (\<lambda>h. links_at ls h = [] \<and> \<not> in_spans allowed h) hs;
                 last_bad = (links_at ls n \<noteq> [] \<and> \<not> list_ex (\<lambda>x. JStr (lk_out_tip x) = jget ''out_tip'' doc) (links_at ls n));
                 failed = (unexpected \<or> list_ex (tip_breaks genesis_tip ls) hs \<or> list_ex (digest_breaks ls) hs
                           \<or> list_ex (no_digest ls) hs \<or> last_bad)
             in if failed then Exit 1
                else if links_at ls n = [] \<and> in_spans allowed n then Exit 2 else Exit 0)))))"


section \<open>The stored proofs against the board\<close>

text \<open>The id in a name \<open>proof_<digits>[-<digits>].bin\<close>; the pattern's end also matches before a final line feed.\<close>

definition digits_text :: "string \<Rightarrow> bool" where
  "digits_text s \<longleftrightarrow> s \<noteq> [] \<and> all_digits s"

definition proof_id :: "string \<Rightarrow> range_id option" where
  "proof_id name =
     (let n = (if name \<noteq> [] \<and> last name = CHR 0x0A then butlast name else name); i = stem ''proof_'' ''.bin'' n in
      if prefixed ''proof_'' n \<and> suffixed ''.bin'' n
         \<and> (case py_split CHR ''-'' i of [a] \<Rightarrow> digits_text a | [a, b] \<Rightarrow> digits_text a \<and> digits_text b | _ \<Rightarrow> False)
      then Some i else None)"

datatype proof_problem = Unreadable | No_Verified_Row | Hash_Differs | Not_Finished | Rejected | No_Record | Differs string

text \<open>The fields of the first \<open>RANGE-OK\<close> line.\<close>

definition range_ok :: "string \<Rightarrow> (string \<times> string) list option" where
  "range_ok text = map_option (\<lambda>l. key_values (drop 8 l)) (find (prefixed ''RANGE-OK '') (py_splitlines text))"

definition record_fields :: "vrange_row \<Rightarrow> (string \<times> string) list" where
  "record_fields v = [(''lo'', int_str (v_lo v)), (''hi'', int_str (v_hi v)), (''in_tip'', py_str (v_in_tip v)),
     (''out_tip'', py_str (v_out_tip v)), (''in_bhash'', py_str (v_in_bhash v)), (''out_bhash'', py_str (v_out_bhash v))]"

definition check_one ::
    "(string \<Rightarrow> string) \<Rightarrow> (string \<Rightarrow> host_result) \<Rightarrow> string option \<Rightarrow> string option \<Rightarrow> vrange_row option \<Rightarrow> proof_problem list" where
  "check_one sha256 host data want_sha row = (case data of None \<Rightarrow> [Unreadable] | Some bytes \<Rightarrow>
     (let first = (case want_sha of None \<Rightarrow> [No_Verified_Row] | Some w \<Rightarrow> if sha256 bytes \<noteq> w then [Hash_Differs] else []) in
      case host bytes of Raised _ \<Rightarrow> first @ [Not_Finished] | Ran code out err \<Rightarrow>
        first @ (case range_ok out of None \<Rightarrow> [Rejected] | Some kv \<Rightarrow>
          if code \<noteq> 0 then [Rejected]
          else case row of None \<Rightarrow> [No_Record] | Some v \<Rightarrow>
            map (\<lambda>(k, _). Differs k) (filter (\<lambda>(k, x). kv_default k [] kv \<noteq> x) (record_fields v)))))"

record stored_file =
  sf_name :: string
  sf_mtime :: "time option"
  sf_data :: "string option"

text \<open>The files looked at: named like a proof and old enough, in order of name, then the limit.\<close>

definition settled_proofs :: "time \<Rightarrow> int \<Rightarrow> stored_file list \<Rightarrow> stored_file list" where
  "settled_proofs cutoff limit files =
     (let fs = filter (\<lambda>f. proof_id (sf_name f) \<noteq> None \<and> (case sf_mtime f of None \<Rightarrow> False | Some t \<Rightarrow> \<not> t > cutoff)) (sort_key sf_name files)
      in if limit \<noteq> 0 then py_upto limit fs else fs)"

definition check_proofs ::
    "(string \<Rightarrow> string) \<Rightarrow> (string \<Rightarrow> host_result) \<Rightarrow> bool \<Rightarrow> time \<Rightarrow> int \<Rightarrow> stored_file list option \<Rightarrow>
     (range_row list \<times> vrange_row list) option \<Rightarrow> outcome" where
  "check_proofs sha256 host host_ok cutoff limit dir db = (case dir of None \<Rightarrow> Exit 2 | Some files \<Rightarrow>
     if \<not> host_ok then Exit 2
     else case db of None \<Rightarrow> Exit 2 | Some (rows, vs) \<Rightarrow>
       (let want = (\<lambda>rid. Option.bind (row_of r_id rid (filter (\<lambda>r. r_status r = Verified) rows)) r_receipt_sha);
            bad = (\<lambda>f. let rid = the (proof_id (sf_name f)) in check_one sha256 host (sf_data f) (want rid) (row_of v_id rid vs) \<noteq> [])
        in Exit (if list_ex bad (settled_proofs cutoff limit files) then 1 else 0)))"

section \<open>The spine against Bitcoin's chain\<close>

text \<open>What one check reports.\<close>

datatype mark = Mark_Ok | Mark_Fail | Mark_Cannot

definition finish_report :: "mark list \<Rightarrow> outcome" where
  "finish_report ms = Exit (if Mark_Fail \<in> set ms then 1 else if Mark_Cannot \<in> set ms then 2 else 0)"

definition mark_if :: "bool \<Rightarrow> mark" where
  "mark_if b = (if b then Mark_Ok else Mark_Fail)"

text \<open>
  \<open>read_local\<close> and \<open>read_remote\<close>: the bytes and the head record of each try, None where a try raises. The flag
  says whether they agree.
\<close>

fun read_tries :: "(string \<Rightarrow> string) \<Rightarrow> (string \<times> json) option list \<Rightarrow> (string \<times> json \<times> bool) option" where
  "read_tries sha256 [] = None"
| "read_tries sha256 (r # rs) = (case r of None \<Rightarrow> None | Some (data, head) \<Rightarrow>
     if \<not> is_object head then None
     else if jget ''sha256'' head = JStr (sha256 data) then Some (data, head, True)
     else if rs = [] then Some (data, head, False)
     else read_tries sha256 rs)"

text \<open>The guest id: the argument, else the file's lines without comments; \<open>main\<close> takes an empty one for none.\<close>

definition canonical_method_id :: "string option \<Rightarrow> string list option \<Rightarrow> string option" where
  "canonical_method_id given file =
     (if given \<noteq> None \<and> given \<noteq> Some [] then (let m = lower (py_strip (the given)) in if m = [] then None else Some m)
      else case file of None \<Rightarrow> None | Some ls \<Rightarrow>
        (let body = lower (concat (filter (\<lambda>l. l \<noteq> [] \<and> hd l \<noteq> CHR ''#'') (map py_strip ls))) in
         if body = [] then None else Some body))"

text \<open>\<open>str(v.get(k, d)).lower()\<close>; \<open>str\<close> of what is neither text nor a number is the argument.\<close>

definition text_field :: "(json \<Rightarrow> string) \<Rightarrow> string \<Rightarrow> json \<Rightarrow> string" where
  "text_field show_json k j = (if \<not> has_key k j then [] else
     lower (case jget k j of JStr s \<Rightarrow> s | JInt i \<Rightarrow> int_str i | JNull \<Rightarrow> ''None'' | x \<Rightarrow> show_json x))"

text \<open>\<open>int(v.get(k, -1))\<close>; None where it raises.\<close>

definition int_field :: "string \<Rightarrow> json \<Rightarrow> int option" where
  "int_field k j = (if \<not> has_key k j then Some (- 1) else json_int (jget k j))"

text \<open>\<open>bytes.fromhex(s)[::-1].hex()\<close>, None where it raises.\<close>

definition hex_digit :: "nat \<Rightarrow> char" where
  "hex_digit k = (if k < 10 then digit_char k else char_of (87 + k))"

definition reversed_hex :: "string \<Rightarrow> string option" where
  "reversed_hex s = map_option (\<lambda>bytes. concat (map (\<lambda>c. let k = of_char c in [hex_digit (k div 16), hex_digit (k mod 16)]) (rev bytes))) (fromhex s)"

text \<open>\<open>str(head.get("out_tip", ""))\<close>, and \<open>float(head.get("ts") or 0)\<close> of a finite number.\<close>

definition head_text :: "(json \<Rightarrow> string) \<Rightarrow> json \<Rightarrow> string" where
  "head_text show_json head = (if \<not> has_key ''out_tip'' head then [] else
     (case jget ''out_tip'' head of JStr s \<Rightarrow> s | JInt i \<Rightarrow> int_str i | JNull \<Rightarrow> ''None'' | x \<Rightarrow> show_json x))"

definition head_ts :: "json \<Rightarrow> rat option" where
  "head_ts head = (case j_or (jget ''ts'' head) (JInt 0) of JStr s \<Rightarrow> decimal s | j \<Rightarrow> json_num j)"

record spine_args =
  sa_remote :: bool
  sa_method_id :: "string option"
  sa_stall :: rat
  sa_fold_idle :: rat
  sa_behind_max :: rat

text \<open>
  \<open>sw_verify\<close>: exit code and decoded output of the verifier on the bytes (None inside: no JSON), None where it
  cannot run. \<open>sw_node\<close>: hash and chainwork at a height. \<open>sw_explorer\<close>: None where no reference is given, else
  the first answer. \<open>sw_rows\<close>: the board's verified ranges, None where the database cannot be read.
\<close>

record spine_world =
  sw_now :: time
  sw_head_exists :: bool
  sw_reads :: "(string \<times> json) option list"
  sw_verify :: "string \<Rightarrow> (int \<times> json option) option"
  sw_method_file :: "string list option"
  sw_node :: "int \<Rightarrow> (string \<times> int) option"
  sw_explorer :: "(int \<Rightarrow> string option) option"
  sw_rows :: "vrange_row list option"

definition nothing_to_check :: "spine_world \<Rightarrow> bool" where
  "nothing_to_check x \<longleftrightarrow> \<not> sw_head_exists x \<and>
     (case sw_rows x of None \<Rightarrow> False | Some vs \<Rightarrow> \<not> list_ex (\<lambda>v. v_lo v = 1) vs)"

text \<open>The last check: whether the spine is stalled while something waits above it.\<close>

definition fold_age :: "spine_world \<Rightarrow> rat option" where
  "fold_age x = (case sw_rows x of None \<Rightarrow> None | Some vs \<Rightarrow>
     (let ts = List.map_filter v_ts vs in if ts = [] \<or> Max (set ts) = 0 then None else Some (sw_now x - Max (set ts))))"

definition stall_mark :: "spine_args \<Rightarrow> spine_world \<Rightarrow> int \<Rightarrow> rat \<Rightarrow> mark" where
  "stall_mark a x hi age =
     (if age \<le> sa_stall a then Mark_Ok
      else case sw_rows x of None \<Rightarrow> Mark_Cannot | Some vs \<Rightarrow>
        if \<not> list_ex (\<lambda>v. v_lo v = hi + 1) vs then Mark_Ok
        else (case fold_age x of None \<Rightarrow> Mark_Fail | Some f \<Rightarrow>
          mark_if (f \<le> sa_fold_idle a \<and> age \<le> sa_behind_max a)))"

definition chain_marks :: "spine_args \<Rightarrow> spine_world \<Rightarrow> json \<Rightarrow> int \<Rightarrow> string \<Rightarrow> mark list option" where
  "chain_marks a x v height tip =
     (if sa_remote a then Some [case sw_explorer x of None \<Rightarrow> Mark_Cannot | Some f \<Rightarrow>
        (case f height of None \<Rightarrow> Mark_Cannot | Some ref \<Rightarrow> mark_if (ref = tip))]
      else case sw_node x height of None \<Rightarrow> Some [Mark_Cannot] | Some (block, work) \<Rightarrow>
        (case int_field ''cumulative_work'' v of None \<Rightarrow> None | Some w \<Rightarrow> Some [mark_if (block = tip), mark_if (w = work)]))"

definition check_spine :: "(string \<Rightarrow> string) \<Rightarrow> (json \<Rightarrow> string) \<Rightarrow> spine_args \<Rightarrow> spine_world \<Rightarrow> outcome" where
  "check_spine sha256 show_json a x =
     (if \<not> sa_remote a \<and> nothing_to_check x then Exit 0
      else case read_tries sha256 (sw_reads x) of None \<Rightarrow> finish_report [Mark_Cannot] | Some (data, head, consistent) \<Rightarrow>
        (case json_int (j_or (jget ''hi'' head) (JInt 0)) of None \<Rightarrow> Died | Some hi \<Rightarrow>
          (let m1 = mark_if consistent in
           case sw_verify x data of None \<Rightarrow> finish_report [m1, Mark_Cannot] | Some (code, doc) \<Rightarrow>
             if code \<noteq> 0 \<or> doc = None \<or> \<not> is_object (the doc) then finish_report [m1, Mark_Fail]
             else let v = the doc;
                 m2 = mark_if (jget ''verified'' v = JBool True \<and> jget ''genesis_anchored'' v = JBool True);
                 gid = text_field show_json ''guest_image_id'' v;
                 m3 = (case canonical_method_id (sa_method_id a) (sw_method_file x) of Some m \<Rightarrow> mark_if (gid = m)
                       | None \<Rightarrow> if sa_remote a then Mark_Ok else Mark_Cannot)
               in case int_field ''height'' v of None \<Rightarrow> Died | Some height \<Rightarrow>
                 (let tip = text_field show_json ''tip_hash'' v;
                      m4 = mark_if (height = hi);
                      m5 = mark_if (reversed_hex (head_text show_json head) = Some tip)
                  in case chain_marks a x v height tip of None \<Rightarrow> Died | Some ms \<Rightarrow>
                    if sa_remote a then finish_report ([m1, m2, m3, m4, m5] @ ms)
                    else case head_ts head of None \<Rightarrow> Died | Some ts \<Rightarrow>
                      finish_report ([m1, m2, m3, m4, m5] @ ms @ [stall_mark a x hi (sw_now x - ts)])))))"


section \<open>What a 0 of the spine check guarantees\<close>

lemma finish_report_0: "finish_report ms = Exit 0 \<longleftrightarrow> (\<forall>m \<in> set ms. m = Mark_Ok)"
proof -
  have "Mark_Fail \<notin> set ms \<and> Mark_Cannot \<notin> set ms \<longleftrightarrow> (\<forall>m \<in> set ms. m = Mark_Ok)"
    by (metis mark.distinct mark.exhaust)
  then show ?thesis by (auto simp: finish_report_def)
qed

lemma mark_if_ok [simp]: "mark_if b = Mark_Ok \<longleftrightarrow> b"
  by (simp add: mark_if_def)

lemma read_tries_consistent: "read_tries sha256 rs = Some (data, head, True) \<Longrightarrow>
    Some (data, head) \<in> set rs \<and> jget ''sha256'' head = JStr (sha256 data)"
  by (induction sha256 rs rule: read_tries.induct) (auto split: option.splits prod.splits if_splits)

definition waits_above :: "spine_world \<Rightarrow> int \<Rightarrow> bool" where
  "waits_above x hi \<longleftrightarrow> (\<exists>vs. sw_rows x = Some vs \<and> (\<exists>v \<in> set vs. v_lo v = hi + 1))"

lemma stall_mark_ok: "stall_mark a x hi age = Mark_Ok \<Longrightarrow> age \<le> sa_stall a \<or> \<not> waits_above x hi
    \<or> (age \<le> sa_behind_max a \<and> (\<exists>f. fold_age x = Some f \<and> f \<le> sa_fold_idle a))"
  by (auto simp: stall_mark_def waits_above_def list_ex_iff split: if_splits option.splits)

text \<open>
  Claim C7. The check of the spine never passes quietly: unless there was nothing to check, a 0 means that the
  bytes read hash to their head record, that the verifier accepted them as verified and anchored at genesis,
  built by the canonical guest, ending at the height and the tip of the head record; that our node, or for a
  remote check an explorer, names that tip as Bitcoin's block of that height, and our node the same work; and
  that no proof waits above a spine that has stalled.
\<close>

theorem check_spine_sound:
  assumes "check_spine sha256 show_json a x = Exit 0" and "sa_remote a \<or> \<not> nothing_to_check x"
  shows "\<exists>data head hi v tip. Some (data, head) \<in> set (sw_reads x) \<and> jget ''sha256'' head = JStr (sha256 data)
    \<and> json_int (j_or (jget ''hi'' head) (JInt 0)) = Some hi
    \<and> sw_verify x data = Some (0, Some v) \<and> jget ''verified'' v = JBool True \<and> jget ''genesis_anchored'' v = JBool True
    \<and> (case canonical_method_id (sa_method_id a) (sw_method_file x) of Some m \<Rightarrow> text_field show_json ''guest_image_id'' v = m | None \<Rightarrow> sa_remote a)
    \<and> int_field ''height'' v = Some hi \<and> tip = text_field show_json ''tip_hash'' v
    \<and> reversed_hex (head_text show_json head) = Some tip
    \<and> (if sa_remote a then \<exists>f. sw_explorer x = Some f \<and> f hi = Some tip
       else (\<exists>work. sw_node x hi = Some (tip, work) \<and> int_field ''cumulative_work'' v = Some work)
         \<and> (\<exists>ts. head_ts head = Some ts \<and> (sw_now x - ts \<le> sa_stall a \<or> \<not> waits_above x hi
              \<or> (sw_now x - ts \<le> sa_behind_max a \<and> (\<exists>f. fold_age x = Some f \<and> f \<le> sa_fold_idle a)))))"
proof -
  from assms obtain data head c where r: "read_tries sha256 (sw_reads x) = Some (data, head, c)"
    by (auto simp: check_spine_def finish_report_def split: option.splits if_splits)
  from assms r obtain hi where hi: "json_int (j_or (jget ''hi'' head) (JInt 0)) = Some hi"
    by (auto simp: check_spine_def split: option.splits if_splits)
  from assms r hi obtain code v where v: "sw_verify x data = Some (code, Some v)" "code = 0" "is_object v"
    by (auto simp: check_spine_def finish_report_0 Let_def split: option.splits if_splits prod.splits)
  let ?tip = "text_field show_json ''tip_hash'' v"
  from assms r hi v obtain height where h: "int_field ''height'' v = Some height"
    by (auto simp: check_spine_def Let_def split: option.splits if_splits)
  from assms r hi v h obtain ms where ms: "chain_marks a x v height ?tip = Some ms"
    by (auto simp: check_spine_def Let_def split: option.splits if_splits)
  define rest where "rest = (if sa_remote a then Some [] else map_option (\<lambda>ts. [stall_mark a x hi (sw_now x - ts)]) (head_ts head))"
  have run: "check_spine sha256 show_json a x = (case rest of None \<Rightarrow> Died | Some zs \<Rightarrow> finish_report ([mark_if c,
       mark_if (jget ''verified'' v = JBool True \<and> jget ''genesis_anchored'' v = JBool True),
       (case canonical_method_id (sa_method_id a) (sw_method_file x) of Some m \<Rightarrow> mark_if (text_field show_json ''guest_image_id'' v = m)
                       | None \<Rightarrow> if sa_remote a then Mark_Ok else Mark_Cannot),
       mark_if (height = hi), mark_if (reversed_hex (head_text show_json head) = Some ?tip)] @ ms @ zs))"
    using assms(2) r hi v h ms by (auto simp: check_spine_def Let_def rest_def split: option.splits)
  with assms(1) obtain zs where zs: "rest = Some zs" by (cases rest) auto
  note fr = trans [OF sym [OF run [unfolded zs option.case]] assms(1), unfolded finish_report_0]
  then have ok: "c" "jget ''verified'' v = JBool True \<and> jget ''genesis_anchored'' v = JBool True"
    "(case canonical_method_id (sa_method_id a) (sw_method_file x) of Some m \<Rightarrow> text_field show_json ''guest_image_id'' v = m | None \<Rightarrow> sa_remote a)"
    "height = hi" "reversed_hex (head_text show_json head) = Some ?tip" "\<forall>m \<in> set ms. m = Mark_Ok" "\<forall>m \<in> set zs. m = Mark_Ok"
    by (auto split: option.splits if_splits)
  have chain: "if sa_remote a then \<exists>f. sw_explorer x = Some f \<and> f hi = Some ?tip
       else \<exists>work. sw_node x hi = Some (?tip, work) \<and> int_field ''cumulative_work'' v = Some work"
    using ms ok(4,6) by (auto simp: chain_marks_def split: if_splits option.splits prod.splits)
  have stall: "\<exists>ts. head_ts head = Some ts \<and> (sw_now x - ts \<le> sa_stall a \<or> \<not> waits_above x hi
              \<or> (sw_now x - ts \<le> sa_behind_max a \<and> (\<exists>f. fold_age x = Some f \<and> f \<le> sa_fold_idle a)))" if "\<not> sa_remote a"
    using zs ok(7) that stall_mark_ok by (auto simp: rest_def)
  have "Some (data, head) \<in> set (sw_reads x)" "jget ''sha256'' head = JStr (sha256 data)"
    using read_tries_consistent [of sha256 "sw_reads x" data head] r ok(1) by simp_all
  then show ?thesis
    by (intro exI [of _ data] exI [of _ head] exI [of _ hi] exI [of _ v] exI [of _ ?tip])
      (use hi v h ok(2-5) chain stall in simp)
qed


section \<open>What the check of the proofs decides\<close>

text \<open>A stored proof that holds: the bytes accepted, accepted again by the verifier, saying what the record says.\<close>

definition proof_holds ::
    "(string \<Rightarrow> string) \<Rightarrow> (string \<Rightarrow> host_result) \<Rightarrow> range_row list \<Rightarrow> vrange_row list \<Rightarrow> range_id \<Rightarrow> string option \<Rightarrow> bool" where
  "proof_holds sha256 host rows vs rid data \<longleftrightarrow> (\<exists>bytes r v out err kv. data = Some bytes
     \<and> row_of r_id rid (filter (\<lambda>r. r_status r = Verified) rows) = Some r \<and> r_receipt_sha r = Some (sha256 bytes)
     \<and> host bytes = Ran 0 out err \<and> range_ok out = Some kv
     \<and> row_of v_id rid vs = Some v \<and> (\<forall>(k, x) \<in> set (record_fields v). kv_default k [] kv = x))"

lemma check_one_holds:
  "check_one sha256 host data (Option.bind (row_of r_id rid (filter (\<lambda>r. r_status r = Verified) rows)) r_receipt_sha) (row_of v_id rid vs) = []
   \<longleftrightarrow> proof_holds sha256 host rows vs rid data"
  (is "?c = [] \<longleftrightarrow> _")
proof
  assume "?c = []"
  then obtain bytes r out err kv v where "data = Some bytes" "row_of r_id rid (filter (\<lambda>r. r_status r = Verified) rows) = Some r"
      "r_receipt_sha r = Some (sha256 bytes)" "host bytes = Ran 0 out err" "range_ok out = Some kv" "row_of v_id rid vs = Some v"
      "filter (\<lambda>(k, x). kv_default k [] kv \<noteq> x) (record_fields v) = []"
    by (auto simp: check_one_def Let_def Option.bind_eq_Some_conv split: option.splits host_result.splits if_splits)
  then show "proof_holds sha256 host rows vs rid data" by (auto simp: proof_holds_def filter_empty_conv)
next
  assume "proof_holds sha256 host rows vs rid data"
  then obtain bytes r v out err kv where x: "data = Some bytes" "row_of r_id rid (filter (\<lambda>r. r_status r = Verified) rows) = Some r"
      "r_receipt_sha r = Some (sha256 bytes)" "host bytes = Ran 0 out err" "range_ok out = Some kv" "row_of v_id rid vs = Some v"
      "\<forall>(k, x) \<in> set (record_fields v). kv_default k [] kv = x"
    unfolding proof_holds_def by blast
  from x(7) have "filter (\<lambda>(k, x). kv_default k [] kv \<noteq> x) (record_fields v) = []" by (auto simp: filter_empty_conv)
  with x(1-6) show "?c = []" by (simp add: check_one_def)
qed

text \<open>
  Claim C8. The check of the stored proofs, made without a limit and able to read what it needs, exits 0 exactly
  when every file that is named like a proof and is old enough still holds: its bytes hash to what the
  coordinator accepted, the verifier accepts them, and every field it prints is the field of the record.
\<close>

theorem check_proofs_exact:
  assumes "host_ok"
  shows "check_proofs sha256 host host_ok cutoff 0 (Some files) (Some (rows, vs)) = Exit 0 \<longleftrightarrow>
    (\<forall>f \<in> set files. \<forall>rid t. proof_id (sf_name f) = Some rid \<and> sf_mtime f = Some t \<and> t \<le> cutoff
       \<longrightarrow> proof_holds sha256 host rows vs rid (sf_data f))"
proof -
  let ?P = "\<lambda>rid f. proof_holds sha256 host rows vs rid (sf_data f)"
  have mem: "f \<in> set (settled_proofs cutoff 0 files) \<longleftrightarrow> f \<in> set files \<and> (\<exists>rid. proof_id (sf_name f) = Some rid) \<and> (\<exists>t. sf_mtime f = Some t \<and> t \<le> cutoff)" for f
    by (auto simp: settled_proofs_def Let_def not_less split: option.splits)
  have "check_proofs sha256 host host_ok cutoff 0 (Some files) (Some (rows, vs))
     = Exit (if list_ex (\<lambda>f. \<not> ?P (the (proof_id (sf_name f))) f) (settled_proofs cutoff 0 files) then 1 else 0)"
    by (simp only: check_proofs_def assms option.case prod.case Let_def check_one_holds not_True_eq_False if_False)
  also have "list_ex (\<lambda>f. \<not> ?P (the (proof_id (sf_name f))) f) (settled_proofs cutoff 0 files)
     \<longleftrightarrow> (\<exists>f \<in> set files. \<exists>rid t. proof_id (sf_name f) = Some rid \<and> sf_mtime f = Some t \<and> t \<le> cutoff \<and> \<not> ?P rid f)"
    unfolding list_ex_iff Bex_def mem by (metis option.sel)
  finally show ?thesis by simp blast
qed

section \<open>What the check of the receipts decides\<close>

lemma heights_without_mem: "h \<in> set (heights_without spans receipts) \<longleftrightarrow> h \<in> span_set spans \<and> h \<notin> set receipts"
  unfolding heights_without_def span_set_def by force

text \<open>
  The retention check exits 0 exactly when every height from 1 on inside a verified row has a receipt
  of its own or is one the operator accepts; on a board with no such height, exactly when no receipt is held.
\<close>

lemma check_retention_exact:
  assumes "parse_allow_args argv = Some allowed" and "receipts_held names = Some receipts"
  shows "check_retention argv (Some names) rows = Exit 0 \<longleftrightarrow>
    (let heights = {h. 1 \<le> h \<and> (\<exists>r \<in> set rows. r_status r = Verified \<and> r_lo r \<le> h \<and> h \<le> r_hi r)} in
     if heights = {} then receipts = [] else \<forall>h \<in> heights. h \<in> set receipts \<or> in_spans allowed h)"
proof -
  let ?spans = "verified_spans rows"
  let ?hs = "{h. 1 \<le> h \<and> (\<exists>r \<in> set rows. r_status r = Verified \<and> r_lo r \<le> h \<and> h \<le> r_hi r)}"
  have hs: "span_set ?spans = ?hs" by (force simp: span_set_def verified_spans_def)
  have empty: "list_all (\<lambda>(lo, hi). hi < lo) ?spans \<longleftrightarrow> ?hs = {}"
    unfolding hs [symmetric] span_set_def list_all_iff by (fastforce simp: not_less)
  have bad: "list_ex (\<lambda>h. \<not> in_spans allowed h) (heights_without ?spans receipts) \<longleftrightarrow> (\<exists>h \<in> ?hs. h \<notin> set receipts \<and> \<not> in_spans allowed h)"
    unfolding list_ex_iff Bex_def heights_without_mem hs by blast
  have "check_retention argv (Some names) rows = (if ?hs = {} then Exit (if receipts \<noteq> [] then 1 else 0)
      else Exit (if \<exists>h \<in> ?hs. h \<notin> set receipts \<and> \<not> in_spans allowed h then 1 else 0))"
    by (simp only: check_retention_def assms option.case Let_def empty bad)
  then show ?thesis unfolding Let_def by auto
qed

section \<open>What the check of the records guarantees\<close>

lemma one_row:
  assumes "proofs_sound b" "u \<in> set (vranges b)" "v \<in> set (vranges b)" "v_lo u = h" "v_hi u = h" "v_lo v = h" "v_hi v = h"
  shows "u = v"
  using assms by (intro vrange_table.rows_key_inj [of "vranges b"]) (auto simp: proofs_sound_def)

lemma lk_lo_link_of [simp]: "lk_lo (link_of v) = v_lo v"
  by (simp add: link_of_def)

lemma links_at_mem: "x \<in> set (links_at (links vs n) h) \<longleftrightarrow> (\<exists>v \<in> set vs. x = link_of v \<and> v_lo v = h \<and> v_hi v = h \<and> 1 \<le> h \<and> h \<le> n)"
  by (auto simp: links_at_def links_def)

lemma links_at_ex: "links_at (links vs n) h \<noteq> [] \<Longrightarrow> \<exists>v \<in> set vs. v_lo v = h \<and> v_hi v = h \<and> 1 \<le> h \<and> h \<le> n"
  by (auto simp: links_at_def links_def filter_empty_conv)

text \<open>On a board whose ids spell their spans every height has at most one link.\<close>

lemma links_at_row:
  assumes "proofs_sound b" "links_at (links (vranges b) n) h \<noteq> []"
  obtains v where "v \<in> set (vranges b)" "v_lo v = h" "v_hi v = h" "1 \<le> h" "h \<le> n" "set (links_at (links (vranges b) n) h) = {link_of v}"
proof -
  from links_at_ex [OF assms(2)] obtain v where v: "v \<in> set (vranges b)" "v_lo v = h" "v_hi v = h" "1 \<le> h" "h \<le> n" by blast
  have "x = link_of v" if l: "x \<in> set (links_at (links (vranges b) n) h)" for x
  proof -
    from l obtain u where "u \<in> set (vranges b)" "x = link_of u" "v_lo u = h" "v_hi u = h" unfolding links_at_mem by blast
    with one_row [OF assms(1) _ v(1) _ _ v(2,3), of u] show ?thesis by blast
  qed
  moreover have "link_of v \<in> set (links_at (links (vranges b) n) h)" unfolding links_at_mem using v by blast
  ultimately have "set (links_at (links (vranges b) n) h) = {link_of v}" by blast
  with v show ?thesis by (rule that)
qed

definition tips_known :: "vrange_row list \<Rightarrow> bool" where
  "tips_known vs \<longleftrightarrow> list_all (\<lambda>v. v_in_tip v \<noteq> None \<and> v_out_tip v \<noteq> None) vs"

lemma or_empty_eq: "a \<noteq> None \<Longrightarrow> b \<noteq> None \<Longrightarrow> or_empty a = or_empty b \<longleftrightarrow> a = b"
  by (cases a; cases b) (auto simp: or_empty_def)

lemma or_empty_ne: "or_empty a \<noteq> [] \<longleftrightarrow> a \<noteq> None \<and> a \<noteq> Some []"
  by (cases a) (auto simp: or_empty_def)

lemma continuity_chain:
  assumes "proofs_sound b" "tips_known (vranges b)" "1 \<le> h" "h \<le> n"
    and all: "\<And>k. 1 \<le> k \<Longrightarrow> k \<le> n \<Longrightarrow> links_at (links (vranges b) n) k \<noteq> [] \<and> \<not> tip_breaks (GENESIS_TIP cfg) (links (vranges b) n) k
       \<and> \<not> digest_breaks (links (vranges b) n) k \<and> \<not> no_digest (links (vranges b) n) k"
  shows "\<exists>r w. seam_chain cfg (set (vranges b)) r w \<and> v_lo r = h \<and> v_hi r = h \<and> set (links_at (links (vranges b) n) h) = {link_of r}"
  using assms(3,4)
proof (induction h rule: int_ge_induct)
  case base
  then have a: "links_at (links (vranges b) n) 1 \<noteq> []" "\<not> tip_breaks (GENESIS_TIP cfg) (links (vranges b) n) 1" "\<not> no_digest (links (vranges b) n) 1"
    using all [of 1] by auto
  from links_at_row [OF assms(1) a(1)] obtain v where v: "v \<in> set (vranges b)" "v_lo v = 1" "v_hi v = 1"
    "set (links_at (links (vranges b) n) 1) = {link_of v}" by blast
  from a v(4) have "or_empty (v_in_tip v) = GENESIS_TIP cfg" "or_empty (v_in_bhash v) \<noteq> []"
    by (auto simp: tip_breaks_def no_digest_def list_ex_iff list_all_iff link_of_def)
  moreover have "v_in_tip v \<noteq> None" using assms(2) v(1) by (auto simp: tips_known_def list_all_iff)
  ultimately have "anchored_row cfg v" "has_bhash v"
    using v(2) by (auto simp: anchored_row_def is_genesis_anchored_def has_bhash_def or_empty_def split: option.splits)
  with v show ?case by (blast intro: seam_chain.genesis)
next
  case (step h)
  then obtain r w where r: "seam_chain cfg (set (vranges b)) r w" "v_lo r = h" "v_hi r = h" "set (links_at (links (vranges b) n) h) = {link_of r}"
    by auto
  have a: "links_at (links (vranges b) n) (h + 1) \<noteq> []" "\<not> tip_breaks (GENESIS_TIP cfg) (links (vranges b) n) (h + 1)"
     "\<not> digest_breaks (links (vranges b) n) (h + 1)" "\<not> no_digest (links (vranges b) n) (h + 1)"
    using all [of "h + 1"] step.hyps step.prems by auto
  from links_at_row [OF assms(1) a(1)] obtain v where v: "v \<in> set (vranges b)" "v_lo v = h + 1" "v_hi v = h + 1"
    "set (links_at (links (vranges b) n) (h + 1)) = {link_of v}" by blast
  have ne: "links_at (links (vranges b) n) h \<noteq> []" using r(4) by auto
  have h: "(h + 1 = 1) = False" "h + 1 - 1 = h" "(h = 0) = False" using step.hyps by simp_all
  have s1: "or_empty (v_out_tip r) = or_empty (v_in_tip v)"
    using a(1,2) ne unfolding tip_breaks_def h list_ex_iff v(4) r(4) by (simp add: h link_of_def)
  have s2: "or_empty (v_out_bhash r) \<noteq> [] \<and> or_empty (v_out_bhash r) = or_empty (v_in_bhash v)"
    using a(1,3) ne unfolding digest_breaks_def h list_ex_iff v(4) r(4) by (auto simp: link_of_def)
  note s = s1 s2 [THEN conjunct1] s2 [THEN conjunct2]
  have "v_out_tip r \<noteq> None" "v_in_tip v \<noteq> None"
    using assms(2) v(1) seam_chain_mem [OF r(1)] by (auto simp: tips_known_def list_all_iff)
  with s(1) have "v_out_tip r = v_in_tip v" by (simp add: or_empty_eq)
  moreover have "has_bhash v" "v_out_bhash r = v_in_bhash v"
    using s(2,3) or_empty_eq [of "v_out_bhash r" "v_in_bhash v"] or_empty_ne [of "v_in_bhash v"] or_empty_ne [of "v_out_bhash r"]
    by (auto simp: has_bhash_def)
  ultimately have "seam r v" "has_bhash v" using r(3) v(2) by (simp_all add: seam_def)
  with r(1) v show ?case by (blast intro: seam_chain.extend)
qed

lemma exit_chain: "(if a then Died else if b then Exit 2 else if c then Died else if f then Exit 1 else if e then Exit 2 else Exit 0) = Exit 0
    \<Longrightarrow> \<not> f"
  by (simp split: if_splits)

lemma parse_allow_none: "parse_allow [] = Some []"
  by (simp add: parse_allow_def)

lemma continuity_exit:
  assumes "check_continuity g [] True (Some doc) (Some vs) = Exit 0" and "json_int (jget ''hi'' doc) = Some n"
  shows "\<not> (list_ex (\<lambda>h. links_at (links vs n) h = [] \<and> \<not> in_spans [] h) [1..n] \<or> list_ex (tip_breaks g (links vs n)) [1..n]
      \<or> list_ex (digest_breaks (links vs n)) [1..n] \<or> list_ex (no_digest (links vs n)) [1..n]
      \<or> (links_at (links vs n) n \<noteq> [] \<and> \<not> list_ex (\<lambda>x. JStr (lk_out_tip x) = jget ''out_tip'' doc) (links_at (links vs n) n)))"
  using assms(1) unfolding check_continuity_def parse_allow_none option.case assms(2) Let_def not_True_eq_False if_False
  by (rule exit_chain)

text \<open>
  Claim C6. When the continuity check exits 0 with nothing accepted, on the proofs of a coordinator that ran from
  a fresh database, the records of blocks 1 to the spine's height form one chain of seams from the genesis
  anchor that ends on the spine's tip: the frontier the coordinator publishes has at least its work.
\<close>

theorem continuity_reaches_spine:
  assumes "sys_init cfg s0" "(sys_step cfg va)\<^sup>*\<^sup>* s0 s" "b = sv_board (sy_server s)" "tips_known (vranges b)"
    and "check_continuity (GENESIS_TIP cfg) [] True (Some doc) (Some (vranges b)) = Exit 0"
    and "json_int (jget ''hi'' doc) = Some n" "1 \<le> n"
  shows "\<exists>r w. seam_chain cfg (set (vranges b)) r w \<and> v_lo r = n \<and> v_hi r = n
    \<and> jget ''out_tip'' doc = JStr (or_empty (v_out_tip r)) \<and> w \<le> f_work (frontier_chain cfg b)"
proof -
  have sound: "proofs_sound b" using ledger.inv_reachable [OF assms(1,2)] assms(3) by (simp add: sys_sound_def board_sound_def)
  let ?ls = "links (vranges b) n"
  have "\<not> (list_ex (\<lambda>h. links_at ?ls h = [] \<and> \<not> in_spans [] h) [1..n] \<or> list_ex (tip_breaks (GENESIS_TIP cfg) ?ls) [1..n]
      \<or> list_ex (digest_breaks ?ls) [1..n] \<or> list_ex (no_digest ?ls) [1..n]
      \<or> (links_at ?ls n \<noteq> [] \<and> \<not> list_ex (\<lambda>x. JStr (lk_out_tip x) = jget ''out_tip'' doc) (links_at ?ls n)))"
    using assms(5) by (rule continuity_exit [OF _ assms(6)])
  then have x: "\<not> list_ex (\<lambda>h. links_at ?ls h = []) [1..n]" "\<not> list_ex (tip_breaks (GENESIS_TIP cfg) ?ls) [1..n]"
      "\<not> list_ex (digest_breaks ?ls) [1..n]" "\<not> list_ex (no_digest ?ls) [1..n]"
      "links_at ?ls n = [] \<or> list_ex (\<lambda>x. JStr (lk_out_tip x) = jget ''out_tip'' doc) (links_at ?ls n)"
    by (simp_all add: in_spans_def)
  then have "\<And>k. 1 \<le> k \<Longrightarrow> k \<le> n \<Longrightarrow> links_at ?ls k \<noteq> [] \<and> \<not> tip_breaks (GENESIS_TIP cfg) ?ls k \<and> \<not> digest_breaks ?ls k \<and> \<not> no_digest ?ls k"
    by (auto simp: list_ex_iff)
  from continuity_chain [OF sound assms(4,7) order_refl this] obtain r w where
    r: "seam_chain cfg (set (vranges b)) r w" "v_lo r = n" "v_hi r = n" "set (links_at ?ls n) = {link_of r}" by blast
  have ne: "links_at ?ls n \<noteq> []" using r(4) by (metis empty_set insert_not_empty)
  have "\<exists>x \<in> {link_of r}. JStr (lk_out_tip x) = jget ''out_tip'' doc" using x(5) ne unfolding list_ex_iff r(4) by blast
  then have "jget ''out_tip'' doc = JStr (or_empty (v_out_tip r))" by (simp add: link_of_def)
  moreover have "list_all (\<lambda>r. v_lo r \<le> v_hi r) (vranges b)" using sound by (auto simp: proofs_sound_def list_all_iff)
  then have "below w (v_hi r) (frontier_chain cfg b)" by (rule frontier_spec(3)) (rule r(1))
  ultimately show ?thesis using r(1-3) by (intro exI [of _ r] exI [of _ w]) (auto simp: below_def)
qed


section \<open>Examples\<close>

text \<open>A submission judged alone takes the coordinator from one state with nothing in flight to the next.\<close>

lemma submitted_reached:
  assumes "submit_admit cfg w [] body (sv_board sv) = (Inr adm, b1)"
    and "submit_commit cfg w ok body adm (submit_verify cfg w va body adm) (with_board sv b1) = (res, sv2)"
  shows "(sys_step cfg va)\<^sup>*\<^sup>* \<lparr> sy_server = sv, sy_flight = [] \<rparr> \<lparr> sy_server = sv2, sy_flight = [] \<rparr>"
proof -
  have 1: "sys_step cfg va \<lparr> sy_server = sv, sy_flight = [] \<rparr> \<lparr> sy_server = with_board sv b1, sy_flight = [(body, adm)] \<rparr>"
    using sys_step.admit [OF assms(1), of va "[]"] by simp
  have 2: "sys_step cfg va \<lparr> sy_server = with_board sv b1, sy_flight = [(body, adm)] \<rparr>
      \<lparr> sy_server = sv2, sy_flight = remove1 (body, adm) [(body, adm)] \<rparr>"
    by (rule sys_step.commit [OF _ assms(2)]) simp
  with 1 show ?thesis by (auto intro: converse_rtranclp_into_rtranclp)
qed

text \<open>A coordinator that took the proof of block 1.\<close>

definition one_host :: "string \<Rightarrow> host_result" where
  "one_host r = (if r = ''ok'' then Ran 0 (host_line 1 1 (GENESIS_TIP small_config) ''bb'' 1 ''9'' ''cc'' ''dd'' True @ [CHR 0x0A]) []
     else Ran 1 [] ''INVALID'')"

definition one_admitted :: "(submit_error + admitted) \<times> board" where
  "one_admitted = submit_admit small_config example_world [] (submit_of ''1'' ''ok'') (sv_board (sy_server start_seven))"

definition one_flight :: admitted where
  "one_flight = (case fst one_admitted of Inr adm \<Rightarrow> adm | Inl _ \<Rightarrow> undefined)"

definition one_commit where
  "one_commit = submit_commit small_config example_world True (submit_of ''1'' ''ok'') one_flight
     (submit_verify small_config example_world one_host (submit_of ''1'' ''ok'') one_flight)
     (with_board (sy_server start_seven) (snd one_admitted))"

definition one_state :: system where
  "one_state = \<lparr> sy_server = snd one_commit, sy_flight = [] \<rparr>"

lemma one_reached: "(sys_step small_config one_host)\<^sup>*\<^sup>* start_seven one_state"
proof -
  have "(case fst one_admitted of Inr _ \<Rightarrow> True | Inl _ \<Rightarrow> False)" by code_simp
  then have "submit_admit small_config example_world [] (submit_of ''1'' ''ok'') (sv_board (sy_server start_seven)) = (Inr one_flight, snd one_admitted)"
    by (auto simp: one_flight_def one_admitted_def prod_eq_iff split: sum.splits)
  from submitted_reached [OF this, of True one_host "fst one_commit" "snd one_commit"]
  show ?thesis by (simp add: one_state_def one_commit_def start_seven_def)
qed

definition one_spine :: json where
  "one_spine = JObj [(''hi'', JInt 1), (''out_tip'', JStr ''bb'')]"

lemma one_rows:
  "(ranges (sv_board (sy_server one_state)), vranges (sv_board (sy_server one_state))) =
     ([\<lparr> r_id = ''1'', r_lo = 1, r_hi = 1, r_status = Verified, r_assignee = None, r_handle = None, r_receipt_sha = Some ''ok'',
         r_claimed_at = None, r_verified_at = Some 1000, r_last_beat = None, r_attempts = Some 0, r_env_failures = Some 0, r_last_error = None,
         r_last_failed_at = None, r_last_assignee = None, r_claim_nonce = None, r_claim_signed = None \<rparr>],
      [\<lparr> v_id = ''1'', v_lo = 1, v_hi = 1, v_in_tip = Some (GENESIS_TIP small_config), v_out_tip = Some ''bb'', v_pubkey = Some ''ab'',
         v_handle = Some ''ann'', v_ts = Some 1000, v_out_leaves = Some 1, v_range_work = Some ''9'', v_in_bhash = Some ''cc'',
         v_out_bhash = Some ''dd'' \<rparr>])"
  by code_simp

lemmas one_range = one_rows [THEN arg_cong [of _ _ fst], unfolded fst_conv]

lemmas one_vrange = one_rows [THEN arg_cong [of _ _ snd], unfolded snd_conv]

lemma one_tips: "tips_known (vranges (sv_board (sy_server one_state)))"
  unfolding one_vrange by code_simp

lemma one_continuity:
  "check_continuity (GENESIS_TIP small_config) [] True (Some one_spine) (Some (vranges (sv_board (sy_server one_state)))) = Exit 0"
  unfolding one_vrange by code_simp

theorem continuity_reaches_spine_witness:
  "\<exists>r w. seam_chain small_config (set (vranges (sv_board (sy_server one_state)))) r w \<and> v_hi r = 1
    \<and> w \<le> f_work (frontier_chain small_config (sv_board (sy_server one_state)))"
proof -
  have "json_int (jget ''hi'' one_spine) = Some 1" by code_simp
  from continuity_reaches_spine [OF start_seven_init one_reached refl one_tips one_continuity this] show ?thesis by auto
qed

theorem check_proofs_exact_witness:
  "(let f = \<lparr> sf_name = ''proof_1.bin'', sf_mtime = Some 0, sf_data = Some ''ok'' \<rparr>; b = sv_board (sy_server one_state) in
    check_proofs (\<lambda>s. s) one_host True 100 0 (Some [f]) (Some (ranges b, vranges b)) = Exit 0
    \<and> proof_holds (\<lambda>s. s) one_host (ranges b) (vranges b) ''1'' (Some ''ok''))"
proof -
  let ?b = "sv_board (sy_server one_state)" and ?f = "\<lparr> sf_name = ''proof_1.bin'', sf_mtime = Some 0, sf_data = Some ''ok'' \<rparr>"
  have r: "check_proofs (\<lambda>s. s) one_host True 100 0 (Some [?f]) (Some (ranges ?b, vranges ?b)) = Exit 0" unfolding one_range one_vrange by code_simp
  have "proof_id ''proof_1.bin'' = Some ''1''" by code_simp
  with check_proofs_exact [of True "\<lambda>s. s" one_host 100 "[?f]" "ranges ?b" "vranges ?b"] r show ?thesis by (auto simp: Let_def)
qed

text \<open>A spine of one block that passes.\<close>

definition spine_example :: spine_world where
  "spine_example = \<lparr> sw_now = 1000, sw_head_exists = True,
     sw_reads = [Some (''data'', JObj [(''hi'', JInt 1), (''sha256'', JStr ''data''), (''out_tip'', JStr ''bb''), (''ts'', JInt 900)])],
     sw_verify = (\<lambda>_. Some (0, Some (JObj [(''verified'', JBool True), (''genesis_anchored'', JBool True), (''guest_image_id'', JStr ''AB''),
        (''height'', JInt 1), (''tip_hash'', JStr ''BB''), (''cumulative_work'', JStr ''9'')]))),
     sw_method_file = Some [''# guest'', ''ab''], sw_node = (\<lambda>h. if h = 1 then Some (''bb'', 9) else None),
     sw_explorer = None, sw_rows = Some (vranges (sv_board (sy_server one_state))) \<rparr>"

definition spine_flags :: spine_args where
  "spine_flags = \<lparr> sa_remote = False, sa_method_id = None, sa_stall = 3600, sa_fold_idle = 600, sa_behind_max = 7200 \<rparr>"

lemma spine_example_ok: "check_spine (\<lambda>s. s) (\<lambda>_. []) spine_flags spine_example = Exit 0"
  unfolding spine_example_def one_vrange by code_simp

theorem check_spine_sound_witness:
  "\<exists>work. sw_node spine_example 1 = Some (''bb'', work)"
proof -
  have "sa_remote spine_flags \<or> \<not> nothing_to_check spine_example" by (simp add: nothing_to_check_def spine_example_def)
  from check_spine_sound [OF spine_example_ok this] show ?thesis
    by (auto simp: spine_flags_def) (simp add: spine_example_def)+
qed

end
