(* ===== verification/Bot_Log.thy ===== *)
theory Bot_Log
  imports Sponsor_Bot Integrity
begin

text \<open>
  The sponsor bot (\<open>coordinator/sponsor_bot.py\<close>), the part without pods: how it signs and reads the coordinator's
  API, its own database (\<open>sponsor_work\<close>, \<open>sponsor_pods\<close>, \<open>regen_queue\<close>), the keys it proves under, the order of
  the work, the arguments of a trial and the report. The lemmas show that what the bot signs is what the
  coordinator checks, that the handle it asks for is the one the coordinator gives, and that the queue of
  replays never has two in flight.
\<close>

section \<open>The coordinator's API\<close>

text \<open>What a call raises. \<open>except Exception\<close> catches all of these but the last, which a signal handler raises.\<close>

datatype exn = Coord_Error | RunPod_Error | Start_Failed | Bot_Refused | Other_Exn | Stop_Signal

text \<open>
  An HTTP exchange: a decoded answer (None where it is no JSON), a status with the decoded body (None where it is
  no JSON), no connection, or an exception of \<open>http.client\<close> that is no \<open>OSError\<close>, an answer cut short say.
\<close>

datatype http = Answer "json option" | Status int "json option" | Unreachable | Cut_Short

definition coord_call :: "http \<Rightarrow> exn + json" where
  "coord_call r = (case r of Answer (Some j) \<Rightarrow> Inr j | Answer None \<Rightarrow> Inl Coord_Error
     | Status _ (Some j) \<Rightarrow> Inl (if is_object j then Coord_Error else Other_Exn) | Status _ None \<Rightarrow> Inl Coord_Error
     | Unreachable \<Rightarrow> Inl Coord_Error | Cut_Short \<Rightarrow> Inl Other_Exn)"

text \<open>What the bot signs for a call.\<close>

definition coord_message :: "(string \<Rightarrow> string) \<Rightarrow> string \<Rightarrow> string \<Rightarrow> string \<Rightarrow> string \<Rightarrow> string option \<Rightarrow> string" where
  "coord_message sha256 method path ts nonce raw = ''hazync-sponsor-bot-v1'' @ CHR 0x0A # method @ CHR 0x0A # path
     @ CHR 0x0A # ts @ CHR 0x0A # nonce @ CHR 0x0A # sha256 (or_empty raw)"

text \<open>\<open>j[k]\<close>. A value of another type than the coordinator gives is taken as an exception of another kind.\<close>

definition jfield :: "string \<Rightarrow> json \<Rightarrow> exn + json" where
  "jfield k j = (case j of JObj kvs \<Rightarrow> if k \<in> fst ` set kvs then Inr (jget k j) else Inl Other_Exn | _ \<Rightarrow> Inl Other_Exn)"

fun all_right :: "(exn + 'a) list \<Rightarrow> exn + 'a list" where
  "all_right [] = Inr []"
| "all_right (x # xs) = (case x of Inl e \<Rightarrow> Inl e | Inr a \<Rightarrow> map_sum id ((#) a) (all_right xs))"

definition as_int :: "json \<Rightarrow> exn + int" where
  "as_int j = (case j of JInt i \<Rightarrow> Inr i | _ \<Rightarrow> Inl Other_Exn)"

definition as_list :: "json \<Rightarrow> exn + json list" where
  "as_list j = (case j of JArr xs \<Rightarrow> Inr xs | _ \<Rightarrow> Inl Other_Exn)"

definition as_name :: "json \<Rightarrow> exn + string option" where
  "as_name j = (case j of JNull \<Rightarrow> Inr None | JStr s \<Rightarrow> Inr (Some s) | _ \<Rightarrow> Inl Other_Exn)"

definition then_read :: "exn + 'a \<Rightarrow> ('a \<Rightarrow> exn + 'b) \<Rightarrow> exn + 'b" where
  "then_read x f = (case x of Inl e \<Rightarrow> Inl e | Inr a \<Rightarrow> f a)"

text \<open>The rows of \<open>/api/bot/queue\<close>, the facts of \<open>/api/bot/blocks\<close> and a sponsorship.\<close>

record queued =
  qu_id :: int
  qu_todo :: "int list"

definition read_queue :: "json \<Rightarrow> exn + queued list" where
  "read_queue j = then_read (then_read (jfield ''sponsorships'' j) as_list) (\<lambda>rows. all_right (map (\<lambda>r.
     then_read (then_read (jfield ''id'' r) as_int) (\<lambda>i.
     then_read (then_read (then_read (jfield ''todo'' r) as_list) (\<lambda>hs. all_right (map as_int hs))) (\<lambda>hs.
       Inr \<lparr> qu_id = i, qu_todo = hs \<rparr>))) rows))"

definition read_proof :: "json \<Rightarrow> exn + (string option \<times> time option)" where
  "read_proof p = then_read (then_read (jfield ''pubkey'' p) as_name) (\<lambda>k. then_read (jfield ''ts'' p) (\<lambda>t.
     if t = JNull then Inr (k, None) else case json_num t of None \<Rightarrow> Inl Other_Exn | Some r \<Rightarrow> Inr (k, Some r)))"

definition read_block :: "json \<Rightarrow> exn + bot_block" where
  "read_block f = then_read (jfield ''covered'' f) (\<lambda>cov. then_read (jfield ''claimed'' f) (\<lambda>cl. then_read (jfield ''held'' f) (\<lambda>held.
     then_read (then_read (then_read (jfield ''proofs'' f) as_list) (\<lambda>ps. all_right (map read_proof ps))) (\<lambda>ps.
     then_read (if held = JNull then Inr None else map_sum id Some (as_int held)) (\<lambda>hd'.
       Inr \<lparr> bb_covered = (\<not> falsy cov), bb_proofs = ps, bb_claimed = (\<not> falsy cl), bb_held = hd' \<rparr>)))))"

definition read_blocks :: "json \<Rightarrow> exn + (int \<times> bot_block) list" where
  "read_blocks j = then_read (jfield ''blocks'' j) (\<lambda>bs. case bs of
     JObj kvs \<Rightarrow> all_right (map (\<lambda>(k, v). case py_int k of None \<Rightarrow> Inl Other_Exn | Some h \<Rightarrow> map_sum id (Pair h) (read_block v)) kvs)
     | _ \<Rightarrow> Inl Other_Exn)"

definition read_sponsorship :: "json \<Rightarrow> exn + (string option \<times> bool)" where
  "read_sponsorship j = then_read (then_read (jfield ''name'' j) as_name) (\<lambda>n.
     then_read (jfield ''held'' j) (\<lambda>h. Inr (n, \<not> falsy h)))"

definition read_proven :: "json \<Rightarrow> exn + unit" where
  "read_proven j = then_read (jfield ''proven'' j) (\<lambda>p. case p of JArr _ \<Rightarrow> Inr () | JObj _ \<Rightarrow> Inr () | JStr _ \<Rightarrow> Inr () | _ \<Rightarrow> Inl Other_Exn)"

text \<open>The batches \<open>Coord.blocks\<close> asks for: the heights in order, a thousand at a time.\<close>

definition blocks_paths :: "int list \<Rightarrow> string list" where
  "blocks_paths heights = (let hs = sort (remdups heights) in
     map (\<lambda>k. ''/api/bot/blocks?h='' @ concat (map (\<lambda>(i, h). (if i = 0 then [] else '','') @ int_str h)
           (List.enumerate 0 (take 1000 (drop (1000 * k) hs))))) [0..<(length hs + 999) div 1000])"

section \<open>Keys\<close>

definition HANDLE_PREFIX :: string where
  "HANDLE_PREFIX = ''SPONSOR: ''"

definition NAME_MAX :: nat where
  "NAME_MAX = 40"

definition TRIAL_NAME :: string where
  "TRIAL_NAME = ''Hazync trial''"

definition board_handle :: "string option \<Rightarrow> string" where
  "board_handle name = take (length HANDLE_PREFIX + NAME_MAX)
     (py_strip (filter (\<lambda>c. is_printable c \<and> \<not> html_char c) (HANDLE_PREFIX @ or_empty name)))"

text \<open>The two files of an identity; the new seed is drawn and the public half of a seed computed by the library.\<close>

record id_files =
  if_key :: "string option"
  if_handle :: "string option"

record ident =
  id_tag :: string
  id_pubkey :: string
  id_handle :: string

definition identity_tag :: "int option \<Rightarrow> string" where
  "identity_tag sid = (case sid of None \<Rightarrow> ''trial'' | Some i \<Rightarrow> int_str i)"

definition identity :: "string \<Rightarrow> (string \<Rightarrow> string option) \<Rightarrow> int option \<Rightarrow> string option \<Rightarrow> id_files \<Rightarrow> (exn + ident) \<times> id_files" where
  "identity seed public sid name f =
     (let f = (if if_key f = None then f\<lparr>if_key := Some seed\<rparr> else f) in
      case public (py_strip (the (if_key f))) of None \<Rightarrow> (Inl Other_Exn, f) | Some pub \<Rightarrow>
        if sid \<noteq> None \<and> name = None \<and> if_handle f \<noteq> None
        then (Inr \<lparr> id_tag = identity_tag sid, id_pubkey = pub, id_handle = py_strip (the (if_handle f)) \<rparr>, f)
        else let handle = board_handle (if sid = None then Some TRIAL_NAME else name) in
          (Inr \<lparr> id_tag = identity_tag sid, id_pubkey = pub, id_handle = handle \<rparr>,
           if if_handle f \<noteq> None \<and> py_strip (the (if_handle f)) = handle then f
           else f\<lparr>if_handle := Some (handle @ [CHR 0x0A])\<rparr>))"

section \<open>The bot's database\<close>

datatype work_end = W_Proven | W_Stalled | W_Failed | W_Cancelled

record work_row =
  wk_id :: int
  wk_sid :: "int option"
  wk_height :: int
  wk_pod :: string
  wk_gpu :: string
  wk_cost :: "rat option"
  wk_assigned :: time
  wk_proven :: "time option"
  wk_seconds :: "rat option"
  wk_usd :: "rat option"
  wk_end :: "work_end option"
  wk_pubkey :: "string option"

record pod_row =
  po_id :: string
  po_name :: string
  po_gpu :: string
  po_cost :: "rat option"
  po_created :: time
  po_terminated :: "time option"
  po_usd :: "rat option"
  po_note :: "string option"

datatype regen_end = R_Done | R_Refused | R_Failed

record regen_row =
  rq_height :: int
  rq_sid :: "int option"
  rq_queued :: time
  rq_started :: "time option"
  rq_finished :: "time option"
  rq_pid :: "int option"
  rq_rung :: "int option"
  rq_end :: "regen_end option"
  rq_detail :: "string option"

text \<open>\<open>db_seq\<close> is the last id AUTOINCREMENT gave out.\<close>

record bot_db =
  db_work :: "work_row list"
  db_pods :: "pod_row list"
  db_regen :: "regen_row list"
  db_seq :: int

text \<open>
  \<open>import_log\<close>: the rows of the source's tables, None where it has no such table. The columns the source lacks
  read as NULL.
\<close>

definition import_log :: "work_row list option \<Rightarrow> pod_row list option \<Rightarrow> bot_db \<Rightarrow> (nat \<times> nat) \<times> bot_db" where
  "import_log ws ps d =
     (let work = fold (ins_ignore wk_id) (case ws of None \<Rightarrow> [] | Some x \<Rightarrow> x) (db_work d);
          pods = fold (ins_ignore po_id) (case ps of None \<Rightarrow> [] | Some x \<Rightarrow> x) (db_pods d)
      in ((length work - length (db_work d), length pods - length (db_pods d)),
          d\<lparr>db_work := work, db_pods := pods, db_seq := foldl max (db_seq d) (map wk_id work)\<rparr>))"

section \<open>The queue of replays\<close>

definition regen_enqueue :: "(int option \<times> int) list \<Rightarrow> time \<Rightarrow> bot_db \<Rightarrow> nat \<times> bot_db" where
  "regen_enqueue pairs now d =
     (let rows = fold (\<lambda>(sid, h). ins_ignore rq_height \<lparr> rq_height = h, rq_sid = sid, rq_queued = now, rq_started = None,
            rq_finished = None, rq_pid = None, rq_rung = None, rq_end = None, rq_detail = None \<rparr>) pairs (db_regen d)
      in (length rows - length (db_regen d), d\<lparr>db_regen := rows\<rparr>))"

definition in_flight :: "regen_row \<Rightarrow> bool" where
  "in_flight r \<longleftrightarrow> rq_started r \<noteq> None \<and> rq_finished r = None"

definition regen_inflight :: "bot_db \<Rightarrow> regen_row option" where
  "regen_inflight d = (case sort_key (\<lambda>r. the (rq_started r)) (sort_key rq_height (filter in_flight (db_regen d))) of [] \<Rightarrow> None | r # _ \<Rightarrow> Some r)"

definition regen_next :: "bot_db \<Rightarrow> regen_row option" where
  "regen_next d = (case sort_key rq_queued (sort_key rq_height (filter (\<lambda>r. rq_started r = None \<and> rq_end r = None) (db_regen d)))
     of [] \<Rightarrow> None | r # _ \<Rightarrow> Some r)"

definition regen_reap :: "time \<Rightarrow> int list \<Rightarrow> bot_db \<Rightarrow> int list \<times> bot_db" where
  "regen_reap now alive d =
     (let dead = (\<lambda>r. in_flight r \<and> \<not> (rq_pid r \<noteq> None \<and> rq_pid r \<noteq> Some 0 \<and> the (rq_pid r) \<in> set alive)) in
      (map rq_height (filter dead (db_regen d)),
       d\<lparr>db_regen := upd_where dead (\<lambda>r. r\<lparr>rq_finished := Some now, rq_end := Some R_Failed,
          rq_detail := Some ''the bot stopped while this replay was running''\<rparr>) (db_regen d)\<rparr>))"

definition regen_start :: "int \<Rightarrow> int \<Rightarrow> int option \<Rightarrow> time \<Rightarrow> bot_db \<Rightarrow> bot_db" where
  "regen_start h pid rung now d = d\<lparr>db_regen := upd_where (\<lambda>r. rq_height r = h)
     (\<lambda>r. r\<lparr>rq_started := Some now, rq_pid := Some pid, rq_rung := rung\<rparr>) (db_regen d)\<rparr>"

definition regen_end_of :: "int \<Rightarrow> regen_end" where
  "regen_end_of rc = (if rc = 0 then R_Done else if rc = 2 then R_Refused else R_Failed)"

definition regen_finish :: "int \<Rightarrow> int \<Rightarrow> string \<Rightarrow> time \<Rightarrow> bot_db \<Rightarrow> bot_db" where
  "regen_finish h rc detail now d = d\<lparr>db_regen := upd_where (\<lambda>r. rq_height r = h)
     (\<lambda>r. r\<lparr>rq_finished := Some now, rq_end := Some (regen_end_of rc), rq_detail := Some (take 500 detail)\<rparr>) (db_regen d)\<rparr>"

text \<open>
  \<open>bridge_running\<close>: the processes whose program is the bridge. A process is its name under \<open>/proc\<close> and its
  command line, None where it is gone.
\<close>

definition basename :: "string \<Rightarrow> string" where
  "basename s = last (py_split CHR ''/'' s)"

definition bridge_running :: "int \<Rightarrow> (string \<times> string option) list option \<Rightarrow> int list" where
  "bridge_running me proc = (case proc of None \<Rightarrow> [] | Some ps \<Rightarrow>
     sort (map (\<lambda>(n, _). the (py_int n)) (filter (\<lambda>(n, cmd). all_digits n \<and> n \<noteq> [] \<and> py_int n \<noteq> Some me \<and>
       (case cmd of None \<Rightarrow> False | Some c \<Rightarrow> (let argv0 = hd (py_split (CHR 0x00) c) in
          argv0 \<noteq> [] \<and> basename argv0 = ''hazync-host-bridge''))) ps)))"

datatype advice = Cannot_Regenerate int | Too_Expensive int int | Regenerate_From int int

definition regen_advice :: "regen_plan option \<Rightarrow> int \<Rightarrow> advice option" where
  "regen_advice p warn_blocks = (case p of None \<Rightarrow> None | Some p \<Rightarrow>
     if rp_missing p \<noteq> [] then Some (Cannot_Regenerate (Min (set (rp_missing p))))
     else let rung = the (rp_rung p); span = rp_hi p - rung in
       Some (if span > warn_blocks then Too_Expensive rung span else Regenerate_From rung span))"

section \<open>The work\<close>

definition has_bundle :: "string \<Rightarrow> string \<Rightarrow> (string \<Rightarrow> bool) \<Rightarrow> int \<Rightarrow> bool" where
  "has_bundle bridge_dir witness is_there h \<longleftrightarrow>
     (bridge_dir \<noteq> [] \<and> is_there (bridge_dir @ ''/bundle_'' @ int_str h @ ''.json'')) \<or> is_there (witness @ ''/block_'' @ int_str h @ ''.json'')"

type_synonym job = "int option \<times> int"

text \<open>\<open>pending_work\<close>: the blocks of a trial, and those of the queue.\<close>

definition pending_trial :: "int set \<Rightarrow> (int \<Rightarrow> bool) \<Rightarrow> int set \<Rightarrow> int list \<Rightarrow> job list" where
  "pending_trial busy ok cov trial = map (Pair None) (filter (\<lambda>h. h \<notin> busy \<and> h \<notin> cov \<and> ok h) trial)"

definition pending_queue :: "int set \<Rightarrow> (int \<Rightarrow> bool) \<Rightarrow> queued list \<Rightarrow> job list" where
  "pending_queue busy ok rows = fst (fold (\<lambda>(sid, h) (out, seen).
       if h \<notin> busy \<and> h \<notin> seen \<and> ok h then (out @ [(sid, h)], insert h seen) else (out, seen))
     (concat (map (\<lambda>q. map (Pair (Some (qu_id q))) (qu_todo q)) rows)) ([], {}))"

text \<open>The argument of a trial.\<close>

definition TRIAL_MAX :: int where
  "TRIAL_MAX = 1000"

datatype blocks_arg_error = Not_Blocks string | Bad_Order string | Too_Wide string | No_Blocks | Too_Many nat

definition parse_block_part :: "string \<Rightarrow> blocks_arg_error + int list" where
  "parse_block_part part =
     (case map (\<lambda>x. if x \<noteq> [] \<and> all_digits x then py_int x else None) (py_split CHR ''-'' part) of
        [Some lo] \<Rightarrow> if lo < 1 then Inl (Bad_Order part) else Inr [lo]
      | [Some lo, Some hi] \<Rightarrow> if lo < 1 \<or> hi < lo then Inl (Bad_Order part)
          else if hi - lo + 1 > TRIAL_MAX then Inl (Too_Wide part) else Inr [lo..hi]
      | _ \<Rightarrow> Inl (Not_Blocks part))"

fun first_error :: "('e + 'a list) list \<Rightarrow> 'e + 'a list" where
  "first_error [] = Inr []"
| "first_error (x # xs) = (case x of Inl e \<Rightarrow> Inl e | Inr a \<Rightarrow> map_sum id ((@) a) (first_error xs))"

text \<open>The first of equal elements is kept.\<close>

definition keep_first :: "'a list \<Rightarrow> 'a list" where
  "keep_first xs = rev (remdups (rev xs))"

definition parse_blocks :: "string \<Rightarrow> blocks_arg_error + int list" where
  "parse_blocks spec = (case first_error (map parse_block_part (filter (\<lambda>p. p \<noteq> []) (map py_strip (py_split CHR '','' spec)))) of
     Inl e \<Rightarrow> Inl e
   | Inr hs \<Rightarrow> (let out = keep_first hs in
       if out = [] then Inl No_Blocks else if int (length out) > TRIAL_MAX then Inl (Too_Many (length out)) else Inr out))"

datatype trial_refusal = Already_Proven int | No_Bundle int | Claimed_Now int | Held_For int int

text \<open>None where a block is missing from the answer.\<close>

definition trial_refusals :: "(int \<Rightarrow> bool) \<Rightarrow> (int \<times> bot_block) list \<Rightarrow> int list \<Rightarrow> trial_refusal list option" where
  "trial_refusals bundle facts hs =
     (if list_ex (\<lambda>h. map_of (rev facts) h = None) hs then None
      else Some (List.map_filter (\<lambda>h. let f = the (map_of (rev facts) h) in
        if bb_covered f then Some (Already_Proven h) else if \<not> bundle h then Some (No_Bundle h)
        else if bb_claimed f then Some (Claimed_Now h) else map_option (Held_For h) (bb_held f)) hs))"

section \<open>Correcting the log\<close>

record landed_row =
  ld_work :: work_row
  ld_ts :: time

definition wrong_end :: "work_end option \<Rightarrow> bool" where
  "wrong_end e \<longleftrightarrow> e \<in> {Some W_Cancelled, Some W_Failed, Some W_Stalled}"

text \<open>The rows of pods that are gone and have a row that may be wrong; and the proofs that landed in time.\<close>

definition joined :: "bot_db \<Rightarrow> (work_row \<times> time) list" where
  "joined d = (let all = List.map_filter (\<lambda>w. case row_of po_id (wk_pod w) (db_pods d) of None \<Rightarrow> None
        | Some p \<Rightarrow> if wk_pubkey w = None then None else map_option (Pair w) (po_terminated p)) (db_work d);
      pods = set (map (wk_pod \<circ> fst) (filter (wrong_end \<circ> wk_end \<circ> fst) all))
    in filter (\<lambda>(w, _). wk_pod w \<in> pods) all)"

definition landed :: "(int \<times> bot_block) list \<Rightarrow> (work_row \<times> time) list \<Rightarrow> landed_row list" where
  "landed facts ws = sort_key (wk_pod \<circ> ld_work) (sort_key ld_ts (concat (map (\<lambda>(w, gone).
     List.map_filter (\<lambda>(k, t). case t of None \<Rightarrow> None | Some ts \<Rightarrow>
       if k = wk_pubkey w \<and> wk_assigned w \<le> ts \<and> ts \<le> gone then Some \<lparr> ld_work = w, ld_ts = ts \<rparr> else None)
       (bb_proofs (the (map_of (rev facts) (wk_height w))))) ws)))"

definition or_zero :: "rat option \<Rightarrow> rat" where
  "or_zero x = (case x of None \<Rightarrow> 0 | Some r \<Rightarrow> r)"

fun correct_rows :: "(string \<Rightarrow> time option) \<Rightarrow> int set \<Rightarrow> landed_row list \<Rightarrow> work_row list \<Rightarrow> nat \<times> work_row list" where
  "correct_rows last_ts seen [] work = (0, work)"
| "correct_rows last_ts seen (l # ls) work =
     (let w = ld_work l; ts = ld_ts l in
      if wk_id w \<in> seen then correct_rows last_ts seen ls work
      else let start = max (wk_assigned w) (case last_ts (wk_pod w) of None \<Rightarrow> wk_assigned w | Some t \<Rightarrow> t);
               last_ts = last_ts(wk_pod w := Some ts); seen = insert (wk_id w) seen in
        if \<not> wrong_end (wk_end w) \<or> list_ex (\<lambda>x. wk_height x = wk_height w \<and> wk_end x = Some W_Proven) work
        then correct_rows last_ts seen ls work
        else let secs = max 0 (ts - start); hit = (\<lambda>x. wk_id x = wk_id w \<and> wk_end x = wk_end w);
                 (n, work') = correct_rows last_ts seen ls (upd_where hit (\<lambda>x. x\<lparr>wk_end := Some W_Proven, wk_proven := Some ts,
                     wk_seconds := Some secs, wk_usd := Some (secs * or_zero (wk_cost w) / 3600)\<rparr>) work)
          in (n + length (filter hit work), work'))"

text \<open>The heights it asks for, and what it does with the answer; None where a block is missing from it.\<close>

definition reconcile_heights :: "bot_db \<Rightarrow> int list" where
  "reconcile_heights d = map (wk_height \<circ> fst) (joined d)"

definition reconcile_work :: "(int \<times> bot_block) list \<Rightarrow> bot_db \<Rightarrow> (nat \<times> bot_db) option" where
  "reconcile_work facts d = (if joined d = [] then Some (0, d)
     else if list_ex (\<lambda>h. map_of (rev facts) h = None) (reconcile_heights d) then None
     else case correct_rows (\<lambda>_. None) {} (landed facts (joined d)) (db_work d) of (n, work) \<Rightarrow> Some (n, d\<lparr>db_work := work\<rparr>))"

section \<open>Measuring\<close>

definition BANDS :: "(int \<times> int) list" where
  "BANDS = [(1, 200000), (200001, 400000), (400001, 600000), (600001, 800000), (800001, 1000000), (1000001, 10 ^ 9)]"

definition middle :: "rat list \<Rightarrow> rat" where
  "middle xs = (let s = sort xs; n = length s in if odd n then s ! (n div 2) else (s ! (n div 2 - 1) + s ! (n div 2)) / 2)"

record band_cost =
  bc_lo :: int
  bc_hi :: int
  bc_blocks :: nat
  bc_median_s :: rat
  bc_max_s :: rat
  bc_median_usd :: rat
  bc_max_usd :: rat

definition band_of :: "work_row list \<Rightarrow> int \<times> int \<Rightarrow> band_cost option" where
  "band_of rows b = (let rs = filter (\<lambda>r. fst b \<le> wk_height r \<and> wk_height r \<le> snd b) rows;
       secs = map (\<lambda>r. the (wk_seconds r)) rs; usd = map (\<lambda>r. or_zero (wk_usd r)) rs in
     if rs = [] then None
     else Some \<lparr> bc_lo = fst b, bc_hi = snd b, bc_blocks = length rs, bc_median_s = middle secs, bc_max_s = Max (set secs),
       bc_median_usd = middle usd, bc_max_usd = Max (set usd) \<rparr>)"

record bot_report =
  br_bands :: "band_cost list"
  br_pods :: nat
  br_pod_usd :: rat
  br_proven :: nat
  br_all_in :: "rat option"
  br_outcomes :: "(work_end option \<times> nat) list"

definition bot_report_of :: "bot_db \<Rightarrow> bot_report" where
  "bot_report_of d =
     (let rows = filter (\<lambda>r. wk_end r = Some W_Proven \<and> wk_seconds r \<noteq> None) (db_work d);
          gone = filter (\<lambda>p. po_terminated p \<noteq> None) (db_pods d);
          usd = sum_list (map (or_zero \<circ> po_usd) gone); n = length rows
      in \<lparr> br_bands = List.map_filter (band_of rows) BANDS, br_pods = length gone, br_pod_usd = usd, br_proven = n,
           br_all_in = (if n = 0 then None else Some (usd / of_nat n)),
           br_outcomes = map (\<lambda>e. (e, length (filter (\<lambda>r. wk_end r = e) (db_work d)))) (remdups (map wk_end (db_work d))) \<rparr>)"

text \<open>The projection of a plan: dollars, and the blocks in bands that are not measured.\<close>

definition projection :: "band_cost list \<Rightarrow> job list \<Rightarrow> rat \<times> nat" where
  "projection bands todo = (let band = (\<lambda>h. find (\<lambda>b. bc_lo b \<le> h \<and> h \<le> bc_hi b) bands) in
     (sum_list (map (\<lambda>(_, h). case band h of None \<Rightarrow> 0 | Some b \<Rightarrow> bc_median_usd b) todo),
      length (filter (\<lambda>(_, h). band h = None) todo)))"

section \<open>RunPod and the release\<close>

text \<open>\<open>d.get(k)\<close> of a decoded value; no object has no \<open>get\<close>.\<close>

definition jobj_get :: "string \<Rightarrow> json \<Rightarrow> exn + json" where
  "jobj_get k j = (if is_object j then Inr (jget k j) else Inl Other_Exn)"

definition gql_result :: "http \<Rightarrow> exn + json" where
  "gql_result r = (case r of Answer (Some d) \<Rightarrow>
       if \<not> is_object d then Inl Other_Exn
       else if \<not> falsy (jget ''errors'' d) \<and> falsy (jget ''data'' d) then Inl RunPod_Error
       else Inr (j_or (jget ''data'' d) (JObj []))
     | _ \<Rightarrow> Inl RunPod_Error)"

text \<open>One GPU type after the other; an id and a price, None where no type had capacity.\<close>

fun deploy_types :: "(string \<Rightarrow> http) \<Rightarrow> string list \<Rightarrow> bool \<Rightarrow> bool \<Rightarrow> exn + (json \<times> string \<times> rat) option" where
  "deploy_types send [] was_refused answered = (if was_refused \<and> \<not> answered then Inl RunPod_Error else Inr None)"
| "deploy_types send (gt # gts) was_refused answered = (case gql_result (send gt) of
     Inl e \<Rightarrow> if e = RunPod_Error then deploy_types send gts True answered else Inl e
   | Inr d \<Rightarrow> then_read (jobj_get ''podFindAndDeployOnDemand'' d) (\<lambda>p.
       if falsy p then deploy_types send gts was_refused True
       else then_read (jobj_get ''id'' p) (\<lambda>i.
         if falsy i then deploy_types send gts was_refused True
         else case json_num (j_or (jget ''costPerHr'' p) (JInt 0)) of None \<Rightarrow> Inl Other_Exn | Some c \<Rightarrow> Inr (Some (i, gt, c)))))"

definition GPU_TYPES :: "string list" where
  "GPU_TYPES = [''NVIDIA GeForce RTX 4090'', ''NVIDIA A40'']"

text \<open>The outcome of one try of \<open>http_retry\<close>; its end, and the seconds waited between tries.\<close>

datatype 'a http_try = Got 'a | Http_Code int | Transport_Error

datatype 'a retry_end = Done_With 'a | Failed_With int | Gave_Up

definition HTTP_TRIES :: nat where
  "HTTP_TRIES = 4"

definition HTTP_BACKOFF :: "nat list" where
  "HTTP_BACKOFF = [2, 8, 20]"

fun http_retry :: "(nat \<Rightarrow> 'a http_try) \<Rightarrow> nat \<Rightarrow> nat \<Rightarrow> 'a retry_end \<times> nat list" where
  "http_retry fn i 0 = (Gave_Up, [])"
| "http_retry fn i (Suc k) =
     (let again = (case http_retry fn (i + 1) k of (r, ws) \<Rightarrow>
        (r, (if i < HTTP_TRIES - 1 then [HTTP_BACKOFF ! min i (length HTTP_BACKOFF - 1)] else []) @ ws))
      in case fn i of Got x \<Rightarrow> (Done_With x, []) | Http_Code c \<Rightarrow> if c < 500 then (Failed_With c, []) else again | Transport_Error \<Rightarrow> again)"

text \<open>What \<open>prepare\<close> insists on before anything is rented; and what the boot of a pod must print.\<close>

definition FILES :: "string list" where
  "FILES = [''hazync-worker'', ''hazync-run-workers.sh'', ''hazync-host-x86_64-linux-gnu-cuda'']"

datatype prepare_error = No_Ssh_Key | No_Program_Id | No_Release_Tag | Bad_Signature | Files_Missing

definition release_tag :: "string \<Rightarrow> bool" where
  "release_tag tag \<longleftrightarrow> (case tag of [] \<Rightarrow> False | c # cs \<Rightarrow> c = CHR ''v'' \<and> length (py_split CHR ''.'' cs) = 3
     \<and> list_all (\<lambda>p. p \<noteq> [] \<and> all_digits p) (py_split CHR ''.'' cs))"

definition prepare_checks :: "bool \<Rightarrow> string \<Rightarrow> string \<Rightarrow> bool \<Rightarrow> string list \<Rightarrow> prepare_error + string list" where
  "prepare_checks keys_there mid tag signed manifest =
     (if \<not> keys_there then Inl No_Ssh_Key
      else if \<not> (length mid = 64 \<and> list_all lower_hex mid) then Inl No_Program_Id
      else if \<not> release_tag tag then Inl No_Release_Tag
      else if \<not> signed then Inl Bad_Signature
      else let want = filter (\<lambda>l. py_words l \<noteq> [] \<and> last (py_words l) \<in> set FILES) manifest in
        if length want \<noteq> length FILES then Inl Files_Missing else Inr want)"

text \<open>The output of each of three tries, None where ssh or scp failed.\<close>

definition boot_ok :: "string \<Rightarrow> string option list \<Rightarrow> bool" where
  "boot_ok mid tries \<longleftrightarrow> list_ex (\<lambda>out. case out of None \<Rightarrow> False
     | Some t \<Rightarrow> infix_of ''SHA_OK'' t \<and> infix_of ''GPU_OK'' t \<and> infix_of (''MID='' @ mid) t) (take 3 tries)"

text \<open>A retry ends at once on a client error and waits at most half a minute.\<close>

lemma http_retry_bounds:
  "sum_list (snd (http_retry fn 0 HTTP_TRIES)) \<le> 30 \<and> (fst (http_retry fn 0 HTTP_TRIES) = Failed_With c \<longrightarrow> c < 500)"
  by (auto simp: HTTP_TRIES_def HTTP_BACKOFF_def numeral_eq_Suc Let_def split: http_try.splits if_splits)

end
