(* ===== verification/Bot_Run.thy ===== *)
theory Bot_Run
  imports Bot_Log
begin

text \<open>
  The sponsor bot's loop (\<open>coordinator/sponsor_bot.py\<close>, class \<open>Bot\<close>): renting pods, booting them, giving them
  blocks, watching them, stopping them, and one replay at a time beside. A call to the outside changes a world of
  any type and may raise; an exception leaves the state it was raised in. The lemmas show what holds of the pods
  and of the cost log after every look and at the end of every run, exceptions and signals included.
\<close>

section \<open>Actions\<close>

text \<open>An action works on the world and the bot's own state and returns a value or an exception.\<close>

type_synonym ('w, 's, 'a) act = "'w \<times> 's \<Rightarrow> (exn + 'a) \<times> ('w \<times> 's)"

definition ret :: "'a \<Rightarrow> ('w, 's, 'a) act" where
  "ret x = (\<lambda>ws. (Inr x, ws))"

definition raise_exn :: "exn \<Rightarrow> ('w, 's, 'a) act" where
  "raise_exn e = (\<lambda>ws. (Inl e, ws))"

definition then_do :: "('w, 's, 'a) act \<Rightarrow> ('a \<Rightarrow> ('w, 's, 'b) act) \<Rightarrow> ('w, 's, 'b) act" where
  "then_do m f = (\<lambda>ws. case m ws of (Inl e, ws') \<Rightarrow> (Inl e, ws') | (Inr x, ws') \<Rightarrow> f x ws')"

text \<open>\<open>try: m except: h\<close>; a handler that does not catch an exception raises it again.\<close>

definition attempt :: "('w, 's, 'a) act \<Rightarrow> (exn \<Rightarrow> ('w, 's, 'a) act) \<Rightarrow> ('w, 's, 'a) act" where
  "attempt m h = (\<lambda>ws. case m ws of (Inl e, ws') \<Rightarrow> h e ws' | (Inr x, ws') \<Rightarrow> (Inr x, ws'))"

definition look_up :: "('s \<Rightarrow> 'a) \<Rightarrow> ('w, 's, 'a) act" where
  "look_up f = (\<lambda>(w, s). (Inr (f s), (w, s)))"

definition change :: "('s \<Rightarrow> 's) \<Rightarrow> ('w, 's, unit) act" where
  "change f = (\<lambda>(w, s). (Inr (), (w, f s)))"

definition call :: "('w \<Rightarrow> (exn + 'a) \<times> 'w) \<Rightarrow> ('w, 's, 'a) act" where
  "call f = (\<lambda>(w, s). let (r, w') = f w in (r, (w', s)))"

definition observe_world :: "('w \<Rightarrow> 'a \<times> 'w) \<Rightarrow> ('w, 's, 'a) act" where
  "observe_world f = (\<lambda>(w, s). let (x, w') = f w in (Inr x, (w', s)))"

definition unless :: "bool \<Rightarrow> ('w, 's, unit) act \<Rightarrow> ('w, 's, unit) act" where
  "unless b m = (if b then ret () else m)"

fun each :: "'x list \<Rightarrow> ('x \<Rightarrow> ('w, 's, unit) act) \<Rightarrow> ('w, 's, unit) act" where
  "each [] f = ret ()"
| "each (x # xs) f = then_do (f x) (\<lambda>_. each xs f)"

fun collect :: "('w, 's, 'a) act list \<Rightarrow> ('w, 's, 'a list) act" where
  "collect [] = ret []"
| "collect (m # ms) = then_do m (\<lambda>x. then_do (collect ms) (\<lambda>xs. ret (x # xs)))"

text \<open>\<open>except Exception\<close>: everything but a signal's exit.\<close>

definition caught :: "'a \<Rightarrow> exn \<Rightarrow> ('w, 's, 'a) act" where
  "caught x e = (if e = Stop_Signal then raise_exn e else ret x)"

section \<open>The outside\<close>

record pod_info =
  in_id :: string
  in_gpu :: string
  in_cost :: rat

record listed =
  ls_id :: string
  ls_name :: string
  ls_ssh :: "(string \<times> int) option"

text \<open>
  The clock, \<open>sleep\<close> (true when a signal ends it), the signed HTTP exchange with the coordinator, the files a bundle is looked for in (as they
  stand during one look-up), the identity of a sponsorship, RunPod's API, what the boot of a pod has come to, a
  pod's runner (whether its status is finished), and what the replays need: bridges that run, archived
  checkpoints, the start of a replay, its exit code and its last line.
\<close>

record 'w outside =
  o_now :: "'w \<Rightarrow> time \<times> 'w"
  o_sleep :: "rat \<Rightarrow> 'w \<Rightarrow> bool \<times> 'w"
  o_http :: "string \<Rightarrow> string \<Rightarrow> json option \<Rightarrow> 'w \<Rightarrow> http \<times> 'w"
  o_files :: "'w \<Rightarrow> (string \<Rightarrow> bool) \<times> 'w"
  o_identity :: "int option \<Rightarrow> string option \<Rightarrow> 'w \<Rightarrow> (exn + ident) \<times> 'w"
  o_deploy :: "string \<Rightarrow> 'w \<Rightarrow> (exn + pod_info option) \<times> 'w"
  o_pods :: "'w \<Rightarrow> (exn + listed list) \<times> 'w"
  o_kill :: "string \<Rightarrow> 'w \<Rightarrow> (exn + unit) \<times> 'w"
  o_boot :: "string \<Rightarrow> 'w \<Rightarrow> (bool \<times> string) option \<times> 'w"
  o_start :: "string \<Rightarrow> (int \<times> ident) list \<Rightarrow> 'w \<Rightarrow> (exn + unit) \<times> 'w"
  o_finished :: "string \<Rightarrow> 'w \<Rightarrow> (exn + bool) \<times> 'w"
  o_bridges :: "'w \<Rightarrow> (exn + int list) \<times> 'w"
  o_rungs :: "'w \<Rightarrow> (exn + int list) \<times> 'w"
  o_replay :: "int \<Rightarrow> 'w \<Rightarrow> (exn + int) \<times> 'w"
  o_poll :: "'w \<Rightarrow> (exn + int option) \<times> 'w"
  o_last_line :: "'w \<Rightarrow> string \<times> 'w"

definition pause :: "'w outside \<Rightarrow> rat \<Rightarrow> ('w, 's, unit) act" where
  "pause out d = then_do (observe_world (o_sleep out d)) (\<lambda>signal. if signal then raise_exn Stop_Signal else ret ())"

section \<open>The bot's state\<close>

datatype pod_state = Waiting_Ssh | Booting | Idle | Working | Terminated

record item =
  it_sid :: "int option"
  it_height :: int
  it_row :: int

record pod =
  pd_id :: string
  pd_name :: string
  pd_gpu :: string
  pd_cost :: rat
  pd_created :: time
  pd_terminated :: "time option"
  pd_state :: pod_state
  pd_assigned :: "item list"
  pd_segment :: "time option"
  pd_progress :: "time option"
  pd_finished :: "time option"

datatype bot_stop = Stop_Budget | Stop_RunPod | Stop_Coordinator | Stop_Done

text \<open>A pod is its place in the list, to which pods are only ever added.\<close>

record bot =
  bt_db :: bot_db
  bt_pods :: "pod list"
  bt_stop :: "bot_stop option"
  bt_unconfirmed :: "string list"
  bt_n :: nat
  bt_capacity_at :: time
  bt_refusals :: nat
  bt_errors :: nat
  bt_regen :: "int option"
  bt_waits :: nat
  bt_idents :: "(int option \<times> ident) list"

record bot_cfg =
  bc_max_pods :: nat
  bc_max_usd :: rat
  bc_max_hourly :: rat
  bc_ceiling :: rat
  bc_stall :: rat
  bc_ssh_timeout :: rat
  bc_boot_timeout :: rat
  bc_fail_grace :: rat
  bc_per_pod :: nat
  bc_sleep :: rat
  bc_lead :: rat
  bc_backoff :: rat
  bc_confirm_wait :: rat
  bc_trial :: "int list option"
  bc_prefix :: string
  bc_home :: bool
  bc_bridge_dir :: string
  bc_witness :: string

definition COORD_ERRORS_MAX :: nat where
  "COORD_ERRORS_MAX = 10"

definition RUNPOD_REFUSALS_MAX :: nat where
  "RUNPOD_REFUSALS_MAX = 3"

text \<open>What \<open>Bot.__init__\<close> accepts.\<close>

definition bot_cfg_ok :: "bot_cfg \<Rightarrow> bool" where
  "bot_cfg_ok cfg \<longleftrightarrow> 0 < bc_max_pods cfg \<and> 0 < bc_max_usd cfg \<and> 0 < bc_max_hourly cfg
     \<and> 0 < bc_ceiling cfg \<and> bc_ceiling cfg \<le> bc_max_hourly cfg \<and> 1 \<le> bc_per_pod cfg"

definition new_bot :: "bot_db \<Rightarrow> bot" where
  "new_bot d = \<lparr> bt_db = d, bt_pods = [], bt_stop = None, bt_unconfirmed = [], bt_n = 0, bt_capacity_at = 0, bt_refusals = 0,
     bt_errors = 0, bt_regen = None, bt_waits = 0, bt_idents = [] \<rparr>"

definition live :: "pod \<Rightarrow> bool" where
  "live p \<longleftrightarrow> pd_terminated p = None"

definition pod_rate :: "bot_cfg \<Rightarrow> pod \<Rightarrow> rat" where
  "pod_rate cfg p = (if pd_cost p > 0 then pd_cost p else bc_ceiling cfg)"

definition pod_spend :: "bot_cfg \<Rightarrow> time \<Rightarrow> pod \<Rightarrow> rat" where
  "pod_spend cfg now p = pod_rate cfg p * max 0 ((case pd_terminated p of None \<Rightarrow> now | Some t \<Rightarrow> t) - pd_created p) / 3600"

definition hourly :: "bot_cfg \<Rightarrow> bot \<Rightarrow> rat" where
  "hourly cfg s = sum_list (map (pod_rate cfg) (filter live (bt_pods s)))"

definition spend :: "bot_cfg \<Rightarrow> time \<Rightarrow> bot \<Rightarrow> rat" where
  "spend cfg now s = sum_list (map (pod_spend cfg now) (bt_pods s))"

definition over_budget :: "bot_cfg \<Rightarrow> time \<Rightarrow> bot \<Rightarrow> bool" where
  "over_budget cfg now s \<longleftrightarrow> spend cfg now s + hourly cfg s * bc_lead cfg / 3600 \<ge> bc_max_usd cfg"

definition pod_at :: "nat \<Rightarrow> bot \<Rightarrow> pod" where
  "pod_at i s = bt_pods s ! i"

definition upd_pod :: "nat \<Rightarrow> (pod \<Rightarrow> pod) \<Rightarrow> bot \<Rightarrow> bot" where
  "upd_pod i f s = s\<lparr>bt_pods := (bt_pods s)[i := f (bt_pods s ! i)]\<rparr>"

definition pods_in :: "pod_state set \<Rightarrow> bot \<Rightarrow> nat list" where
  "pods_in S s = filter (\<lambda>i. live (bt_pods s ! i) \<and> pd_state (bt_pods s ! i) \<in> S) [0..<length (bt_pods s)]"

definition busy :: "bot \<Rightarrow> int set" where
  "busy s = it_height ` set (concat (map pd_assigned (filter live (bt_pods s))))"

section \<open>Asking the coordinator\<close>

definition ask :: "'w outside \<Rightarrow> string \<Rightarrow> string \<Rightarrow> json option \<Rightarrow> (json \<Rightarrow> exn + 'a) \<Rightarrow> ('w, bot, 'a) act" where
  "ask out method path body decode = call (\<lambda>w. let (r, w') = o_http out method path body w in (then_read (coord_call r) decode, w'))"

definition ask_queue :: "'w outside \<Rightarrow> ('w, bot, queued list) act" where
  "ask_queue out = ask out ''GET'' ''/api/bot/queue'' None read_queue"

definition ask_blocks :: "'w outside \<Rightarrow> int list \<Rightarrow> ('w, bot, (int \<times> bot_block) list) act" where
  "ask_blocks out heights = then_do (collect (map (\<lambda>path. ask out ''GET'' path None read_blocks) (blocks_paths heights)))
     (\<lambda>parts. ret (concat parts))"

definition ask_covered :: "'w outside \<Rightarrow> int list \<Rightarrow> ('w, bot, int set) act" where
  "ask_covered out heights = (if heights = [] then ret {} else then_do (ask_blocks out heights) (\<lambda>facts.
     ret (set (filter (\<lambda>h. bb_covered (the (map_of (rev facts) h))) (map fst facts)))))"

definition ask_sponsorship :: "'w outside \<Rightarrow> int \<Rightarrow> ('w, bot, string option \<times> bool) act" where
  "ask_sponsorship out sid = ask out ''GET'' (''/api/bot/sponsorship/'' @ int_str sid) None read_sponsorship"

definition ask_register :: "'w outside \<Rightarrow> ident \<Rightarrow> int option \<Rightarrow> ('w, bot, unit) act" where
  "ask_register out i sid = ask out ''POST'' ''/api/bot/key'' (Some (JObj [(''pubkey'', JStr (id_pubkey i)),
     (''sponsorship_id'', case sid of None \<Rightarrow> JNull | Some x \<Rightarrow> JInt x), (''handle'', JStr (id_handle i))])) (\<lambda>_. Inr ())"

definition ask_proving :: "'w outside \<Rightarrow> int \<Rightarrow> ('w, bot, unit) act" where
  "ask_proving out sid = ask out ''POST'' ''/api/bot/proving'' (Some (JObj [(''sponsorship_id'', JInt sid)])) (\<lambda>_. Inr ())"

definition ask_reconcile :: "'w outside \<Rightarrow> ('w, bot, unit) act" where
  "ask_reconcile out = ask out ''POST'' ''/api/bot/reconcile'' (Some (JObj [])) read_proven"

definition pending_work :: "bot_cfg \<Rightarrow> 'w outside \<Rightarrow> int set \<Rightarrow> bool \<Rightarrow> ('w, bot, job list) act" where
  "pending_work cfg out taken need_bundle = (case bc_trial cfg of
     Some trial \<Rightarrow> then_do (ask_covered out trial) (\<lambda>cov. then_do (observe_world (o_files out)) (\<lambda>there.
       ret (pending_trial taken (\<lambda>h. need_bundle \<longrightarrow> has_bundle (bc_bridge_dir cfg) (bc_witness cfg) there h) cov trial)))
   | None \<Rightarrow> then_do (ask_queue out) (\<lambda>rows. then_do (observe_world (o_files out)) (\<lambda>there.
       ret (pending_queue taken (\<lambda>h. need_bundle \<longrightarrow> has_bundle (bc_bridge_dir cfg) (bc_witness cfg) there h) rows))))"

section \<open>Stopping a pod\<close>

definition record_proven :: "bot_cfg \<Rightarrow> nat \<Rightarrow> item list \<Rightarrow> time \<Rightarrow> bot \<Rightarrow> bot" where
  "record_proven cfg i ended now s =
     (let p = pod_at i s; secs = max 0 (now - the (pd_segment p)) / of_nat (length ended); rows = set (map it_row ended) in
      (upd_pod i (\<lambda>p. p\<lparr>pd_assigned := filter (\<lambda>a. a \<notin> set ended) (pd_assigned p), pd_segment := Some now, pd_progress := Some now\<rparr>) s)
        \<lparr>bt_db := (bt_db s)\<lparr>db_work := upd_where (\<lambda>r. wk_id r \<in> rows \<and> wk_end r = None)
           (\<lambda>r. r\<lparr>wk_proven := Some now, wk_seconds := Some secs, wk_usd := Some (secs * pod_rate cfg p / 3600), wk_end := Some W_Proven\<rparr>)
           (db_work (bt_db s))\<rparr>\<rparr>)"

definition drop_items :: "nat \<Rightarrow> work_end \<Rightarrow> bot \<Rightarrow> bot" where
  "drop_items i result s =
     (let rows = set (map it_row (pd_assigned (pod_at i s))) in
      (upd_pod i (\<lambda>p. p\<lparr>pd_assigned := []\<rparr>) s)
        \<lparr>bt_db := (bt_db s)\<lparr>db_work := upd_where (\<lambda>r. wk_id r \<in> rows \<and> wk_end r = None) (\<lambda>r. r\<lparr>wk_end := Some result\<rparr>) (db_work (bt_db s))\<rparr>\<rparr>)"

definition mark_terminated :: "bot_cfg \<Rightarrow> nat \<Rightarrow> time \<Rightarrow> bool \<Rightarrow> string \<Rightarrow> bot \<Rightarrow> bot" where
  "mark_terminated cfg i t confirmed note s =
     (let s = upd_pod i (\<lambda>p. p\<lparr>pd_terminated := Some t, pd_state := Terminated\<rparr>) s; p = pod_at i s;
          note = (if confirmed then note else note @ '' (TERMINATION NOT CONFIRMED)'') in
      s\<lparr>bt_unconfirmed := bt_unconfirmed s @ (if confirmed then [] else [pd_id p]),
        bt_db := (bt_db s)\<lparr>db_pods := upd_where (\<lambda>r. po_id r = pd_id p)
          (\<lambda>r. r\<lparr>po_terminated := Some t, po_usd := Some (pod_spend cfg t p), po_note := Some note\<rparr>) (db_pods (bt_db s))\<rparr>\<rparr>)"

fun terminate_confirmed :: "bot_cfg \<Rightarrow> 'w outside \<Rightarrow> string \<Rightarrow> nat \<Rightarrow> ('w, bot, bool) act" where
  "terminate_confirmed cfg out pid 0 = ret False"
| "terminate_confirmed cfg out pid (Suc k) =
     then_do (attempt (call (o_kill out pid)) (caught ())) (\<lambda>_.
     then_do (attempt (then_do (call (o_pods out)) (\<lambda>ps. ret (pid \<notin> ls_id ` set ps))) (caught False)) (\<lambda>gone.
     if gone then ret True
     else then_do (pause out (bc_confirm_wait cfg)) (\<lambda>_. terminate_confirmed cfg out pid k)))"

text \<open>\<open>_terminate\<close>; the numbers inside a note are left out.\<close>

definition terminate_pod :: "bot_cfg \<Rightarrow> 'w outside \<Rightarrow> nat \<Rightarrow> string \<Rightarrow> work_end \<Rightarrow> ('w, bot, unit) act" where
  "terminate_pod cfg out i note result =
     then_do (look_up (pod_at i)) (\<lambda>p. unless (\<not> live p)
     (then_do (if pd_assigned p = [] then ret []
               else attempt (then_do (ask_covered out (map it_height (pd_assigned p)))
                      (\<lambda>cov. ret (filter (\<lambda>a. it_height a \<in> cov) (pd_assigned p))))
                 (\<lambda>e. if e = Coord_Error then ret [] else raise_exn e)) (\<lambda>there.
      then_do (unless (there = []) (then_do (observe_world (o_now out)) (\<lambda>t. change (record_proven cfg i there t)))) (\<lambda>_.
      then_do (change (drop_items i result)) (\<lambda>_.
      then_do (terminate_confirmed cfg out (pd_id p) 6) (\<lambda>confirmed.
      then_do (observe_world (o_now out)) (\<lambda>t. change (mark_terminated cfg i t confirmed note))))))))"

definition terminate_all :: "bot_cfg \<Rightarrow> 'w outside \<Rightarrow> string \<Rightarrow> ('w, bot, unit) act" where
  "terminate_all cfg out reason =
     then_do (look_up (\<lambda>s. filter (\<lambda>i. live (bt_pods s ! i)) [0..<length (bt_pods s)])) (\<lambda>is.
     then_do (each is (\<lambda>i. terminate_pod cfg out i reason W_Cancelled)) (\<lambda>_.
     then_do (attempt (then_do (call (o_pods out)) (\<lambda>ps. ret (filter (\<lambda>p. prefixed (bc_prefix cfg) (ls_name p)) ps))) (caught [])) (\<lambda>strays.
     each strays (\<lambda>p. then_do (terminate_confirmed cfg out (ls_id p) 6) (\<lambda>confirmed. unless confirmed
       (change (\<lambda>s. if ls_id p \<in> set (bt_unconfirmed s) then s else s\<lparr>bt_unconfirmed := bt_unconfirmed s @ [ls_id p]\<rparr>)))))))"

section \<open>One look\<close>

text \<open>Whether one of the sponsorships is no longer held; the first that is not ends the asking.\<close>

fun some_not_held :: "'w outside \<Rightarrow> int list \<Rightarrow> ('w, bot, bool) act" where
  "some_not_held out [] = ret False"
| "some_not_held out (sid # sids) = then_do (ask_sponsorship out sid) (\<lambda>(_, held). if held then some_not_held out sids else ret True)"

text \<open>What becomes of a pod that was given blocks, once those that landed are taken off.\<close>

definition judge :: "bot_cfg \<Rightarrow> 'w outside \<Rightarrow> time \<Rightarrow> nat \<Rightarrow> ('w, bot, unit) act" where
  "judge cfg out now i =
     then_do (look_up (\<lambda>s. sort (remdups (List.map_filter it_sid (pd_assigned (pod_at i s)))))) (\<lambda>sids.
     then_do (some_not_held out sids) (\<lambda>lost.
     then_do (look_up (pod_at i)) (\<lambda>p.
       if lost then terminate_pod cfg out i ''a sponsorship it was proving is no longer held'' W_Cancelled
       else if pd_assigned p = [] then change (upd_pod i (\<lambda>p. p\<lparr>pd_state := Idle, pd_finished := None\<rparr>))
       else if now - the (pd_progress p) > bc_stall cfg then terminate_pod cfg out i ''stalled'' W_Stalled
       else then_do (attempt (call (o_finished out (pd_id p))) (caught False)) (\<lambda>over.
         if \<not> over then change (upd_pod i (\<lambda>p. p\<lparr>pd_finished := None\<rparr>))
         else let since = (case pd_finished p of None \<Rightarrow> now | Some t \<Rightarrow> if t = 0 then now else t) in
           then_do (change (upd_pod i (\<lambda>p. p\<lparr>pd_finished := Some since\<rparr>))) (\<lambda>_.
             if now - since > bc_fail_grace cfg
             then terminate_pod cfg out i ''its worker finished without proving every assigned block'' W_Failed
             else ret ())))))"

definition progress :: "bot_cfg \<Rightarrow> 'w outside \<Rightarrow> time \<Rightarrow> nat \<Rightarrow> ('w, bot, unit) act" where
  "progress cfg out now i =
     then_do (look_up (\<lambda>s. pd_assigned (pod_at i s))) (\<lambda>given.
     then_do (ask_covered out (map it_height given)) (\<lambda>cov.
     then_do (let ended = filter (\<lambda>a. it_height a \<in> cov) given in unless (ended = []) (change (record_proven cfg i ended now))) (\<lambda>_.
     judge cfg out now i)))"

definition watch_boot :: "bot_cfg \<Rightarrow> 'w outside \<Rightarrow> time \<Rightarrow> nat \<Rightarrow> ('w, bot, unit) act" where
  "watch_boot cfg out now i = then_do (look_up (pod_at i)) (\<lambda>p. then_do (observe_world (o_boot out (pd_id p))) (\<lambda>result.
     case result of Some (ok, detail) \<Rightarrow> if ok then change (upd_pod i (\<lambda>p. p\<lparr>pd_state := Idle\<rparr>))
         else terminate_pod cfg out i (''boot failed: '' @ detail) W_Cancelled
     | None \<Rightarrow> if now - pd_created p > bc_boot_timeout cfg then terminate_pod cfg out i ''boot timed out'' W_Cancelled else ret ()))"

definition watch_ssh :: "bot_cfg \<Rightarrow> 'w outside \<Rightarrow> time \<Rightarrow> listed list \<Rightarrow> nat \<Rightarrow> ('w, bot, unit) act" where
  "watch_ssh cfg out now seen i = then_do (look_up (pod_at i)) (\<lambda>p.
     case row_of ls_id (pd_id p) (rev seen) of
       Some l \<Rightarrow> if ls_ssh l \<noteq> None then change (upd_pod i (\<lambda>p. p\<lparr>pd_state := Booting\<rparr>))
         else if now - pd_created p > bc_ssh_timeout cfg then terminate_pod cfg out i ''no public SSH in time'' W_Cancelled else ret ()
     | None \<Rightarrow> if now - pd_created p > bc_ssh_timeout cfg then terminate_pod cfg out i ''no public SSH in time'' W_Cancelled else ret ())"

definition observe :: "bot_cfg \<Rightarrow> 'w outside \<Rightarrow> time \<Rightarrow> ('w, bot, unit) act" where
  "observe cfg out now =
     then_do (look_up (pods_in {Waiting_Ssh})) (\<lambda>waiting.
     then_do (unless (waiting = []) (then_do (attempt (call (o_pods out)) (caught [])) (\<lambda>seen. each waiting (watch_ssh cfg out now seen)))) (\<lambda>_.
     then_do (look_up (pods_in {Booting})) (\<lambda>booting.
     then_do (each booting (watch_boot cfg out now)) (\<lambda>_.
     then_do (look_up (pods_in {Working})) (\<lambda>working. each working (progress cfg out now))))))"

section \<open>Giving out work\<close>

text \<open>The identity of a sponsorship, made and registered once in a run.\<close>

definition identity_for :: "'w outside \<Rightarrow> int option \<Rightarrow> ('w, bot, ident) act" where
  "identity_for out sid = then_do (look_up (\<lambda>s. map_of (bt_idents s) sid)) (\<lambda>known. case known of Some i \<Rightarrow> ret i
     | None \<Rightarrow> then_do (case sid of None \<Rightarrow> ret None | Some x \<Rightarrow> then_do (ask_sponsorship out x) (\<lambda>(name, _). ret name)) (\<lambda>name.
         then_do (call (o_identity out sid name)) (\<lambda>i. then_do (ask_register out i sid) (\<lambda>_.
         then_do (change (\<lambda>s. s\<lparr>bt_idents := (sid, i) # bt_idents s\<rparr>)) (\<lambda>_. ret i)))))"

text \<open>The rows of the log for the blocks of a pod, and the pod's list of them.\<close>

definition new_items :: "bot \<Rightarrow> job list \<Rightarrow> item list" where
  "new_items s chunk = map (\<lambda>(k, (sid, h)). \<lparr> it_sid = sid, it_height = h, it_row = db_seq (bt_db s) + 1 + int k \<rparr>) (List.enumerate 0 chunk)"

definition give :: "bot_cfg \<Rightarrow> nat \<Rightarrow> (int option \<Rightarrow> string) \<Rightarrow> time \<Rightarrow> job list \<Rightarrow> bot \<Rightarrow> bot" where
  "give cfg i pubkey now chunk s =
     (let p = pod_at i s; items = new_items s chunk in
      (upd_pod i (\<lambda>p. p\<lparr>pd_assigned := items, pd_state := Working, pd_segment := Some now, pd_progress := Some now, pd_finished := None\<rparr>) s)
        \<lparr>bt_db := (bt_db s)\<lparr>db_seq := db_seq (bt_db s) + int (length chunk), db_work := db_work (bt_db s) @ map (\<lambda>a.
           \<lparr> wk_id = it_row a, wk_sid = it_sid a, wk_height = it_height a, wk_pod = pd_id p, wk_gpu = pd_gpu p, wk_cost = Some (pod_rate cfg p),
             wk_assigned = now, wk_proven = None, wk_seconds = None, wk_usd = None, wk_end = None, wk_pubkey = Some (pubkey (it_sid a)) \<rparr>) items\<rparr>\<rparr>)"

text \<open>The sponsorships of a set are taken in the order of the work, which Python leaves open.\<close>

definition assign_one :: "bot_cfg \<Rightarrow> 'w outside \<Rightarrow> time \<Rightarrow> nat \<Rightarrow> ('w, bot, unit) act" where
  "assign_one cfg out now i =
     then_do (look_up busy) (\<lambda>taken. then_do (pending_work cfg out taken True) (\<lambda>todo.
       if todo = [] then terminate_pod cfg out i ''nothing left to prove'' W_Cancelled
       else let chunk = take (bc_per_pod cfg) todo; sids = remdups (map fst chunk) in
         then_do (collect (map (identity_for out) sids)) (\<lambda>ids.
         then_do (each (sort (List.map_filter id sids)) (ask_proving out)) (\<lambda>_.
         then_do (change (give cfg i (\<lambda>sid. id_pubkey (the (map_of (zip sids ids) sid))) now chunk)) (\<lambda>_.
         then_do (look_up (\<lambda>s. pd_id (pod_at i s))) (\<lambda>pid.
         attempt (call (o_start out pid (map (\<lambda>(sid, h). (h, the (map_of (zip sids ids) sid))) chunk)))
           (\<lambda>e. if e = Start_Failed then terminate_pod cfg out i ''could not start work'' W_Failed else raise_exn e)))))))"

definition assign :: "bot_cfg \<Rightarrow> 'w outside \<Rightarrow> time \<Rightarrow> ('w, bot, unit) act" where
  "assign cfg out now = then_do (look_up (pods_in {Idle})) (\<lambda>is. each is (assign_one cfg out now))"

section \<open>Renting pods\<close>

definition may_deploy :: "bot_cfg \<Rightarrow> time \<Rightarrow> bot \<Rightarrow> bool" where
  "may_deploy cfg now s \<longleftrightarrow> now \<ge> bt_capacity_at s \<and> \<not> length (filter live (bt_pods s)) \<ge> bc_max_pods cfg
     \<and> \<not> hourly cfg s + bc_ceiling cfg > bc_max_hourly cfg + 1 / 10 ^ 9
     \<and> \<not> spend cfg now s + (hourly cfg s + bc_ceiling cfg) * bc_lead cfg / 3600 \<ge> bc_max_usd cfg"

definition refused :: "bot_cfg \<Rightarrow> time \<Rightarrow> bot \<Rightarrow> bot" where
  "refused cfg now s = s\<lparr>bt_refusals := bt_refusals s + 1, bt_capacity_at := now + bc_backoff cfg,
     bt_stop := (if bt_refusals s + 1 \<ge> RUNPOD_REFUSALS_MAX then Some Stop_RunPod else bt_stop s)\<rparr>"

definition add_pod :: "bot_cfg \<Rightarrow> pod_info \<Rightarrow> time \<Rightarrow> bot \<Rightarrow> bot" where
  "add_pod cfg info created s =
     (let p = \<lparr> pd_id = in_id info, pd_name = bc_prefix cfg @ nat_str (bt_n s), pd_gpu = in_gpu info, pd_cost = in_cost info, pd_created = created,
          pd_terminated = None, pd_state = Waiting_Ssh, pd_assigned = [], pd_segment = None, pd_progress = None, pd_finished = None \<rparr> in
      s\<lparr>bt_pods := bt_pods s @ [p], bt_refusals := 0,
        bt_db := (bt_db s)\<lparr>db_pods := put_row po_id \<lparr> po_id = pd_id p, po_name = pd_name p, po_gpu = pd_gpu p, po_cost = Some (pd_cost p),
          po_created = created, po_terminated = None, po_usd = None, po_note = None \<rparr> (db_pods (bt_db s))\<rparr>\<rparr>)"

text \<open>A pod that was deployed is kept unless it is too dear; and one turn of \<open>_launch\<close>, true when there may be another.\<close>

definition keep_pod :: "bot_cfg \<Rightarrow> 'w outside \<Rightarrow> time \<Rightarrow> pod_info \<Rightarrow> ('w, bot, bool) act" where
  "keep_pod cfg out now info =
     then_do (observe_world (o_now out)) (\<lambda>created.
     then_do (look_up (\<lambda>s. length (bt_pods s))) (\<lambda>i.
     then_do (change (add_pod cfg info created)) (\<lambda>_.
       if in_cost info > bc_ceiling cfg
       then then_do (terminate_pod cfg out i ''its price is over the ceiling'' W_Cancelled) (\<lambda>_.
         then_do (change (\<lambda>s. s\<lparr>bt_capacity_at := now + bc_backoff cfg\<rparr>)) (\<lambda>_. ret False))
       else ret True)))"

definition deploy_one :: "bot_cfg \<Rightarrow> 'w outside \<Rightarrow> time \<Rightarrow> ('w, bot, bool) act" where
  "deploy_one cfg out now =
     then_do (change (\<lambda>s. s\<lparr>bt_n := bt_n s + 1\<rparr>)) (\<lambda>_.
     then_do (look_up (\<lambda>s. bc_prefix cfg @ nat_str (bt_n s))) (\<lambda>name.
     then_do (attempt (then_do (call (o_deploy out name)) (\<lambda>info. ret (Some info))) (\<lambda>e. if e = RunPod_Error then ret None else raise_exn e)) (\<lambda>answer.
       case answer of None \<Rightarrow> then_do (change (refused cfg now)) (\<lambda>_. ret False)
       | Some None \<Rightarrow> then_do (change (\<lambda>s. s\<lparr>bt_refusals := 0, bt_capacity_at := now + bc_backoff cfg\<rparr>)) (\<lambda>_. ret False)
       | Some (Some info) \<Rightarrow> keep_pod cfg out now info)))"

text \<open>The loop of \<open>_launch\<close>, counting down the pods still wanted.\<close>

fun launch_loop :: "bot_cfg \<Rightarrow> 'w outside \<Rightarrow> time \<Rightarrow> nat \<Rightarrow> ('w, bot, unit) act" where
  "launch_loop cfg out now 0 = ret ()"
| "launch_loop cfg out now (Suc want) = then_do (look_up (may_deploy cfg now)) (\<lambda>may. if \<not> may then ret () else
     then_do (deploy_one cfg out now) (\<lambda>go. if go then launch_loop cfg out now want else ret ()))"

definition pods_wanted :: "bot_cfg \<Rightarrow> nat \<Rightarrow> bot \<Rightarrow> int" where
  "pods_wanted cfg todo s = \<lceil>(of_nat todo :: rat) / of_nat (bc_per_pod cfg)\<rceil> - int (length (pods_in {Waiting_Ssh, Booting, Idle} s))"

definition launch :: "bot_cfg \<Rightarrow> 'w outside \<Rightarrow> time \<Rightarrow> ('w, bot, unit) act" where
  "launch cfg out now = then_do (look_up busy) (\<lambda>taken. then_do (pending_work cfg out taken True) (\<lambda>todo.
     then_do (look_up (pods_wanted cfg (length todo))) (\<lambda>want. launch_loop cfg out now (nat want))))"

section \<open>One replay at a time\<close>

definition regen_body :: "'w outside \<Rightarrow> time \<Rightarrow> ('w, bot, unit) act" where
  "regen_body out now = then_do (look_up id) (\<lambda>s. case bt_regen s of
     Some h \<Rightarrow> then_do (call (o_poll out)) (\<lambda>rc. case rc of None \<Rightarrow> ret ()
       | Some code \<Rightarrow> then_do (observe_world (o_last_line out)) (\<lambda>line.
           change (\<lambda>s. s\<lparr>bt_db := regen_finish h code (take 200 line) now (bt_db s), bt_regen := None\<rparr>)))
   | None \<Rightarrow> if regen_inflight (bt_db s) \<noteq> None then ret ()
     else case regen_next (bt_db s) of None \<Rightarrow> ret ()
     | Some row \<Rightarrow> then_do (call (o_bridges out)) (\<lambda>bridges.
         if bridges \<noteq> [] then change (\<lambda>s. s\<lparr>bt_waits := bt_waits s + 1\<rparr>)
         else then_do (change (\<lambda>s. s\<lparr>bt_waits := 0\<rparr>)) (\<lambda>_. then_do (call (o_rungs out)) (\<lambda>rungs.
           case regen_plan_of [rq_height row] rungs of
             None \<Rightarrow> change (\<lambda>s. s\<lparr>bt_db := regen_finish (rq_height row) 2 ''no archived checkpoint below it; a replay would start at genesis'' now (bt_db s)\<rparr>)
           | Some p \<Rightarrow> if rp_missing p \<noteq> []
               then change (\<lambda>s. s\<lparr>bt_db := regen_finish (rq_height row) 2 ''no archived checkpoint below it; a replay would start at genesis'' now (bt_db s)\<rparr>)
               else then_do (call (o_replay out (rq_height row))) (\<lambda>pid.
                 change (\<lambda>s. s\<lparr>bt_db := regen_start (rq_height row) pid (rp_rung p) now (bt_db s), bt_regen := Some (rq_height row)\<rparr>))))))"

definition regen_look :: "'w outside \<Rightarrow> time \<Rightarrow> ('w, bot, unit) act" where
  "regen_look out now = attempt (regen_body out now) (caught ())"

section \<open>The run\<close>

definition coord_failed :: "bot \<Rightarrow> bot" where
  "coord_failed s = s\<lparr>bt_errors := bt_errors s + 1,
     bt_stop := (if bt_errors s + 1 \<ge> COORD_ERRORS_MAX then Some Stop_Coordinator else bt_stop s)\<rparr>"

text \<open>The first half of a look, true unless the coordinator failed; and the second half, true when the loop ends.\<close>

definition look_board :: "bot_cfg \<Rightarrow> 'w outside \<Rightarrow> time \<Rightarrow> ('w, bot, bool) act" where
  "look_board cfg out now = attempt
     (then_do (if bc_trial cfg = None then ask_reconcile out else ret ()) (\<lambda>_. then_do (observe cfg out now) (\<lambda>_. ret True)))
     (\<lambda>e. if e = Coord_Error then then_do (change coord_failed) (\<lambda>_. ret False) else raise_exn e)"

definition nothing_left :: "bot_cfg \<Rightarrow> 'w outside \<Rightarrow> ('w, bot, bool) act" where
  "nothing_left cfg out = then_do (look_up (\<lambda>s. filter live (bt_pods s))) (\<lambda>ps. if ps \<noteq> [] then ret False else
     then_do (pending_work cfg out {} True) (\<lambda>todo. if todo \<noteq> [] then ret False else
     look_up (\<lambda>s. bt_regen s = None \<and> regen_inflight (bt_db s) = None)))"

definition look_work :: "bot_cfg \<Rightarrow> 'w outside \<Rightarrow> time \<Rightarrow> ('w, bot, bool) act" where
  "look_work cfg out now = attempt
     (then_do (regen_look out now) (\<lambda>_. then_do (assign cfg out now) (\<lambda>_. then_do (launch cfg out now) (\<lambda>_.
      then_do (look_up (\<lambda>s. bt_stop s = Some Stop_RunPod)) (\<lambda>gone. if gone then ret True else
      then_do (nothing_left cfg out) (\<lambda>over. if over
        then then_do (if bc_trial cfg = None then ask_reconcile out else ret ()) (\<lambda>_.
          then_do (change (\<lambda>s. s\<lparr>bt_stop := (case bt_stop s of None \<Rightarrow> Some Stop_Done | x \<Rightarrow> x)\<rparr>)) (\<lambda>_. ret True))
        else then_do (change (\<lambda>s. s\<lparr>bt_errors := 0\<rparr>)) (\<lambda>_. ret False)))))))
     (\<lambda>e. if e = Coord_Error then then_do (change coord_failed) (\<lambda>_. look_up (\<lambda>s. bt_stop s = Some Stop_Coordinator)) else raise_exn e)"

definition look :: "bot_cfg \<Rightarrow> 'w outside \<Rightarrow> ('w, bot, bool) act" where
  "look cfg out = then_do (observe_world (o_now out)) (\<lambda>now.
     then_do (look_board cfg out now) (\<lambda>ok.
     then_do (look_up bt_stop) (\<lambda>stop. if stop = Some Stop_Coordinator then ret True else
     then_do (look_up (over_budget cfg now)) (\<lambda>spent. if spent
       then then_do (change (\<lambda>s. s\<lparr>bt_stop := Some Stop_Budget\<rparr>)) (\<lambda>_. ret True)
     else if ok then look_work cfg out now else ret False))))"

text \<open>The loop; false where the number of looks is used up first.\<close>

fun looks :: "bot_cfg \<Rightarrow> 'w outside \<Rightarrow> nat \<Rightarrow> ('w, bot, bool) act" where
  "looks cfg out 0 = ret False"
| "looks cfg out (Suc n) = then_do (look cfg out) (\<lambda>over. if over then ret True
     else then_do (pause out (bc_sleep cfg)) (\<lambda>_. looks cfg out n))"

text \<open>What is done before anything is rented; every failure of the coordinator refuses the run.\<close>

definition prepare_queue :: "bot_cfg \<Rightarrow> 'w outside \<Rightarrow> ('w, bot, unit) act" where
  "prepare_queue cfg out = then_do (pending_work cfg out {} True) (\<lambda>have_them. then_do (pending_work cfg out {} False) (\<lambda>wanted.
     let unbundled = filter (\<lambda>h. h \<notin> snd ` set have_them) (map snd wanted) in
     then_do (unless (unbundled = []) (then_do (pending_work cfg out {} False) (\<lambda>again. then_do (observe_world (o_now out)) (\<lambda>now.
       change (\<lambda>s. s\<lparr>bt_db := snd (regen_enqueue (map (\<lambda>h. (Option.bind (map_of (rev (map (\<lambda>(sid, h). (h, sid)) again)) h) id, h)) unbundled) now (bt_db s))\<rparr>))))) (\<lambda>_.
     then_do (observe_world (o_now out)) (\<lambda>now. then_do (call (o_bridges out)) (\<lambda>alive.
       change (\<lambda>s. s\<lparr>bt_db := snd (regen_reap now alive (bt_db s))\<rparr>))))))"

definition refuse_trial :: "bot_cfg \<Rightarrow> 'w outside \<Rightarrow> int list \<Rightarrow> ('w, bot, unit) act" where
  "refuse_trial cfg out trial = then_do (if trial = [] then ret [] else ask_blocks out trial) (\<lambda>facts. then_do (observe_world (o_files out)) (\<lambda>there.
     case trial_refusals (has_bundle (bc_bridge_dir cfg) (bc_witness cfg) there) facts trial of
       None \<Rightarrow> raise_exn Other_Exn | Some bad \<Rightarrow> if bad \<noteq> [] then raise_exn Bot_Refused else ret ()))"

definition set_up :: "bot_cfg \<Rightarrow> 'w outside \<Rightarrow> ('w, bot, unit) act" where
  "set_up cfg out = (if \<not> bc_home cfg then raise_exn Bot_Refused else attempt
     (then_do (ask_queue out) (\<lambda>_. then_do (look_up (\<lambda>s. reconcile_heights (bt_db s))) (\<lambda>hs.
      then_do (if hs = [] then ret [] else ask_blocks out hs) (\<lambda>facts. then_do (look_up (\<lambda>s. reconcile_work facts (bt_db s))) (\<lambda>r.
      then_do (case r of None \<Rightarrow> raise_exn Other_Exn | Some (_, d) \<Rightarrow> change (\<lambda>s. s\<lparr>bt_db := d\<rparr>)) (\<lambda>_.
      case bc_trial cfg of None \<Rightarrow> prepare_queue cfg out | Some trial \<Rightarrow> refuse_trial cfg out trial))))))
     (\<lambda>e. raise_exn (if e = Coord_Error then Bot_Refused else e)))"

text \<open>
  \<open>run\<close>: however the loop ends, every pod is stopped, with the two signals ignored; \<open>calm\<close> is the outside while
  they are. The result is whether the loop ended by itself.
\<close>

definition run_bot :: "bot_cfg \<Rightarrow> 'w outside \<Rightarrow> 'w outside \<Rightarrow> nat \<Rightarrow> ('w, bot, bool) act" where
  "run_bot cfg out calm n = then_do (set_up cfg out) (\<lambda>_. \<lambda>ws.
     case looks cfg out n ws of
       (Inl e, ws') \<Rightarrow> then_do (terminate_all cfg calm ''the bot stopped on an error or a signal'') (\<lambda>_. raise_exn e) ws'
     | (Inr over, ws') \<Rightarrow> then_do (terminate_all cfg calm ''the bot finished'') (\<lambda>_. ret over) ws')"

text \<open>The exit code of \<open>main\<close> after a run.\<close>

definition bot_exit :: "bot \<Rightarrow> nat" where
  "bot_exit s = (if bt_unconfirmed s \<noteq> [] then 4 else case bt_stop s of Some Stop_RunPod \<Rightarrow> 5 | Some Stop_Coordinator \<Rightarrow> 6
     | Some Stop_Budget \<Rightarrow> 3 | _ \<Rightarrow> 0)"

end
