(* ===== verification/Bot_Safety.thy ===== *)
theory Bot_Safety
  imports Bot_Run
begin

text \<open>
  What holds of the sponsor bot's pods, log and replays (theory \<open>Bot_Run\<close>), by weakest preconditions over its
  actions: whatever the world answers, and whichever call raises, no block is on two pods, the open rows of the
  log are the blocks now on pods, at most one replay is in flight, and every run ends with every pod marked
  terminated and booked; what was done to stop it is the subject of \<open>Bot_Stop\<close>.
\<close>

section \<open>Weakest preconditions\<close>

definition wp :: "('w, 's, 'a) act \<Rightarrow> ('a \<Rightarrow> 's \<Rightarrow> bool) \<Rightarrow> (exn \<Rightarrow> 's \<Rightarrow> bool) \<Rightarrow> 's \<Rightarrow> bool" where
  "wp m Q E s \<longleftrightarrow> (\<forall>w. case m (w, s) of (Inr x, (_, s')) \<Rightarrow> Q x s' | (Inl e, (_, s')) \<Rightarrow> E e s')"

named_theorems wp_rules

lemma wp_apply: "wp m Q E s \<Longrightarrow> m (w, s) = (r, (w', s')) \<Longrightarrow> case r of Inr x \<Rightarrow> Q x s' | Inl e \<Rightarrow> E e s'"
  unfolding wp_def by (drule spec [of _ w]) (auto split: sum.splits)

lemma wp_mono: "wp m Q E s \<Longrightarrow> (\<And>x s'. Q x s' \<Longrightarrow> Q' x s') \<Longrightarrow> (\<And>e s'. E e s' \<Longrightarrow> E' e s') \<Longrightarrow> wp m Q' E' s"
  unfolding wp_def by (auto split: sum.splits prod.splits)

lemma wp_ret [wp_rules]: "Q x s \<Longrightarrow> wp (ret x) Q E s"
  by (simp add: wp_def ret_def)

lemma wp_raise [wp_rules]: "E e s \<Longrightarrow> wp (raise_exn e) Q E s"
  by (simp add: wp_def raise_exn_def)

lemma wp_then [wp_rules]: "wp m (\<lambda>x. wp (f x) Q E) E s \<Longrightarrow> wp (then_do m f) Q E s"
  unfolding wp_def then_do_def by (auto split: sum.splits prod.splits)

lemma wp_then_same:
  "wp m (\<lambda>_ s'. s' = s) (\<lambda>e s'. s' = s \<and> R e) s \<Longrightarrow> (\<And>x. wp (f x) Q E s) \<Longrightarrow> (\<And>e. R e \<Longrightarrow> E e s) \<Longrightarrow> wp (then_do m f) Q E s"
  by (rule wp_then, erule wp_mono) auto

lemma wp_attempt [wp_rules]: "wp m Q (\<lambda>e. wp (h e) Q E) s \<Longrightarrow> wp (attempt m h) Q E s"
  unfolding wp_def attempt_def by (auto split: sum.splits prod.splits)

lemma wp_look_up [wp_rules]: "Q (f s) s \<Longrightarrow> wp (look_up f) Q E s"
  by (simp add: wp_def look_up_def)

lemma wp_change [wp_rules]: "Q () (f s) \<Longrightarrow> wp (change f) Q E s"
  by (simp add: wp_def change_def)

lemma wp_call [wp_rules]:
  "(\<And>w x. fst (f w) = Inr x \<Longrightarrow> Q x s) \<Longrightarrow> (\<And>w e. fst (f w) = Inl e \<Longrightarrow> E e s) \<Longrightarrow> wp (call f) Q E s"
  unfolding wp_def call_def by (auto simp: Let_def split: sum.splits prod.splits) (metis fst_conv)+

lemma wp_observe [wp_rules]: "(\<And>x. Q x s) \<Longrightarrow> wp (observe_world f) Q E s"
  by (simp add: wp_def observe_world_def split: prod.splits)

lemma wp_unless [wp_rules]: "(b \<Longrightarrow> Q () s) \<Longrightarrow> (\<not> b \<Longrightarrow> wp m Q E s) \<Longrightarrow> wp (unless b m) Q E s"
  by (simp add: unless_def wp_ret)

lemma wp_if [wp_rules]: "(b \<Longrightarrow> wp m Q E s) \<Longrightarrow> (\<not> b \<Longrightarrow> wp n Q E s) \<Longrightarrow> wp (if b then m else n) Q E s"
  by simp

lemma wp_each:
  assumes "I s" and "\<And>x s. x \<in> set xs \<Longrightarrow> I s \<Longrightarrow> wp (f x) (\<lambda>_. I) E s"
  shows "wp (each xs f) (\<lambda>_. I) E s"
  using assms
proof (induction xs arbitrary: s)
  case (Cons x xs)
  have "wp (f x) (\<lambda>_. I) E s" using Cons.prems by simp
  then have "wp (f x) (\<lambda>_. wp (each xs f) (\<lambda>_. I) E) E s"
    by (rule wp_mono) (use Cons.IH Cons.prems(2) in auto)
  then show ?case by (simp add: wp_then)
qed (simp add: wp_ret)

text \<open>Actions that leave the bot's own state alone.\<close>

definition quiet :: "('w, 's, 'a) act \<Rightarrow> bool" where
  "quiet m \<longleftrightarrow> (\<forall>w s. snd (snd (m (w, s))) = s)"

lemma quiet_wp: "quiet m \<Longrightarrow> (\<And>x. Q x s) \<Longrightarrow> (\<And>e. E e s) \<Longrightarrow> wp m Q E s"
  unfolding wp_def quiet_def by (auto split: sum.splits prod.splits) (metis snd_conv)+

lemma quiet_ret: "quiet (ret x)"
  by (simp add: quiet_def ret_def)

lemma quiet_call: "quiet (call f)"
  by (simp add: quiet_def call_def Let_def split: prod.splits)

lemma quiet_observe: "quiet (observe_world f)"
  by (simp add: quiet_def observe_world_def Let_def split: prod.splits)

lemma quiet_look: "quiet (look_up f)"
  by (simp add: quiet_def look_up_def)

lemma quiet_then: "quiet m \<Longrightarrow> (\<And>x. quiet (f x)) \<Longrightarrow> quiet (then_do m f)"
  unfolding quiet_def then_do_def by (auto split: sum.splits prod.splits) (metis snd_conv)+

lemma quiet_attempt: "quiet m \<Longrightarrow> (\<And>e. quiet (h e)) \<Longrightarrow> quiet (attempt m h)"
  unfolding quiet_def attempt_def by (auto split: sum.splits prod.splits) (metis snd_conv)+

lemma quiet_caught: "quiet (caught x e)"
  by (simp add: caught_def quiet_def raise_exn_def ret_def)

lemma quiet_raise: "quiet (raise_exn e)"
  by (simp add: quiet_def raise_exn_def)

lemma quiet_collect: "(\<And>m. m \<in> set ms \<Longrightarrow> quiet m) \<Longrightarrow> quiet (collect ms)"
  by (induction ms) (auto intro!: quiet_ret quiet_then)

lemma quiet_each: "(\<And>x. quiet (f x)) \<Longrightarrow> quiet (each xs f)"
  by (induction xs) (auto intro!: quiet_ret quiet_then)

lemma quiet_if: "quiet m \<Longrightarrow> quiet n \<Longrightarrow> quiet (if b then m else n)"
  by simp

lemmas quiet_rules = quiet_ret quiet_call quiet_observe quiet_look quiet_then quiet_attempt quiet_caught quiet_raise quiet_each quiet_if

lemma quiet_ask: "quiet (ask out method path body decode)"
  unfolding ask_def by (rule quiet_call)

lemma quiet_ask_blocks: "quiet (ask_blocks out hs)"
  unfolding ask_blocks_def by (intro quiet_then quiet_collect quiet_ret) (auto intro: quiet_ask)

lemma quiet_ask_covered: "quiet (ask_covered out hs)"
  unfolding ask_covered_def by (intro quiet_if quiet_then quiet_ret quiet_ask_blocks)

lemma quiet_pending: "quiet (pending_work cfg out taken b)"
  unfolding pending_work_def ask_queue_def
  by (cases "bc_trial cfg") (auto intro!: quiet_then quiet_ret quiet_ask_covered quiet_observe quiet_ask)

lemma quiet_pause: "quiet (pause out d)"
  unfolding pause_def by (intro quiet_rules)

lemma quiet_some_not_held: "quiet (some_not_held out sids)"
  by (induction sids) (auto intro!: quiet_rules quiet_ask simp: ask_sponsorship_def split: prod.split)

section \<open>The books\<close>

text \<open>No block and no log row on two pods; blocks only on live pods that are working.\<close>

definition apart :: "pod list \<Rightarrow> bool" where
  "apart ps \<longleftrightarrow> (\<forall>i < length ps. distinct (map it_height (pd_assigned (ps ! i))) \<and> distinct (map it_row (pd_assigned (ps ! i))))
     \<and> (\<forall>i < length ps. \<forall>j < length ps. i \<noteq> j \<longrightarrow>
          it_height ` set (pd_assigned (ps ! i)) \<inter> it_height ` set (pd_assigned (ps ! j)) = {}
          \<and> it_row ` set (pd_assigned (ps ! i)) \<inter> it_row ` set (pd_assigned (ps ! j)) = {})"

definition working_only :: "pod list \<Rightarrow> bool" where
  "working_only ps \<longleftrightarrow> (\<forall>p \<in> set ps. pd_assigned p \<noteq> [] \<longrightarrow> live p \<and> pd_state p = Working)"

text \<open>The open rows of the log since row \<open>base\<close> are the blocks now on pods.\<close>

definition open_row :: "work_row \<Rightarrow> pod \<Rightarrow> item \<Rightarrow> bool" where
  "open_row r p a \<longleftrightarrow> wk_end r = None \<and> wk_id r = it_row a \<and> wk_height r = it_height a \<and> wk_pod r = pd_id p"

definition log_ok :: "int \<Rightarrow> pod list \<Rightarrow> bot_db \<Rightarrow> bool" where
  "log_ok base ps d \<longleftrightarrow> base \<le> db_seq d \<and> (\<forall>r \<in> set (db_work d). wk_id r \<le> db_seq d)
     \<and> (\<forall>p \<in> set ps. \<forall>a \<in> set (pd_assigned p). base < it_row a \<and> it_row a \<le> db_seq d \<and> (\<exists>r \<in> set (db_work d). open_row r p a))
     \<and> (\<forall>r \<in> set (db_work d). wk_end r = None \<and> base < wk_id r \<longrightarrow> (\<exists>p \<in> set ps. \<exists>a \<in> set (pd_assigned p). wk_id r = it_row a))"

text \<open>Every pod rented has its row, which carries its end once no pod of that id is live.\<close>

definition rented_ok :: "pod list \<Rightarrow> bot_db \<Rightarrow> bool" where
  "rented_ok ps d \<longleftrightarrow> (\<forall>p \<in> set ps. \<exists>r \<in> set (db_pods d). po_id r = pd_id p
     \<and> ((\<forall>q \<in> set ps. pd_id q = pd_id p \<longrightarrow> \<not> live q) \<longrightarrow> po_terminated r \<noteq> None))"

definition one_replay :: "bot_db \<Rightarrow> bool" where
  "one_replay d \<longleftrightarrow> distinct (map rq_height (db_regen d)) \<and> length (filter in_flight (db_regen d)) \<le> 1"

definition books :: "int \<Rightarrow> bot \<Rightarrow> bool" where
  "books base s \<longleftrightarrow> apart (bt_pods s) \<and> working_only (bt_pods s) \<and> log_ok base (bt_pods s) (bt_db s)
     \<and> rented_ok (bt_pods s) (bt_db s) \<and> one_replay (bt_db s)"

text \<open>A database whose ids are no greater than the sequence and which has at most one replay in flight.\<close>

definition db_ok :: "bot_db \<Rightarrow> bool" where
  "db_ok d \<longleftrightarrow> (\<forall>r \<in> set (db_work d). wk_id r \<le> db_seq d) \<and> one_replay d"

lemma books_new: "db_ok d \<Longrightarrow> books (db_seq d) (new_bot d)"
  by (auto simp: books_def new_bot_def apart_def working_only_def log_ok_def rented_ok_def db_ok_def)

lemma nth_upd: "i < length ps \<Longrightarrow> j < length ps \<Longrightarrow> ps[i := p] ! j = (if j = i then p else ps ! j)"
  by (simp add: nth_list_update)

lemma apart_shrink:
  assumes "apart ps" "i < length ps" "set (pd_assigned p) \<subseteq> set (pd_assigned (ps ! i))"
    "distinct (map it_height (pd_assigned p))" "distinct (map it_row (pd_assigned p))"
  shows "apart (ps[i := p])"
  using assms unfolding apart_def length_list_update
  by (intro conjI allI impI) (auto simp: nth_list_update split: if_splits, blast+)

lemma upd_cases: "q \<in> set (ps[i := p]) \<Longrightarrow> i < length ps \<Longrightarrow> q = p \<or> (\<exists>j < length ps. j \<noteq> i \<and> q = ps ! j)"
  by (auto simp: in_set_conv_nth nth_list_update split: if_splits)

lemma apart_rows:
  "apart ps \<Longrightarrow> i < length ps \<Longrightarrow> j < length ps \<Longrightarrow> a \<in> set (pd_assigned (ps ! i)) \<Longrightarrow> b \<in> set (pd_assigned (ps ! j)) \<Longrightarrow> it_row a = it_row b
   \<Longrightarrow> i = j \<and> a = b"
proof -
  assume p: "apart ps" "i < length ps" "j < length ps" "a \<in> set (pd_assigned (ps ! i))" "b \<in> set (pd_assigned (ps ! j))" "it_row a = it_row b"
  have "i = j"
  proof (rule ccontr)
    assume "i \<noteq> j"
    with p(1-3) have "it_row ` set (pd_assigned (ps ! i)) \<inter> it_row ` set (pd_assigned (ps ! j)) = {}" by (auto simp: apart_def)
    with p(4-6) show False by (metis disjoint_iff image_eqI)
  qed
  moreover from p(1,2) have "inj_on it_row (set (pd_assigned (ps ! i)))" by (auto simp: apart_def distinct_map)
  ultimately show ?thesis using p(4-6) by (auto dest: inj_onD)
qed

text \<open>Closing the rows of some of a pod's blocks while taking them from the pod.\<close>

lemma log_close:
  assumes log: "log_ok base ps d" and ap: "apart ps" and i: "i < length ps" and p: "pd_id p' = pd_id (ps ! i)"
    and rest: "set (pd_assigned p') = set (pd_assigned (ps ! i)) - A" and A: "A \<subseteq> set (pd_assigned (ps ! i))"
    and w: "db_work d' = upd_where (\<lambda>r. wk_id r \<in> it_row ` A \<and> wk_end r = None) g (db_work d)"
    and g: "\<And>r. wk_id (g r) = wk_id r \<and> wk_end (g r) \<noteq> None" and sq: "db_seq d' = db_seq d"
  shows "log_ok base (ps[i := p']) d'"
proof -
  have kept: "r \<in> set (db_work d')" if l: "r \<in> set (db_work d)" "wk_id r \<notin> it_row ` A" for r
    using l unfolding w upd_where_def by force
  have g0: "(wk_end (g r) = None) = False" for r using g by blast
  have old: "r \<in> set (db_work d) \<and> wk_id r \<notin> it_row ` A" if l: "r \<in> set (db_work d')" "wk_end r = None" for r
    using l unfolding w upd_where_def by (auto simp: g0 split: if_splits)
  have bound: "wk_id r \<le> db_seq d" if l: "r \<in> set (db_work d')" for r
    using l g log unfolding w upd_where_def log_ok_def by (auto split: if_splits)
  have mem: "\<exists>j < length ps. pd_id q = pd_id (ps ! j) \<and> set (pd_assigned q) \<subseteq> set (pd_assigned (ps ! j)) \<and> (\<forall>a \<in> set (pd_assigned q). a \<notin> A)"
    if l: "q \<in> set (ps[i := p'])" for q
  proof (cases "q = p'")
    case True
    with rest i p show ?thesis by auto
  next
    case False
    with upd_cases [OF l i] obtain j where j: "j < length ps" "j \<noteq> i" "q = ps ! j" by blast
    have "a \<notin> A" if "a \<in> set (pd_assigned q)" for a
      using apart_rows [OF ap i j(1), of a a] that j A by blast
    with j show ?thesis by blast
  qed
  have third: "base < it_row a \<and> it_row a \<le> db_seq d \<and> (\<exists>r \<in> set (db_work d'). open_row r q a)"
    if l: "q \<in> set (ps[i := p'])" "a \<in> set (pd_assigned q)" for q a
  proof -
    from mem [OF l(1)] l(2) obtain j where j: "j < length ps" "pd_id q = pd_id (ps ! j)" "a \<in> set (pd_assigned (ps ! j))" "a \<notin> A" by blast
    with log obtain r where r: "base < it_row a" "it_row a \<le> db_seq d" "r \<in> set (db_work d)" "open_row r (ps ! j) a"
      unfolding log_ok_def by (meson nth_mem)
    have "wk_id r \<notin> it_row ` A"
    proof
      assume "wk_id r \<in> it_row ` A"
      then obtain b where "b \<in> A" "it_row b = it_row a" using r(4) by (auto simp: open_row_def)
      with apart_rows [OF ap i j(1), of b a] A j show False by blast
    qed
    with kept r j(2) show ?thesis by (auto simp: open_row_def)
  qed
  have fourth: "\<exists>q \<in> set (ps[i := p']). \<exists>a \<in> set (pd_assigned q). wk_id r = it_row a"
    if l: "r \<in> set (db_work d')" "wk_end r = None" "base < wk_id r" for r
  proof -
    from old [OF l(1,2)] log l(2,3) obtain j a where j: "j < length ps" "a \<in> set (pd_assigned (ps ! j))" "wk_id r = it_row a"
      unfolding log_ok_def by (metis in_set_conv_nth)
    show ?thesis
    proof (cases "j = i")
      case True
      with j old [OF l(1,2)] rest have "a \<in> set (pd_assigned p')" by blast
      with j(3) i show ?thesis by (auto intro: bexI [of _ p'] set_update_memI)
    next
      case False
      with j have "ps ! j \<in> set (ps[i := p'])" by (metis length_list_update nth_list_update_neq nth_mem)
      with j show ?thesis by blast
    qed
  qed
  show ?thesis
    unfolding log_ok_def sq using log bound third fourth by (auto simp: log_ok_def)
qed

lemma working_upd: "working_only ps \<Longrightarrow> (pd_assigned p \<noteq> [] \<Longrightarrow> live p \<and> pd_state p = Working) \<Longrightarrow> working_only (ps[i := p])"
  unfolding working_only_def using set_update_subset_insert [of ps i p] by blast

lemma rented_upd:
  assumes "rented_ok ps d" "i < length ps" "pd_id p = pd_id (ps ! i)" "live p = live (ps ! i)" "db_pods d' = db_pods d"
  shows "rented_ok (ps[i := p]) d'"
proof -
  have same: "(\<forall>q \<in> set (ps[i := p]). pd_id q = k \<longrightarrow> \<not> live q) \<longleftrightarrow> (\<forall>q \<in> set ps. pd_id q = k \<longrightarrow> \<not> live q)" for k
    using assms(2-4) unfolding all_set_conv_all_nth length_list_update by (metis nth_list_update)
  have "\<exists>j < length ps. pd_id q = pd_id (ps ! j)" if "q \<in> set (ps[i := p])" for q
    using upd_cases [OF that assms(2)] assms(2,3) by blast
  with assms(1,5) show ?thesis unfolding rented_ok_def same by (metis nth_mem)
qed

lemma books_record:
  assumes "books base s" "i < length (bt_pods s)" "set ended \<subseteq> set (pd_assigned (bt_pods s ! i))"
  shows "books base (record_proven cfg i ended t s)"
proof -
  let ?p = "bt_pods s ! i"
  let ?p' = "?p\<lparr>pd_assigned := filter (\<lambda>a. a \<notin> set ended) (pd_assigned ?p), pd_segment := Some t, pd_progress := Some t\<rparr>"
  let ?s = "record_proven cfg i ended t s"
  from assms(1) have b: "apart (bt_pods s)" "working_only (bt_pods s)" "log_ok base (bt_pods s) (bt_db s)" "rented_ok (bt_pods s) (bt_db s)" "one_replay (bt_db s)"
    by (auto simp: books_def)
  have eq: "bt_pods ?s = (bt_pods s)[i := ?p']" "db_pods (bt_db ?s) = db_pods (bt_db s)" "db_regen (bt_db ?s) = db_regen (bt_db s)" "db_seq (bt_db ?s) = db_seq (bt_db s)"
    by (simp_all add: record_proven_def upd_pod_def Let_def)
  have "distinct (map it_height (pd_assigned ?p)) \<and> distinct (map it_row (pd_assigned ?p))" using b(1) assms(2) by (auto simp: apart_def)
  then have 1: "apart (bt_pods ?s)" unfolding eq by (intro apart_shrink b assms(2)) (auto simp: distinct_map_filter)
  have 2: "working_only (bt_pods ?s)" unfolding eq
    by (rule working_upd [OF b(2)]) (use b(2) assms(2) nth_mem in \<open>fastforce simp: working_only_def live_def\<close>)
  have 3: "log_ok base (bt_pods ?s) (bt_db ?s)" unfolding eq(1)
    by (rule log_close [OF b(3,1) assms(2), where A = "set ended"])
      (use assms(3) in \<open>auto simp: eq record_proven_def upd_pod_def Let_def\<close>)
  have 4: "rented_ok (bt_pods ?s) (bt_db ?s)" unfolding eq(1)
    by (rule rented_upd [OF b(4) assms(2)]) (simp_all add: eq live_def)
  from 1 2 3 4 b(5) eq show ?thesis by (simp add: books_def one_replay_def)
qed

lemma books_drop:
  assumes "books base s" "i < length (bt_pods s)"
  shows "books base (drop_items i result s)"
proof -
  let ?p = "bt_pods s ! i"
  let ?p' = "?p\<lparr>pd_assigned := []\<rparr>"
  let ?s = "drop_items i result s"
  from assms(1) have b: "apart (bt_pods s)" "working_only (bt_pods s)" "log_ok base (bt_pods s) (bt_db s)" "rented_ok (bt_pods s) (bt_db s)" "one_replay (bt_db s)"
    by (auto simp: books_def)
  have eq: "bt_pods ?s = (bt_pods s)[i := ?p']" "db_pods (bt_db ?s) = db_pods (bt_db s)" "db_regen (bt_db ?s) = db_regen (bt_db s)" "db_seq (bt_db ?s) = db_seq (bt_db s)"
    by (simp_all add: drop_items_def upd_pod_def Let_def)
  have 1: "apart (bt_pods ?s)" unfolding eq by (intro apart_shrink b assms(2)) auto
  have 2: "working_only (bt_pods ?s)" unfolding eq by (rule working_upd [OF b(2)]) simp
  have 3: "log_ok base (bt_pods ?s) (bt_db ?s)" unfolding eq(1)
    by (rule log_close [OF b(3,1) assms(2), where A = "set (pd_assigned ?p)"])
      (auto simp: eq drop_items_def upd_pod_def Let_def pod_at_def)
  have 4: "rented_ok (bt_pods ?s) (bt_db ?s)" unfolding eq(1)
    by (rule rented_upd [OF b(4) assms(2)]) (simp_all add: eq live_def)
  from 1 2 3 4 b(5) eq show ?thesis by (simp add: books_def one_replay_def)
qed

text \<open>A change of a pod that leaves its id, its life and its blocks alone.\<close>

lemma books_touch:
  assumes "books base s" "i < length (bt_pods s)" "pd_id p' = pd_id (bt_pods s ! i)" "pd_terminated p' = pd_terminated (bt_pods s ! i)"
    "pd_assigned p' = pd_assigned (bt_pods s ! i)" "pd_assigned p' \<noteq> [] \<Longrightarrow> pd_state p' = Working"
    "bt_pods s' = (bt_pods s)[i := p']" "bt_db s' = bt_db s"
  shows "books base s'"
proof -
  let ?p = "bt_pods s ! i"
  from assms(1) have b: "apart (bt_pods s)" "working_only (bt_pods s)" "log_ok base (bt_pods s) (bt_db s)" "rented_ok (bt_pods s) (bt_db s)" "one_replay (bt_db s)"
    by (auto simp: books_def)
  have "distinct (map it_height (pd_assigned ?p)) \<and> distinct (map it_row (pd_assigned ?p))" using b(1) assms(2) by (auto simp: apart_def)
  then have 1: "apart (bt_pods s')" unfolding assms(7) using assms(5) by (intro apart_shrink b assms(2)) simp_all
  have lv: "live p' = live ?p" using assms(4) by (simp add: live_def)
  have 2: "working_only (bt_pods s')" unfolding assms(7)
    by (rule working_upd [OF b(2)]) (use b(2) assms(2,5,6) lv nth_mem in \<open>fastforce simp: working_only_def\<close>)
  have 3: "log_ok base (bt_pods s') (bt_db s')" unfolding assms(7,8)
    by (rule log_close [OF b(3,1) assms(2,3), where A = "{}" and g = "\<lambda>r. r\<lparr>wk_end := Some W_Failed\<rparr>"])
      (simp_all add: assms(5) upd_where_def)
  have 4: "rented_ok (bt_pods s') (bt_db s')" unfolding assms(7,8) by (rule rented_upd [OF b(4) assms(2,3) lv]) simp
  from 1 2 3 4 b(5) show ?thesis by (simp add: books_def assms(8))
qed

lemma books_mark:
  assumes "books base s" "i < length (bt_pods s)" "pd_assigned (bt_pods s ! i) = []"
  shows "books base (mark_terminated cfg i t ok note s)"
proof -
  let ?p = "bt_pods s ! i"
  let ?p' = "?p\<lparr>pd_terminated := Some t, pd_state := Terminated\<rparr>"
  let ?s = "mark_terminated cfg i t ok note s"
  from assms(1) have b: "apart (bt_pods s)" "working_only (bt_pods s)" "log_ok base (bt_pods s) (bt_db s)" "rented_ok (bt_pods s) (bt_db s)" "one_replay (bt_db s)"
    by (auto simp: books_def)
  have eq: "bt_pods ?s = (bt_pods s)[i := ?p']" "db_work (bt_db ?s) = db_work (bt_db s)" "db_regen (bt_db ?s) = db_regen (bt_db s)" "db_seq (bt_db ?s) = db_seq (bt_db s)"
    by (simp_all add: mark_terminated_def upd_pod_def Let_def)
  have 1: "apart (bt_pods ?s)" unfolding eq by (intro apart_shrink b assms(2)) (auto simp: assms(3))
  have 2: "working_only (bt_pods ?s)" unfolding eq by (rule working_upd [OF b(2)]) (simp add: assms(3))
  have 3: "log_ok base (bt_pods ?s) (bt_db ?s)" unfolding eq(1)
    by (rule log_close [OF b(3,1) assms(2), where A = "{}" and g = "\<lambda>r. r\<lparr>wk_end := Some W_Failed\<rparr>"]) (simp_all add: eq assms(3) upd_where_def)
  have "rented_ok ((bt_pods s)[i := ?p']) (bt_db ?s)"
    unfolding rented_ok_def
  proof
    fix q assume q: "q \<in> set ((bt_pods s)[i := ?p'])"
    let ?f = "\<lambda>r. if po_id r = pd_id ?p then r\<lparr>po_terminated := Some t, po_usd := Some (pod_spend cfg t ?p'), po_note := Some (if ok then note else note @ '' (TERMINATION NOT CONFIRMED)'')\<rparr> else r"
    have db: "db_pods (bt_db ?s) = map ?f (db_pods (bt_db s))"
      using assms(2) by (simp add: mark_terminated_def upd_pod_def Let_def pod_at_def upd_where_def cong: if_cong)
    obtain j where j: "j < length (bt_pods s)" "pd_id q = pd_id (bt_pods s ! j)"
      using upd_cases [OF q assms(2)] assms(2) by auto
    with b(4) obtain r where r: "r \<in> set (db_pods (bt_db s))" "po_id r = pd_id q"
      "(\<forall>x \<in> set (bt_pods s). pd_id x = pd_id q \<longrightarrow> \<not> live x) \<longrightarrow> po_terminated r \<noteq> None"
      unfolding rented_ok_def by (metis nth_mem)
    have "?f r \<in> set (db_pods (bt_db ?s))" "po_id (?f r) = pd_id q" unfolding db using r by auto
    moreover have "po_terminated (?f r) \<noteq> None" if a: "\<forall>x \<in> set ((bt_pods s)[i := ?p']). pd_id x = pd_id q \<longrightarrow> \<not> live x"
    proof (cases "pd_id q = pd_id ?p")
      case False
      have "\<not> live x" if x: "x \<in> set (bt_pods s)" "pd_id x = pd_id q" for x
      proof -
        obtain k where k: "k < length (bt_pods s)" "x = bt_pods s ! k" using x(1) by (metis in_set_conv_nth)
        with x(2) False have "k \<noteq> i" by auto
        with k have "x \<in> set ((bt_pods s)[i := ?p'])" by (metis length_list_update nth_list_update_neq nth_mem)
        with a x(2) show ?thesis by blast
      qed
      with r(3) False r(2) show ?thesis by simp
    qed (use r(2) in simp)
    ultimately show "\<exists>r \<in> set (db_pods (bt_db ?s)). po_id r = pd_id q
        \<and> ((\<forall>x \<in> set ((bt_pods s)[i := ?p']). pd_id x = pd_id q \<longrightarrow> \<not> live x) \<longrightarrow> po_terminated r \<noteq> None)" by blast
  qed
  with 1 2 3 b(5) eq show ?thesis by (simp add: books_def one_replay_def)
qed

lemma books_add:
  assumes "books base s"
  shows "books base (add_pod cfg info t s)"
proof -
  let ?s = "add_pod cfg info t s"
  obtain p where p: "bt_pods ?s = bt_pods s @ [p]" "pd_assigned p = []" "live p" "pd_id p = in_id info"
    by (simp add: add_pod_def Let_def live_def)
  from assms have b: "apart (bt_pods s)" "working_only (bt_pods s)" "log_ok base (bt_pods s) (bt_db s)" "rented_ok (bt_pods s) (bt_db s)" "one_replay (bt_db s)"
    by (auto simp: books_def)
  have eq: "db_work (bt_db ?s) = db_work (bt_db s)" "db_regen (bt_db ?s) = db_regen (bt_db s)" "db_seq (bt_db ?s) = db_seq (bt_db s)"
    by (simp_all add: add_pod_def Let_def)
  have "apart (bt_pods ?s)" using b(1) p(2) unfolding p(1) apart_def by (auto simp: nth_append less_Suc_eq)
  moreover have "working_only (bt_pods ?s)" using b(2) p(2) unfolding p(1) working_only_def by auto
  moreover have "log_ok base (bt_pods ?s) (bt_db ?s)" using b(3) p(2) unfolding p(1) log_ok_def eq by auto
  moreover have "rented_ok (bt_pods ?s) (bt_db ?s)"
    unfolding rented_ok_def
  proof
    fix q assume q: "q \<in> set (bt_pods ?s)"
    obtain row where row: "db_pods (bt_db ?s) = put_row po_id row (db_pods (bt_db s))" "po_id row = in_id info"
      by (simp add: add_pod_def Let_def)
    show "\<exists>r \<in> set (db_pods (bt_db ?s)). po_id r = pd_id q \<and> ((\<forall>x \<in> set (bt_pods ?s). pd_id x = pd_id q \<longrightarrow> \<not> live x) \<longrightarrow> po_terminated r \<noteq> None)"
    proof (cases "pd_id q = in_id info")
      case True
      then have "\<not> (\<forall>x \<in> set (bt_pods ?s). pd_id x = pd_id q \<longrightarrow> \<not> live x)" using p by auto
      with True row show ?thesis by (auto simp: put_row_def)
    next
      case False
      with q p(1,4) have "q \<in> set (bt_pods s)" by auto
      with b(4) obtain r where "r \<in> set (db_pods (bt_db s))" "po_id r = pd_id q"
        "(\<forall>x \<in> set (bt_pods s). pd_id x = pd_id q \<longrightarrow> \<not> live x) \<longrightarrow> po_terminated r \<noteq> None" unfolding rented_ok_def by blast
      with False row(2) p(1) show ?thesis unfolding row(1) by (intro bexI [of _ r]) (auto simp: put_row_def)
    qed
  qed
  ultimately show ?thesis using b(5) eq by (simp add: books_def one_replay_def)
qed

text \<open>Giving blocks that nobody has to a free pod.\<close>

lemma new_items_map:
  "map it_height (new_items s chunk) = map snd chunk" "map it_row (new_items s chunk) = map (\<lambda>k. db_seq (bt_db s) + 1 + int k) [0..<length chunk]"
proof -
  have "map it_height (new_items s chunk) = map (snd \<circ> snd) (List.enumerate 0 chunk)"
    by (simp add: new_items_def split_beta comp_def)
  also have "\<dots> = map snd (map snd (List.enumerate 0 chunk))" by (simp only: map_map)
  finally show "map it_height (new_items s chunk) = map snd chunk" by (simp only: map_snd_enumerate)
  have "map it_row (new_items s chunk) = map ((\<lambda>k. db_seq (bt_db s) + 1 + int k) \<circ> fst) (List.enumerate 0 chunk)"
    by (simp add: new_items_def split_beta comp_def)
  also have "\<dots> = map (\<lambda>k. db_seq (bt_db s) + 1 + int k) (map fst (List.enumerate 0 chunk))" by (simp only: map_map)
  finally show "map it_row (new_items s chunk) = map (\<lambda>k. db_seq (bt_db s) + 1 + int k) [0..<length chunk]"
    by (simp only: map_fst_enumerate) simp
qed

lemma books_give:
  assumes "books base s" "i < length (bt_pods s)" "live (bt_pods s ! i)" "pd_assigned (bt_pods s ! i) = []"
    "distinct (map snd chunk)" "snd ` set chunk \<inter> busy s = {}"
  shows "books base (give cfg i pk now chunk s)"
proof -
  let ?p = "bt_pods s ! i" and ?new = "new_items s chunk"
  let ?p' = "?p\<lparr>pd_assigned := ?new, pd_state := Working, pd_segment := Some now, pd_progress := Some now, pd_finished := None\<rparr>"
  let ?s = "give cfg i pk now chunk s"
  from assms(1) have b: "apart (bt_pods s)" "working_only (bt_pods s)" "log_ok base (bt_pods s) (bt_db s)" "rented_ok (bt_pods s) (bt_db s)" "one_replay (bt_db s)"
    by (auto simp: books_def)
  have eq: "bt_pods ?s = (bt_pods s)[i := ?p']" "db_pods (bt_db ?s) = db_pods (bt_db s)" "db_regen (bt_db ?s) = db_regen (bt_db s)"
      "db_seq (bt_db ?s) = db_seq (bt_db s) + int (length chunk)"
    by (simp_all add: give_def upd_pod_def Let_def)
  define row where "row = (\<lambda>a :: item. \<lparr> wk_id = it_row a, wk_sid = it_sid a, wk_height = it_height a, wk_pod = pd_id ?p, wk_gpu = pd_gpu ?p,
      wk_cost = Some (pod_rate cfg ?p), wk_assigned = now, wk_proven = None, wk_seconds = None, wk_usd = None, wk_end = None,
      wk_pubkey = Some (pk (it_sid a)) \<rparr>)"
  have row: "db_work (bt_db ?s) = db_work (bt_db s) @ map row ?new" "\<And>a. open_row (row a) ?p' a"
    by (simp_all add: give_def Let_def pod_at_def open_row_def row_def)
  have hs: "it_height ` set ?new = snd ` set chunk" using new_items_map(1) [of s chunk] by (metis image_set)
  have rs: "it_row a \<in> {db_seq (bt_db s) + 1..db_seq (bt_db s) + int (length chunk)}" if "a \<in> set ?new" for a
  proof -
    have "it_row a \<in> set (map it_row ?new)" using that by simp
    then show ?thesis unfolding new_items_map(2) by auto
  qed
  have seq: "it_row a \<le> db_seq (bt_db s)" if "j < length (bt_pods s)" "a \<in> set (pd_assigned (bt_pods s ! j))" for j a
    using that b(3) unfolding log_ok_def by (meson nth_mem)
  have free: "it_height a \<notin> snd ` set chunk" if "j < length (bt_pods s)" "a \<in> set (pd_assigned (bt_pods s ! j))" for j a
  proof -
    from that b(2) have "live (bt_pods s ! j)" unfolding working_only_def by (metis empty_iff empty_set nth_mem)
    with that have "it_height a \<in> busy s" unfolding busy_def by (auto intro!: imageI exI [of _ "bt_pods s ! j"])
    with assms(6) show ?thesis by blast
  qed
  have nd: "distinct (map it_height ?new)" "distinct (map it_row ?new)"
    unfolding new_items_map using assms(5) by (simp_all add: distinct_map inj_on_def)
  have 1: "apart (bt_pods ?s)"
    unfolding apart_def eq(1) length_list_update
  proof (intro conjI allI impI)
    fix j assume j: "j < length (bt_pods s)"
    show "distinct (map it_height (pd_assigned ((bt_pods s)[i := ?p'] ! j)))" "distinct (map it_row (pd_assigned ((bt_pods s)[i := ?p'] ! j)))"
      by (cases "j = i", use b(1) j nd in \<open>simp_all add: apart_def\<close>)+
  next
    fix j k assume jk: "j < length (bt_pods s)" "k < length (bt_pods s)" "j \<noteq> k"
    have one: "it_height ` set ?new \<inter> it_height ` set (pd_assigned (bt_pods s ! l)) = {}
        \<and> it_row ` set ?new \<inter> it_row ` set (pd_assigned (bt_pods s ! l)) = {}" if l: "l < length (bt_pods s)" for l
    proof
      show "it_height ` set ?new \<inter> it_height ` set (pd_assigned (bt_pods s ! l)) = {}"
        unfolding hs disjoint_iff by (metis free [OF l] imageE)
      have "it_row a \<noteq> it_row c" if "a \<in> set ?new" "c \<in> set (pd_assigned (bt_pods s ! l))" for a c
        using rs [OF that(1)] seq [OF l that(2)] by auto
      then show "it_row ` set ?new \<inter> it_row ` set (pd_assigned (bt_pods s ! l)) = {}" unfolding disjoint_iff by (metis imageE)
    qed
    show "it_height ` set (pd_assigned ((bt_pods s)[i := ?p'] ! j)) \<inter> it_height ` set (pd_assigned ((bt_pods s)[i := ?p'] ! k)) = {}"
      "it_row ` set (pd_assigned ((bt_pods s)[i := ?p'] ! j)) \<inter> it_row ` set (pd_assigned ((bt_pods s)[i := ?p'] ! k)) = {}"
      by (cases "j = i"; cases "k = i"; use b(1) jk one [OF jk(1)] one [OF jk(2)] in \<open>simp_all add: apart_def Int_commute\<close>)+
  qed
  have 2: "working_only (bt_pods ?s)" unfolding eq by (rule working_upd [OF b(2)]) (use assms(3) in \<open>simp add: live_def\<close>)
  have 3: "log_ok base (bt_pods ?s) (bt_db ?s)"
  proof -
    have bs: "base \<le> db_seq (bt_db s)" "\<forall>r \<in> set (db_work (bt_db s)). wk_id r \<le> db_seq (bt_db s)" using b(3) by (auto simp: log_ok_def)
    have third: "base < it_row a \<and> it_row a \<le> db_seq (bt_db ?s) \<and> (\<exists>r \<in> set (db_work (bt_db ?s)). open_row r q a)"
      if l: "q \<in> set ((bt_pods s)[i := ?p'])" "a \<in> set (pd_assigned q)" for q a
    proof (cases "q = ?p'")
      case True
      with l(2) have "a \<in> set ?new" by simp
      with rs [OF this] bs(1) row(2) [of a] True show ?thesis unfolding row(1) eq(4) by auto
    next
      case False
      with upd_cases [OF l(1) assms(2)] obtain j where "j < length (bt_pods s)" "q = bt_pods s ! j" by blast
      with l(2) b(3) have "base < it_row a \<and> it_row a \<le> db_seq (bt_db s) \<and> (\<exists>r \<in> set (db_work (bt_db s)). open_row r q a)"
        unfolding log_ok_def by (meson nth_mem)
      then show ?thesis unfolding row(1) eq(4) by auto
    qed
    have fourth: "\<exists>q \<in> set ((bt_pods s)[i := ?p']). \<exists>a \<in> set (pd_assigned q). wk_id r = it_row a"
      if l: "r \<in> set (db_work (bt_db ?s))" "wk_end r = None" "base < wk_id r" for r
    proof (cases "r \<in> set (db_work (bt_db s))")
      case True
      with l b(3) obtain j a where j: "j < length (bt_pods s)" "a \<in> set (pd_assigned (bt_pods s ! j))" "wk_id r = it_row a"
        unfolding log_ok_def by (metis in_set_conv_nth)
      with assms(4) have "j \<noteq> i" by auto
      with j have "bt_pods s ! j \<in> set ((bt_pods s)[i := ?p'])" by (metis length_list_update nth_list_update_neq nth_mem)
      with j show ?thesis by blast
    next
      case False
      with l(1) row obtain a where "a \<in> set ?new" "r = row a" by auto
      with row(2) [of a] have "a \<in> set (pd_assigned ?p')" "wk_id r = it_row a" by (auto simp: open_row_def)
      then show ?thesis using set_update_memI [OF assms(2), of ?p'] by blast
    qed
    have "wk_id r \<le> db_seq (bt_db ?s)" if "r \<in> set (db_work (bt_db ?s))" for r
      using that bs row rs unfolding row(1) eq(4) by (force simp: open_row_def)
    with third fourth bs(1) show ?thesis unfolding log_ok_def eq(1) by (auto simp: eq(4))
  qed
  have 4: "rented_ok (bt_pods ?s) (bt_db ?s)" unfolding eq(1)
    by (rule rented_upd [OF b(4) assms(2)]) (simp_all add: eq live_def)
  from 1 2 3 4 b(5) eq show ?thesis by (simp add: books_def one_replay_def)
qed

section \<open>Stopping pods\<close>

text \<open>
  An outside on which a pod can always be stopped: the coordinator's answers on blocks fail in the one way that is
  caught, no signal arrives and \<open>sleep\<close> returns. RunPod may fail at will.
\<close>

definition calm_outside :: "'w outside \<Rightarrow> bool" where
  "calm_outside out \<longleftrightarrow> (\<forall>path w e. prefixed ''/api/bot/blocks?h='' path \<longrightarrow> then_read (coord_call (fst (o_http out ''GET'' path None w))) read_blocks = Inl e \<longrightarrow> e = Coord_Error)
     \<and> (\<forall>pid w. fst (o_kill out pid w) \<noteq> Inl Stop_Signal) \<and> (\<forall>w. fst (o_pods out w) \<noteq> Inl Stop_Signal)
     \<and> (\<forall>d w. \<not> fst (o_sleep out d w))"

lemma wp_collect:
  assumes "\<And>m. m \<in> set ms \<Longrightarrow> wp m (\<lambda>_ s'. s' = s) E s" and "\<And>xs. Q xs s"
  shows "wp (collect ms) Q E s"
  using assms
proof (induction ms arbitrary: Q)
  case (Cons m ms)
  have "wp m (\<lambda>x s'. wp (then_do (collect ms) (\<lambda>xs. ret (x # xs))) Q E s') E s"
    using Cons.prems(1) [of m] by (rule wp_mono) (auto intro!: wp_then wp_ret Cons.IH Cons.prems)
  then show ?case by (simp add: wp_then)
qed (simp add: wp_ret)

lemma wp_ask_blocks_call: "prefixed ''/api/bot/blocks?h='' path \<Longrightarrow>
    wp (ask out ''GET'' path None read_blocks) (\<lambda>_ s'. s' = s) (\<lambda>e s'. s' = s \<and> (calm_outside out \<longrightarrow> e = Coord_Error)) s"
  unfolding ask_def by (rule wp_call) (auto simp: calm_outside_def split: prod.splits sum.splits, metis fst_conv)

lemma blocks_path_prefix: "path \<in> set (blocks_paths hs) \<Longrightarrow> prefixed ''/api/bot/blocks?h='' path"
  unfolding blocks_paths_def Let_def using prefixed_append [of "''/api/bot/blocks?h=''"] by (simp only: set_map) blast

lemma wp_ask_covered:
  "(\<And>cov. Q cov s) \<Longrightarrow> (\<And>e. calm_outside out \<longrightarrow> e = Coord_Error \<Longrightarrow> E e s) \<Longrightarrow> wp (ask_covered out hs) Q E s"
  unfolding ask_covered_def ask_blocks_def
  by (intro wp_if wp_ret wp_then wp_collect) (auto intro: wp_mono [OF wp_ask_blocks_call [OF blocks_path_prefix]])

lemma wp_terminate_confirmed:
  assumes "\<And>ok. Q ok s" and "\<not> calm_outside out \<Longrightarrow> E Stop_Signal s"
  shows "wp (terminate_confirmed cfg out pid k) Q E s"
proof (induction k)
  case (Suc k)
  have kill: "wp (attempt (call (o_kill out pid)) (caught ())) (\<lambda>_ s'. s' = s) (\<lambda>e s'. s' = s \<and> e = Stop_Signal \<and> \<not> calm_outside out) s"
    unfolding caught_def by (intro wp_attempt wp_call wp_if wp_ret wp_raise) (auto simp: calm_outside_def)
  have list: "wp (attempt (then_do (call (o_pods out)) (\<lambda>ps. ret (pid \<notin> ls_id ` set ps))) (caught False))
      (\<lambda>_ s'. s' = s) (\<lambda>e s'. s' = s \<and> e = Stop_Signal \<and> \<not> calm_outside out) s"
    unfolding caught_def by (intro wp_attempt wp_then wp_call wp_if wp_ret wp_raise) (auto simp: calm_outside_def)
  have rest: "wp (pause out (bc_confirm_wait cfg)) (\<lambda>_ s'. s' = s) (\<lambda>e s'. s' = s \<and> e = Stop_Signal \<and> \<not> calm_outside out) s"
    unfolding pause_def by (simp add: wp_def then_do_def observe_world_def raise_exn_def ret_def calm_outside_def split: prod.split) (metis fst_conv)
  show ?case
    unfolding terminate_confirmed.simps
    by (intro wp_then_same [OF kill] wp_then_same [OF list] wp_if wp_ret wp_then_same [OF rest] assms(1) Suc) (use assms(2) in blast)+
qed (simp add: wp_ret assms(1))

lemma pod_lists [simp]:
  "bt_pods (record_proven cfg i ended t s) = (bt_pods s)[i := (bt_pods s ! i)\<lparr>pd_assigned := filter (\<lambda>a. a \<notin> set ended) (pd_assigned (bt_pods s ! i)),
     pd_segment := Some t, pd_progress := Some t\<rparr>]"
  "bt_pods (drop_items i result s) = (bt_pods s)[i := (bt_pods s ! i)\<lparr>pd_assigned := []\<rparr>]"
  "bt_pods (mark_terminated cfg i t ok note s) = (bt_pods s)[i := (bt_pods s ! i)\<lparr>pd_terminated := Some t, pd_state := Terminated\<rparr>]"
  "bt_pods (give cfg i pk now chunk s) = (bt_pods s)[i := (bt_pods s ! i)\<lparr>pd_assigned := new_items s chunk, pd_state := Working, pd_segment := Some now,
     pd_progress := Some now, pd_finished := None\<rparr>]"
  by (simp_all add: record_proven_def drop_items_def mark_terminated_def give_def upd_pod_def Let_def)

definition stopped :: "nat \<Rightarrow> pod list \<Rightarrow> pod list \<Rightarrow> bool" where
  "stopped i ps ps' \<longleftrightarrow> (\<exists>p'. ps' = ps[i := p'] \<and> \<not> live p' \<and> pd_id p' = pd_id (ps ! i))"

definition same_pod :: "nat \<Rightarrow> pod list \<Rightarrow> pod list \<Rightarrow> bool" where
  "same_pod i ps ps' \<longleftrightarrow> (\<exists>p'. ps' = ps[i := p'] \<and> pd_id p' = pd_id (ps ! i))"

lemma same_pod_refl: "same_pod i ps ps"
  unfolding same_pod_def by (rule exI [of _ "ps ! i"]) simp

lemma same_pod_upd: "pd_id p' = pd_id (ps ! i) \<Longrightarrow> same_pod i ps (ps[i := p'])"
  by (auto simp: same_pod_def)

lemma stopped_upd: "\<not> live p' \<Longrightarrow> pd_id p' = pd_id (ps ! i) \<Longrightarrow> stopped i ps (ps[i := p'])"
  by (auto simp: stopped_def)

lemma wp_terminate_pod:
  assumes b: "books base s" and i: "i < length (bt_pods s)"
    and Q: "\<And>s'. books base s' \<Longrightarrow> stopped i (bt_pods s) (bt_pods s') \<Longrightarrow> Q () s'"
    and E: "\<And>e s'. books base s' \<Longrightarrow> \<not> calm_outside out \<Longrightarrow> e \<noteq> Coord_Error \<Longrightarrow> E e s'"
  shows "wp (terminate_pod cfg out i note result) Q E s"
proof -
  let ?p = "bt_pods s ! i"
  have close: "wp (then_do (change (drop_items i result)) (\<lambda>_.
      then_do (terminate_confirmed cfg out (pd_id ?p) 6) (\<lambda>confirmed.
      then_do (observe_world (o_now out)) (\<lambda>t. change (mark_terminated cfg i t confirmed note))))) Q E s1"
    if s1: "books base s1" "bt_pods s1 = (bt_pods s)[i := p1]" "pd_id p1 = pd_id ?p" for s1 p1
  proof -
    have l: "i < length (bt_pods s1)" using s1(2) i by simp
    have d: "books base (drop_items i result s1)" using books_drop [OF s1(1) l] .
    show ?thesis
      by (intro wp_then wp_change wp_terminate_confirmed wp_observe)
        (use d l s1(2,3) i in \<open>auto intro!: Q E books_mark stopped_upd simp: live_def\<close>)
  qed
  have start: "wp (if pd_assigned ?p = [] then ret []
               else attempt (then_do (ask_covered out (map it_height (pd_assigned ?p)))
                      (\<lambda>cov. ret (filter (\<lambda>a. it_height a \<in> cov) (pd_assigned ?p))))
                 (\<lambda>e. if e = Coord_Error then ret [] else raise_exn e))
      (\<lambda>there s'. s' = s \<and> set there \<subseteq> set (pd_assigned ?p)) (\<lambda>e s'. s' = s \<and> \<not> calm_outside out \<and> e \<noteq> Coord_Error) s"
    by (intro wp_if wp_ret wp_attempt wp_then wp_ask_covered wp_raise) auto
  show ?thesis
    unfolding terminate_pod_def
  proof (intro wp_then wp_look_up wp_unless, goal_cases)
    case 1
    then show ?case by (intro Q b) (simp add: stopped_def pod_at_def exI [of _ ?p])
  next
    case 2
    have rec: "wp (unless (there = []) (then_do (observe_world (o_now out)) (\<lambda>t. change (record_proven cfg i there t))))
       (\<lambda>_ s1. books base s1 \<and> same_pod i (bt_pods s) (bt_pods s1)) E s"
      if "set there \<subseteq> set (pd_assigned ?p)" for there
      by (intro wp_unless wp_then wp_observe wp_change) (use b i that in \<open>auto intro!: books_record same_pod_refl same_pod_upd\<close>)
    show ?case
      unfolding pod_at_def
    proof (rule wp_mono [OF start], goal_cases)
      case (1 there s')
      then have "set there \<subseteq> set (pd_assigned ?p)" "s' = s" by blast+
      from rec [OF this(1)] show ?case unfolding \<open>s' = s\<close>
        by (intro wp_then) (erule wp_mono, auto intro: close simp: same_pod_def)
    qed (use E b in blast)
  qed
qed

section \<open>The limits\<close>

text \<open>The pods the bot counts as running, and what they cost an hour.\<close>

definition affordable :: "bot_cfg \<Rightarrow> pod list \<Rightarrow> bool" where
  "affordable cfg ps \<longleftrightarrow> length (filter live ps) \<le> bc_max_pods cfg
     \<and> sum_list (map (pod_rate cfg) (filter live ps)) \<le> bc_max_hourly cfg + 1 / 10 ^ 9"

lemma pod_rate_pos: "0 < bc_ceiling cfg \<Longrightarrow> 0 < pod_rate cfg p"
  by (simp add: pod_rate_def)

lemma live_upd:
  assumes "0 < bc_ceiling cfg" "live p' \<Longrightarrow> live (ps ! i) \<and> pd_cost p' = pd_cost (ps ! i)"
  shows "length (filter live (ps[i := p'])) \<le> length (filter live ps)
    \<and> sum_list (map (pod_rate cfg) (filter live (ps[i := p']))) \<le> sum_list (map (pod_rate cfg) (filter live ps))"
  using assms(2)
proof (induction ps arbitrary: i)
  case (Cons p ps)
  show ?case
  proof (cases i)
    case 0
    with Cons.prems pod_rate_pos [OF assms(1), of p] show ?thesis by (auto simp: pod_rate_def)
  next
    case (Suc j)
    with Cons.prems Cons.IH [of j] show ?thesis by auto
  qed
qed simp

lemma affordable_upd: "affordable cfg ps \<Longrightarrow> 0 < bc_ceiling cfg \<Longrightarrow> (live p' \<Longrightarrow> live (ps ! i) \<and> pd_cost p' = pd_cost (ps ! i)) \<Longrightarrow> affordable cfg (ps[i := p'])"
  using live_upd [of cfg p' ps i] unfolding affordable_def by linarith

definition good :: "bot_cfg \<Rightarrow> int \<Rightarrow> bot \<Rightarrow> bool" where
  "good cfg base s \<longleftrightarrow> 0 < bc_ceiling cfg \<and> books base s \<and> affordable cfg (bt_pods s)"

text \<open>What an exception leaves; the loop goes on after an error of the coordinator only.\<close>

definition left :: "bot_cfg \<Rightarrow> int \<Rightarrow> exn \<Rightarrow> bot \<Rightarrow> bool" where
  "left cfg base e s \<longleftrightarrow> books base s \<and> (e = Coord_Error \<longrightarrow> good cfg base s)"

lemma left_good: "good cfg base s \<Longrightarrow> left cfg base e s"
  by (simp add: left_def good_def)

text \<open>A step on one pod.\<close>

definition step_on :: "bot_cfg \<Rightarrow> int \<Rightarrow> nat \<Rightarrow> bot \<Rightarrow> bot \<Rightarrow> bool" where
  "step_on cfg base i s s' \<longleftrightarrow> good cfg base s' \<and> (\<exists>p'. bt_pods s' = (bt_pods s)[i := p'])"

lemma step_refl: "good cfg base s \<Longrightarrow> step_on cfg base i s s"
  unfolding step_on_def by (intro conjI exI [of _ "bt_pods s ! i"]) simp_all

lemma step_trans: "step_on cfg base i s s1 \<Longrightarrow> step_on cfg base i s1 s2 \<Longrightarrow> step_on cfg base i s s2"
  by (auto simp: step_on_def)

lemma step_stop:
  assumes "good cfg base s" "i < length (bt_pods s)"
  shows "wp (terminate_pod cfg out i note result) (\<lambda>_. step_on cfg base i s) (left cfg base) s"
proof (rule wp_terminate_pod)
  fix s' assume "books base s'" "stopped i (bt_pods s) (bt_pods s')"
  with assms(1) show "step_on cfg base i s s'" by (auto simp: step_on_def good_def stopped_def intro: affordable_upd)
qed (use assms in \<open>auto simp: good_def left_def\<close>)

lemma step_touch:
  assumes "good cfg base s" "i < length (bt_pods s)" "pd_id p' = pd_id (bt_pods s ! i)" "pd_terminated p' = pd_terminated (bt_pods s ! i)"
    "pd_assigned p' = pd_assigned (bt_pods s ! i)" "pd_cost p' = pd_cost (bt_pods s ! i)" "pd_assigned p' \<noteq> [] \<Longrightarrow> pd_state p' = Working"
    "bt_pods s' = (bt_pods s)[i := p']" "bt_db s' = bt_db s"
  shows "step_on cfg base i s s'"
proof -
  have "books base s'" using assms(1) by (intro books_touch [OF _ assms(2-5,7-9)]) (auto simp: good_def)
  moreover have "affordable cfg (bt_pods s')" unfolding assms(8) using assms(1,4,6) by (auto simp: good_def live_def intro!: affordable_upd)
  ultimately show ?thesis using assms(1,8) by (auto simp: step_on_def good_def)
qed

lemma step_record:
  assumes "good cfg base s" "i < length (bt_pods s)" "set ended \<subseteq> set (pd_assigned (bt_pods s ! i))"
  shows "step_on cfg base i s (record_proven cfg i ended t s)"
  using assms books_record [of base s i ended cfg t]
  by (auto simp: step_on_def good_def live_def intro!: affordable_upd)

lemma step_give:
  assumes "good cfg base s" "i < length (bt_pods s)" "live (bt_pods s ! i)" "pd_assigned (bt_pods s ! i) = []"
    "distinct (map snd chunk)" "snd ` set chunk \<inter> busy s = {}"
  shows "step_on cfg base i s (give cfg i pk now chunk s)"
  using assms books_give [of base s i chunk cfg pk now]
  by (auto simp: step_on_def good_def intro!: affordable_upd)

text \<open>The pods of a loop that are still to come are untouched.\<close>

lemma wp_each_rest:
  assumes "I xs s" and "\<And>x xs s. I (x # xs) s \<Longrightarrow> wp (f x) (\<lambda>_. I xs) E s" and "\<And>s. I [] s \<Longrightarrow> Q () s"
  shows "wp (each xs f) Q E s"
  using assms(1)
proof (induction xs arbitrary: s)
  case (Cons x xs)
  from assms(2) [OF Cons.prems] show ?case by (auto intro!: wp_then elim!: wp_mono intro: Cons.IH)
qed (simp add: wp_ret assms(3))

definition to_come :: "(pod \<Rightarrow> bool) \<Rightarrow> nat list \<Rightarrow> bot \<Rightarrow> bool" where
  "to_come P is s \<longleftrightarrow> distinct is \<and> (\<forall>i \<in> set is. i < length (bt_pods s) \<and> P (bt_pods s ! i))"

lemma wp_each_pod:
  assumes "good cfg base s" "to_come P is s"
    and "\<And>i s. good cfg base s \<Longrightarrow> i < length (bt_pods s) \<Longrightarrow> P (bt_pods s ! i) \<Longrightarrow> wp (f i) (\<lambda>_. step_on cfg base i s) (left cfg base) s"
  shows "wp (each is f) (\<lambda>_. good cfg base) (left cfg base) s"
proof (rule wp_each_rest [where I = "\<lambda>is s. good cfg base s \<and> to_come P is s"])
  fix i "is" s assume i: "good cfg base s \<and> to_come P (i # is) s"
  then have "wp (f i) (\<lambda>_. step_on cfg base i s) (left cfg base) s" by (intro assms(3)) (auto simp: to_come_def)
  then show "wp (f i) (\<lambda>_ s'. good cfg base s' \<and> to_come P is s') (left cfg base) s"
  proof (rule wp_mono)
    fix s' assume "step_on cfg base i s s'"
    with i show "good cfg base s' \<and> to_come P is s'" by (auto simp: step_on_def to_come_def nth_list_update)
  qed
qed (use assms(1,2) in auto)

lemma pods_in_to_come:
  "to_come (\<lambda>p. live p \<and> pd_state p \<in> S) (pods_in S s) s"
  by (auto simp: to_come_def pods_in_def)

lemma free_state: "good cfg base s \<Longrightarrow> i < length (bt_pods s) \<Longrightarrow> pd_state (bt_pods s ! i) \<noteq> Working \<Longrightarrow> pd_assigned (bt_pods s ! i) = []"
  unfolding good_def books_def working_only_def by (metis nth_mem)

section \<open>Watching pods\<close>

lemma step_state:
  assumes "good cfg base s" "i < length (bt_pods s)" "pd_assigned (bt_pods s ! i) = []"
  shows "step_on cfg base i s (upd_pod i (\<lambda>p. p\<lparr>pd_state := st\<rparr>) s)"
    "step_on cfg base i s (upd_pod i (\<lambda>p. p\<lparr>pd_state := st, pd_finished := x\<rparr>) s)"
  by (rule step_touch [OF assms(1,2), where p' = "(bt_pods s ! i)\<lparr>pd_state := st\<rparr>"];
      simp add: upd_pod_def assms(3))
    (rule step_touch [OF assms(1,2), where p' = "(bt_pods s ! i)\<lparr>pd_state := st, pd_finished := x\<rparr>"];
      simp add: upd_pod_def assms(3))

lemma step_finished:
  assumes "good cfg base s" "i < length (bt_pods s)"
  shows "step_on cfg base i s (upd_pod i (\<lambda>p. p\<lparr>pd_finished := x\<rparr>) s)"
proof (rule step_touch [OF assms, where p' = "(bt_pods s ! i)\<lparr>pd_finished := x\<rparr>"])
  assume "pd_assigned ((bt_pods s ! i)\<lparr>pd_finished := x\<rparr>) \<noteq> []"
  then show "pd_state ((bt_pods s ! i)\<lparr>pd_finished := x\<rparr>) = Working" using free_state [OF assms] by auto
qed (simp_all add: upd_pod_def)

lemma wp_watch_ssh:
  assumes "good cfg base s" "i < length (bt_pods s)" "live (bt_pods s ! i) \<and> pd_assigned (bt_pods s ! i) = []"
  shows "wp (watch_ssh cfg out now seen i) (\<lambda>_. step_on cfg base i s) (left cfg base) s"
  unfolding watch_ssh_def
  by (intro wp_then wp_look_up)
    (auto split: option.split intro!: wp_if wp_change wp_ret step_state(1) step_stop step_refl assms(1,2) simp: assms(3))

lemma wp_watch_boot:
  assumes "good cfg base s" "i < length (bt_pods s)" "live (bt_pods s ! i) \<and> pd_assigned (bt_pods s ! i) = []"
  shows "wp (watch_boot cfg out now i) (\<lambda>_. step_on cfg base i s) (left cfg base) s"
  unfolding watch_boot_def
  by (intro wp_then wp_look_up wp_observe)
    (auto split: option.split intro!: wp_if wp_change wp_ret step_state(1) step_stop step_refl assms(1,2) simp: assms(3))

lemma good_books: "good cfg base s \<Longrightarrow> books base s"
  by (simp add: good_def)

lemma step_good: "step_on cfg base i s s' \<Longrightarrow> good cfg base s' \<and> length (bt_pods s') = length (bt_pods s)"
  by (auto simp: step_on_def)

lemma wp_step_trans: "step_on cfg base i s s1 \<Longrightarrow> wp m (\<lambda>_. step_on cfg base i s1) E s1 \<Longrightarrow> wp m (\<lambda>_. step_on cfg base i s) E s1"
  by (erule wp_mono) (auto intro: step_trans)

lemma wp_judge:
  assumes s1: "good cfg base s1" "i < length (bt_pods s1)"
  shows "wp (judge cfg out now i) (\<lambda>_. step_on cfg base i s1) (left cfg base) s1"
proof -
  have fin: "wp (if now - t > bc_fail_grace cfg then terminate_pod cfg out i nt W_Failed else ret ()) (\<lambda>_. step_on cfg base i s1) (left cfg base)
      (upd_pod i (\<lambda>p. p\<lparr>pd_finished := Some t\<rparr>) s1)" for t nt
  proof -
    let ?s2 = "upd_pod i (\<lambda>p. p\<lparr>pd_finished := Some t\<rparr>) s1"
    note st = step_finished [OF s1, of "Some t"]
    have g: "good cfg base ?s2" "i < length (bt_pods ?s2)" using step_good [OF st] s1 by simp_all
    have "wp (if now - t > bc_fail_grace cfg then terminate_pod cfg out i nt W_Failed else ret ()) (\<lambda>_. step_on cfg base i ?s2) (left cfg base) ?s2"
      by (intro wp_if step_stop wp_ret step_refl g)
    then show ?thesis by (rule wp_step_trans [OF st])
  qed
  have status: "wp (attempt (call (o_finished out pid)) (caught False)) (\<lambda>_ s'. s' = s1) (\<lambda>e s'. s' = s1 \<and> True) s1" for pid
    unfolding caught_def by (intro wp_attempt wp_call wp_if wp_ret wp_raise) auto
  show ?thesis
    unfolding judge_def Let_def
    by (intro wp_then wp_look_up quiet_wp [OF quiet_some_not_held] wp_if step_stop s1 wp_change step_state(2) wp_then_same [OF status] step_finished fin)
      (auto simp: pod_at_def left_good [OF s1(1)])
qed

lemma wp_progress:
  assumes g: "good cfg base s" and i: "i < length (bt_pods s)"
  shows "wp (progress cfg out now i) (\<lambda>_. step_on cfg base i s) (left cfg base) s"
  unfolding progress_def Let_def
proof (intro wp_then wp_look_up quiet_wp [OF quiet_ask_covered] wp_unless wp_change, goal_cases)
  case (1 cov)
  from wp_judge [OF g i] show ?case .
next
  case (2 cov)
  have st: "step_on cfg base i s (record_proven cfg i (filter (\<lambda>a. it_height a \<in> cov) (pd_assigned (pod_at i s))) now s)"
    by (rule step_record [OF g i]) (auto simp: pod_at_def)
  from step_good [OF st] i show ?case by (intro wp_step_trans [OF st] wp_judge) auto
qed (use g left_good in auto)

lemma wp_observe_pods:
  assumes "good cfg base s"
  shows "wp (observe cfg out now) (\<lambda>_. good cfg base) (left cfg base) s"
proof -
  have loop: "wp (each (pods_in S s) f) (\<lambda>_. good cfg base) (left cfg base) s"
    if "good cfg base s" and "\<And>i s. good cfg base s \<Longrightarrow> i < length (bt_pods s) \<Longrightarrow> live (bt_pods s ! i) \<and> pd_state (bt_pods s ! i) \<in> S
      \<Longrightarrow> wp (f i) (\<lambda>_. step_on cfg base i s) (left cfg base) s" for S f s
    using that by (intro wp_each_pod [OF that(1) pods_in_to_come]) auto
  have ssh: "wp (unless (pods_in {Waiting_Ssh} s = []) (then_do (attempt (call (o_pods out)) (caught [])) (\<lambda>seen. each (pods_in {Waiting_Ssh} s) (watch_ssh cfg out now seen))))
      (\<lambda>_. good cfg base) (left cfg base) s"
  proof (intro wp_unless wp_then quiet_wp [OF quiet_attempt [OF quiet_call quiet_caught]])
    fix seen show "wp (each (pods_in {Waiting_Ssh} s) (watch_ssh cfg out now seen)) (\<lambda>_. good cfg base) (left cfg base) s"
      by (rule loop [OF assms]) (auto intro!: wp_watch_ssh dest: free_state)
  qed (use assms left_good in auto)
  have boot: "wp (each (pods_in {Booting} s) (watch_boot cfg out now)) (\<lambda>_. good cfg base) (left cfg base) s" if "good cfg base s" for s
    by (rule loop [OF that]) (auto intro!: wp_watch_boot dest: free_state)
  have work: "wp (each (pods_in {Working} s) (progress cfg out now)) (\<lambda>_. good cfg base) (left cfg base) s" if "good cfg base s" for s
    by (rule loop [OF that]) (auto intro!: wp_progress)
  show ?thesis
    unfolding observe_def
    by (intro wp_then wp_look_up wp_mono [OF ssh] wp_mono [OF boot] work) auto
qed

section \<open>Giving out work\<close>

lemma pending_queue_fresh:
  "distinct (map snd (pending_queue taken ok rows)) \<and> snd ` set (pending_queue taken ok rows) \<inter> taken = {}"
proof -
  let ?f = "\<lambda>(sid, h) (out, seen). if h \<notin> taken \<and> h \<notin> seen \<and> ok h then (out @ [(sid, h)], insert h seen) else (out, seen)"
  let ?P = "\<lambda>(out, seen). distinct (map snd out) \<and> snd ` set out \<inter> taken = {} \<and> snd ` set out \<subseteq> seen"
  have "?P (fold ?f js ([], {}))" for js
    by (rule fold_invariant [where Q = "\<lambda>_. True"]) (auto split: if_splits, force+)
  then have "?P (fold ?f (concat (map (\<lambda>q. map (Pair (Some (qu_id q))) (qu_todo q)) rows)) ([], {}))" .
  then show ?thesis unfolding pending_queue_def by (auto split: prod.splits)
qed

lemma pending_trial_fresh: "distinct trial \<Longrightarrow> distinct (map snd (pending_trial taken ok cov trial)) \<and> snd ` set (pending_trial taken ok cov trial) \<inter> taken = {}"
  by (auto simp: pending_trial_def comp_def)

definition trial_ok :: "bot_cfg \<Rightarrow> bool" where
  "trial_ok cfg \<longleftrightarrow> (\<forall>t. bc_trial cfg = Some t \<longrightarrow> distinct t)"

lemma wp_pending:
  assumes "trial_ok cfg" and "\<And>todo. distinct (map snd todo) \<Longrightarrow> snd ` set todo \<inter> taken = {} \<Longrightarrow> Q todo s" and "\<And>e. E e s"
  shows "wp (pending_work cfg out taken b) Q E s"
proof (cases "bc_trial cfg")
  case None
  then show ?thesis unfolding pending_work_def ask_queue_def
    by (simp, intro wp_then quiet_wp [OF quiet_ask] wp_observe wp_ret assms(2,3)) (use pending_queue_fresh in blast)+
next
  case (Some t)
  with assms(1) have "distinct t" by (simp add: trial_ok_def)
  with Some show ?thesis unfolding pending_work_def
    by (simp, intro wp_then quiet_wp [OF quiet_ask_covered] wp_observe wp_ret assms(2,3)) (use pending_trial_fresh in blast)+
qed

definition same_core :: "bot \<Rightarrow> bot \<Rightarrow> bool" where
  "same_core s s' \<longleftrightarrow> bt_pods s' = bt_pods s \<and> bt_db s' = bt_db s"

lemma same_core_good: "same_core s s' \<Longrightarrow> good cfg base s \<Longrightarrow> good cfg base s'"
  by (simp add: same_core_def good_def books_def)

lemma same_core_books: "same_core s s' \<Longrightarrow> books base s \<Longrightarrow> books base s'"
  by (simp add: same_core_def books_def)

lemma wp_identity_for: "wp (identity_for out sid) (\<lambda>_. same_core s) (\<lambda>_. same_core s) s"
  unfolding identity_for_def ask_register_def ask_sponsorship_def
  by (intro wp_then wp_look_up)
    (auto split: option.split intro!: wp_ret wp_then quiet_wp [OF quiet_ask] wp_call wp_change simp: same_core_def)

lemma wp_identities: "wp (collect (map (identity_for out) sids)) (\<lambda>_. same_core s) (\<lambda>_. same_core s) s"
proof (induction sids arbitrary: s)
  case (Cons sid sids)
  have "wp (collect (map (identity_for out) sids)) (\<lambda>xs. wp (ret (x # xs)) (\<lambda>_. same_core s) E) (\<lambda>_. same_core s) s1"
    if "same_core s s1" for s1 x E
    by (rule wp_mono [OF Cons.IH]) (use that in \<open>auto intro!: wp_ret simp: same_core_def\<close>)
  then show ?case by (auto intro!: wp_then intro: wp_mono [OF wp_identity_for])
qed (simp add: wp_ret same_core_def)

lemma wp_assign_one:
  assumes ok: "trial_ok cfg" and g: "good cfg base s" and i: "i < length (bt_pods s)" and p: "live (bt_pods s ! i) \<and> pd_state (bt_pods s ! i) \<in> {Idle}"
  shows "wp (assign_one cfg out now i) (\<lambda>_. step_on cfg base i s) (left cfg base) s"
proof -
  have rest: "wp (change (give cfg i pk now chunk)) (\<lambda>_. wp (then_do (look_up (\<lambda>s. pd_id (pod_at i s))) (\<lambda>pid.
         attempt (call (o_start out pid work))
           (\<lambda>e. if e = Start_Failed then terminate_pod cfg out i ''could not start work'' W_Failed else raise_exn e)))
       (\<lambda>_. step_on cfg base i s) (left cfg base)) (left cfg base) s1"
    if c: "same_core s s1" "distinct (map snd chunk)" "snd ` set chunk \<inter> busy s = {}" for s1 chunk pk work
  proof -
    have g1: "good cfg base s1" "i < length (bt_pods s1)" "live (bt_pods s1 ! i)" "pd_assigned (bt_pods s1 ! i) = []" "busy s1 = busy s" "step_on cfg base i s s1"
      using same_core_good [OF c(1) g] step_refl [OF g, of i] c(1) i p free_state [OF g i] by (auto simp: same_core_def busy_def step_on_def)
    let ?s2 = "give cfg i pk now chunk s1"
    have st: "step_on cfg base i s1 ?s2" using c(2,3) g1 by (intro step_give) auto
    have g2: "good cfg base ?s2" "i < length (bt_pods ?s2)" using step_good [OF st] g1 by auto
    have "wp (attempt (call (o_start out pid work))
           (\<lambda>e. if e = Start_Failed then terminate_pod cfg out i ''could not start work'' W_Failed else raise_exn e))
        (\<lambda>_. step_on cfg base i ?s2) (left cfg base) ?s2" for pid
      by (intro wp_attempt wp_call wp_if step_stop step_refl wp_raise left_good [OF g2(1)] g2)
    then have "wp (attempt (call (o_start out pid work))
           (\<lambda>e. if e = Start_Failed then terminate_pod cfg out i ''could not start work'' W_Failed else raise_exn e))
        (\<lambda>_. step_on cfg base i s) (left cfg base) ?s2" for pid
      by (intro wp_step_trans [OF step_trans [OF g1(6) st]]) (auto elim!: wp_mono intro: step_trans [OF st])
    then show ?thesis by (intro wp_change wp_then wp_look_up)
  qed
  have q: "quiet (ask_proving out sid)" for sid by (simp add: ask_proving_def quiet_ask)
  have t: "distinct (map snd (take k todo))" if "distinct (map snd todo)" for k and todo :: "job list" using that by (metis distinct_take take_map)
  have d: "snd ` set (take k todo) \<inter> busy s = {}" if "snd ` set todo \<inter> busy s = {}" for k and todo :: "job list"
    using that set_take_subset [of k todo] by blast
  have bk: "left cfg base e s'" if "same_core s s'" for s' e using left_good [OF same_core_good [OF that g]] .
  show ?thesis
    unfolding assign_one_def Let_def
    by (intro wp_then wp_look_up wp_pending [OF ok] wp_if step_stop g i left_good [OF g] wp_mono [OF wp_identities] wp_mono [OF quiet_wp [OF quiet_each [OF q]]])
      (auto intro!: rest t d bk)
qed

lemma wp_assign:
  assumes "trial_ok cfg" "good cfg base s"
  shows "wp (assign cfg out now) (\<lambda>_. good cfg base) (left cfg base) s"
  unfolding assign_def
  by (intro wp_then wp_look_up wp_each_pod [OF assms(2) pods_in_to_come] wp_assign_one assms(1))

section \<open>Renting pods\<close>

lemma good_upd [simp]:
  "good cfg base (s\<lparr>bt_n := n\<rparr>) = good cfg base s" "good cfg base (s\<lparr>bt_capacity_at := t\<rparr>) = good cfg base s"
  "good cfg base (s\<lparr>bt_refusals := k, bt_capacity_at := t\<rparr>) = good cfg base s" "good cfg base (s\<lparr>bt_stop := x\<rparr>) = good cfg base s"
  "good cfg base (s\<lparr>bt_errors := k\<rparr>) = good cfg base s" "good cfg base (refused cfg' now s) = good cfg base s"
  "good cfg base (coord_failed s) = good cfg base s" "good cfg base (s\<lparr>bt_waits := k\<rparr>) = good cfg base s"
  by (simp_all add: good_def books_def refused_def coord_failed_def)

lemma books_upd [simp]: "books base (s\<lparr>bt_n := n\<rparr>) = books base s"
  by (simp add: books_def)

lemma affordable_add:
  "affordable cfg ps \<Longrightarrow> \<not> live p \<Longrightarrow> affordable cfg (ps @ [p])"
  "length (filter live ps) < bc_max_pods cfg \<Longrightarrow> sum_list (map (pod_rate cfg) (filter live ps)) + bc_ceiling cfg \<le> bc_max_hourly cfg + 1 / 10 ^ 9
    \<Longrightarrow> 0 < bc_ceiling cfg \<Longrightarrow> pod_rate cfg p \<le> bc_ceiling cfg \<Longrightarrow> affordable cfg (ps @ [p])"
  by (auto simp: affordable_def)

lemma add_pod_pods: "\<exists>p. bt_pods (add_pod cfg info t s) = bt_pods s @ [p] \<and> pd_cost p = in_cost info"
  by (simp add: add_pod_def Let_def)

lemma may_deploy_n [simp]: "may_deploy cfg now (s\<lparr>bt_n := k\<rparr>) = may_deploy cfg now s"
  by (simp add: may_deploy_def hourly_def spend_def)

lemma wp_keep_pod:
  assumes "good cfg base s" "may_deploy cfg now s"
  shows "wp (keep_pod cfg out now info) (\<lambda>_. good cfg base) (left cfg base) s"
  unfolding keep_pod_def
proof (intro wp_then [where m = "observe_world _"] wp_observe wp_then [where m = "look_up _"] wp_look_up wp_then [where m = "change (add_pod _ _ _)"] wp_change wp_if)
  fix created
  let ?s = "add_pod cfg info created s"
  obtain p where p: "bt_pods ?s = bt_pods s @ [p]" "pd_cost p = in_cost info" using add_pod_pods by blast
  have b: "books base ?s" using books_add assms(1) by (auto simp: good_def)
  {
    show "wp (then_do (terminate_pod cfg out (length (bt_pods s)) ''its price is over the ceiling'' W_Cancelled) (\<lambda>_.
         then_do (change (\<lambda>s. s\<lparr>bt_capacity_at := now + bc_backoff cfg\<rparr>)) (\<lambda>_. ret False))) (\<lambda>_. good cfg base) (left cfg base) ?s"
    proof (intro wp_then wp_terminate_pod [OF b] wp_change wp_ret)
      fix s' assume "books base s'" "stopped (length (bt_pods s)) (bt_pods ?s) (bt_pods s')"
      then show "good cfg base (s'\<lparr>bt_capacity_at := now + bc_backoff cfg\<rparr>)"
        using assms(1) affordable_add(1) by (auto simp: good_def stopped_def p(1) books_def)
    qed (simp_all add: p(1) left_def)
  next
    assume "\<not> bc_ceiling cfg < in_cost info"
    with p(2) assms have "affordable cfg (bt_pods s @ [p])"
      by (intro affordable_add(2)) (auto simp: may_deploy_def hourly_def pod_rate_def good_def)
    with b assms(1) p(1) show "wp (ret True) (\<lambda>_. good cfg base) (left cfg base) ?s" by (intro wp_ret) (simp add: good_def)
  }
qed

lemma wp_deploy_one:
  assumes "good cfg base s" "may_deploy cfg now s"
  shows "wp (deploy_one cfg out now) (\<lambda>_. good cfg base) (left cfg base) s"
proof -
  let ?s = "s\<lparr>bt_n := bt_n s + 1\<rparr>"
  have deploy: "wp (attempt (then_do (call (o_deploy out name)) (\<lambda>info. ret (Some info))) (\<lambda>e. if e = RunPod_Error then ret None else raise_exn e))
      (\<lambda>_ s'. s' = ?s) (\<lambda>e s'. s' = ?s \<and> True) ?s" for name
    by (intro wp_attempt wp_then wp_call wp_ret wp_if wp_raise) auto
  have answer: "wp (case answer of None \<Rightarrow> then_do (change (refused cfg now)) (\<lambda>_. ret False)
       | Some None \<Rightarrow> then_do (change (\<lambda>s. s\<lparr>bt_refusals := 0, bt_capacity_at := now + bc_backoff cfg\<rparr>)) (\<lambda>_. ret False)
       | Some (Some info) \<Rightarrow> keep_pod cfg out now info) (\<lambda>_. good cfg base) (left cfg base) ?s" for answer
    using assms by (auto split: option.split intro!: wp_then wp_change wp_ret wp_keep_pod simp: good_def books_def refused_def)
  show ?thesis
    unfolding deploy_one_def
    by (intro wp_then [where m = "change _"] wp_change wp_then [where m = "look_up _"] wp_look_up wp_then_same [OF deploy] answer)
      (use assms(1) in \<open>auto intro: left_good\<close>)
qed

lemma wp_launch_loop: "good cfg base s \<Longrightarrow> wp (launch_loop cfg out now want) (\<lambda>_. good cfg base) (left cfg base) s"
proof (induction want arbitrary: s)
  case (Suc want)
  have "wp (then_do (deploy_one cfg out now) (\<lambda>go. if go then launch_loop cfg out now want else ret ())) (\<lambda>_. good cfg base) (left cfg base) s"
    if "may_deploy cfg now s"
    by (rule wp_then, rule wp_mono [OF wp_deploy_one [OF Suc.prems that]]) (auto intro!: wp_if wp_ret Suc.IH)
  with Suc.prems show ?case
    unfolding launch_loop.simps by (intro wp_then [where m = "look_up _"] wp_look_up wp_if wp_ret) auto
qed (simp add: wp_ret)

lemma wp_launch:
  assumes "trial_ok cfg" "good cfg base s"
  shows "wp (launch cfg out now) (\<lambda>_. good cfg base) (left cfg base) s"
  unfolding launch_def
  by (intro wp_then wp_look_up wp_pending [OF assms(1)] wp_launch_loop assms(2) left_good [OF assms(2)])

section \<open>One replay at a time\<close>

lemma good_regen:
  "good cfg base s \<Longrightarrow> db_work d = db_work (bt_db s) \<Longrightarrow> db_pods d = db_pods (bt_db s) \<Longrightarrow> db_seq d = db_seq (bt_db s) \<Longrightarrow> one_replay d
    \<Longrightarrow> good cfg base (s\<lparr>bt_db := d\<rparr>)"
  "good cfg base s \<Longrightarrow> db_work d = db_work (bt_db s) \<Longrightarrow> db_pods d = db_pods (bt_db s) \<Longrightarrow> db_seq d = db_seq (bt_db s) \<Longrightarrow> one_replay d
    \<Longrightarrow> good cfg base (s\<lparr>bt_db := d, bt_regen := x\<rparr>)"
  by (auto simp: good_def books_def log_ok_def rented_ok_def)

lemma one_replay_upd:
  assumes "one_replay d" "\<And>r. rq_height (f r) = rq_height r" "\<And>r. in_flight (f r) \<Longrightarrow> in_flight r"
    "db_regen d' = upd_where P f (db_regen d)"
  shows "one_replay d'"
proof -
  have "length (filter in_flight (upd_where P f t)) \<le> length (filter in_flight t)" for t
    using assms(3) by (induction t) (auto simp: upd_where_def)
  moreover have "map rq_height (upd_where P f t) = map rq_height t" for t
    using assms(2) by (induction t) (auto simp: upd_where_def)
  ultimately show ?thesis using assms(1,4) le_trans unfolding one_replay_def by metis
qed

lemma replay_finish: "one_replay d \<Longrightarrow> one_replay (regen_finish h rc detail now d)"
  by (erule one_replay_upd) (auto simp: regen_finish_def in_flight_def)

lemma replay_reap: "one_replay d \<Longrightarrow> one_replay (snd (regen_reap now alive d))"
  by (erule one_replay_upd) (auto simp: regen_reap_def Let_def in_flight_def)

lemma replay_start:
  assumes "one_replay d" "regen_inflight d = None"
  shows "one_replay (regen_start h pid rung now d)"
proof -
  have none: "filter in_flight (db_regen d) = []"
  proof (rule ccontr)
    assume "filter in_flight (db_regen d) \<noteq> []"
    then have "sort_key (\<lambda>r. the (rq_started r)) (sort_key rq_height (filter in_flight (db_regen d))) \<noteq> []" by (metis length_0_conv length_sort)
    with assms(2) show False by (simp add: regen_inflight_def split: list.splits)
  qed
  let ?up = "upd_where (\<lambda>r. rq_height r = h) (\<lambda>r. r\<lparr>rq_started := Some now, rq_pid := Some pid, rq_rung := rung\<rparr>)"
  have "length (filter in_flight (?up t)) \<le> 1" if "distinct (map rq_height t)" "filter in_flight t = []" for t
    using that
  proof (induction t)
    case (Cons r t)
    have rest: "filter in_flight (?up t) = []" if "h \<notin> rq_height ` set t"
      using that Cons.prems(2) by (auto simp: upd_where_def filter_empty_conv split: if_splits)
    show ?case
    proof (cases "rq_height r = h")
      case True
      with rest Cons.prems(1) show ?thesis by (auto simp: upd_where_def)
    next
      case False
      with Cons show ?thesis by (auto simp: upd_where_def split: if_splits)
    qed
  qed (simp add: upd_where_def)
  moreover have "map rq_height (?up t) = map rq_height t" for t by (induction t) (auto simp: upd_where_def)
  ultimately show ?thesis using assms(1) none by (simp add: one_replay_def regen_start_def)
qed

lemma replay_enqueue: "one_replay d \<Longrightarrow> one_replay (snd (regen_enqueue pairs now d))"
proof -
  let ?row = "\<lambda>sid h. \<lparr> rq_height = h, rq_sid = sid, rq_queued = now, rq_started = None, rq_finished = None, rq_pid = None, rq_rung = None, rq_end = None, rq_detail = None \<rparr>"
  let ?P = "\<lambda>t. distinct (map rq_height t) \<and> length (filter in_flight t) \<le> 1"
  assume "one_replay d"
  then have "?P (fold (\<lambda>(sid, h). ins_ignore rq_height (?row sid h)) pairs (db_regen d))"
    by (intro fold_invariant [where Q = "\<lambda>_. True" and P = ?P]) (auto simp: one_replay_def ins_ignore_def in_flight_def)
  then show ?thesis by (simp add: one_replay_def regen_enqueue_def Let_def)
qed

lemma good_replay: "good cfg base s \<Longrightarrow> one_replay (bt_db s)"
  by (simp add: good_def books_def)

lemma wp_regen_body:
  assumes "good cfg base s"
  shows "wp (regen_body out now) (\<lambda>_. good cfg base) (\<lambda>_. good cfg base) s"
proof -
  have fin: "good cfg base (s\<lparr>bt_db := regen_finish h rc detail now (bt_db s)\<rparr>)"
      "good cfg base (s\<lparr>bt_db := regen_finish h rc detail now (bt_db s), bt_regen := x\<rparr>)" if "good cfg base s" for s h rc detail x
    using replay_finish [OF good_replay [OF that]] by (auto intro!: good_regen that simp: regen_finish_def)
  have start: "good cfg base (s\<lparr>bt_db := regen_start h pid rung now (bt_db s), bt_regen := x\<rparr>)"
    if "good cfg base s" "regen_inflight (bt_db s) = None" for s h pid rung x
    using replay_start [OF good_replay [OF that(1)] that(2)] by (auto intro!: good_regen that simp: regen_start_def)
  show ?thesis
    unfolding regen_body_def
    by (intro wp_then [where m = "look_up _"] wp_look_up)
      (auto split: option.split intro!: wp_then wp_call wp_ret wp_change wp_observe assms fin start)
qed

lemma wp_regen_look:
  assumes "good cfg base s"
  shows "wp (regen_look out now) (\<lambda>_. good cfg base) (left cfg base) s"
  unfolding regen_look_def caught_def
  by (intro wp_attempt, rule wp_mono [OF wp_regen_body [OF assms]]) (auto intro!: wp_if wp_raise wp_ret left_good)

section \<open>Looks and runs\<close>

lemma wp_ask_reconcile:
  assumes "good cfg base s"
  shows "wp (if b then ask_reconcile out else ret ()) (\<lambda>_. good cfg base) (\<lambda>_. good cfg base) s"
  unfolding ask_reconcile_def by (intro wp_if quiet_wp [OF quiet_ask] wp_ret assms)

text \<open>Going on after an error of the coordinator.\<close>

lemma wp_go_on:
  assumes "wp m (\<lambda>_. good cfg base) (left cfg base) s" and "\<And>s. good cfg base s \<Longrightarrow> quiet k"
  shows "wp (attempt m (\<lambda>e. if e = Coord_Error then then_do (change coord_failed) (\<lambda>_. k) else raise_exn e)) (\<lambda>_. good cfg base) (left cfg base) s"
proof (rule wp_attempt, rule wp_mono [OF assms(1)])
  fix e s' assume l: "left cfg base e s'"
  have "wp k (\<lambda>_. good cfg base) (left cfg base) (coord_failed s')" if "good cfg base s'"
    using that assms(2) [OF that] by (intro quiet_wp left_good) simp_all
  with l show "wp (if e = Coord_Error then then_do (change coord_failed) (\<lambda>_. k) else raise_exn e) (\<lambda>_. good cfg base) (left cfg base) s'"
    by (intro wp_if wp_then wp_change wp_raise) (auto simp: left_def)
qed

lemma wp_look_board:
  assumes "good cfg base s"
  shows "wp (look_board cfg out now) (\<lambda>_. good cfg base) (left cfg base) s"
  unfolding look_board_def
proof (rule wp_go_on)
  show "wp (then_do (if bc_trial cfg = None then ask_reconcile out else ret ()) (\<lambda>_. then_do (observe cfg out now) (\<lambda>_. ret True)))
      (\<lambda>_. good cfg base) (left cfg base) s"
    by (intro wp_then, rule wp_mono [OF wp_ask_reconcile [OF assms]])
      (auto intro!: wp_then wp_ret left_good intro: wp_mono [OF wp_observe_pods])
qed (rule quiet_ret)

lemma quiet_nothing_left: "quiet (nothing_left cfg out)"
  unfolding nothing_left_def by (intro quiet_then quiet_look quiet_if quiet_ret quiet_pending)

lemma wp_look_work:
  assumes "trial_ok cfg" "good cfg base s"
  shows "wp (look_work cfg out now) (\<lambda>_. good cfg base) (left cfg base) s"
  unfolding look_work_def
proof (rule wp_go_on)
  have last: "wp (then_do (look_up (\<lambda>s. bt_stop s = Some Stop_RunPod)) (\<lambda>gone. if gone then ret True else
      then_do (nothing_left cfg out) (\<lambda>over. if over
        then then_do (if bc_trial cfg = None then ask_reconcile out else ret ()) (\<lambda>_.
          then_do (change (\<lambda>s. s\<lparr>bt_stop := (case bt_stop s of None \<Rightarrow> Some Stop_Done | x \<Rightarrow> x)\<rparr>)) (\<lambda>_. ret True))
        else then_do (change (\<lambda>s. s\<lparr>bt_errors := 0\<rparr>)) (\<lambda>_. ret False))))
      (\<lambda>_. good cfg base) (left cfg base) s" if g: "good cfg base s" for s
  proof -
    have ask': "wp (then_do (if bc_trial cfg = None then ask_reconcile out else ret ()) (\<lambda>_.
          then_do (change (\<lambda>s. s\<lparr>bt_stop := (case bt_stop s of None \<Rightarrow> Some Stop_Done | x \<Rightarrow> x)\<rparr>)) (\<lambda>_. ret True)))
        (\<lambda>_. good cfg base) (left cfg base) s"
      by (rule wp_then, rule wp_mono [OF wp_ask_reconcile [OF g]]) (auto intro!: wp_then wp_change wp_ret left_good)
    have reset: "wp (then_do (change (\<lambda>s. s\<lparr>bt_errors := 0\<rparr>)) (\<lambda>_. ret False)) (\<lambda>_. good cfg base) (left cfg base) s"
      using g by (intro wp_then wp_change wp_ret) simp
    show ?thesis
      by (intro wp_then [where m = "look_up _"] wp_look_up wp_if wp_ret g wp_then [where m = "nothing_left _ _"]
          quiet_wp [OF quiet_nothing_left] ask' reset left_good [OF g])
  qed
  show "wp (then_do (regen_look out now) (\<lambda>_. then_do (assign cfg out now) (\<lambda>_. then_do (launch cfg out now) (\<lambda>_.
      then_do (look_up (\<lambda>s. bt_stop s = Some Stop_RunPod)) (\<lambda>gone. if gone then ret True else
      then_do (nothing_left cfg out) (\<lambda>over. if over
        then then_do (if bc_trial cfg = None then ask_reconcile out else ret ()) (\<lambda>_.
          then_do (change (\<lambda>s. s\<lparr>bt_stop := (case bt_stop s of None \<Rightarrow> Some Stop_Done | x \<Rightarrow> x)\<rparr>)) (\<lambda>_. ret True))
        else then_do (change (\<lambda>s. s\<lparr>bt_errors := 0\<rparr>)) (\<lambda>_. ret False)))))))
      (\<lambda>_. good cfg base) (left cfg base) s"
    by (rule wp_then, rule wp_mono [OF wp_regen_look [OF assms(2)]], rule wp_then, rule wp_mono [OF wp_assign [OF assms(1)]], assumption,
        rule wp_then, rule wp_mono [OF wp_launch [OF assms(1)]], assumption, rule last)
qed (rule quiet_look)

lemma wp_look:
  assumes "trial_ok cfg" "good cfg base s"
  shows "wp (look cfg out) (\<lambda>_. good cfg base) (left cfg base) s"
proof -
  have rest: "wp (then_do (look_up bt_stop) (\<lambda>stop. if stop = Some Stop_Coordinator then ret True else
     then_do (look_up (over_budget cfg now)) (\<lambda>spent. if spent
       then then_do (change (\<lambda>s. s\<lparr>bt_stop := Some Stop_Budget\<rparr>)) (\<lambda>_. ret True)
     else if ok then look_work cfg out now else ret False))) (\<lambda>_. good cfg base) (left cfg base) s"
    if "good cfg base s" for s ok now
    using that by (intro wp_then wp_look_up wp_if wp_ret wp_change wp_look_work assms(1)) simp_all
  show ?thesis
    unfolding look_def
    by (rule wp_then, rule wp_observe, rule wp_then, rule wp_mono [OF wp_look_board [OF assms(2)]], rule rest)
qed

lemma wp_looks: "trial_ok cfg \<Longrightarrow> good cfg base s \<Longrightarrow> wp (looks cfg out n) (\<lambda>_. good cfg base) (left cfg base) s"
proof (induction n arbitrary: s)
  case (Suc n)
  have rest: "wp (if over then ret True else then_do (pause out (bc_sleep cfg)) (\<lambda>_. looks cfg out n)) (\<lambda>_. good cfg base) (left cfg base) s"
    if "good cfg base s" for over s
    by (intro wp_if wp_ret that wp_then quiet_wp [OF quiet_pause] Suc.IH Suc.prems(1) left_good [OF that])
  show ?case
    unfolding looks.simps by (rule wp_then, rule wp_mono [OF wp_look [OF Suc.prems]], rule rest)
qed (simp add: wp_ret)

text \<open>At the end every pod is stopped.\<close>

lemma wp_terminate_all:
  assumes calm: "calm_outside out" and b: "books base s"
  shows "wp (terminate_all cfg out reason) (\<lambda>_ s'. books base s' \<and> (\<forall>p \<in> set (bt_pods s'). \<not> live p)) (\<lambda>_ _. False) s"
proof -
  let ?over = "\<lambda>s'. books base s' \<and> (\<forall>p \<in> set (bt_pods s'). \<not> live p)"
  have stop: "wp (each (filter (\<lambda>i. live (bt_pods s ! i)) [0..<length (bt_pods s)]) (\<lambda>i. terminate_pod cfg out i reason W_Cancelled))
      (\<lambda>_. ?over) (\<lambda>_ _. False) s"
  proof (rule wp_each_rest [where I = "\<lambda>is s'. books base s' \<and> length (bt_pods s') = length (bt_pods s) \<and> set is \<subseteq> {..<length (bt_pods s)}
      \<and> (\<forall>i < length (bt_pods s). live (bt_pods s' ! i) \<longrightarrow> i \<in> set is)"])
    fix i "is" s1 assume i: "books base s1 \<and> length (bt_pods s1) = length (bt_pods s) \<and> set (i # is) \<subseteq> {..<length (bt_pods s)}
      \<and> (\<forall>j < length (bt_pods s). live (bt_pods s1 ! j) \<longrightarrow> j \<in> set (i # is))"
    show "wp (terminate_pod cfg out i reason W_Cancelled) (\<lambda>_ s'. books base s' \<and> length (bt_pods s') = length (bt_pods s)
        \<and> set is \<subseteq> {..<length (bt_pods s)} \<and> (\<forall>j < length (bt_pods s). live (bt_pods s' ! j) \<longrightarrow> j \<in> set is)) (\<lambda>_ _. False) s1"
      by (rule wp_terminate_pod [where base = base]) (use i calm in \<open>auto simp: stopped_def nth_list_update split: if_splits\<close>)
  qed (use b in \<open>auto simp: all_set_conv_all_nth\<close>)
  have list: "wp (attempt (then_do (call (o_pods out)) (\<lambda>ps. ret (filter (\<lambda>p. prefixed (bc_prefix cfg) (ls_name p)) ps))) (caught []))
      (\<lambda>_ s'. s' = s1) (\<lambda>e s'. s' = s1 \<and> False) s1" for s1
    unfolding caught_def by (intro wp_attempt wp_then wp_call wp_if wp_ret wp_raise) (use calm in \<open>auto simp: calm_outside_def\<close>)
  have sweep: "wp (each strays (\<lambda>p. then_do (terminate_confirmed cfg out (ls_id p) 6) (\<lambda>confirmed. unless confirmed
       (change (\<lambda>s. if ls_id p \<in> set (bt_unconfirmed s) then s else s\<lparr>bt_unconfirmed := bt_unconfirmed s @ [ls_id p]\<rparr>)))))
      (\<lambda>_. ?over) (\<lambda>_ _. False) s1" if "?over s1" for s1 strays
    by (rule wp_each [where I = ?over], rule that, intro wp_then wp_terminate_confirmed wp_unless wp_change) (use calm in \<open>auto simp: books_def\<close>)
  show ?thesis
    unfolding terminate_all_def
    by (intro wp_then [where m = "look_up _"] wp_look_up, rule wp_then, rule wp_mono [OF stop], intro wp_then_same [OF list] sweep) auto
qed

section \<open>Before anything is rented\<close>

definition fresh_bot :: "int \<Rightarrow> bot \<Rightarrow> bool" where
  "fresh_bot base s \<longleftrightarrow> bt_pods s = [] \<and> db_seq (bt_db s) = base \<and> db_ok (bt_db s)"

lemma fresh_books: "fresh_bot base s \<Longrightarrow> books base s"
  by (auto simp: fresh_bot_def books_def apart_def working_only_def log_ok_def rented_ok_def db_ok_def)

lemma fresh_end: "fresh_bot base s \<Longrightarrow> books base s \<and> (\<forall>p \<in> set (bt_pods s). \<not> live p)"
  using fresh_books by (auto simp: fresh_bot_def)

lemma fresh_good: "fresh_bot base s \<Longrightarrow> bot_cfg_ok cfg \<Longrightarrow> good cfg base s"
  using fresh_books [of base s] by (auto simp: good_def fresh_bot_def bot_cfg_ok_def affordable_def)

lemma upd_ids: "(\<And>x. wk_id (f x) = wk_id x) \<Longrightarrow> map wk_id (upd_where P f t) = map wk_id t"
  by (induction t) (auto simp: upd_where_def)

lemma correct_rows_ids: "map wk_id (snd (correct_rows last_ts seen ls work)) = map wk_id work"
proof (induction ls arbitrary: last_ts seen work)
  case (Cons l ls)
  show ?case by (simp add: Let_def split_beta Cons.IH upd_ids)
qed simp

lemma fresh_reconcile:
  assumes "fresh_bot base s" "reconcile_work facts (bt_db s) = Some (k, d)"
  shows "fresh_bot base (s\<lparr>bt_db := d\<rparr>)"
proof -
  let ?ws = "snd (correct_rows (\<lambda>_. None) {} (landed facts (joined (bt_db s))) (db_work (bt_db s)))"
  from assms(2) have "d = bt_db s \<or> d = (bt_db s)\<lparr>db_work := ?ws\<rparr>"
    by (auto simp: reconcile_work_def split: if_splits prod.splits)
  moreover have "wk_id ` set ?ws = wk_id ` set (db_work (bt_db s))" by (metis correct_rows_ids image_set)
  ultimately have same: "db_seq d = db_seq (bt_db s)" "db_regen d = db_regen (bt_db s)" "wk_id ` set (db_work d) = wk_id ` set (db_work (bt_db s))"
    by (elim disjE; simp)+
  have "wk_id r \<le> db_seq (bt_db s)" if "r \<in> set (db_work d)" for r
  proof -
    have "wk_id r \<in> wk_id ` set (db_work (bt_db s))" using that same(3) by blast
    with assms(1) show ?thesis by (auto simp: fresh_bot_def db_ok_def)
  qed
  with same(1,2) assms(1) show ?thesis by (simp add: fresh_bot_def db_ok_def one_replay_def)
qed

lemma fresh_regen:
  assumes "fresh_bot base s"
  shows "fresh_bot base (s\<lparr>bt_db := snd (regen_enqueue pairs now (bt_db s))\<rparr>)" "fresh_bot base (s\<lparr>bt_db := snd (regen_reap now alive (bt_db s))\<rparr>)"
  using assms replay_enqueue [of "bt_db s" pairs now] replay_reap [of "bt_db s" now alive]
  by (auto simp: fresh_bot_def db_ok_def regen_enqueue_def regen_reap_def Let_def)

lemma wp_reraise: "wp m Q (\<lambda>e. E (g e)) s \<Longrightarrow> wp (attempt m (\<lambda>e. raise_exn (g e))) Q E s"
  by (rule wp_attempt, erule wp_mono) (auto intro: wp_raise)

lemma wp_set_up:
  assumes "fresh_bot base s"
  shows "wp (set_up cfg out) (\<lambda>_. fresh_bot base) (\<lambda>_. fresh_bot base) s"
proof -
  have reap: "wp (then_do (observe_world (o_now out)) (\<lambda>now. then_do (call (o_bridges out)) (\<lambda>alive.
       change (\<lambda>s. s\<lparr>bt_db := snd (regen_reap now alive (bt_db s))\<rparr>)))) (\<lambda>_. fresh_bot base) (\<lambda>_. fresh_bot base) s" if "fresh_bot base s" for s
    by (intro wp_then wp_observe wp_call wp_change fresh_regen(2) that)
  have enqueue: "wp (unless b (then_do (pending_work cfg out {} False) (\<lambda>again. then_do (observe_world (o_now out)) (\<lambda>now.
       change (\<lambda>s. s\<lparr>bt_db := snd (regen_enqueue (pairs again) now (bt_db s))\<rparr>))))) (\<lambda>_. fresh_bot base) (\<lambda>_. fresh_bot base) s"
    if "fresh_bot base s" for s b pairs
    by (intro wp_unless wp_then quiet_wp [OF quiet_pending] wp_observe wp_change fresh_regen(1) that)
  have queue: "wp (prepare_queue cfg out) (\<lambda>_. fresh_bot base) (\<lambda>_. fresh_bot base) s" if "fresh_bot base s" for s
    unfolding prepare_queue_def Let_def
    by (intro wp_then [where m = "pending_work _ _ _ _"] quiet_wp [OF quiet_pending] that, rule wp_then, rule wp_mono [OF enqueue [OF that]], rule reap)
  have trial: "wp (refuse_trial cfg out t) (\<lambda>_. fresh_bot base) (\<lambda>_. fresh_bot base) s" if "fresh_bot base s" for s t
    unfolding refuse_trial_def
    by (intro wp_then wp_if wp_ret quiet_wp [OF quiet_ask_blocks] wp_observe) (use that in \<open>auto split: option.split intro!: wp_raise wp_if wp_ret\<close>)
  show ?thesis
    unfolding set_up_def ask_queue_def
    by (intro wp_if wp_raise wp_reraise wp_then [where m = "ask _ _ _ _ _"] quiet_wp [OF quiet_ask] wp_then [where m = "look_up _"] wp_look_up
        wp_then [where m = "if _ then ret [] else _"] wp_ret quiet_wp [OF quiet_ask_blocks])
      (use assms in \<open>auto split: option.split intro!: wp_then wp_raise wp_change queue trial fresh_reconcile\<close>)
qed

lemma wp_finally: "wp m (\<lambda>x. wp (f x) Q E) (\<lambda>e. wp (h e) Q E) s \<Longrightarrow>
   wp (\<lambda>ws. case m ws of (Inl e, ws') \<Rightarrow> h e ws' | (Inr x, ws') \<Rightarrow> f x ws') Q E s"
  unfolding wp_def by (auto split: sum.splits prod.splits)

lemma wp_run_bot:
  assumes "db_ok d" "bot_cfg_ok cfg" "trial_ok cfg" "calm_outside calm"
  shows "wp (run_bot cfg out calm n) (\<lambda>_ s. books (db_seq d) s \<and> (\<forall>p \<in> set (bt_pods s). \<not> live p))
    (\<lambda>_ s. books (db_seq d) s \<and> (\<forall>p \<in> set (bt_pods s). \<not> live p)) (new_bot d)"
proof -
  have fresh: "fresh_bot (db_seq d) (new_bot d)" using assms(1) by (simp add: fresh_bot_def new_bot_def)
  have over: "wp (then_do (terminate_all cfg calm reason) (\<lambda>_. k)) (\<lambda>_ s. books (db_seq d) s \<and> (\<forall>p \<in> set (bt_pods s). \<not> live p))
      (\<lambda>_ s. books (db_seq d) s \<and> (\<forall>p \<in> set (bt_pods s). \<not> live p)) s"
    if "books (db_seq d) s" "k = ret x \<or> k = raise_exn e" for s reason k x e
    by (rule wp_then, rule wp_mono [OF wp_terminate_all [OF assms(4) that(1)]]) (use that(2) in \<open>auto intro: wp_ret wp_raise\<close>)
  show ?thesis
    unfolding run_bot_def
  proof (rule wp_then, rule wp_mono [OF wp_set_up [OF fresh]], rule wp_finally)
    fix u s assume "fresh_bot (db_seq d) s"
    from wp_looks [OF assms(3) fresh_good [OF this assms(2)]]
    show "wp (looks cfg out n) (\<lambda>x. wp (then_do (terminate_all cfg calm ''the bot finished'') (\<lambda>_. ret x))
            (\<lambda>_ s. books (db_seq d) s \<and> (\<forall>p \<in> set (bt_pods s). \<not> live p)) (\<lambda>_ s. books (db_seq d) s \<and> (\<forall>p \<in> set (bt_pods s). \<not> live p)))
        (\<lambda>e. wp (then_do (terminate_all cfg calm ''the bot stopped on an error or a signal'') (\<lambda>_. raise_exn e))
            (\<lambda>_ s. books (db_seq d) s \<and> (\<forall>p \<in> set (bt_pods s). \<not> live p)) (\<lambda>_ s. books (db_seq d) s \<and> (\<forall>p \<in> set (bt_pods s). \<not> live p))) s"
      by (rule wp_mono) (auto intro: over good_books simp: left_def)
  qed (use fresh_end in blast)
qed

section \<open>Properties\<close>

text \<open>
  Claim C2. After any number of looks the bot counts at most \<open>max_pods\<close> pods as running, which together cost no
  more an hour than \<open>max_usd_per_hour\<close> (up to the tolerance in the code); no block is on two of them; at most
  one replay is in flight; and the open rows this run made in the log are exactly the blocks now on its pods.
\<close>

theorem bot_within_limits:
  assumes "db_ok d" and "bot_cfg_ok cfg" and "trial_ok cfg"
    and "then_do (set_up cfg out) (\<lambda>_. looks cfg out n) (w, new_bot d) = (Inr over, (w', s))"
  shows "length (filter live (bt_pods s)) \<le> bc_max_pods cfg \<and> hourly cfg s \<le> bc_max_hourly cfg + 1 / 10 ^ 9
    \<and> (\<forall>i j. i < j \<and> j < length (bt_pods s) \<longrightarrow>
        it_height ` set (pd_assigned (bt_pods s ! i)) \<inter> it_height ` set (pd_assigned (bt_pods s ! j)) = {})
    \<and> length (filter in_flight (db_regen (bt_db s))) \<le> 1
    \<and> {wk_id row | row. row \<in> set (db_work (bt_db s)) \<and> wk_end row = None \<and> db_seq d < wk_id row}
      = it_row ` set (concat (map pd_assigned (filter live (bt_pods s))))"
proof -
  have fresh: "fresh_bot (db_seq d) (new_bot d)" using assms(1) by (simp add: fresh_bot_def new_bot_def)
  have "wp (then_do (set_up cfg out) (\<lambda>_. looks cfg out n)) (\<lambda>_. good cfg (db_seq d)) (\<lambda>_ _. True) (new_bot d)"
    by (rule wp_then, rule wp_mono [OF wp_set_up [OF fresh]], rule wp_mono [OF wp_looks [OF assms(3) fresh_good [OF _ assms(2)]]]) auto
  from wp_apply [OF this assms(4)] have g: "good cfg (db_seq d) s" by simp
  then have b: "apart (bt_pods s)" "working_only (bt_pods s)" "log_ok (db_seq d) (bt_pods s) (bt_db s)" "one_replay (bt_db s)" "affordable cfg (bt_pods s)"
    by (auto simp: good_def books_def)
  have "p \<in> set (bt_pods s) \<and> a \<in> set (pd_assigned p) \<longleftrightarrow> p \<in> set (filter live (bt_pods s)) \<and> a \<in> set (pd_assigned p)" for p a
    using b(2) by (fastforce simp: working_only_def)
  then have on: "set (concat (map pd_assigned (filter live (bt_pods s)))) = {a. \<exists>p \<in> set (bt_pods s). a \<in> set (pd_assigned p)}" by auto
  have rows: "{wk_id row | row. row \<in> set (db_work (bt_db s)) \<and> wk_end row = None \<and> db_seq d < wk_id row}
      = it_row ` set (concat (map pd_assigned (filter live (bt_pods s))))" (is "?l = _")
    unfolding on
  proof (intro set_eqI iffI)
    fix k assume "k \<in> ?l"
    with b(3) obtain p a where "p \<in> set (bt_pods s)" "a \<in> set (pd_assigned p)" "k = it_row a" unfolding log_ok_def by blast
    then show "k \<in> it_row ` {a. \<exists>p \<in> set (bt_pods s). a \<in> set (pd_assigned p)}" by blast
  next
    fix k assume "k \<in> it_row ` {a. \<exists>p \<in> set (bt_pods s). a \<in> set (pd_assigned p)}"
    then obtain p a where "p \<in> set (bt_pods s)" "a \<in> set (pd_assigned p)" "k = it_row a" by blast
    with b(3) show "k \<in> ?l" unfolding log_ok_def open_row_def by force
  qed
  have apart': "it_height ` set (pd_assigned (bt_pods s ! i)) \<inter> it_height ` set (pd_assigned (bt_pods s ! j)) = {}"
    if "i < j" "j < length (bt_pods s)" for i j
    using b(1) that by (simp add: apart_def)
  from b(4,5) rows apart' show ?thesis by (auto simp: affordable_def hourly_def one_replay_def)
qed

lemma strip_nonempty: "c \<in> set s \<Longrightarrow> \<not> is_space c \<Longrightarrow> py_strip s \<noteq> []"
proof -
  assume c: "c \<in> set s" "\<not> is_space c"
  have keep: "c \<in> set (dropWhile is_space t)" if "c \<in> set t" for t
    using that c(2) by (induction t) auto
  have "c \<in> set (dropWhile is_space (rev (dropWhile is_space s)))" using keep [OF c(1)] by (intro keep) simp
  then show ?thesis unfolding py_strip_def by (metis empty_iff empty_set rev_is_Nil_conv)
qed

text \<open>
  Claim C3. The bot signs what the coordinator checks, and asks for the handle the coordinator would give: for a
  call with a body the two messages are one, and for any name the two handles are one, whatever characters the
  name has, while the coordinator's limit on names is the bot's.
\<close>

theorem bot_and_coordinator_agree:
  assumes "SPONSOR_NAME_MAX cfg = NAME_MAX"
  shows "coord_message sha256 method path ts nonce (Some body) = bot_message sha256 method path ts nonce body
    \<and> board_handle (Some name) = sponsor_handle_for cfg name \<and> board_handle (Some TRIAL_NAME) = sponsor_handle_for cfg SPONSOR_TRIAL_NAME"
proof -
  have "board_handle (Some x) = sponsor_handle_for cfg x" for x
  proof -
    let ?h = "py_strip (filter (\<lambda>c. is_printable c \<and> \<not> html_char c) (HANDLE_PREFIX @ x))"
    have "CHR ''S'' \<in> set HANDLE_PREFIX" "is_printable CHR ''S''" "\<not> html_char CHR ''S''" "\<not> is_space CHR ''S''" by code_simp+
    then have "?h \<noteq> []" by (intro strip_nonempty [of "CHR ''S''"]) auto
    then have "take (9 + 40) ?h \<noteq> []" by simp
    then show ?thesis
      using assms by (simp add: board_handle_def sponsor_handle_for_def clean_handle_def Let_def SPONSOR_HANDLE_PREFIX_def HANDLE_PREFIX_def or_empty_def NAME_MAX_def)
  qed
  then show ?thesis by (simp add: coord_message_def bot_message_def or_empty_def TRIAL_NAME_def SPONSOR_TRIAL_NAME_def)
qed

theorem bot_and_coordinator_agree_witness:
  "board_handle (Some ''Ann <b>'') = sponsor_handle_for default_config ''Ann <b>'' \<and> board_handle (Some ''Ann <b>'') = ''SPONSOR: Ann b''"
proof -
  have "SPONSOR_NAME_MAX default_config = NAME_MAX" by (simp add: NAME_MAX_def)
  from bot_and_coordinator_agree [OF this] show ?thesis by (auto, code_simp)
qed

section \<open>Examples\<close>

text \<open>A world with a clock and the pods that exist; the coordinator has one sponsorship of blocks 7 and 8.\<close>

type_synonym demo_world = "nat \<times> string list"

definition demo_block :: "json" where
  "demo_block = JObj [(''covered'', JBool False), (''claimed'', JBool False), (''held'', JInt 1), (''proofs'', JArr [])]"

definition demo_http :: "string \<Rightarrow> string \<Rightarrow> json option \<Rightarrow> demo_world \<Rightarrow> http \<times> demo_world" where
  "demo_http method path body w = (Answer (Some (
     if path = ''/api/bot/queue'' then JObj [(''sponsorships'', JArr [JObj [(''id'', JInt 1), (''todo'', JArr [JInt 7, JInt 8])]])]
     else if prefixed ''/api/bot/blocks?h='' path then JObj [(''blocks'', JObj [(''7'', demo_block), (''8'', demo_block)])]
     else JObj [(''name'', JStr ''Ann''), (''held'', JBool True), (''proven'', JArr [])])), w)"

definition demo_outside :: "demo_world outside" where
  "demo_outside = \<lparr> o_now = (\<lambda>(t, ps). (of_nat t, (t + 1, ps))), o_sleep = (\<lambda>d w. (False, w)), o_http = demo_http,
     o_files = (\<lambda>w. (\<lambda>_. True, w)), o_identity = (\<lambda>sid name w. (Inr \<lparr> id_tag = ''1'', id_pubkey = ''ab'', id_handle = board_handle name \<rparr>, w)),
     o_deploy = (\<lambda>name (t, ps). (Inr (Some \<lparr> in_id = name, in_gpu = ''A40'', in_cost = 1 / 2 \<rparr>), (t, ps @ [name]))),
     o_pods = (\<lambda>(t, ps). (Inr (map (\<lambda>p. \<lparr> ls_id = p, ls_name = p, ls_ssh = Some (''ip'', 22) \<rparr>) ps), (t, ps))),
     o_kill = (\<lambda>p (t, ps). (Inr (), (t, remove1 p ps))), o_boot = (\<lambda>p w. (Some (True, []), w)),
     o_start = (\<lambda>p work w. (Inr (), w)), o_finished = (\<lambda>p w. (Inr False, w)), o_bridges = (\<lambda>w. (Inr [], w)), o_rungs = (\<lambda>w. (Inr [], w)),
     o_replay = (\<lambda>h w. (Inr 1, w)), o_poll = (\<lambda>w. (Inr None, w)), o_last_line = (\<lambda>w. ([], w)) \<rparr>"

definition demo_cfg :: bot_cfg where
  "demo_cfg = \<lparr> bc_max_pods = 2, bc_max_usd = 10, bc_max_hourly = 2, bc_ceiling = 1, bc_stall = 2700, bc_ssh_timeout = 900,
     bc_boot_timeout = 1800, bc_fail_grace = 300, bc_per_pod = 25, bc_sleep = 30, bc_lead = 180, bc_backoff = 300, bc_confirm_wait = 5,
     bc_trial = None, bc_prefix = ''hz-sponsor-1-'', bc_home = True, bc_bridge_dir = [], bc_witness = ''w'' \<rparr>"

definition demo_db :: bot_db where
  "demo_db = \<lparr> db_work = [], db_pods = [], db_regen = [], db_seq = 0 \<rparr>"

lemma demo_ok: "db_ok demo_db" "bot_cfg_ok demo_cfg" "trial_ok demo_cfg"
  by (simp_all add: db_ok_def demo_db_def one_replay_def bot_cfg_ok_def demo_cfg_def trial_ok_def)

definition demo_looks where
  "demo_looks = then_do (set_up demo_cfg demo_outside) (\<lambda>_. looks demo_cfg demo_outside 2) ((0, []), new_bot demo_db)"

lemma demo_looks_run:
  "fst demo_looks = Inr False \<and> map (\<lambda>p. (pd_state p, map it_height (pd_assigned p))) (bt_pods (snd (snd demo_looks))) = [(Working, [7, 8])]"
  by code_simp

theorem bot_within_limits_witness:
  "\<exists>w s. demo_looks = (Inr False, (w, s)) \<and> length (filter live (bt_pods s)) \<le> 2 \<and> hourly demo_cfg s \<le> 2 + 1 / 10 ^ 9"
proof -
  obtain over w s where r: "demo_looks = (over, (w, s))" by (metis surj_pair)
  have "over = Inr False" using demo_looks_run by (simp add: r)
  with r have d: "demo_looks = (Inr False, (w, s))" by simp
  from bot_within_limits [OF demo_ok d [unfolded demo_looks_def]] d show ?thesis
    by (intro exI [of _ w] exI [of _ s]) (simp_all add: demo_cfg_def)
qed

lemma demo_calm: "calm_outside demo_outside"
proof -
  have "then_read (coord_call (fst (demo_http ''GET'' path None w))) read_blocks = Inl e \<longrightarrow> e = Coord_Error"
    if p: "prefixed ''/api/bot/blocks?h='' path" for path w e
  proof -
    have "path \<noteq> ''/api/bot/queue''" using p by (auto simp: prefixed_def)
    moreover note p
    moreover have "(case read_blocks (JObj [(''blocks'', JObj [(''7'', demo_block), (''8'', demo_block)])]) of Inl _ \<Rightarrow> False | Inr _ \<Rightarrow> True)" by code_simp
    ultimately show ?thesis by (auto simp: demo_http_def coord_call_def then_read_def split: sum.splits)
  qed
  then show ?thesis by (auto simp: calm_outside_def demo_outside_def split: prod.splits)
qed

section \<open>What the bot gets wrong\<close>

lemma digits_some: "all_digits s \<Longrightarrow> s \<noteq> [] \<or> ok \<Longrightarrow> \<exists>n. py_digits a ok s = Some n"
proof (induction s arbitrary: a ok)
  case (Cons c s)
  then obtain k where k: "digit_val c = Some k" by auto
  then have "c \<noteq> CHR ''_''" by auto
  with k Cons show ?case by auto
qed simp

lemma digits_int: "all_digits s \<Longrightarrow> s \<noteq> [] \<Longrightarrow> \<exists>n. py_int s = Some n"
proof -
  assume d: "all_digits s" "s \<noteq> []"
  then obtain c cs where s: "s = c # cs" by (cases s) auto
  with d have "c \<noteq> CHR ''+''" "c \<noteq> CHR ''-''" by auto
  with s digits_some [OF d(1), of False 0] py_strip_digits [OF d(1)] show ?thesis by (auto simp: py_int_def)
qed

text \<open>
  Claim C4. An answer of the coordinator that is cut short is no error the bot knows: while it stops its pods at
  the end, such an answer to the question which blocks landed goes through \<open>_terminate\<close> and ends the sweep, and
  the first pod with blocks and every pod after it are left running, although the comment in \<open>_terminate\<close> says
  that asking the coordinator must never stop a pod being terminated.
\<close>

theorem cut_answer_leaves_pods:
  assumes "\<And>path w. fst (o_http out ''GET'' path None w) = Cut_Short"
    and "bt_pods s = p # ps" "live p" "pd_assigned p \<noteq> []"
  shows "\<exists>w'. terminate_all cfg out reason (w, s) = (Inl Other_Exn, (w', s))"
proof -
  have read: "\<exists>w'. ask out ''GET'' path None read_blocks (w, s) = (Inl Other_Exn, (w', s))" for path w
    using assms(1) [of path w] by (cases "o_http out ''GET'' path None w") (simp add: ask_def call_def coord_call_def then_read_def)
  obtain x xs where a: "pd_assigned p = x # xs" using assms(4) by (cases "pd_assigned p") auto
  have "sort (remdups (map it_height (pd_assigned p))) \<noteq> []" by (metis a length_0_conv length_sort list.simps(8,9) list.distinct(1) remdups_eq_nil_right_iff)
  then have "0 < length (sort (remdups (map it_height (pd_assigned p))))" by (rule length_greater_0_conv [THEN iffD2])
  moreover have "0 < (k + 999) div 1000" if "0 < k" for k :: nat using that by (simp add: div_greater_zero_iff)
  ultimately have "0 < (length (sort (remdups (map it_height (pd_assigned p)))) + 999) div 1000" by blast
  then obtain path paths where paths: "blocks_paths (map it_height (pd_assigned p)) = path # paths"
    by (cases "blocks_paths (map it_height (pd_assigned p))") (auto simp: blocks_paths_def Let_def)
  obtain w' where "ask out ''GET'' path None read_blocks (w, s) = (Inl Other_Exn, (w', s))" using read by blast
  then have cov: "ask_covered out (map it_height (pd_assigned p)) (w, s) = (Inl Other_Exn, (w', s))"
    using assms(4) by (simp add: ask_covered_def ask_blocks_def paths then_do_def)
  have "terminate_pod cfg out 0 reason W_Cancelled (w, s) = (Inl Other_Exn, (w', s))"
    using assms(2-4) cov by (simp add: terminate_pod_def then_do_def look_up_def pod_at_def unless_def attempt_def raise_exn_def)
  moreover have "[0..<length (bt_pods s)] = 0 # [Suc 0..<length (bt_pods s)]" using assms(2) by (intro upt_conv_Cons) simp
  then have "filter (\<lambda>i. live (bt_pods s ! i)) [0..<length (bt_pods s)] = 0 # filter (\<lambda>i. live (bt_pods s ! i)) [Suc 0..<length (bt_pods s)]"
    using assms(2,3) by (simp only:) simp
  ultimately show ?thesis unfolding terminate_all_def by (simp add: then_do_def look_up_def)
qed

theorem cut_answer_leaves_pods_witness:
  "\<exists>p w'. live p \<and> terminate_all demo_cfg (demo_outside\<lparr>o_http := \<lambda>method path body w. (Cut_Short, w)\<rparr>) [] ((0, [pd_id p]), (new_bot demo_db)\<lparr>bt_pods := [p]\<rparr>)
     = (Inl Other_Exn, (w', (new_bot demo_db)\<lparr>bt_pods := [p]\<rparr>))"
proof -
  let ?p = "\<lparr> pd_id = ''x'', pd_name = [], pd_gpu = [], pd_cost = 1, pd_created = 0, pd_terminated = None, pd_state = Working,
    pd_assigned = [\<lparr> it_sid = None, it_height = 7, it_row = 1 \<rparr>], pd_segment = Some 0, pd_progress = Some 0, pd_finished = None \<rparr>"
  have "live ?p" by (simp add: live_def)
  from cut_answer_leaves_pods [of "demo_outside\<lparr>o_http := \<lambda>method path body w. (Cut_Short, w)\<rparr>" "(new_bot demo_db)\<lparr>bt_pods := [?p]\<rparr>" ?p "[]" demo_cfg "[]" "(0, [''x''])"]
    this show ?thesis by (intro exI [of _ ?p]) simp
qed

text \<open>
  A replay that is still walking is reaped. \<open>_regen\<close> stores the process it started, which is Python
  running \<open>regen_bundles.py\<close>; \<open>regen_reap\<close> looks for that number among the bridges. So a bot that starts while the
  replay of an earlier one is running always marks it failed.
\<close>

theorem reap_fails_running_replay:
  assumes "row \<in> set (db_regen d)" "in_flight row" "rq_pid row = Some pid"
    and "\<And>name cmd. (name, Some cmd) \<in> set procs \<Longrightarrow> py_int name = Some pid \<Longrightarrow> basename (hd (py_split (CHR 0x00) cmd)) \<noteq> ''hazync-host-bridge''"
  shows "rq_height row \<in> set (fst (regen_reap now (bridge_running me (Some procs)) d))"
proof -
  have "pid \<notin> set (bridge_running me (Some procs))"
  proof
    assume "pid \<in> set (bridge_running me (Some procs))"
    then obtain name cmd where n: "(name, cmd) \<in> set procs" "all_digits name" "name \<noteq> []" "pid = the (py_int name)"
        "case cmd of None \<Rightarrow> False | Some c \<Rightarrow> (let argv0 = hd (py_split (CHR 0x00) c) in argv0 \<noteq> [] \<and> basename argv0 = ''hazync-host-bridge'')"
      unfolding bridge_running_def by auto
    then obtain c where c: "cmd = Some c" "basename (hd (py_split (CHR 0x00) c)) = ''hazync-host-bridge''" by (auto simp: Let_def split: option.splits)
    have "py_int name = Some pid" using digits_int [OF n(2,3)] n(4) by auto
    with assms(4) n(1) c show False by blast
  qed
  with assms(1-3) show ?thesis by (auto simp: regen_reap_def Let_def)
qed

theorem reap_fails_running_replay_witness:
  "let row = \<lparr> rq_height = 5, rq_sid = Some 1, rq_queued = 0, rq_started = Some 1, rq_finished = None, rq_pid = Some 77, rq_rung = Some 4,
      rq_end = None, rq_detail = None \<rparr>
   in 5 \<in> set (fst (regen_reap 9 (bridge_running 1 (Some [(''77'', Some (''/usr/bin/python3'' @ [CHR 0x00] @ ''regen_bundles.py'')),
        (''78'', Some ''/opt/hazync-host-bridge'')])) (demo_db\<lparr>db_regen := [row]\<rparr>)))"
proof -
  let ?row = "\<lparr> rq_height = 5, rq_sid = Some 1, rq_queued = 0, rq_started = Some 1, rq_finished = None, rq_pid = Some 77, rq_rung = Some 4,
      rq_end = None, rq_detail = None \<rparr>"
  let ?procs = "[(''77'', Some (''/usr/bin/python3'' @ [CHR 0x00] @ ''regen_bundles.py'')), (''78'', Some ''/opt/hazync-host-bridge'')]"
  have "basename (hd (py_split (CHR 0x00) (''/usr/bin/python3'' @ [CHR 0x00] @ ''regen_bundles.py''))) \<noteq> ''hazync-host-bridge''"
    "py_int ''78'' \<noteq> Some 77" by code_simp+
  then have "rq_height ?row \<in> set (fst (regen_reap 9 (bridge_running 1 (Some ?procs)) (demo_db\<lparr>db_regen := [?row]\<rparr>)))"
    by (intro reap_fails_running_replay [where pid = 77]) (auto simp: in_flight_def)
  then show ?thesis by (simp only: Let_def regen_row.simps)
qed

end
