(* ===== verification/Bot_Stop.thy ===== *)
theory Bot_Stop
  imports Bot_Safety
begin

text \<open>
  What the sponsor bot does to stop its pods. The requests to terminate a pod and the listings of RunPod are
  written down beside the world (\<open>watched\<close>); an invariant over the log and the bot's state, kept by every action
  of the bot, says that a pod marked terminated was asked to stop and then missing from a listing, or is named as
  unconfirmed after six requests.
\<close>

section \<open>The log of requests\<close>

datatype pod_event = Asked_Stop string | Listed "string list"

definition unwatched :: "('w \<Rightarrow> 'a \<times> 'w) \<Rightarrow> 'w \<times> pod_event list \<Rightarrow> 'a \<times> 'w \<times> pod_event list" where
  "unwatched f = (\<lambda>(w, evs). case f w of (x, w) \<Rightarrow> (x, w, evs))"

definition watching :: "('w \<Rightarrow> 'a \<times> 'w) \<Rightarrow> ('a \<Rightarrow> pod_event list) \<Rightarrow> 'w \<times> pod_event list \<Rightarrow> 'a \<times> 'w \<times> pod_event list" where
  "watching f ev = (\<lambda>(w, evs). case f w of (x, w) \<Rightarrow> (x, w, evs @ ev x))"

definition watched :: "'w outside \<Rightarrow> ('w \<times> pod_event list) outside" where
  "watched out = \<lparr> o_now = unwatched (o_now out), o_sleep = (\<lambda>d. unwatched (o_sleep out d)),
     o_http = (\<lambda>verb path body. unwatched (o_http out verb path body)), o_files = unwatched (o_files out),
     o_identity = (\<lambda>sid name. unwatched (o_identity out sid name)), o_deploy = (\<lambda>name. unwatched (o_deploy out name)),
     o_pods = watching (o_pods out) (\<lambda>r. case r of Inl _ \<Rightarrow> [] | Inr ps \<Rightarrow> [Listed (map ls_id ps)]),
     o_kill = (\<lambda>pid. watching (o_kill out pid) (\<lambda>_. [Asked_Stop pid])),
     o_boot = (\<lambda>pid. unwatched (o_boot out pid)), o_start = (\<lambda>pid work. unwatched (o_start out pid work)),
     o_finished = (\<lambda>pid. unwatched (o_finished out pid)), o_bridges = unwatched (o_bridges out), o_rungs = unwatched (o_rungs out),
     o_replay = (\<lambda>h. unwatched (o_replay out h)), o_poll = unwatched (o_poll out), o_last_line = unwatched (o_last_line out) \<rparr>"

definition requests :: "string \<Rightarrow> pod_event list \<Rightarrow> nat" where
  "requests pid evs = length (filter (\<lambda>e. e = Asked_Stop pid) evs)"

text \<open>A request to stop the pod, and later a listing without it.\<close>

definition seen_gone :: "string \<Rightarrow> pod_event list \<Rightarrow> bool" where
  "seen_gone pid evs \<longleftrightarrow> (\<exists>pre ids post. evs = pre @ Listed ids # post \<and> Asked_Stop pid \<in> set pre \<and> pid \<notin> set ids)"

text \<open>What is known of the pods that are marked terminated, and of those that are named as unconfirmed.\<close>

definition known :: "pod_event list \<Rightarrow> bot \<Rightarrow> bool" where
  "known evs s \<longleftrightarrow> (\<forall>p \<in> set (bt_pods s). \<not> live p \<longrightarrow> seen_gone (pd_id p) evs \<or> pd_id p \<in> set (bt_unconfirmed s))
     \<and> (\<forall>pid \<in> set (bt_unconfirmed s). 6 \<le> requests pid evs)"

lemma requests_append [simp]: "requests pid (xs @ ys) = requests pid xs + requests pid ys"
  by (simp add: requests_def)

lemma requests_one [simp]: "requests pid [Asked_Stop q] = (if q = pid then 1 else 0)" "requests pid [] = 0"
  by (simp_all add: requests_def)

lemma requests_asked: "0 < requests pid evs \<Longrightarrow> Asked_Stop pid \<in> set evs"
  by (auto simp: requests_def filter_empty_conv)

lemma seen_gone_append: "seen_gone pid evs \<Longrightarrow> seen_gone pid (evs @ later)"
  unfolding seen_gone_def by (metis append_Cons append_assoc)

lemma seen_gone_listed: "Asked_Stop pid \<in> set evs \<Longrightarrow> pid \<notin> set ids \<Longrightarrow> seen_gone pid (evs @ [Listed ids])"
  unfolding seen_gone_def by blast

section \<open>Triples over the log\<close>

definition htr ::
    "(pod_event list \<Rightarrow> bot \<Rightarrow> bool) \<Rightarrow> ('w \<times> pod_event list, bot, 'a) act \<Rightarrow> ('a \<Rightarrow> pod_event list \<Rightarrow> bot \<Rightarrow> bool)
      \<Rightarrow> (pod_event list \<Rightarrow> bot \<Rightarrow> bool) \<Rightarrow> bool" where
  "htr P m Q E \<longleftrightarrow> (\<forall>w evs s. P evs s \<longrightarrow> (case m ((w, evs), s) of
     (Inr x, ((w', evs'), s')) \<Rightarrow> Q x evs' s' | (Inl e, ((w', evs'), s')) \<Rightarrow> E evs' s'))"

definition keeps :: "(pod_event list \<Rightarrow> bot \<Rightarrow> bool) \<Rightarrow> ('w \<times> pod_event list, bot, 'a) act \<Rightarrow> bool" where
  "keeps P m \<longleftrightarrow> htr P m (\<lambda>_. P) P"

definition steady :: "(pod_event list \<Rightarrow> bot \<Rightarrow> bool) \<Rightarrow> bool" where
  "steady P \<longleftrightarrow> (\<forall>evs later s. P evs s \<longrightarrow> P (evs @ later) s)"

definition appends :: "('w \<times> pod_event list \<Rightarrow> 'a \<times> 'w \<times> pod_event list) \<Rightarrow> bool" where
  "appends f \<longleftrightarrow> (\<forall>w evs. \<exists>later. snd (snd (f (w, evs))) = evs @ later)"

named_theorems keeps_rules

lemma htr_mono: "htr P m Q E \<Longrightarrow> (\<And>evs s. P' evs s \<Longrightarrow> P evs s) \<Longrightarrow> (\<And>x evs s. Q x evs s \<Longrightarrow> Q' x evs s)
   \<Longrightarrow> (\<And>evs s. E evs s \<Longrightarrow> E' evs s) \<Longrightarrow> htr P' m Q' E'"
  unfolding htr_def by (fastforce split: sum.splits prod.splits)

lemma htr_then: "htr P m R E \<Longrightarrow> (\<And>x. htr (R x) (f x) Q E) \<Longrightarrow> htr P (then_do m f) Q E"
  unfolding htr_def then_do_def by (fastforce split: sum.splits prod.splits)

lemma htr_attempt: "htr P m Q R \<Longrightarrow> (\<And>e. htr R (h e) Q E) \<Longrightarrow> htr P (attempt m h) Q E"
  unfolding htr_def attempt_def by (fastforce split: sum.splits prod.splits)

lemma htr_ret: "(\<And>evs s. P evs s \<Longrightarrow> Q x evs s) \<Longrightarrow> htr P (ret x) Q E"
  by (simp add: htr_def ret_def)

lemma htr_raise: "(\<And>evs s. P evs s \<Longrightarrow> E evs s) \<Longrightarrow> htr P (raise_exn e) Q E"
  by (simp add: htr_def raise_exn_def)

lemma htr_change: "(\<And>evs s. P evs s \<Longrightarrow> Q () evs (f s)) \<Longrightarrow> htr P (change f) Q E"
  by (simp add: htr_def change_def)

lemma htr_look_up: "(\<And>evs s. P evs s \<Longrightarrow> Q (f s) evs s) \<Longrightarrow> htr P (look_up f) Q E"
  by (simp add: htr_def look_up_def)

lemma keeps_apply: "keeps P m \<Longrightarrow> P evs s \<Longrightarrow> m ((w, evs), s) = (r, ((w', evs'), s')) \<Longrightarrow> P evs' s'"
  unfolding keeps_def htr_def by (cases r) (drule spec [of _ w], drule spec [of _ evs], drule spec [of _ s], simp)+

lemma keeps_ret [keeps_rules]: "keeps P (ret x)"
  by (simp add: keeps_def htr_ret)

lemma keeps_raise [keeps_rules]: "keeps P (raise_exn e)"
  by (simp add: keeps_def htr_raise)

lemma keeps_then [keeps_rules]: "keeps P m \<Longrightarrow> (\<And>x. keeps P (f x)) \<Longrightarrow> keeps P (then_do m f)"
  unfolding keeps_def by (rule htr_then)

lemma keeps_attempt [keeps_rules]: "keeps P m \<Longrightarrow> (\<And>e. keeps P (h e)) \<Longrightarrow> keeps P (attempt m h)"
  unfolding keeps_def by (rule htr_attempt)

lemma keeps_look_up [keeps_rules]: "keeps P (look_up f)"
  by (simp add: keeps_def htr_look_up)

lemma keeps_call [keeps_rules]: "appends f \<Longrightarrow> steady P \<Longrightarrow> keeps P (call f)"
  unfolding keeps_def htr_def call_def appends_def steady_def Let_def
  by (auto split: sum.splits prod.splits) (metis snd_conv)+

lemma keeps_observe [keeps_rules]: "appends f \<Longrightarrow> steady P \<Longrightarrow> keeps P (observe_world f)"
  unfolding keeps_def htr_def observe_world_def appends_def steady_def Let_def
  by (auto split: prod.splits) (metis snd_conv)+

lemma keeps_unless [keeps_rules]: "keeps P m \<Longrightarrow> keeps P (unless b m)"
  by (simp add: unless_def keeps_ret)

lemma keeps_if [keeps_rules]: "keeps P m \<Longrightarrow> keeps P n \<Longrightarrow> keeps P (if b then m else n)"
  by simp

lemma keeps_case_option [keeps_rules]: "keeps P m \<Longrightarrow> (\<And>y. keeps P (f y)) \<Longrightarrow> keeps P (case x of None \<Rightarrow> m | Some y \<Rightarrow> f y)"
  by (simp split: option.split)

lemma keeps_case_prod [keeps_rules]: "(\<And>a b. keeps P (f a b)) \<Longrightarrow> keeps P (case x of (a, b) \<Rightarrow> f a b)"
  by (simp split: prod.split)

lemma keeps_let [keeps_rules]: "(\<And>y. keeps P (f y)) \<Longrightarrow> keeps P (Let x f)"
  by simp

lemma keeps_each [keeps_rules]: "(\<And>x. keeps P (f x)) \<Longrightarrow> keeps P (each xs f)"
  by (induction xs) (auto intro: keeps_rules)

lemma keeps_collect: "(\<And>m. m \<in> set ms \<Longrightarrow> keeps P m) \<Longrightarrow> keeps P (collect ms)"
  by (induction ms) (auto intro!: keeps_ret keeps_then)

lemma keeps_caught [keeps_rules]: "keeps P (caught x e)"
  by (simp add: caught_def keeps_rules)

lemma keeps_finally: "keeps P m \<Longrightarrow> (\<And>x. keeps P (f x)) \<Longrightarrow> (\<And>e. keeps P (h e)) \<Longrightarrow>
   keeps P (\<lambda>ws. case m ws of (Inl e, ws') \<Rightarrow> h e ws' | (Inr x, ws') \<Rightarrow> f x ws')"
  unfolding keeps_def [of P "\<lambda>ws. case m ws of (Inl e, ws') \<Rightarrow> h e ws' | (Inr x, ws') \<Rightarrow> f x ws'"] htr_def
proof (intro allI impI)
  fix w evs s
  assume a: "keeps P m" "\<And>x. keeps P (f x)" "\<And>e. keeps P (h e)" and p: "P evs s"
  obtain r w' evs' s' where m: "m ((w, evs), s) = (r, ((w', evs'), s'))" by (metis surj_pair)
  note p' = keeps_apply [OF a(1) p m]
  show "case (case m ((w, evs), s) of (Inl e, ws') \<Rightarrow> h e ws' | (Inr x, ws') \<Rightarrow> f x ws') of
      (Inr x, ((w', evs'), s')) \<Rightarrow> P evs' s' | (Inl e, ((w', evs'), s')) \<Rightarrow> P evs' s'"
    using keeps_apply [OF a(2) p'] keeps_apply [OF a(3) p'] by (simp add: m split: sum.split prod.split)
qed

lemma appends_unwatched: "appends (unwatched f)"
  by (simp add: appends_def unwatched_def split: prod.split)

lemma appends_watching: "appends (watching f ev)"
  by (simp add: appends_def watching_def split: prod.split)

lemma watched_appends [keeps_rules]:
  "appends (o_now (watched out))" "appends (o_sleep (watched out) d)" "appends (o_http (watched out) verb path body)"
  "appends (o_files (watched out))" "appends (o_identity (watched out) sid name)" "appends (o_deploy (watched out) pod)"
  "appends (o_pods (watched out))" "appends (o_kill (watched out) pid)" "appends (o_boot (watched out) pid)"
  "appends (o_start (watched out) pid work)" "appends (o_finished (watched out) pid)" "appends (o_bridges (watched out))"
  "appends (o_rungs (watched out))" "appends (o_replay (watched out) h)" "appends (o_poll (watched out))" "appends (o_last_line (watched out))"
  by (simp_all add: watched_def appends_unwatched appends_watching)

section \<open>The invariant\<close>

definition known_of :: "(bot \<Rightarrow> bool) \<Rightarrow> nat \<Rightarrow> string \<Rightarrow> pod_event list \<Rightarrow> bot \<Rightarrow> bool" where
  "known_of R n pid evs s \<longleftrightarrow> known evs s \<and> R s \<and> n \<le> requests pid evs"

lemma steady_known [keeps_rules]: "steady known"
  unfolding steady_def known_def by (auto intro: seen_gone_append trans_le_add1)

lemma steady_known_of [keeps_rules]: "steady (known_of R n pid)"
  using steady_known unfolding steady_def known_of_def by (auto intro: trans_le_add1)

text \<open>Changes that stop no pod and forget no unconfirmed one.\<close>

definition tame :: "(bot \<Rightarrow> bot) \<Rightarrow> bool" where
  "tame f \<longleftrightarrow> (\<forall>s. bt_unconfirmed (f s) = bt_unconfirmed s
     \<and> (\<forall>p \<in> set (bt_pods (f s)). \<not> live p \<longrightarrow> (\<exists>q \<in> set (bt_pods s). \<not> live q \<and> pd_id q = pd_id p)))"

lemma tame_known: "tame f \<Longrightarrow> known evs s \<Longrightarrow> known evs (f s)"
  unfolding tame_def known_def by metis

lemma keeps_tame [keeps_rules]: "tame f \<Longrightarrow> keeps known (change f)"
  unfolding keeps_def by (rule htr_change, rule tame_known)

lemma keeps_tame_of: "tame f \<Longrightarrow> (\<And>s. R s \<Longrightarrow> R (f s)) \<Longrightarrow> keeps (known_of R n pid) (change f)"
  unfolding keeps_def by (intro htr_change) (auto simp: known_of_def tame_known)

lemma tame_same: "(\<And>s. bt_unconfirmed (f s) = bt_unconfirmed s) \<Longrightarrow> (\<And>s. bt_pods (f s) = bt_pods s) \<Longrightarrow> tame f"
  by (auto simp: tame_def)

text \<open>A change of one pod that leaves its id and its end.\<close>

lemma tame_pod:
  assumes "\<And>s. bt_unconfirmed (f s) = bt_unconfirmed s" "\<And>s. bt_pods (f s) = (bt_pods s)[i := g s (bt_pods s ! i)]"
    "\<And>s p. pd_id (g s p) = pd_id p \<and> pd_terminated (g s p) = pd_terminated p"
  shows "tame f"
  unfolding tame_def
proof (intro allI conjI ballI impI)
  fix s p assume p: "p \<in> set (bt_pods (f s))" "\<not> live p"
  show "\<exists>q \<in> set (bt_pods s). \<not> live q \<and> pd_id q = pd_id p"
  proof (cases "i < length (bt_pods s)")
    case True
    with p have "p = g s (bt_pods s ! i) \<or> p \<in> set (bt_pods s)" using set_update_subset_insert [of "bt_pods s" i] by (auto simp: assms(2))
    then show ?thesis
    proof
      assume "p = g s (bt_pods s ! i)"
      with p(2) assms(3) have "\<not> live (bt_pods s ! i)" "pd_id (bt_pods s ! i) = pd_id p" by (simp_all add: live_def)
      with True show ?thesis by (auto intro: bexI [OF _ nth_mem])
    qed (use p(2) in auto)
  qed (use p assms(2) in \<open>simp add: list_update_beyond, blast\<close>)
qed (rule assms(1))

lemma tame_upd [keeps_rules]: "(\<And>p. pd_id (f p) = pd_id p \<and> pd_terminated (f p) = pd_terminated p) \<Longrightarrow> tame (upd_pod i f)"
  by (rule tame_pod [where g = "\<lambda>_. f"]) (simp_all add: upd_pod_def)

lemma tame_record: "tame (record_proven cfg i ended now)"
  by (rule tame_pod [where i = i and g = "\<lambda>_ p. p\<lparr>pd_assigned := filter (\<lambda>a. a \<notin> set ended) (pd_assigned p), pd_segment := Some now, pd_progress := Some now\<rparr>"])
    (simp_all add: record_proven_def upd_pod_def Let_def)

lemma tame_drop: "tame (drop_items i result)"
  by (rule tame_pod [where i = i and g = "\<lambda>_ p. p\<lparr>pd_assigned := []\<rparr>"]) (simp_all add: drop_items_def upd_pod_def Let_def)

lemma tame_give [keeps_rules]: "tame (give cfg i pubkey now chunk)"
  by (rule tame_pod [where i = i and g = "\<lambda>s p. p\<lparr>pd_assigned := new_items s chunk, pd_state := Working, pd_segment := Some now,
        pd_progress := Some now, pd_finished := None\<rparr>"])
    (simp_all add: give_def upd_pod_def Let_def)

lemma tame_add [keeps_rules]: "tame (add_pod cfg info created)"
  by (auto simp: tame_def add_pod_def Let_def live_def)

lemma tame_rest [keeps_rules]:
  "tame (refused cfg now)" "tame coord_failed" "tame (\<lambda>s. s\<lparr>bt_n := k s\<rparr>)" "tame (\<lambda>s. s\<lparr>bt_capacity_at := t\<rparr>)"
  "tame (\<lambda>s. s\<lparr>bt_refusals := m, bt_capacity_at := t\<rparr>)" "tame (\<lambda>s. s\<lparr>bt_waits := k s\<rparr>)" "tame (\<lambda>s. s\<lparr>bt_db := db s\<rparr>)"
  "tame (\<lambda>s. s\<lparr>bt_db := db s, bt_regen := h\<rparr>)" "tame (\<lambda>s. s\<lparr>bt_stop := st s\<rparr>)" "tame (\<lambda>s. s\<lparr>bt_errors := m\<rparr>)"
  "tame (\<lambda>s. s\<lparr>bt_idents := ids s\<rparr>)"
  by (rule tame_same; simp add: refused_def coord_failed_def)+

section \<open>Stopping a pod\<close>

lemma id_upd_pod: "(\<And>p. pd_id (f p) = pd_id p) \<Longrightarrow> pd_id (pod_at i (upd_pod i f s)) = pd_id (pod_at i s)"
  by (cases "i < length (bt_pods s)") (simp_all add: pod_at_def upd_pod_def list_update_beyond)

lemma id_record: "pd_id (pod_at i (record_proven cfg i ended now s)) = pd_id (pod_at i s)"
  using id_upd_pod [of "\<lambda>p. p\<lparr>pd_assigned := filter (\<lambda>a. a \<notin> set ended) (pd_assigned p), pd_segment := Some now, pd_progress := Some now\<rparr>" i s]
  by (simp add: record_proven_def pod_at_def Let_def)

lemma id_drop: "pd_id (pod_at i (drop_items i result s)) = pd_id (pod_at i s)"
  using id_upd_pod [of "\<lambda>p. p\<lparr>pd_assigned := []\<rparr>" i s] by (simp add: drop_items_def pod_at_def Let_def)

lemma keeps_pause [keeps_rules]: "steady P \<Longrightarrow> keeps P (pause (watched out) d)"
  unfolding pause_def by (intro keeps_rules)

lemma keeps_ask [keeps_rules]: "steady P \<Longrightarrow> keeps P (ask (watched out) verb path body decode)"
  unfolding ask_def
  by (intro keeps_call) (use watched_appends(3) [of out verb path body] in \<open>auto simp: appends_def Let_def split: prod.splits\<close>,
      metis snd_conv)

lemma keeps_ask_blocks [keeps_rules]: "steady P \<Longrightarrow> keeps P (ask_blocks (watched out) hs)"
  unfolding ask_blocks_def by (intro keeps_then keeps_collect keeps_ret) (auto intro: keeps_ask)

lemma keeps_ask_covered [keeps_rules]: "steady P \<Longrightarrow> keeps P (ask_covered (watched out) hs)"
  unfolding ask_covered_def by (intro keeps_rules)

text \<open>Each try asks once; a pod is taken for gone only on a listing without it.\<close>

lemma terminate_confirmed_log:
  "htr (known_of R n pid) (terminate_confirmed cfg (watched out) pid k)
     (\<lambda>ok evs s. known_of R 0 pid evs s \<and> (if ok then seen_gone pid evs else n + k \<le> requests pid evs)) (known_of R 0 pid)"
proof (induction k arbitrary: n)
  case 0
  show ?case by (auto intro: htr_ret simp: known_of_def)
next
  case (Suc k)
  let ?E = "known_of R 0 pid"
  let ?after = "\<lambda>ok evs s. ?E evs s \<and> (if ok then seen_gone pid evs else n + Suc k \<le> requests pid evs)"
  have up: "known_of R m pid evs s \<Longrightarrow> ?E evs s" for m evs s by (simp add: known_of_def)
  have asked: "known_of R (Suc n) pid (evs @ [Asked_Stop pid]) s" if "known_of R n pid evs s" for evs s
    using that steady_known by (auto simp: known_of_def steady_def)
  have kill: "htr (known_of R n pid) (attempt (call (o_kill (watched out) pid)) (caught ())) (\<lambda>_. known_of R (Suc n) pid) ?E"
  proof (rule htr_attempt [where R = "known_of R (Suc n) pid"])
    show "htr (known_of R n pid) (call (o_kill (watched out) pid)) (\<lambda>_. known_of R (Suc n) pid) (known_of R (Suc n) pid)"
      using asked by (auto simp: htr_def call_def watched_def watching_def Let_def split: sum.split prod.splits)
    show "htr (known_of R (Suc n) pid) (caught () e) (\<lambda>_. known_of R (Suc n) pid) ?E" for e
      by (auto simp: caught_def known_of_def intro!: htr_ret htr_raise)
  qed
  let ?listed = "\<lambda>gone evs s. known_of R (Suc n) pid evs s \<and> (gone \<longrightarrow> seen_gone pid evs)"
  have list: "htr (known_of R (Suc n) pid) (attempt (then_do (call (o_pods (watched out))) (\<lambda>ps. ret (pid \<notin> ls_id ` set ps))) (caught False)) ?listed ?E"
  proof (rule htr_attempt [where R = "known_of R (Suc n) pid"])
    have "seen_gone pid (evs @ [Listed (map ls_id ps)])" if "known_of R (Suc n) pid evs s" "pid \<notin> ls_id ` set ps" for evs s ps
      using that by (intro seen_gone_listed requests_asked) (auto simp: known_of_def)
    moreover have "known_of R (Suc n) pid (evs @ later) s" if "known_of R (Suc n) pid evs s" for evs later s
      using that steady_known_of unfolding steady_def by blast
    ultimately show "htr (known_of R (Suc n) pid) (then_do (call (o_pods (watched out))) (\<lambda>ps. ret (pid \<notin> ls_id ` set ps))) ?listed (known_of R (Suc n) pid)"
      by (auto simp: htr_def then_do_def ret_def call_def watched_def watching_def Let_def split: sum.splits prod.splits)
    show "htr (known_of R (Suc n) pid) (caught False e) ?listed ?E" for e
      by (auto simp: caught_def known_of_def intro!: htr_ret htr_raise)
  qed
  have rest: "htr (?listed False) (then_do (pause (watched out) (bc_confirm_wait cfg)) (\<lambda>_. terminate_confirmed cfg (watched out) pid k)) ?after ?E"
  proof (rule htr_then)
    show "htr (?listed False) (pause (watched out) (bc_confirm_wait cfg)) (\<lambda>_. known_of R (Suc n) pid) ?E"
      by (rule htr_mono [OF keeps_pause [unfolded keeps_def, OF steady_known_of [of R "Suc n" pid]]]) (auto intro: up)
    show "htr (known_of R (Suc n) pid) (terminate_confirmed cfg (watched out) pid k) ?after ?E"
      by (rule htr_mono [OF Suc.IH [of "Suc n"]]) auto
  qed
  show ?case
    unfolding terminate_confirmed.simps
  proof (rule htr_then [OF kill], rule htr_then [OF list])
    fix gone
    show "htr (?listed gone) (if gone then ret True else then_do (pause (watched out) (bc_confirm_wait cfg)) (\<lambda>_. terminate_confirmed cfg (watched out) pid k)) ?after ?E"
      using rest by (cases gone) (auto intro!: htr_ret simp: known_of_def)
  qed
qed

lemma known_mark:
  assumes "known evs s" "pd_id (pod_at i s) = pid" "if ok then seen_gone pid evs else 6 \<le> requests pid evs"
  shows "known evs (mark_terminated cfg i t ok note s)"
proof -
  let ?s = "mark_terminated cfg i t ok note s"
  let ?p = "(bt_pods s ! i)\<lparr>pd_terminated := Some t, pd_state := Terminated\<rparr>"
  have u: "bt_unconfirmed ?s = bt_unconfirmed s @ (if ok then [] else [pid])"
    using assms(2) id_upd_pod [of "\<lambda>p. p\<lparr>pd_terminated := Some t, pd_state := Terminated\<rparr>" i s]
    by (simp add: mark_terminated_def Let_def upd_pod_def)
  have b: "bt_pods ?s = (bt_pods s)[i := ?p]" by (simp add: mark_terminated_def Let_def upd_pod_def)
  have old: "seen_gone (pd_id p) evs \<or> pd_id p \<in> set (bt_unconfirmed ?s)" if "p \<in> set (bt_pods s)" "\<not> live p" for p
    using that assms(1) u by (auto simp: known_def)
  have new: "seen_gone pid evs \<or> pid \<in> set (bt_unconfirmed ?s)" using assms(3) u by (auto split: if_splits)
  have "seen_gone (pd_id p) evs \<or> pd_id p \<in> set (bt_unconfirmed ?s)" if p: "p \<in> set (bt_pods ?s)" "\<not> live p" for p
  proof (cases "p \<in> set (bt_pods s)")
    case False
    with p(1) have "p = ?p" using set_update_subset_insert [of "bt_pods s" i ?p] unfolding b by auto
    with new assms(2) show ?thesis by (simp add: pod_at_def)
  qed (use old p(2) in blast)
  moreover have "6 \<le> requests q evs" if "q \<in> set (bt_unconfirmed ?s)" for q
    using that u assms(1,3) by (auto simp: known_def split: if_splits)
  ultimately show ?thesis by (simp add: known_def)
qed

lemma keeps_terminate_pod [keeps_rules]: "keeps known (terminate_pod cfg (watched out) i note result)"
proof -
  let ?R = "\<lambda>p s. pd_id (pod_at i s) = pd_id p"
  let ?K = "\<lambda>p. known_of (?R p) 0 (pd_id p)"
  have up: "?K p evs s \<Longrightarrow> known evs s" for p :: pod and evs s by (simp add: known_of_def)
  have tame: "keeps (?K p) (change (record_proven cfg i there t))" "keeps (?K p) (change (drop_items i result))" for p there t
    by (intro keeps_tame_of tame_record tame_drop, simp add: id_record id_drop)+
  have land: "keeps (?K p) (if pd_assigned p = [] then ret []
               else attempt (then_do (ask_covered (watched out) (map it_height (pd_assigned p)))
                      (\<lambda>cov. ret (filter (\<lambda>a. it_height a \<in> cov) (pd_assigned p))))
                 (\<lambda>e. if e = Coord_Error then ret [] else raise_exn e))" for p
    by (intro keeps_rules)
  have rec: "keeps (?K p) (unless (there = []) (then_do (observe_world (o_now (watched out))) (\<lambda>t. change (record_proven cfg i there t))))" for p there
    by (intro keeps_rules tame)
  have mark: "htr (\<lambda>evs s. ?K p evs s \<and> (if ok then seen_gone (pd_id p) evs else 0 + 6 \<le> requests (pd_id p) evs))
      (then_do (observe_world (o_now (watched out))) (\<lambda>t. change (mark_terminated cfg i t ok note))) (\<lambda>_. known) known" for p ok
    using known_mark [of _ _ i "pd_id p" ok]
    by (auto simp: htr_def then_do_def observe_world_def change_def watched_def unwatched_def known_of_def Let_def split: prod.splits if_splits)
  have pod: "htr (?K p) (unless (\<not> live p)
     (then_do (if pd_assigned p = [] then ret []
               else attempt (then_do (ask_covered (watched out) (map it_height (pd_assigned p)))
                      (\<lambda>cov. ret (filter (\<lambda>a. it_height a \<in> cov) (pd_assigned p))))
                 (\<lambda>e. if e = Coord_Error then ret [] else raise_exn e)) (\<lambda>there.
      then_do (unless (there = []) (then_do (observe_world (o_now (watched out))) (\<lambda>t. change (record_proven cfg i there t)))) (\<lambda>_.
      then_do (change (drop_items i result)) (\<lambda>_.
      then_do (terminate_confirmed cfg (watched out) (pd_id p) 6) (\<lambda>confirmed.
      then_do (observe_world (o_now (watched out))) (\<lambda>t. change (mark_terminated cfg i t confirmed note)))))))) (\<lambda>_. known) known"
    (is "htr _ (unless _ ?m) _ _") for p
  proof -
    note keep = htr_mono [OF _ _ _ up]
    have "htr (?K p) ?m (\<lambda>_. known) known"
      by (rule htr_then, rule keep [OF land [unfolded keeps_def]], assumption, assumption, assumption,
          rule htr_then, rule keep [OF rec [unfolded keeps_def]], assumption, assumption, assumption,
          rule htr_then, rule keep [OF tame(2) [unfolded keeps_def]], assumption, assumption, assumption,
          rule htr_then, rule keep [OF terminate_confirmed_log], assumption, assumption, assumption, rule mark)
    then show ?thesis by (auto simp: unless_def intro: htr_ret up)
  qed
  show ?thesis
    unfolding keeps_def terminate_pod_def
    by (rule htr_then [where R = ?K], rule htr_look_up, simp add: known_of_def, rule pod)
qed

section \<open>The whole run\<close>

lemma keeps_strays [keeps_rules]:
  "keeps known (then_do (terminate_confirmed cfg (watched out) pid 6) (\<lambda>confirmed. unless confirmed
     (change (\<lambda>s. if pid \<in> set (bt_unconfirmed s) then s else s\<lparr>bt_unconfirmed := bt_unconfirmed s @ [pid]\<rparr>))))"
  unfolding keeps_def
proof (rule htr_then)
  show "htr known (terminate_confirmed cfg (watched out) pid 6)
      (\<lambda>ok evs s. known_of (\<lambda>_. True) 0 pid evs s \<and> (if ok then seen_gone pid evs else 0 + 6 \<le> requests pid evs)) known"
    by (rule htr_mono [OF terminate_confirmed_log [where R = "\<lambda>_. True" and n = 0]]) (auto simp: known_of_def)
  show "htr (\<lambda>evs s. known_of (\<lambda>_. True) 0 pid evs s \<and> (if ok then seen_gone pid evs else 0 + 6 \<le> requests pid evs))
      (unless ok (change (\<lambda>s. if pid \<in> set (bt_unconfirmed s) then s else s\<lparr>bt_unconfirmed := bt_unconfirmed s @ [pid]\<rparr>))) (\<lambda>_. known) known" for ok
    by (cases ok) (auto simp: unless_def known_of_def known_def intro!: htr_ret htr_change)
qed

lemma keeps_terminate_all [keeps_rules]: "keeps known (terminate_all cfg (watched out) reason)"
  unfolding terminate_all_def by (intro keeps_rules)

lemma keeps_some_not_held [keeps_rules]: "keeps known (some_not_held (watched out) sids)"
  by (induction sids) (auto simp: ask_sponsorship_def intro!: keeps_rules)

lemma keeps_judge [keeps_rules]: "keeps known (judge cfg (watched out) now i)"
  unfolding judge_def by (intro keeps_rules) simp_all

lemma keeps_progress [keeps_rules]: "keeps known (progress cfg (watched out) now i)"
  unfolding progress_def by (intro keeps_rules tame_record)

lemma keeps_watch_boot [keeps_rules]: "keeps known (watch_boot cfg (watched out) now i)"
  unfolding watch_boot_def by (intro keeps_rules) simp_all

lemma keeps_watch_ssh [keeps_rules]: "keeps known (watch_ssh cfg (watched out) now seen i)"
  unfolding watch_ssh_def by (intro keeps_rules) simp_all

lemma keeps_observe_pods [keeps_rules]: "keeps known (observe cfg (watched out) now)"
  unfolding observe_def by (intro keeps_rules)

lemma keeps_pending [keeps_rules]: "keeps known (pending_work cfg (watched out) taken b)"
  unfolding pending_work_def ask_queue_def by (intro keeps_rules)

lemma keeps_identity [keeps_rules]: "keeps known (identity_for (watched out) sid)"
  unfolding identity_for_def ask_sponsorship_def ask_register_def by (intro keeps_rules)

lemma keeps_assign_one [keeps_rules]: "keeps known (assign_one cfg (watched out) now i)"
  unfolding assign_one_def ask_proving_def
  by (intro keeps_rules keeps_collect) (auto intro: keeps_rules)

lemma keeps_assign [keeps_rules]: "keeps known (assign cfg (watched out) now)"
  unfolding assign_def by (intro keeps_rules)

lemma keeps_keep_pod [keeps_rules]: "keeps known (keep_pod cfg (watched out) now info)"
  unfolding keep_pod_def by (intro keeps_rules)

lemma keeps_deploy_one [keeps_rules]: "keeps known (deploy_one cfg (watched out) now)"
  unfolding deploy_one_def by (intro keeps_rules)

lemma keeps_launch_loop [keeps_rules]: "keeps known (launch_loop cfg (watched out) now want)"
  by (induction want) (auto intro!: keeps_rules)

lemma keeps_launch [keeps_rules]: "keeps known (launch cfg (watched out) now)"
  unfolding launch_def by (intro keeps_rules)

lemma keeps_regen_look [keeps_rules]: "keeps known (regen_look (watched out) now)"
  unfolding regen_look_def regen_body_def by (intro keeps_rules)

lemma keeps_look [keeps_rules]: "keeps known (look cfg (watched out))"
  unfolding look_def look_board_def look_work_def nothing_left_def ask_reconcile_def by (intro keeps_rules)

lemma keeps_looks [keeps_rules]: "keeps known (looks cfg (watched out) n)"
  by (induction n) (auto intro!: keeps_rules)

lemma keeps_set_up [keeps_rules]: "keeps known (set_up cfg (watched out))"
  unfolding set_up_def prepare_queue_def refuse_trial_def ask_queue_def by (intro keeps_rules)

lemma keeps_run_bot: "keeps known (run_bot cfg (watched out) (watched calm) n)"
  unfolding run_bot_def by (intro keeps_then keeps_finally keeps_rules)

lemma run_bot_known:
  assumes "run_bot cfg (watched out) (watched calm) n ((w, []), new_bot d) = (r, ((w', evs), s))"
  shows "known evs s"
proof -
  have "known [] (new_bot d)" by (simp add: known_def new_bot_def)
  then show ?thesis by (rule keeps_apply [OF keeps_run_bot _ assms])
qed

lemma calm_watched: "calm_outside calm \<Longrightarrow> calm_outside (watched calm)"
  unfolding calm_outside_def watched_def unwatched_def watching_def
  by (auto split: prod.splits) (metis fst_conv)+

section \<open>Properties\<close>

text \<open>
  Claim C1. However a run of the bot ends, by itself, by an exception or by a signal, and whatever RunPod and the
  pods answer: every pod it rented was asked to stop and was then missing from a listing of RunPod, or it was
  asked at least six times, is named as unconfirmed and the run's exit code is 4. Each is marked terminated, holds no block and has its
  end in \<open>sponsor_pods\<close>, and no row of the log that this run made is left open. This holds as long as, while the bot stops
  its pods at the end, the coordinator's answers on blocks fail only in the way \<open>_terminate\<close> catches and no
  signal gets through (\<open>calm_outside\<close>); an answer cut short is outside of that, and \<open>Bot_Safety\<close>
  shows that it leaves pods running.
\<close>

theorem bot_stops_every_pod:
  assumes "db_ok d" and "bot_cfg_ok cfg" and "trial_ok cfg" and "calm_outside calm"
    and "run_bot cfg (watched out) (watched calm) n ((w, []), new_bot d) = (r, ((w', evs), s))"
  shows "(\<forall>p \<in> set (bt_pods s). (seen_gone (pd_id p) evs
        \<or> 6 \<le> requests (pd_id p) evs \<and> pd_id p \<in> set (bt_unconfirmed s) \<and> bot_exit s = 4)
      \<and> pd_terminated p \<noteq> None \<and> pd_assigned p = []
      \<and> (\<exists>row \<in> set (db_pods (bt_db s)). po_id row = pd_id p \<and> po_terminated row \<noteq> None))
    \<and> (\<forall>row \<in> set (db_work (bt_db s)). wk_end row = None \<longrightarrow> wk_id row \<le> db_seq d)"
proof -
  from wp_apply [OF wp_run_bot [OF assms(1-3) calm_watched [OF assms(4)]] assms(5)]
  have s: "books (db_seq d) s" "\<forall>p \<in> set (bt_pods s). \<not> live p"
    by (auto split: sum.splits)
  then have none: "pd_assigned p = []" if "p \<in> set (bt_pods s)" for p using that by (auto simp: books_def working_only_def)
  have "\<exists>row \<in> set (db_pods (bt_db s)). po_id row = pd_id p \<and> po_terminated row \<noteq> None" if "p \<in> set (bt_pods s)" for p
    using that s unfolding books_def rented_ok_def by blast
  moreover have "wk_id row \<le> db_seq d" if "row \<in> set (db_work (bt_db s))" "wk_end row = None" for row
  proof (rule ccontr)
    assume "\<not> wk_id row \<le> db_seq d"
    with that s(1) obtain p a where "p \<in> set (bt_pods s)" "a \<in> set (pd_assigned p)" unfolding books_def log_ok_def by force
    with none show False by simp
  qed
  moreover have "seen_gone (pd_id p) evs \<or> 6 \<le> requests (pd_id p) evs \<and> pd_id p \<in> set (bt_unconfirmed s) \<and> bot_exit s = 4"
    if "p \<in> set (bt_pods s)" for p
    using run_bot_known [OF assms(5)] s(2) that by (auto simp: known_def bot_exit_def)
  ultimately show ?thesis using s(2) none by (auto simp: live_def)
qed

section \<open>An example\<close>

definition demo_run where
  "demo_run = run_bot demo_cfg (watched demo_outside) (watched demo_outside) 2 (((0, []), []), new_bot demo_db)"

lemma demo_run_end:
  "map_prod id (\<lambda>((w, evs), s). (snd w, map pd_state (bt_pods s), bt_unconfirmed s, map (\<lambda>r. (wk_id r, wk_end r)) (db_work (bt_db s)))) demo_run
   = (Inr False, ([], [Terminated], [], [(1, Some W_Cancelled), (2, Some W_Cancelled)]))"
  by code_simp

theorem bot_stops_every_pod_witness:
  "\<exists>w evs s p. demo_run = (Inr False, ((w, evs), s)) \<and> bt_pods s = [p] \<and> pd_terminated p \<noteq> None \<and> seen_gone (pd_id p) evs
    \<and> (\<forall>row \<in> set (db_work (bt_db s)). wk_end row = None \<longrightarrow> wk_id row \<le> 0)"
proof -
  obtain over w evs s where r: "demo_run = (over, ((w, evs), s))" by (metis surj_pair)
  have e: "over = Inr False" "map pd_state (bt_pods s) = [Terminated]" "bt_unconfirmed s = []" using demo_run_end by (simp_all add: r)
  from e(2) obtain p where p: "bt_pods s = [p]" by (auto simp: map_eq_Cons_conv)
  from bot_stops_every_pod [OF demo_ok demo_calm r [unfolded demo_run_def]] p e r show ?thesis
    by (intro exI [of _ w] exI [of _ evs] exI [of _ s] exI [of _ p]) (simp add: demo_db_def)
qed

end
