(* ===== verification/Spec2Isabelle.thy ===== *)
theory Spec2Isabelle
  imports Board_View Tip_Run Bot_Stop Retention Integrity Offsite
begin

text \<open>
  A model of the Hazync coordinator, of the rig that proves blocks at the chain tip, of the bot that proves paid
  blocks on rented cards, and of the programs that check, copy and clear away what the coordinator stores. Hazync proves Bitcoin
  blocks valid with a zero-knowledge prover. Volunteers and a rented fleet of GPU cards claim blocks from a
  coordinator, prove them, and upload receipts; the coordinator verifies each receipt, keeps the board of
  what is proved, and publishes how far an unbroken chain of proofs reaches from the genesis block.

  \<^bold>\<open>The parts and how they interact.\<close>

  The coordinator (\<open>coordinator/server.py\<close>) is one HTTP server over one SQLite database. A worker claims a
  block (\<open>claim\<close>), says it is alive (\<open>beat\<close>) and submits a receipt (\<open>submit\<close>); ranges of proved blocks are
  folded into wider receipts (\<open>foldable\<close>, \<open>fold_claim\<close>), the widest of which is the spine (\<open>submit_spine\<close>).
  A sponsor may pay for a span (\<open>sponsor_request\<close>, \<open>sponsor_payments_poll\<close>); a paid span is held for the
  sponsor's own key, which a bot registers (\<open>bot_register_key\<close>). Coordinators read each other's proofs
  (\<open>sync_from_peers\<close>). Every public page is computed from the same tables.

  The tip rig (\<open>coordinator/tip_*.py\<close>) drives a rented fleet through a session of many blocks
  (\<open>tip_session\<close>): it asks what to prove next (\<open>tip_controller\<close>), proves one block (\<open>tip_run\<close>), looking at the cards
  on every tick (\<open>tip_fleet\<close>), and decides which cards to use (\<open>tip_lifecycle\<close>).

  The sponsor bot (\<open>coordinator/sponsor_bot.py\<close>) is a client of the coordinator: it reads the queue of paid blocks, rents
  pods, registers its keys for the sponsorships, gives blocks to pods, watches them, has missing bundles
  made again, and stops every pod at the end.

  Beside the coordinator run its keepers: four checks (\<open>coordinator/check-*.py\<close>) compare what is stored and published with
  the verifier, the node and explorers; a mirror (\<open>coordinator/deploy/hazync-offsite-proofs.py\<close>) copies proofs,
  checkpoints, the spine, the ledger and the sponsor keys to an object store; a pruner
  (\<open>coordinator/deploy/prune_bundles.py\<close>, called by \<open>hazync-prune-bundles.py\<close>) deletes the bundles of finished blocks, and
  \<open>coordinator/deploy/regen_bundles.py\<close> makes bundles again from an archived checkpoint.

  \<^bold>\<open>The theories, in import order, and what their lemmas show.\<close>

  \<^item> Prelude: Python's text and integer operations, tables as lists of rows, sets of heights as unions of
    intervals, and the interfaces of the development: \<open>keyed_table\<close> and \<open>covering_table\<close> (what a read sees after a
    write; interpreted on the table of claims in Board and on the table of proofs in Coverage),
    \<open>transition_inv\<close> and \<open>growing_system\<close> (an invariant of a step relation, and a part of the state that only
    grows; interpreted on the cache in Single_Flight, on the coordinator in Ledger, on the life of a
    sponsorship in Sponsor_Life and on the books of a session in Tip_Session).
  \<^item> Range_Id: the spelling of ranges; parsing inverts it.
  \<^item> Board: configuration, tables, clock and files (the records \<open>config\<close>, \<open>board\<close>, \<open>world\<close>), seeding, tips,
    liveness of a claim, counting of failed submissions.
  \<^item> Handles, Rotation: rate limits, names, signatures, and keys that replace keys; the window bound of the
    limiter, freedom from cycles.
  \<^item> Coverage, Frontier: what the proofs cover, who is credited, and the chain from genesis of most work; the
    merges count unions of intervals, the walk meets its specification.
  \<^item> Sponsor_Holds, Claims: prices and holds, and the handing out of blocks; what a granted block satisfies.
  \<^item> Folding: the tree of folds, offers and claims on them.
  \<^item> Receipt, Submit: reading the verifier's verdict, and the submission in the parts the lock divides it into;
    what is accepted, refused, credited and recorded.
  \<^item> Ledger: all board handlers as one transition system with submissions in flight; every covered block has a
    proof of its own in every reachable state, and a block in hand is given to nobody else.
  \<^item> Spine: the head, the order of its writes under a crash, and who proved which segment.
  \<^item> Decimal_Text, Payments, Sponsor_Bot, Sponsor_Life: numbers in text, requests and payments, the bot's API, and
    the life of a sponsorship over all of these in any order.
  \<^item> Views, Board_View, Single_Flight: the published pages, the state page with its stall clock and
    its list of what needs a human, and the cache in front of them as a system of any number of threads.
  \<^item> Federation: what peers can and cannot do to a board.
  \<^item> Text_Match, Tip_Controller, Tip_Fleet, Tip_Lifecycle, Tip_Session, Tip_Run: matchers for the regular expressions, and
    the rig, bottom up; the progress
    line read back, one tick over the cards, which cards are kept, the books, clock, file and end of a
    session with what the prover is asked in it, and the order of actions in a run whatever the cards answer.
  \<^item> Retention, Integrity, Offsite: the pruner and the regenerator, the checks, and the mirror; what is deleted was
    finished and can be made again, what a passing check means, and that nothing in the store is
    overwritten and no key leaves in the clear.
  \<^item> Bot_Log, Bot_Run, Bot_Safety, Bot_Stop: the bot's database and decisions, its loop as actions on a world and the bot's
    state that may raise, weakest preconditions for the limits and the books, and triples over the log of
    its requests for the stopping of pods.

  \<^bold>\<open>How the code is represented.\<close> A handler is a function from its request, the configuration and the state to
  its answer and the state it leaves; every refusal is a constructor of an error type and a branch of a sum.
  A table is the list of its rows in row order; \<open>None\<close> is SQL's NULL and Python's None. Python integers are \<open>int\<close>
  or, where the code cannot see a negative one, \<open>nat\<close>; a float is the rational it stands for and its rounding is left
  out. Strings are lists of the characters 0 to 255. What the code reads from outside is a parameter: the
  clock and the file system (record \<open>world\<close>), the verifier binary (text and exit code of a run), hashes and
  signatures, the payment server, the answers of peers, the node and explorers, random tokens, gpg, tar and the object store,
  the bridge that makes bundles, the cards of the rig (record
  \<open>runner\<close>), and for the bot RunPod, ssh, the coordinator and its clock (record \<open>outside\<close>); the actions of the last two change a world of any type. The settings are a record whose default values are
  those of a deployment that sets no environment variable.

  \<^bold>\<open>Bounds.\<close> The decimal reader and the interval loops recurse on their input. \<open>resolve_pubkey\<close> and the bounded
  upward scans recurse on the bound the code has. A loop over ticks recurses on \<open>max_ticks\<close>, which the
  code has too, as have the six tries of \<open>terminate_confirmed\<close> and the four of \<open>http_retry\<close>. Two loops have a bound the
  code has not. \<open>run_session\<close> is None where the bound is used up,
  and some bound is enough whenever the clock moves. The bot's loop (\<open>looks\<close>) takes the number of its looks, and
  what is shown of it holds for every number, as it may run as long as work arrives.

  \<^bold>\<open>Where the model is narrower than the code.\<close> A handler that locks several times is one step where nothing between
  the locks can be seen (\<open>submit_admit\<close>), and so are a sponsorship request with its call of the payment server and a
  pass of \<open>sync_from_peers\<close>, during which the code lets other board handlers in. \<open>sys_step\<close> has the handlers of the board;
  sync, the spine and the sponsor handlers are treated in their own theories. The clock the rate limiter reads is
  taken to be sorted. \<open>status_array\<close> computes the fold ids afresh where the code has a cache. A failing disk leaves a
  stored proof as it was, where the code may leave a truncated one. An amount that reads as infinite counts as no
  payment, where the code raises. Signals strike the bot at a call or a sleep. What the rig's runner and beat
  functions raise is left out, except that an abort may raise.

  \<^bold>\<open>Not modelled.\<close> The HTTP front end and the start of the server's threads; wording of messages, HTML and
  fixed texts of a page; writing and removing temporary files; SQLite's locking, which is the
  interleaving of whole critical sections here; the shell text a probe runs; renting and wiring a rig
  (\<open>tip_smoke.py\<close>, \<open>tip_recruit.py\<close>, \<open>tip_board.py\<close>, \<open>tip_driver.py\<close>, \<open>tip_stage.py\<close>, most of \<open>tip_runner.py\<close>), its reports on cost and speed
  (\<open>tip_cost.py\<close>, \<open>tip_economics.py\<close>, \<open>tip_harvest.py\<close>, \<open>tip_banks.py\<close>, \<open>tip_cpu.py\<close>, \<open>join_levels.py\<close>) and its pages (\<open>tip_dashboard.py\<close>, \<open>tip_chain.py\<close>, \<open>tools/live\<close>);
  the transfer of bundles to rigs (\<open>sync_bundles.py\<close>), the watch over the mirror and the payments, and one-off repairs; the
  provers and guests (Rust, C and CUDA) except for the lines they print that the Python reads; test programs and fuzzers.
\<close>

end
